(* ===== verification/Prelude.thy ===== *)
theory Prelude
  imports Main "HOL-Library.Word"
begin

text \<open>
  Shared vocabulary of the AquaCore development: the C integer types at their width, C strings
  and fixed-size buffers, the outcome type of code that can \<open>PANIC\<close>, the sequencing of calls
  that return a negative code on failure, and the generic list lemmas the component theories use.

  Conventions used by every theory.
  \<^item> \<open>uint8_t\<close>, \<open>uint16_t\<close>, \<open>uint32_t\<close>, \<open>uint64_t\<close> are words of that width (arithmetic wraps).
    A C \<open>int\<close> is an \<open>int\<close>; no modelled operation leaves the 32-bit range unless it is said.
    Loop counters and array indices that the code keeps in range are \<open>nat\<close>.
  \<^item> A C string (\<open>const char *\<close>) is the list of its characters before the terminating NUL.
    A \<open>char\<close> array is the list of all its cells, and \<open>cstr\<close> reads the string it holds.
    A pointer that the code tests against NULL and that a caller may pass as NULL is an \<open>option\<close>.
  \<^item> A write to a \<open>char\<close> array is \<open>buf_set\<close>: a write past the end makes the list longer, so that
    a lemma saying that the length is unchanged says that no write left the array.
\<close>

unbundle bit_operations_syntax

type_synonym u8 = "8 word"
type_synonym u16 = "16 word"
type_synonym u32 = "32 word"
type_synonym u64 = "64 word"

named_theorems hdr_consts \<open>the constants of the header files\<close>
named_theorems buf_simps \<open>rewriting of buffer contents\<close>

section \<open>Words\<close>

lemma unat_lt: "unat (w :: 'a::len word) < 2 ^ LENGTH('a)"
  by (rule unsigned_less)

lemma unat_lt_u32: "unat (w :: u32) < 4294967296"
  using unat_lt [of w] by simp

lemma unat_pow2: "i < LENGTH('a) \<Longrightarrow> unat (2 ^ i :: 'a::len word) = 2 ^ i"
  by (metis One_nat_def Suc_1 of_nat_numeral of_nat_power power_strict_increasing_iff lessI
      take_bit_nat_eq_self unsigned_of_nat of_nat_id)

lemma unat_ucast_up:
  assumes "LENGTH('a) \<le> LENGTH('b)"
  shows "unat (ucast (w :: 'a::len word) :: 'b::len word) = unat w"
proof -
  have "unat w < 2 ^ LENGTH('b)"
    using unat_lt [of w] assms by (meson less_le_trans one_le_numeral power_increasing)
  then show ?thesis by (simp add: unsigned_ucast_eq take_bit_nat_eq_self)
qed

lemma bit_word_unat: "bit (w :: 'a::len word) i \<longleftrightarrow> odd (unat w div 2 ^ i)"
  by (metis bit_iff_odd bit_unsigned_iff possible_bit_nat)

lemma aligned_add_lt:
  fixes x :: nat
  assumes "x mod k = 0" "k dvd N" "x < N" "d < k"
  shows "x + d < N"
proof -
  obtain q p where q: "x = k * q" and p: "N = k * p"
    using assms(1,2) by (auto elim!: dvdE)
  with assms(3) have "q < p" by simp
  then have "k * q + k \<le> k * p" by (metis mult_Suc_right mult_le_mono2 Suc_leI add.commute)
  with q p assms(4) show ?thesis by linarith
qed

lemma drop_bit_and_1: "drop_bit k (w :: 'a::len word) AND 1 = of_bool (bit w k)"
  by (simp add: bit_iff_odd_drop_bit and_one_eq mod_2_eq_odd)

lemma unat_mod_numeral: "unat ((w :: 'a::len word) mod numeral k) = unat w mod unat (numeral k :: 'a word)"
  by (rule unat_mod)

lemma unat_div_numeral: "unat ((w :: 'a::len word) div numeral k) = unat w div unat (numeral k :: 'a word)"
  by (rule unat_div)

section \<open>Outcomes\<close>

text \<open>\<open>PANIC\<close> (kernel.h) prints a message and spins forever: nothing after it runs.\<close>

datatype 'a kres = Ok 'a | PANIC string

fun kbind :: "'a kres \<Rightarrow> ('a \<Rightarrow> 'b kres) \<Rightarrow> 'b kres" where
  "kbind (Ok x) f = f x"
| "kbind (PANIC m) f = PANIC m"

fun returns :: "'a kres \<Rightarrow> bool" where
  "returns (Ok x) = True"
| "returns (PANIC m) = False"

lemma kbind_Ok_iff: "kbind m f = Ok y \<longleftrightarrow> (\<exists>x. m = Ok x \<and> f x = Ok y)"
  by (cases m) auto

lemma kbind_PANIC_iff:
  "kbind m f = PANIC e \<longleftrightarrow> m = PANIC e \<or> (\<exists>x. m = Ok x \<and> f x = PANIC e)"
  by (cases m) auto

lemma kbind_assoc: "kbind (kbind m f) g = kbind m (\<lambda>x. kbind (f x) g)"
  by (cases m) auto

lemma returns_iff: "returns r \<longleftrightarrow> (\<exists>x. r = Ok x)"
  by (cases r) auto

text \<open>The idiom \<open>if (f(...) < 0) return -1;\<close> over a state that \<open>f\<close> may already have changed.\<close>

definition chain :: "int \<times> 's \<Rightarrow> ('s \<Rightarrow> int \<times> 's) \<Rightarrow> int \<times> 's" where
  "chain r f = (if fst r < 0 then (-1, snd r) else f (snd r))"

lemma chain_ok [simp]: "0 \<le> n \<Longrightarrow> chain (n, s) f = f s"
  by (simp add: chain_def)

lemma chain_fail [simp]: "n < 0 \<Longrightarrow> chain (n, s) f = (-1, s)"
  by (simp add: chain_def)

fun chain_all :: "('s \<Rightarrow> int \<times> 's) list \<Rightarrow> 's \<Rightarrow> int \<times> 's" where
  "chain_all [] s = (0, s)"
| "chain_all (f # fs) s = chain (f s) (chain_all fs)"

section \<open>C strings and buffers\<close>

abbreviation NUL :: char where
  "NUL \<equiv> CHR 0x00"

definition nul_free :: "string \<Rightarrow> bool" where
  "nul_free s \<longleftrightarrow> NUL \<notin> set s"

lemma nul_free_simps [simp]:
  "nul_free []"
  "nul_free (c # s) \<longleftrightarrow> c \<noteq> NUL \<and> nul_free s"
  "nul_free (s @ t) \<longleftrightarrow> nul_free s \<and> nul_free t"
  by (auto simp: nul_free_def)

lemma nul_free_take [simp]: "nul_free s \<Longrightarrow> nul_free (take n s)"
  by (auto simp: nul_free_def dest: in_set_takeD)

lemma nul_free_drop [simp]: "nul_free s \<Longrightarrow> nul_free (drop n s)"
  by (auto simp: nul_free_def dest: in_set_dropD)

text \<open>The character that a C string has at an index: the terminator just past its end.\<close>

definition char_at :: "string \<Rightarrow> nat \<Rightarrow> char" where
  "char_at s i = (if i < length s then s ! i else NUL)"

lemma char_at_Cons [simp]: "char_at (c # s) 0 = c" "char_at (c # s) (Suc i) = char_at s i"
  by (simp_all add: char_at_def)

lemma char_at_Nil [simp]: "char_at [] i = NUL"
  by (simp add: char_at_def)

lemma char_at_NUL_iff: "nul_free s \<Longrightarrow> char_at s i = NUL \<longleftrightarrow> length s \<le> i"
  by (auto simp: char_at_def nul_free_def not_le) (metis nth_mem)

text \<open>The C string held by a character array.\<close>

definition cstr :: "char list \<Rightarrow> string" where
  "cstr a = takeWhile (\<lambda>c. c \<noteq> NUL) a"

lemma nul_free_cstr [simp]: "nul_free (cstr a)"
  by (auto simp: nul_free_def cstr_def dest: set_takeWhileD)

lemma cstr_nul_free: "nul_free s \<Longrightarrow> cstr s = s"
  by (auto simp: cstr_def nul_free_def takeWhile_eq_all_conv)

lemma cstr_append_NUL [simp]: "nul_free s \<Longrightarrow> cstr (s @ NUL # r) = s"
  by (induction s) (auto simp: cstr_def nul_free_def)

lemma length_cstr_le: "length (cstr a) \<le> length a"
  unfolding cstr_def by (rule length_takeWhile_le)

lemma cstr_prefix: "take (length (cstr a)) a = cstr a"
  unfolding cstr_def by (metis takeWhile_eq_take)

lemma cstr_nth: "i < length (cstr a) \<Longrightarrow> a ! i \<noteq> NUL"
  unfolding cstr_def by (induction a arbitrary: i) (auto split: if_splits simp: nth_Cons')

lemma cstr_end: "length (cstr a) < length a \<Longrightarrow> a ! length (cstr a) = NUL"
  unfolding cstr_def by (induction a) (auto split: if_splits)

lemma cstr_eqI:
  assumes "take n a = s" "n < length a" "a ! n = NUL" "nul_free s"
  shows "cstr a = s"
proof -
  have "a = s @ NUL # drop (Suc n) a"
    using assms(1,2,3) by (metis id_take_nth_drop)
  then show ?thesis
    using assms(4) by (metis cstr_append_NUL)
qed

text \<open>One cell of an array is written.\<close>

definition buf_set :: "'a list \<Rightarrow> nat \<Rightarrow> 'a \<Rightarrow> 'a list" where
  "buf_set a i v = (if i < length a then a[i := v] else a @ replicate (i - length a) v @ [v])"

lemma buf_set_in [simp]: "i < length a \<Longrightarrow> buf_set a i v = a[i := v]"
  by (simp add: buf_set_def)

lemma buf_set_length_iff: "length (buf_set a i v) = length a \<longleftrightarrow> i < length a"
  by (simp add: buf_set_def)

section \<open>Arrays as lists\<close>

text \<open>The contents of an array after \<open>n\<close> cells from \<open>off\<close> on have been replaced.\<close>

definition overwrite :: "'a list \<Rightarrow> nat \<Rightarrow> 'a list \<Rightarrow> 'a list" where
  "overwrite a off xs = take off a @ xs @ drop (off + length xs) a"

lemma length_overwrite [simp]: "off + length xs \<le> length a \<Longrightarrow> length (overwrite a off xs) = length a"
  by (simp add: overwrite_def)

lemma overwrite_Nil [simp]: "overwrite a off [] = a"
  by (simp add: overwrite_def)

lemma nth_overwrite:
  assumes "off + length xs \<le> length a" and "i < length a"
  shows "overwrite a off xs ! i =
           (if off \<le> i \<and> i < off + length xs then xs ! (i - off) else a ! i)"
  using assms by (auto simp: overwrite_def nth_append min_def)

lemma take_drop_overwrite [simp]:
  assumes "off + length xs \<le> length a"
  shows "take (length xs) (drop off (overwrite a off xs)) = xs"
  using assms by (simp add: overwrite_def)

lemma take_overwrite_before [simp]: "off \<le> length a \<Longrightarrow> take off (overwrite a off xs) = take off a"
  by (simp add: overwrite_def)

lemma drop_overwrite_after [simp]:
  assumes "off + length xs \<le> k" and "off + length xs \<le> length a"
  shows "drop k (overwrite a off xs) = drop k a"
  using assms by (simp add: overwrite_def)

lemma overwrite_Cons:
  assumes "off < length a"
  shows "overwrite (a[off := x]) (Suc off) xs = overwrite a off (x # xs)"
  using assms by (simp add: overwrite_def take_Suc_conv_app_nth)

lemma overwrite_overwrite_adjacent:
  assumes "off + length xs + length ys \<le> length a"
  shows "overwrite (overwrite a off xs) (off + length xs) ys = overwrite a off (xs @ ys)"
  using assms by (simp add: overwrite_def ac_simps)

text \<open>The first index below a bound that satisfies a test: the shape of every table scan.\<close>

fun scan_from :: "(nat \<Rightarrow> bool) \<Rightarrow> nat \<Rightarrow> nat \<Rightarrow> nat option" where
  "scan_from p i 0 = None"
| "scan_from p i (Suc n) = (if p i then Some i else scan_from p (Suc i) n)"

lemma scan_from_numeral [simp]:
  "scan_from p i (numeral k) = (if p i then Some i else scan_from p (Suc i) (pred_numeral k))"
  by (simp add: numeral_eq_Suc)

lemma scan_from_None: "scan_from p i n = None \<longleftrightarrow> (\<forall>k. i \<le> k \<and> k < i + n \<longrightarrow> \<not> p k)"
proof (induction n arbitrary: i)
  case 0
  then show ?case by auto
next
  case (Suc n)
  have "(\<forall>k. i \<le> k \<and> k < i + Suc n \<longrightarrow> \<not> p k) \<longleftrightarrow>
      \<not> p i \<and> (\<forall>k. Suc i \<le> k \<and> k < Suc i + n \<longrightarrow> \<not> p k)"
    by (auto simp: Suc_le_eq) (metis le_neq_implies_less)
  then show ?case using Suc.IH by auto
qed

lemma scan_from_SomeD:
  "scan_from p i n = Some k \<Longrightarrow> i \<le> k \<and> k < i + n \<and> p k \<and> (\<forall>j. i \<le> j \<and> j < k \<longrightarrow> \<not> p j)"
proof (induction n arbitrary: i)
  case 0
  then show ?case by simp
next
  case (Suc n)
  show ?case
  proof (cases "p i")
    case True
    with Suc.prems show ?thesis by auto
  next
    case False
    with Suc.prems have "Suc i \<le> k \<and> k < Suc i + n \<and> p k \<and> (\<forall>j. Suc i \<le> j \<and> j < k \<longrightarrow> \<not> p j)"
      by (intro Suc.IH) simp
    with False show ?thesis by (metis Suc_leD Suc_leI add_Suc_right add_Suc_shift le_neq_implies_less)
  qed
qed

lemma scan_from_SomeI:
  assumes "i \<le> k" "k < i + n" "p k" "\<And>j. i \<le> j \<Longrightarrow> j < k \<Longrightarrow> \<not> p j"
  shows "scan_from p i n = Some k"
proof (cases "scan_from p i n")
  case None
  with assms(1-3) show ?thesis by (auto simp: scan_from_None)
next
  case (Some k')
  from scan_from_SomeD [OF this] assms have "k' = k"
    by (metis linorder_neqE_nat)
  with Some show ?thesis by simp
qed

lemma scan_from_cong:
  "(\<And>k. i \<le> k \<Longrightarrow> k < i + n \<Longrightarrow> p k = q k) \<Longrightarrow> scan_from p i n = scan_from q i n"
  by (induction n arbitrary: i) auto

end
