(* ===== verification/CommonLibs.thy ===== *)
theory CommonLibs
  imports Prelude
begin

text \<open>
  The freestanding C library of the kernel and the applications (src/lib/commonlibs.c): memory and
  string routines, decimal formatting into a bounded buffer, the shift-subtract 64-by-32 division,
  and the conversion of Unix time into a UTC date string. Each loop is translated as the loop it
  is; the lemmas relate it to the list operation it computes and show that no write leaves its
  buffer.
\<close>

section \<open>Memory\<close>

text \<open>\<open>memcpy(dst + di, src + si, n)\<close>: one cell per iteration.\<close>

fun memcpy :: "'a list \<Rightarrow> nat \<Rightarrow> 'a list \<Rightarrow> nat \<Rightarrow> nat \<Rightarrow> 'a list" where
  "memcpy d di s si 0 = d"
| "memcpy d di s si (Suc n) = memcpy (buf_set d di (s ! si)) (Suc di) s (Suc si) n"

fun memset :: "'a list \<Rightarrow> nat \<Rightarrow> 'a \<Rightarrow> nat \<Rightarrow> 'a list" where
  "memset d di c 0 = d"
| "memset d di c (Suc n) = memset (buf_set d di c) (Suc di) c n"

lemma memcpy_overwrite:
  assumes "di + n \<le> length d" and "si + n \<le> length s"
  shows "memcpy d di s si n = overwrite d di (take n (drop si s))"
  using assms
proof (induction n arbitrary: d di si)
  case 0
  then show ?case by simp
next
  case (Suc n)
  then have "memcpy d di s si (Suc n) = overwrite (d[di := s ! si]) (Suc di) (take n (drop (Suc si) s))"
    by simp
  also have "\<dots> = overwrite d di (s ! si # take n (drop (Suc si) s))"
    using Suc.prems by (intro overwrite_Cons) simp
  also have "s ! si # take n (drop (Suc si) s) = take (Suc n) (drop si s)"
    using Suc.prems by (simp add: Cons_nth_drop_Suc [symmetric])
  finally show ?case .
qed

lemma memset_overwrite:
  assumes "di + n \<le> length d"
  shows "memset d di c n = overwrite d di (replicate n c)"
  using assms
proof (induction n arbitrary: d di)
  case 0
  then show ?case by simp
next
  case (Suc n)
  then have "memset d di c (Suc n) = overwrite (d[di := c]) (Suc di) (replicate n c)"
    by simp
  also have "\<dots> = overwrite d di (c # replicate n c)"
    using Suc.prems by (intro overwrite_Cons) simp
  finally show ?case by simp
qed

lemma memset_all: "memset d 0 c (length d) = replicate (length d) c"
  by (simp add: memset_overwrite overwrite_def)

section \<open>Strings\<close>

text \<open>
  The copying loops take the part of the source string still to be read; its end is the NUL that
  stops the loop.
\<close>

fun strcpy_loop :: "char list \<Rightarrow> nat \<Rightarrow> string \<Rightarrow> char list" where
  "strcpy_loop d di [] = buf_set d di NUL"
| "strcpy_loop d di (c # cs) = strcpy_loop (buf_set d di c) (Suc di) cs"

definition strcpy :: "char list \<Rightarrow> string \<Rightarrow> char list" where
  "strcpy dst src = strcpy_loop dst 0 src"

fun strncpy_loop :: "char list \<Rightarrow> nat \<Rightarrow> nat \<Rightarrow> string \<Rightarrow> char list" where
  "strncpy_loop d di 0 src = buf_set d di NUL"
| "strncpy_loop d di (Suc remain) [] = buf_set d di NUL"
| "strncpy_loop d di (Suc remain) (c # cs) = strncpy_loop (buf_set d di c) (Suc di) remain cs"

definition strcpy_s :: "char list \<Rightarrow> nat \<Rightarrow> string \<Rightarrow> char list" where
  "strcpy_s dst n src = (if n = 0 then dst else strncpy_loop dst 0 (n - 1) src)"

fun strend :: "char list \<Rightarrow> nat \<Rightarrow> nat" where
  "strend [] i = i"
| "strend (c # cs) i = (if c = NUL then i else strend cs (Suc i))"

definition strcat :: "char list \<Rightarrow> string \<Rightarrow> char list" where
  "strcat dst src = strcpy_loop dst (strend dst 0) src"

text \<open>The bounded search \<open>while (len < n && dst[len] != '\\0') len++\<close>, from \<open>len\<close> on.\<close>

function strnlen :: "char list \<Rightarrow> nat \<Rightarrow> nat \<Rightarrow> nat" where
  "strnlen d n len = (if len < n \<and> d ! len \<noteq> NUL then strnlen d n (Suc len) else len)"
  by pat_completeness auto
termination
  by (relation "measure (\<lambda>(d, n, len). n - len)") auto

declare strnlen.simps [simp del]

definition strcat_s :: "char list \<Rightarrow> nat \<Rightarrow> string \<Rightarrow> char list" where
  "strcat_s dst n src =
     (if n = 0 then dst
      else let len = strnlen dst n 0 in
        if len = n then buf_set dst (n - 1) NUL
        else strncpy_loop dst len (n - len - 1) src)"

fun strcmp :: "string \<Rightarrow> string \<Rightarrow> int" where
  "strcmp (a # as) (b # bs) = (if a \<noteq> b then of_char a - of_char b else strcmp as bs)"
| "strcmp [] (b # bs) = 0 - of_char b"
| "strcmp (a # as) [] = of_char a - 0"
| "strcmp [] [] = 0"

lemma strncpy_loop_overwrite:
  assumes "di + min remain (length src) < length d"
  shows "strncpy_loop d di remain src = overwrite d di (take remain src @ [NUL])"
  using assms
proof (induction d di remain src rule: strncpy_loop.induct)
  case (1 d di src)
  then show ?case by (simp add: overwrite_def upd_conv_take_nth_drop)
next
  case (2 d di remain)
  then show ?case by (simp add: overwrite_def upd_conv_take_nth_drop)
next
  case (3 d di remain c cs)
  then have "strncpy_loop d di (Suc remain) (c # cs) =
      overwrite (d[di := c]) (Suc di) (take remain cs @ [NUL])"
    by simp
  also have "\<dots> = overwrite d di (c # take remain cs @ [NUL])"
    using 3 by (intro overwrite_Cons) simp
  finally show ?case by simp
qed

lemma strcpy_loop_overwrite:
  assumes "di + length src < length d"
  shows "strcpy_loop d di src = overwrite d di (src @ [NUL])"
  using assms
proof (induction d di src rule: strcpy_loop.induct)
  case (1 d di)
  then show ?case by (simp add: overwrite_def upd_conv_take_nth_drop)
next
  case (2 d di c cs)
  then have "strcpy_loop d di (c # cs) = overwrite (d[di := c]) (Suc di) (cs @ [NUL])"
    by simp
  also have "\<dots> = overwrite d di (c # cs @ [NUL])"
    using 2 by (intro overwrite_Cons) simp
  finally show ?case by simp
qed

lemma cstr_overwrite_at_end:
  assumes "take (length t) d = t" "nul_free t" "nul_free s" "length t + length s < length d"
  shows "cstr (overwrite d (length t) (s @ [NUL])) = t @ s"
  using assms cstr_append_NUL [of "t @ s"] by (simp add: overwrite_def)

lemma strcpy_s_spec:
  assumes "0 < n" "n \<le> length dst" "nul_free src"
  shows "length (strcpy_s dst n src) = length dst"
    and "cstr (strcpy_s dst n src) = take (n - 1) src"
    and "drop n (strcpy_s dst n src) = drop n dst"
proof -
  have eq: "strcpy_s dst n src = overwrite dst 0 (take (n - 1) src @ [NUL])"
    using assms by (auto simp: strcpy_s_def intro!: strncpy_loop_overwrite)
  show "length (strcpy_s dst n src) = length dst"
    using assms by (simp add: eq)
  show "cstr (strcpy_s dst n src) = take (n - 1) src"
    using cstr_overwrite_at_end [of "[]" dst "take (n - 1) src"] assms by (simp add: eq)
  show "drop n (strcpy_s dst n src) = drop n dst"
    using assms by (simp add: eq)
qed

lemma strnlen_cstr:
  assumes "i \<le> length (cstr d)" "n \<le> length d"
  shows "strnlen d n i = (if i \<le> n then min n (length (cstr d)) else i)"
  using assms
proof (induction d n i rule: strnlen.induct)
  case (1 d n i)
  show ?case
  proof (cases "i < n \<and> d ! i \<noteq> NUL")
    case True
    with 1(2,3) have "Suc i \<le> length (cstr d)"
      using cstr_end [of d] by (cases "i = length (cstr d)") auto
    with 1 True show ?thesis by (auto simp: strnlen.simps [of d n i])
  next
    case False
    with 1(2) show ?thesis
      by (auto simp: strnlen.simps [of d n i] min_def le_less dest: cstr_nth)
  qed
qed

lemma strcat_s_spec:
  assumes "length (cstr dst) < n" "n \<le> length dst" "nul_free src"
  shows "length (strcat_s dst n src) = length dst"
    and "cstr (strcat_s dst n src) = take (n - 1) (cstr dst @ src)"
proof -
  have "strnlen dst n 0 = length (cstr dst)"
    using assms by (simp add: strnlen_cstr)
  with assms have eq: "strcat_s dst n src =
      overwrite dst (length (cstr dst)) (take (n - length (cstr dst) - 1) src @ [NUL])"
    by (auto simp: strcat_s_def Let_def intro!: strncpy_loop_overwrite)
  show "length (strcat_s dst n src) = length dst"
    using assms by (simp add: eq)
  show "cstr (strcat_s dst n src) = take (n - 1) (cstr dst @ src)"
    using cstr_overwrite_at_end [of "cstr dst" dst "take (n - length (cstr dst) - 1) src"] assms
    by (simp add: eq cstr_prefix)
qed

lemma strcmp_zero_iff: "nul_free s \<Longrightarrow> nul_free t \<Longrightarrow> strcmp s t = 0 \<longleftrightarrow> s = t"
proof (induction s t rule: strcmp.induct)
  case (1 a as b bs)
  then show ?case by (auto simp: of_char_eq_iff)
next
  case (2 b bs)
  then show ?case using of_char_eq_iff [of b NUL] by (auto simp del: of_char_eq_iff)
next
  case (3 a as)
  then show ?case using of_char_eq_iff [of a NUL] by (auto simp del: of_char_eq_iff)
next
  case 4
  then show ?case by simp
qed

section \<open>Formatting into a bounded buffer\<close>

text \<open>The buffer and the position \<open>*pos\<close> that the formatting routines update together.\<close>

type_synonym outbuf = "char list \<times> nat"

definition append_char :: "nat \<Rightarrow> char \<Rightarrow> outbuf \<Rightarrow> int \<times> outbuf" where
  "append_char out_size c = (\<lambda>(out, pos).
     if out_size \<le> pos + 1 then (-1, (out, pos))
     else (0, (buf_set (buf_set out pos c) (pos + 1) NUL, pos + 1)))"

fun append_str :: "nat \<Rightarrow> string \<Rightarrow> outbuf \<Rightarrow> int \<times> outbuf" where
  "append_str out_size [] b = (0, b)"
| "append_str out_size (c # cs) b = chain (append_char out_size c b) (append_str out_size cs)"

text \<open>\<open>tmp[n++] = '0' + v % 10; v /= 10\<close> while \<open>v > 0 && n < 10\<close>: the digits, lowest first.\<close>

definition digit_char :: "nat \<Rightarrow> char" where
  "digit_char d = char_of (48 + d)"

fun low_digits :: "nat \<Rightarrow> nat \<Rightarrow> char list" where
  "low_digits 0 v = []"
| "low_digits (Suc room) v =
     (if v = 0 then [] else digit_char (v mod 10) # low_digits room (v div 10))"

definition append_u32 :: "nat \<Rightarrow> u32 \<Rightarrow> outbuf \<Rightarrow> int \<times> outbuf" where
  "append_u32 out_size v b =
     (if v = 0 then append_char out_size (digit_char 0) b
      else append_str out_size (rev (low_digits 10 (unat v))) b)"

definition append_2d :: "nat \<Rightarrow> u32 \<Rightarrow> outbuf \<Rightarrow> int \<times> outbuf" where
  "append_2d out_size v b =
     chain (append_char out_size (digit_char (unat v div 10 mod 10)) b)
       (append_char out_size (digit_char (unat v mod 10)))"

text \<open>A buffer of the given sz that holds a text: within the array, terminated, position at its end.\<close>

definition holds_text :: "nat \<Rightarrow> string \<Rightarrow> outbuf \<Rightarrow> bool" where
  "holds_text sz t = (\<lambda>(out, pos). sz \<le> length out \<and> pos < sz \<and> pos = length t \<and>
     take pos out = t \<and> out ! pos = NUL \<and> nul_free t)"

lemma holds_text_cstr: "holds_text sz t (out, pos) \<Longrightarrow> cstr out = t"
  by (auto simp: holds_text_def intro!: cstr_eqI)

lemma append_char_ok:
  assumes "holds_text sz t b" "length t + 1 < sz" "c \<noteq> NUL"
  shows "\<exists>b'. append_char sz c b = (0, b') \<and> holds_text sz (t @ [c]) b' \<and> length (fst b') = length (fst b)"
proof -
  obtain out pos where b: "b = (out, pos)" by (cases b)
  with assms have "pos + 1 < length out" "pos = length t" "take pos out = t"
    by (auto simp: holds_text_def)
  then show ?thesis
    using assms b by (auto simp: append_char_def holds_text_def take_Suc_conv_app_nth)
qed

lemma append_char_full:
  assumes "holds_text sz t b" "sz \<le> length t + 1"
  shows "append_char sz c b = (-1, b)"
  using assms by (auto simp: append_char_def holds_text_def split: prod.splits)

lemma append_str_ok:
  assumes "holds_text sz t b" "length t + length s < sz" "nul_free s"
  shows "\<exists>b'. append_str sz s b = (0, b') \<and> holds_text sz (t @ s) b' \<and> length (fst b') = length (fst b)"
  using assms
proof (induction s arbitrary: t b)
  case Nil
  then show ?case by simp
next
  case (Cons c cs)
  obtain b1 where b1: "append_char sz c b = (0, b1)" "holds_text sz (t @ [c]) b1"
      "length (fst b1) = length (fst b)"
    using append_char_ok [of sz t b c] Cons.prems by auto
  from Cons.IH [OF b1(2)] Cons.prems b1(3) show ?case by (auto simp: b1(1))
qed

text \<open>Whatever does not fit is cut at the end of the buffer, and the call fails.\<close>

lemma append_str_full:
  assumes "holds_text sz t b" "sz \<le> length t + length s" "nul_free s"
  shows "\<exists>b'. append_str sz s b = (-1, b') \<and> holds_text sz (take (sz - 1) (t @ s)) b' \<and>
           length (fst b') = length (fst b)"
  using assms
proof (induction s arbitrary: t b)
  case Nil
  then show ?case by (auto simp: holds_text_def)
next
  case (Cons c cs)
  show ?case
  proof (cases "length t + 1 < sz")
    case True
    obtain b1 where b1: "append_char sz c b = (0, b1)" "holds_text sz (t @ [c]) b1"
        "length (fst b1) = length (fst b)"
      using append_char_ok [of sz t b c] Cons.prems True by auto
    from Cons.IH [OF b1(2)] Cons.prems b1(3) show ?thesis by (auto simp: b1(1))
  next
    case False
    moreover have "length t < sz" using Cons.prems(1) by (auto simp: holds_text_def)
    ultimately have "sz - 1 = length t" by simp
    then show ?thesis
      using append_char_full [OF Cons.prems(1)] Cons.prems(1) False by auto
  qed
qed

text \<open>The decimal numeral of a number, and the value a numeral denotes.\<close>

fun dec_string :: "nat \<Rightarrow> string" where
  "dec_string n = (if n < 10 then [digit_char n] else dec_string (n div 10) @ [digit_char (n mod 10)])"

declare dec_string.simps [simp del]

definition dec_value :: "string \<Rightarrow> nat" where
  "dec_value s = foldl (\<lambda>v c. 10 * v + (of_char c - 48)) 0 s"

lemma of_char_digit [simp]: "d < 10 \<Longrightarrow> (of_char (digit_char d) :: nat) = 48 + d"
  by (simp add: digit_char_def of_char_of)

lemma digit_char_not_NUL [simp]: "d < 10 \<Longrightarrow> digit_char d \<noteq> NUL"
proof
  assume "d < 10" "digit_char d = NUL"
  then have "of_char NUL = 48 + d" using of_char_digit [of d] by metis
  then show False by simp
qed

lemma nul_free_dec_string [simp]: "nul_free (dec_string n)"
  by (induction n rule: dec_string.induct) (subst dec_string.simps, auto)

lemma dec_value_dec_string: "dec_value (dec_string n) = n"
  unfolding dec_value_def
  by (induction n rule: dec_string.induct) (subst dec_string.simps, auto)

lemma low_digits_dec_string:
  "0 < v \<Longrightarrow> v < 10 ^ room \<Longrightarrow> rev (low_digits room v) = dec_string v"
proof (induction room v rule: low_digits.induct)
  case (1 v)
  then show ?case by simp
next
  case (2 room v)
  show ?case
  proof (cases "v < 10")
    case True
    then show ?thesis using 2(2) by (cases room) (auto simp: dec_string.simps)
  next
    case False
    with 2 have "rev (low_digits room (v div 10)) = dec_string (v div 10)"
      by (auto simp: div_less_iff_less_mult mult.commute)
    with False show ?thesis by (subst dec_string.simps) simp
  qed
qed

lemma append_str_single: "append_str sz [c] b = append_char sz c b"
  by (cases b) (auto simp: chain_def append_char_def)

lemma append_u32_digits: "append_u32 sz v b = append_str sz (dec_string (unat v)) b"
proof (cases "v = 0")
  case True
  then show ?thesis
    by (simp add: append_u32_def dec_string.simps append_str_single del: append_str.simps)
next
  case False
  then have "0 < unat v" by (simp add: unat_gt_0)
  moreover have "unat v < 10 ^ 10"
    using unsigned_less [of v, where 'a=nat] by simp
  ultimately show ?thesis using False by (simp add: append_u32_def low_digits_dec_string)
qed

lemma length_dec_string_le: "0 < k \<Longrightarrow> n < 10 ^ k \<Longrightarrow> length (dec_string n) \<le> k"
proof (induction n arbitrary: k rule: dec_string.induct)
  case (1 n)
  show ?case
  proof (cases "n < 10")
    case True
    then show ?thesis using 1 by (simp add: dec_string.simps)
  next
    case False
    with 1(3) have "1 < k" by (cases "k = 1") (use 1(2) in auto)
    then obtain j where j: "k = Suc j" "0 < j" by (cases k) auto
    then have "n div 10 < 10 ^ j"
      using 1(3) by (simp add: div_less_iff_less_mult mult.commute)
    then have "length (dec_string (n div 10)) \<le> j" using 1(1) False j(2) by blast
    then show ?thesis using False j by (subst dec_string.simps) simp
  qed
qed

lemma append_2d_digits:
  assumes "holds_text sz t b" "length t + 2 < sz"
  shows "\<exists>b'. append_2d sz v b = (0, b') \<and> length (fst b') = length (fst b) \<and>
     holds_text sz (t @ [digit_char (unat v div 10 mod 10), digit_char (unat v mod 10)]) b'"
proof -
  have "append_str sz [digit_char (unat v mod 10)] = append_char sz (digit_char (unat v mod 10))"
    by (rule ext) (rule append_str_single)
  then have "append_2d sz v b =
      append_str sz [digit_char (unat v div 10 mod 10), digit_char (unat v mod 10)] b"
    by (simp only: append_2d_def append_str.simps(2))
  then show ?thesis
    using append_str_ok [OF assms(1), of "[digit_char (unat v div 10 mod 10), digit_char (unat v mod 10)]"] assms(2)
    by auto
qed
section \<open>64-by-32 division\<close>

text \<open>The loop \<open>for (i = 63; i >= 0; i--)\<close>; its first argument is \<open>i + 1\<close>.\<close>

fun udiv64_loop :: "nat \<Rightarrow> u64 \<Rightarrow> u64 \<Rightarrow> u64 \<Rightarrow> u64 \<Rightarrow> u64 \<times> u64" where
  "udiv64_loop 0 n d q rem = (q, rem)"
| "udiv64_loop (Suc i) n d q rem =
     (let rem = push_bit 1 rem OR (drop_bit i n AND 1)
      in if d \<le> rem then udiv64_loop i n d (q OR push_bit i 1) (rem - d)
         else udiv64_loop i n d q rem)"

definition udiv64_32_full :: "u64 \<Rightarrow> u32 \<Rightarrow> u64 \<times> u32" where
  "udiv64_32_full n d = (case udiv64_loop 64 n (ucast d) 0 0 of (q, rem) \<Rightarrow> (q, ucast rem))"

lemma udiv_rem_step:
  fixes rem n :: u64
  assumes "unat rem < 2 ^ 32"
  shows "unat (push_bit 1 rem OR (drop_bit i n AND 1)) = 2 * unat rem + unat n div 2 ^ i mod 2"
proof -
  have two: "unat (push_bit 1 rem) = 2 * unat rem"
    using assms by (simp add: unat_word_ariths)
  have b: "drop_bit i n AND 1 = of_bool (bit n i)"
    by (rule drop_bit_and_1)
  have nb: "unat n div 2 ^ i mod 2 = of_bool (bit n i)"
    by (simp add: bit_word_unat mod_2_eq_odd)
  show ?thesis
  proof (cases "bit n i")
    case True
    have "push_bit 1 rem OR 1 = push_bit 1 rem + 1"
      by (simp add: or_one_eq)
    moreover have "unat (push_bit 1 rem + 1) = 2 * unat rem + 1"
      using assms two by (simp add: unat_word_ariths)
    ultimately show ?thesis using True b nb by simp
  next
    case False
    then show ?thesis using b nb two by simp
  qed
qed

lemma udiv_q_step:
  fixes q :: u64
  assumes "unat q = a * 2 ^ Suc i" and "unat q + 2 ^ i < 2 ^ 64"
  shows "unat (q OR push_bit i 1) = (2 * a + 1) * 2 ^ i"
proof -
  have i: "i < 64"
  proof (rule ccontr)
    assume "\<not> i < 64"
    then have "(2::nat) ^ 64 \<le> 2 ^ i" by (intro power_increasing) auto
    with assms(2) show False by simp
  qed
  have "\<not> bit q i"
    using assms(1) by (simp add: bit_word_unat)
  then have "set_bit i q = q + 2 ^ i"
    by (simp add: set_bit_eq)
  moreover have "q OR push_bit i 1 = set_bit i q"
    by (simp add: set_bit_eq_or)
  moreover have "unat (q + 2 ^ i) = unat q + 2 ^ i"
    using assms(2) i by (simp add: unat_word_ariths unat_pow2)
  ultimately show ?thesis using assms(1) by simp
qed

lemma div_mod_unique: "(a::nat) = D * k + r \<Longrightarrow> r < D \<Longrightarrow> a div D = k \<and> a mod D = r"
  by auto

lemma udiv64_loop_correct:
  fixes n d :: u64
  assumes "0 < unat d" "unat d < 2 ^ 32" "k \<le> 64"
    and "unat rem = (unat n div 2 ^ k) mod unat d"
    and "unat q = ((unat n div 2 ^ k) div unat d) * 2 ^ k"
  shows "udiv64_loop k n d q rem = (n div d, n mod d)"
  using assms(3-5)
proof (induction k arbitrary: q rem)
  case 0
  then show ?case by (simp add: word_unat_eq_iff unat_div unat_mod)
next
  case (Suc i)
  let ?N = "unat n div 2 ^ i" and ?D = "unat d"
  let ?r = "push_bit 1 rem OR (drop_bit i n AND 1)"
  have half: "unat n div 2 ^ Suc i = ?N div 2"
    by (simp only: power_Suc2 div_mult2_eq)
  have "unat rem < ?D"
    using Suc.prems(2) assms(1) by simp
  then have r: "unat ?r = 2 * unat rem + ?N mod 2"
    using assms(2) by (intro udiv_rem_step) simp
  have split: "?N = ?D * (2 * (?N div 2 div ?D)) + unat ?r"
  proof -
    have "?N = 2 * (?N div 2) + ?N mod 2" by simp
    also have "?N div 2 = ?D * (?N div 2 div ?D) + unat rem"
      using Suc.prems(2) half by simp
    finally show ?thesis using r by (simp add: algebra_simps)
  qed
  have lt: "unat ?r < 2 * ?D"
    using r \<open>unat rem < ?D\<close> by simp
  show ?case
  proof (cases "d \<le> ?r")
    case True
    then have le: "?D \<le> unat ?r" by (simp add: word_le_nat_alt)
    have dv: "?N div ?D = 2 * (?N div 2 div ?D) + 1" and md: "?N mod ?D = unat ?r - ?D"
      using div_mod_unique [of ?N ?D "2 * (?N div 2 div ?D) + 1" "unat ?r - ?D"] split lt le
      by (simp_all add: algebra_simps)
    have "unat (?r - d) = ?N mod ?D"
      using le md by (simp add: unat_sub_if_size)
    moreover have "unat (q OR push_bit i 1) = ?N div ?D * 2 ^ i"
    proof -
      have "unat q = (?N div 2 div ?D) * 2 ^ Suc i"
        using Suc.prems(3) half by simp
      moreover have "unat q + 2 ^ i = (?N div ?D) * 2 ^ i"
        using dv calculation by (simp add: algebra_simps)
      moreover have "(?N div ?D) * 2 ^ i \<le> unat n"
        by (meson div_le_dividend div_times_less_eq_dividend le_trans mult_le_mono1)
      moreover have "unat n < 2 ^ 64" using unat_lt [of n] by simp
      ultimately have "unat (q OR push_bit i 1) = (2 * (?N div 2 div ?D) + 1) * 2 ^ i"
        by (intro udiv_q_step) linarith+
      then show ?thesis using dv by simp
    qed
    ultimately show ?thesis
      using True Suc.prems(1) Suc.IH [of "?r - d" "q OR push_bit i 1"] by (simp add: Let_def)
  next
    case False
    then have le: "unat ?r < ?D" by (simp add: word_le_nat_alt)
    have dv: "?N div ?D = 2 * (?N div 2 div ?D)" and md: "?N mod ?D = unat ?r"
      using div_mod_unique [OF split le] by simp_all
    moreover have "unat q = ?N div ?D * 2 ^ i"
      using Suc.prems(3) half dv by simp
    ultimately show ?thesis
      using False Suc.prems(1) Suc.IH [of ?r q] by (simp add: Let_def)
  qed
qed

lemma udiv64_32_full_correct:
  assumes "d \<noteq> 0"
  shows "udiv64_32_full n d = (n div ucast d, ucast (n mod ucast d))"
    and "unat (fst (udiv64_32_full n d)) = unat n div unat d"
    and "unat (snd (udiv64_32_full n d)) = unat n mod unat d"
proof -
  have d: "unat (ucast d :: u64) = unat d"
    by (simp add: unat_ucast_up)
  have "0 < unat d" using assms by (simp add: unat_gt_0)
  moreover have dl: "unat d < 2 ^ 32" using unat_lt [of d] by simp
  moreover have "unat n div 2 ^ 64 = 0" using unat_lt [of n] by simp
  ultimately have "udiv64_loop 64 n (ucast d) 0 0 = (n div ucast d, n mod ucast d)"
    using d by (intro udiv64_loop_correct) auto
  then show eq: "udiv64_32_full n d = (n div ucast d, ucast (n mod ucast d))"
    by (simp add: udiv64_32_full_def)
  show "unat (fst (udiv64_32_full n d)) = unat n div unat d"
    by (simp add: eq unat_div d)
  have "unat n mod unat d < 2 ^ 32"
    using dl \<open>0 < unat d\<close> by (meson mod_less_divisor less_trans)
  moreover have "unat (n mod ucast d) = unat n mod unat d"
    by (simp only: unat_mod d)
  ultimately show "unat (snd (udiv64_32_full n d)) = unat n mod unat d"
    by (simp add: eq unsigned_ucast_eq [of "n mod ucast d"] take_bit_nat_eq_self)
qed
text \<open>A formatting step appends a fixed text wherever there is room for it.\<close>

definition appends :: "nat \<Rightarrow> (outbuf \<Rightarrow> int \<times> outbuf) \<Rightarrow> string \<Rightarrow> bool" where
  "appends sz f s \<longleftrightarrow> nul_free s \<and> (\<forall>t b. holds_text sz t b \<longrightarrow> length t + length s < sz \<longrightarrow>
     (\<exists>b'. f b = (0, b') \<and> holds_text sz (t @ s) b' \<and> length (fst b') = length (fst b)))"

lemma appendsI:
  assumes "nul_free s"
    and "\<And>t b. holds_text sz t b \<Longrightarrow> length t + length s < sz \<Longrightarrow>
      \<exists>b'. f b = (0, b') \<and> holds_text sz (t @ s) b' \<and> length (fst b') = length (fst b)"
  shows "appends sz f s"
  using assms by (auto simp: appends_def)

lemma appendsD:
  assumes "appends sz f s" "holds_text sz t b" "length t + length s < sz"
  obtains b' where "f b = (0, b')" "holds_text sz (t @ s) b'" "length (fst b') = length (fst b)"
  using assms unfolding appends_def by meson

lemma appends_str: "nul_free s \<Longrightarrow> appends sz (append_str sz s) s"
  by (intro appendsI append_str_ok)

lemma appends_char: "c \<noteq> NUL \<Longrightarrow> appends sz (append_char sz c) [c]"
  by (intro appendsI append_char_ok) auto

lemma appends_u32: "unat v = n \<Longrightarrow> appends sz (append_u32 sz v) (dec_string n)"
  using appends_str [of "dec_string n" sz] by (auto simp: appends_def append_u32_digits)

lemma appends_2d:
  assumes "unat v = n"
  shows "appends sz (append_2d sz v) [digit_char (n div 10 mod 10), digit_char (n mod 10)]"
proof (rule appendsI)
  fix t b
  assume "holds_text sz t b" "length t + length [digit_char (n div 10 mod 10), digit_char (n mod 10)] < sz"
  then show "\<exists>b'. append_2d sz v b = (0, b') \<and>
      holds_text sz (t @ [digit_char (n div 10 mod 10), digit_char (n mod 10)]) b' \<and>
      length (fst b') = length (fst b)"
    using append_2d_digits [of sz t b v] assms by auto
qed simp

lemmas appends_intros = appends_str appends_char appends_u32 appends_2d

lemma appends_chain:
  assumes "appends sz f s" "appends sz g u"
  shows "appends sz (\<lambda>b. chain (f b) g) (s @ u)"
proof (rule appendsI)
  show "nul_free (s @ u)" using assms by (simp add: appends_def)
  fix t b
  assume t: "holds_text sz t b" "length t + length (s @ u) < sz"
  then obtain b1 where b1: "f b = (0, b1)" "holds_text sz (t @ s) b1" "length (fst b1) = length (fst b)"
    using appendsD [OF assms(1) t(1)] by auto
  moreover obtain b2 where "g b1 = (0, b2)" "holds_text sz ((t @ s) @ u) b2"
      "length (fst b2) = length (fst b1)"
    using appendsD [OF assms(2) b1(2)] t(2) by auto
  ultimately show "\<exists>b'. chain (f b) g = (0, b') \<and> holds_text sz (t @ s @ u) b' \<and>
      length (fst b') = length (fst b)"
    by simp
qed

lemma appends_chain_all:
  "list_all2 (appends sz) fs ss \<Longrightarrow> appends sz (chain_all fs) (concat ss)"
proof (induction fs ss rule: list_all2_induct)
  case Nil
  then show ?case by (simp add: appends_def)
next
  case (Cons f fs s ss)
  have "chain_all (f # fs) = (\<lambda>b. chain (f b) (chain_all fs))"
    by (rule ext) simp
  then show ?case using appends_chain [OF Cons(1,3)] by simp
qed

section \<open>Properties\<close>

text \<open>C31: The shift-subtract division computes quotient and remainder of any 64-bit number by any nonzero 32-bit
  number, without using the 64-bit division that the target lacks.\<close>

theorem udiv64_32_full_divides:
  assumes "d \<noteq> 0"
  shows "udiv64_32_full n d = (n div ucast d, ucast (n mod ucast d)) \<and>
    unat (fst (udiv64_32_full n d)) = unat n div unat d \<and> unat (snd (udiv64_32_full n d)) = unat n mod unat d"
  using udiv64_32_full_correct [OF assms] by blast

theorem udiv64_32_full_divides_witness:
  "unat (fst (udiv64_32_full 1000000007 10)) = 100000000 \<and> unat (snd (udiv64_32_full 1000000007 10)) = 7"
  using udiv64_32_full_divides [of 10 1000000007] by simp



text \<open>\<open>append_u32\<close> appends the decimal numeral of the number, which denotes it, when it fits into the buffer, and
  returns -1 with a terminated, truncated text when it does not; the buffer is never exceeded.\<close>

theorem append_u32_appends_numeral:
  assumes "holds_text sz t b"
  shows "dec_value (dec_string (unat v)) = unat v \<and>
    (\<exists>b'. append_u32 sz v b = (if length t + length (dec_string (unat v)) < sz then 0 else -1, b') \<and>
      holds_text sz (take (sz - 1) (t @ dec_string (unat v))) b' \<and> length (fst b') = length (fst b))"
proof (cases "length t + length (dec_string (unat v)) < sz")
  case True
  then show ?thesis
    using append_str_ok [OF assms, of "dec_string (unat v)"] dec_value_dec_string
    by (auto simp: append_u32_digits)
next
  case False
  then show ?thesis
    using append_str_full [OF assms, of "dec_string (unat v)"] dec_value_dec_string
    by (auto simp: append_u32_digits)
qed

theorem append_u32_appends_numeral_witness:
  "\<exists>b'. append_u32 8 1234 (replicate 8 NUL, 0) = (0, b') \<and> cstr (fst b') = ''1234''"
proof -
  have d: "dec_string 1234 = ''1234''" by code_simp
  have "holds_text 8 [] (replicate 8 NUL, 0)" by (simp add: holds_text_def)
  from append_u32_appends_numeral [OF this, of 1234] d
  obtain b' where b: "append_u32 8 1234 (replicate 8 NUL, 0) = (0, b')" "holds_text 8 ''1234'' b'" by auto
  then show ?thesis using holds_text_cstr [of 8 _ "fst b'" "snd b'"] by auto
qed

end
