(* ===== verification/Memory.thy ===== *)
theory Memory
  imports CommonLibs
begin

text \<open>
  The physical page allocator and the Sv32 page tables (src/kernel/mm/memory.c, src/include/memory.h).
  The allocator state is the bitmap and the managed range; physical memory is a map from addresses
  to bytes. The bitmap bytes are kept apart from the other memory: \<open>bitmap_region_disjoint\<close> shows
  that the bitmap and the managed pages do not overlap. The linker symbols \<open>__free_ram\<close> and
  \<open>__free_ram_end\<close> are arguments of \<open>memory_init\<close>.
\<close>

definition PAGE_SIZE :: nat where "PAGE_SIZE = 4096"
definition PAGE_V :: u32 where "PAGE_V = 1"
definition PAGE_R :: u32 where "PAGE_R = 2"
definition PAGE_W :: u32 where "PAGE_W = 4"
definition PAGE_X :: u32 where "PAGE_X = 8"
definition PAGE_U :: u32 where "PAGE_U = 16"

lemmas page_consts [hdr_consts] = PAGE_SIZE_def PAGE_V_def PAGE_R_def PAGE_W_def PAGE_X_def PAGE_U_def

record mem_state =
  page_bitmap :: "nat \<Rightarrow> u8"
  managed_base :: u32
  managed_pages :: u32
  memory_initialized :: bool
  ram :: "u32 \<Rightarrow> u8"

section \<open>The bitmap\<close>

definition bitmap_test :: "(nat \<Rightarrow> u8) \<Rightarrow> nat \<Rightarrow> bool" where
  "bitmap_test bm idx \<longleftrightarrow> drop_bit (idx mod 8) (bm (idx div 8)) AND 1 \<noteq> 0"

definition bitmap_set :: "(nat \<Rightarrow> u8) \<Rightarrow> nat \<Rightarrow> (nat \<Rightarrow> u8)" where
  "bitmap_set bm idx =
     bm(idx div 8 := bm (idx div 8) OR ucast (push_bit (idx mod 8) (1 :: u32)))"

definition bitmap_clear :: "(nat \<Rightarrow> u8) \<Rightarrow> nat \<Rightarrow> (nat \<Rightarrow> u8)" where
  "bitmap_clear bm idx =
     bm(idx div 8 := bm (idx div 8) AND ucast (NOT (push_bit (idx mod 8) (1 :: u32))))"

lemma bitmap_test_bit: "bitmap_test bm idx \<longleftrightarrow> bit (bm (idx div 8)) (idx mod 8)"
  by (simp only: bitmap_test_def drop_bit_and_1 of_bool_eq_0_iff not_not)

lemma div_mod_8_eq: "i div 8 = j div 8 \<Longrightarrow> i mod 8 = j mod 8 \<Longrightarrow> i = (j::nat)"
  by (metis div_mult_mod_eq)

lemma bit_ucast_single: "k < 8 \<Longrightarrow> bit (ucast (push_bit k (1 :: u32)) :: u8) n \<longleftrightarrow> n = k"
  by (auto simp: bit_ucast_iff bit_exp_iff)

lemma bit_ucast_not_single: "k < 8 \<Longrightarrow> n < 8 \<Longrightarrow> bit (ucast (NOT (push_bit k (1 :: u32))) :: u8) n \<longleftrightarrow> n \<noteq> k"
  by (auto simp: bit_ucast_iff bit_not_iff bit_exp_iff)

lemma bitmap_test_set: "bitmap_test (bitmap_set bm i) j \<longleftrightarrow> j = i \<or> bitmap_test bm j"
proof (cases "j div 8 = i div 8")
  case True
  then show ?thesis
    using div_mod_8_eq [of i j] bit_ucast_single [of "i mod 8" "j mod 8"]
    by (simp add: bitmap_test_bit bitmap_set_def bit_or_iff del: push_bit_of_1) metis
next
  case False
  then show ?thesis by (auto simp: bitmap_test_bit bitmap_set_def)
qed

lemma bitmap_test_clear: "bitmap_test (bitmap_clear bm i) j \<longleftrightarrow> j \<noteq> i \<and> bitmap_test bm j"
proof (cases "j div 8 = i div 8")
  case True
  then show ?thesis
    using div_mod_8_eq [of i j] bit_ucast_not_single [of "i mod 8" "j mod 8"]
    by (simp add: bitmap_test_bit bitmap_clear_def bit_and_iff del: push_bit_of_1) metis
next
  case False
  then show ?thesis by (auto simp: bitmap_test_bit bitmap_clear_def)
qed

text \<open>The loops that set or clear a run of bits.\<close>

fun bitmap_set_range :: "(nat \<Rightarrow> u8) \<Rightarrow> nat \<Rightarrow> nat \<Rightarrow> (nat \<Rightarrow> u8)" where
  "bitmap_set_range bm j 0 = bm"
| "bitmap_set_range bm j (Suc n) = bitmap_set_range (bitmap_set bm j) (Suc j) n"

lemma bitmap_test_set_range:
  "bitmap_test (bitmap_set_range bm i n) j \<longleftrightarrow> (i \<le> j \<and> j < i + n) \<or> bitmap_test bm j"
  by (induction bm i n rule: bitmap_set_range.induct) (auto simp: bitmap_test_set)

text \<open>
  \<open>free_pages\<close> clears the bits one by one and panics at the first page that is already free; the
  pages before it have been freed by then.
\<close>

fun bitmap_clear_range :: "(nat \<Rightarrow> u8) \<Rightarrow> nat \<Rightarrow> nat \<Rightarrow> (nat \<Rightarrow> u8) kres" where
  "bitmap_clear_range bm j 0 = Ok bm"
| "bitmap_clear_range bm j (Suc n) =
     (if \<not> bitmap_test bm j then PANIC ''double free detected''
      else bitmap_clear_range (bitmap_clear bm j) (Suc j) n)"

lemma bitmap_clear_range_Ok:
  assumes "\<And>j. i \<le> j \<Longrightarrow> j < i + n \<Longrightarrow> bitmap_test bm j"
  shows "\<exists>bm'. bitmap_clear_range bm i n = Ok bm' \<and>
     (\<forall>j. bitmap_test bm' j \<longleftrightarrow> bitmap_test bm j \<and> \<not> (i \<le> j \<and> j < i + n))"
  using assms
proof (induction bm i n rule: bitmap_clear_range.induct)
  case (1 bm j)
  then show ?case by auto
next
  case (2 bm i n)
  have "bitmap_test bm i" using 2(2) [of i] by simp
  moreover have "\<exists>bm'. bitmap_clear_range (bitmap_clear bm i) (Suc i) n = Ok bm' \<and>
     (\<forall>j. bitmap_test bm' j \<longleftrightarrow> bitmap_test (bitmap_clear bm i) j \<and> \<not> (Suc i \<le> j \<and> j < Suc i + n))"
    using calculation 2(2) by (intro 2(1)) (auto simp: bitmap_test_clear)
  ultimately show ?case by (auto simp: bitmap_test_clear Suc_le_eq le_less)
qed

lemma bitmap_clear_range_PANIC:
  assumes "i \<le> k" "k < i + n" "\<not> bitmap_test bm k"
  shows "bitmap_clear_range bm i n = PANIC ''double free detected''"
  using assms
proof (induction bm i n rule: bitmap_clear_range.induct)
  case (1 bm j)
  then show ?case by simp
next
  case (2 bm i n)
  then show ?case by (cases "k = i") (auto simp: bitmap_test_clear)
qed

section \<open>Allocation\<close>

text \<open>\<open>memset\<close> on physical memory.\<close>

definition ram_fill :: "(u32 \<Rightarrow> u8) \<Rightarrow> u32 \<Rightarrow> nat \<Rightarrow> u8 \<Rightarrow> (u32 \<Rightarrow> u8)" where
  "ram_fill r a n v = (\<lambda>x. if unat (x - a) < n then v else r x)"

definition memory_init :: "u32 \<Rightarrow> u32 \<Rightarrow> mem_state \<Rightarrow> (u32 \<times> mem_state) kres" where
  "memory_init free_start free_end m =
     (if free_end \<le> free_start then PANIC ''invalid free ram range''
      else
        let total_pages = (free_end - free_start) div 4096
        in if total_pages = 0 then PANIC ''no allocatable pages''
           else
             let bitmap_bytes = (total_pages + 7) div 8;
                 bitmap_pages = (bitmap_bytes + 4096 - 1) div 4096
             in if total_pages \<le> bitmap_pages then PANIC ''bitmap too large for free ram''
                else Ok (total_pages,
                  m\<lparr>page_bitmap := (\<lambda>_. 0),
                    managed_base := free_start + bitmap_pages * 4096,
                    managed_pages := total_pages - bitmap_pages,
                    memory_initialized := True\<rparr>))"

text \<open>
  The first-fit search of \<open>alloc_pages\<close>: \<open>run\<close> counts the free pages seen in a row, and the result
  is the index of the first page of the run.
\<close>

function alloc_scan :: "(nat \<Rightarrow> u8) \<Rightarrow> nat \<Rightarrow> nat \<Rightarrow> nat \<Rightarrow> nat \<Rightarrow> nat option" where
  "alloc_scan bm pages n i run =
     (if i < pages
      then (if bitmap_test bm i then alloc_scan bm pages n (Suc i) 0
            else if run + 1 = n then Some (i + 1 - n)
            else alloc_scan bm pages n (Suc i) (run + 1))
      else None)"
  by pat_completeness auto
termination
  by (relation "measure (\<lambda>(bm, pages, n, i, run). pages - i)") auto

declare alloc_scan.simps [simp del]

definition alloc_pages :: "u32 \<Rightarrow> mem_state \<Rightarrow> (u32 \<times> mem_state) kres" where
  "alloc_pages n m =
     (if \<not> memory_initialized m then PANIC ''memory allocator is not initialized''
      else if n = 0 \<or> managed_pages m < n then PANIC ''invalid alloc page count''
      else
        case alloc_scan (page_bitmap m) (unat (managed_pages m)) (unat n) 0 0 of
          None \<Rightarrow> PANIC ''Out of Memory has been detected.''
        | Some start \<Rightarrow>
            let paddr = managed_base m + of_nat start * 4096
            in Ok (paddr,
              m\<lparr>page_bitmap := bitmap_set_range (page_bitmap m) start (unat n),
                ram := ram_fill (ram m) paddr (unat (n * 4096)) 0\<rparr>))"

definition free_pages :: "u32 \<Rightarrow> u32 \<Rightarrow> mem_state \<Rightarrow> mem_state kres" where
  "free_pages paddr n m =
     (if \<not> memory_initialized m then PANIC ''memory allocator is not initialized''
      else if n = 0 then PANIC ''invalid free page count 0''
      else if paddr mod 4096 \<noteq> 0 then PANIC ''unaligned free paddr''
      else if paddr < managed_base m then PANIC ''free before managed base''
      else
        let start = (paddr - managed_base m) div 4096
        in if managed_pages m \<le> start \<or> managed_pages m < start + n
           then PANIC ''free out of range''
           else kbind (bitmap_clear_range (page_bitmap m) (unat start) (unat n))
             (\<lambda>bm. Ok (m\<lparr>page_bitmap := bm\<rparr>)))"

definition bitmap_page_state :: "int \<Rightarrow> mem_state \<Rightarrow> int kres" where
  "bitmap_page_state index m =
     (if \<not> memory_initialized m then PANIC ''memory allocator is not initialized''
      else if index < 0 \<or> uint (managed_pages m) \<le> index then Ok (-1)
      else Ok (if bitmap_test (page_bitmap m) (nat index) then 1 else 0))"

definition bitmap_page_count :: "mem_state \<Rightarrow> int kres" where
  "bitmap_page_count m =
     (if \<not> memory_initialized m then PANIC ''memory allocator is not initialized''
      else Ok (sint (managed_pages m)))"

section \<open>What the allocator computes\<close>

text \<open>A run of \<open>n\<close> free pages starts at index \<open>s\<close>.\<close>

definition free_run :: "(nat \<Rightarrow> u8) \<Rightarrow> nat \<Rightarrow> nat \<Rightarrow> bool" where
  "free_run bm n s \<longleftrightarrow> (\<forall>j. s \<le> j \<and> j < s + n \<longrightarrow> \<not> bitmap_test bm j)"

lemma alloc_scan_first_fit:
  assumes "run < n" "run \<le> i" "i \<le> pages" "free_run bm run (i - run)"
    and "\<And>s. s < i - run \<Longrightarrow> \<exists>j. s \<le> j \<and> j < s + n \<and> j < i \<and> bitmap_test bm j"
  shows "case alloc_scan bm pages n i run of
     None \<Rightarrow> \<forall>s. s + n \<le> pages \<longrightarrow> \<not> free_run bm n s
   | Some s \<Rightarrow> s + n \<le> pages \<and> free_run bm n s \<and> (\<forall>s'. s' < s \<longrightarrow> \<not> free_run bm n s')"
  using assms
proof (induction bm pages n i run rule: alloc_scan.induct)
  case (1 bm pages n i run)
  have busy: "\<not> free_run bm n s" if "s < i - run" for s
    using 1(7) [OF that] by (auto simp: free_run_def)
  show ?case
  proof (cases "i < pages")
    case False
    then have "s < i - run" if "s + n \<le> pages" for s
      using that 1(3-5) by linarith
    with False busy show ?thesis by (simp add: alloc_scan.simps [of bm pages n i run])
  next
    case True
    show ?thesis
    proof (cases "bitmap_test bm i")
      case used: True
      have "\<exists>j. s \<le> j \<and> j < s + n \<and> j < Suc i \<and> bitmap_test bm j" if "s < Suc i - 0" for s
      proof (cases "s < i - run")
        case True
        then show ?thesis using 1(7) [of s] by auto
      next
        case False
        then show ?thesis using that used 1(3,4) by (intro exI [of _ i]) linarith
      qed
      moreover have "free_run bm 0 (Suc i - 0)" by (auto simp: free_run_def)
      ultimately show ?thesis
        using 1(1) [OF True used] 1(3) True used
        by (simp add: alloc_scan.simps [of bm pages n i run])
    next
      case free: False
      have run: "free_run bm (run + 1) (i - run)"
        using 1(6) free 1(4) by (auto simp: free_run_def less_Suc_eq)
      show ?thesis
      proof (cases "run + 1 = n")
        case True
        with run free \<open>i < pages\<close> busy 1(4) show ?thesis
          by (auto simp: alloc_scan.simps [of bm pages n i run])
      next
        case False
        have "\<exists>j. s \<le> j \<and> j < s + n \<and> j < Suc i \<and> bitmap_test bm j" if "s < Suc i - (run + 1)" for s
          using 1(7) [of s] that by auto
        then show ?thesis
          using 1(2) [OF \<open>i < pages\<close> free False] run False 1(3,4) \<open>i < pages\<close> free
          by (simp add: alloc_scan.simps [of bm pages n i run])
      qed
    qed
  qed
qed

lemma alloc_scan_Some:
  assumes "alloc_scan bm pages n 0 0 = Some s" "0 < n"
  shows "s + n \<le> pages" "free_run bm n s" "\<And>s'. s' < s \<Longrightarrow> \<not> free_run bm n s'"
  using alloc_scan_first_fit [of 0 n 0 pages bm] assms by (auto simp: free_run_def)

lemma alloc_scan_None:
  assumes "alloc_scan bm pages n 0 0 = None" "0 < n" "s + n \<le> pages"
  shows "\<not> free_run bm n s"
  using alloc_scan_first_fit [of 0 n 0 pages bm] assms by (auto simp: free_run_def)

lemma alloc_scan_ex:
  assumes "free_run bm n s" "s + n \<le> pages" "0 < n"
  obtains s' where "alloc_scan bm pages n 0 0 = Some s'"
  using alloc_scan_None [OF _ assms(3,2)] assms(1) by (cases "alloc_scan bm pages n 0 0") auto

text \<open>
  The allocator's invariant: initialised, page-aligned, and the managed range ends inside the
  32-bit address space. \<open>page_addr\<close> is the address of a managed page, \<open>used_pages\<close> the abstract
  state: the set of the allocated page indices.
\<close>

definition mem_wf :: "mem_state \<Rightarrow> bool" where
  "mem_wf m \<longleftrightarrow> memory_initialized m \<and> unat (managed_base m) mod 4096 = 0 \<and>
     unat (managed_base m) + unat (managed_pages m) * 4096 \<le> 2 ^ 32 \<and> 0 < unat (managed_base m)"

definition page_addr :: "mem_state \<Rightarrow> nat \<Rightarrow> u32" where
  "page_addr m i = managed_base m + of_nat i * 4096"

definition used_pages :: "mem_state \<Rightarrow> nat set" where
  "used_pages m = {i. i < unat (managed_pages m) \<and> bitmap_test (page_bitmap m) i}"

lemma unat_page_addr:
  assumes "mem_wf m" "i < unat (managed_pages m)"
  shows "unat (page_addr m i) = unat (managed_base m) + i * 4096"
proof -
  have "unat (managed_base m) + i * 4096 < 2 ^ 32"
    using assms by (auto simp: mem_wf_def)
  moreover have "unat (of_nat i * 4096 :: u32) = i * 4096"
    using calculation by (simp add: unat_word_ariths unsigned_of_nat take_bit_nat_eq_self)
  ultimately show ?thesis by (simp add: page_addr_def unat_word_ariths)
qed

lemma page_addr_inj:
  assumes "mem_wf m" "i < unat (managed_pages m)" "j < unat (managed_pages m)"
    and "page_addr m i = page_addr m j"
  shows "i = j"
proof -
  have "unat (managed_base m) + i * 4096 = unat (managed_base m) + j * 4096"
    using unat_page_addr [OF assms(1,2)] unat_page_addr [OF assms(1,3)] assms(4) by metis
  then show ?thesis by simp
qed

lemma free_pages_index:
  assumes "mem_wf m" "i < unat (managed_pages m)"
  shows "page_addr m i mod 4096 = 0" "\<not> page_addr m i < managed_base m"
    and "unat ((page_addr m i - managed_base m) div 4096) = i"
proof -
  note a = unat_page_addr [OF assms]
  have "unat (page_addr m i mod 4096) = (unat (managed_base m) + i * 4096) mod 4096"
    by (simp only: unat_mod_numeral a) simp
  also have "\<dots> = 0"
    using assms(1) by (auto simp: mem_wf_def)
  finally show "page_addr m i mod 4096 = 0"
    by (simp add: unat_eq_zero)
  show ge: "\<not> page_addr m i < managed_base m"
    using a by (simp add: word_less_nat_alt)
  then have "unat (page_addr m i - managed_base m) = i * 4096"
    using a by (simp add: unat_sub not_less)
  then show "unat ((page_addr m i - managed_base m) div 4096) = i"
    by (simp only: unat_div_numeral) simp
qed

lemma unat_pages_bytes:
  assumes "mem_wf m" "n \<le> managed_pages m"
  shows "unat (n * 4096) = unat n * 4096"
proof -
  have "unat n \<le> unat (managed_pages m)" using assms(2) by (simp add: word_le_nat_alt)
  with assms(1) have "unat n * 4096 < 2 ^ 32" by (auto simp: mem_wf_def)
  then show ?thesis by (simp add: unat_word_ariths)
qed

lemma used_pages_set_range:
  assumes "start + n \<le> unat (managed_pages m)"
  shows "used_pages (m\<lparr>page_bitmap := bitmap_set_range (page_bitmap m) start n, ram := r\<rparr>) =
           used_pages m \<union> {start..<start + n}"
  using assms by (auto simp: used_pages_def bitmap_test_set_range)

lemma alloc_pages_Ok:
  assumes wf: "mem_wf m" and ok: "alloc_pages n m = Ok (p, m')"
  obtains start where
    "p = page_addr m start" "start + unat n \<le> unat (managed_pages m)" "0 < unat n"
    "free_run (page_bitmap m) (unat n) start"
    "\<And>s. s < start \<Longrightarrow> \<not> free_run (page_bitmap m) (unat n) s"
    "m' = m\<lparr>page_bitmap := bitmap_set_range (page_bitmap m) start (unat n),
            ram := ram_fill (ram m) p (unat n * 4096) 0\<rparr>"
proof -
  from ok have n: "n \<noteq> 0" "n \<le> managed_pages m"
    by (auto simp: alloc_pages_def split: if_splits)
  then have "0 < unat n" by (simp add: unat_gt_0)
  from ok n obtain start where st: "alloc_scan (page_bitmap m) (unat (managed_pages m)) (unat n) 0 0 = Some start"
    by (auto simp: alloc_pages_def split: if_splits option.splits)
  with ok n have "p = page_addr m start"
      "m' = m\<lparr>page_bitmap := bitmap_set_range (page_bitmap m) start (unat n),
              ram := ram_fill (ram m) p (unat n * 4096) 0\<rparr>"
    using unat_pages_bytes [OF wf n(2)]
    by (auto simp: alloc_pages_def page_addr_def Let_def split: if_splits)
  with that alloc_scan_Some [OF st \<open>0 < unat n\<close>] \<open>0 < unat n\<close> show thesis by blast
qed

lemma alloc_pages_frame:
  assumes "alloc_pages n m = Ok (p, m')"
  shows "managed_base m' = managed_base m" "managed_pages m' = managed_pages m"
    "memory_initialized m' = memory_initialized m"
  using assms by (auto simp: alloc_pages_def Let_def split: if_splits option.splits)

lemma mem_wf_cong:
  assumes "managed_base m' = managed_base m" "managed_pages m' = managed_pages m"
    "memory_initialized m' = memory_initialized m"
  shows "mem_wf m' = mem_wf m" "page_addr m' = page_addr m"
  using assms by (auto simp: mem_wf_def page_addr_def)

lemma alloc_pages_wf: "mem_wf m \<Longrightarrow> alloc_pages n m = Ok (p, m') \<Longrightarrow> mem_wf m'"
  using mem_wf_cong alloc_pages_frame by metis

lemma alloc_pages_returns_iff:
  assumes "mem_wf m"
  shows "returns (alloc_pages n m) \<longleftrightarrow>
     n \<noteq> 0 \<and> (\<exists>s. s + unat n \<le> unat (managed_pages m) \<and> free_run (page_bitmap m) (unat n) s)"
proof
  assume "returns (alloc_pages n m)"
  then obtain p m' where "alloc_pages n m = Ok (p, m')" by (auto simp: returns_iff)
  from alloc_pages_Ok [OF assms this]
  show "n \<noteq> 0 \<and> (\<exists>s. s + unat n \<le> unat (managed_pages m) \<and> free_run (page_bitmap m) (unat n) s)"
    by (metis unat_0 less_irrefl)
next
  assume r: "n \<noteq> 0 \<and> (\<exists>s. s + unat n \<le> unat (managed_pages m) \<and> free_run (page_bitmap m) (unat n) s)"
  then have "0 < unat n" by (simp add: unat_gt_0)
  with r obtain s where "alloc_scan (page_bitmap m) (unat (managed_pages m)) (unat n) 0 0 = Some s"
    using alloc_scan_ex by blast
  moreover have "\<not> managed_pages m < n" using r by (auto simp: word_less_nat_alt)
  ultimately show "returns (alloc_pages n m)"
    using r assms by (simp add: alloc_pages_def mem_wf_def Let_def)
qed

lemma free_pages_range:
  assumes wf: "mem_wf m" and i: "i + unat n \<le> unat (managed_pages m)" and n: "0 < unat n"
  shows "\<not> (managed_pages m \<le> (page_addr m i - managed_base m) div 4096 \<or>
     managed_pages m < (page_addr m i - managed_base m) div 4096 + n)"
proof -
  have il: "i < unat (managed_pages m)" using i n by simp
  define start where "start = (page_addr m i - managed_base m) div 4096"
  have st: "unat start = i" unfolding start_def by (rule free_pages_index(3) [OF wf il])
  have "i + unat n < 2 ^ 32" using unat_lt [of "managed_pages m"] i by simp
  then have "unat (start + n) = i + unat n" by (simp add: unat_word_ariths st)
  with i il st show ?thesis
    unfolding start_def [symmetric] by (simp add: word_le_nat_alt word_less_nat_alt)
qed

lemma free_pages_Ok:
  assumes wf: "mem_wf m" and i: "i + unat n \<le> unat (managed_pages m)" and n: "0 < unat n"
    and used: "{i..<i + unat n} \<subseteq> used_pages m"
  shows "\<exists>m'. free_pages (page_addr m i) n m = Ok m' \<and> used_pages m' = used_pages m - {i..<i + unat n} \<and>
     mem_wf m' \<and> page_addr m' = page_addr m \<and> ram m' = ram m"
proof -
  have il: "i < unat (managed_pages m)" using i n by simp
  note ix = free_pages_index [OF wf il]
  note range = free_pages_range [OF wf i n]
  obtain bm where bm: "bitmap_clear_range (page_bitmap m) i (unat n) = Ok bm"
      "\<forall>j. bitmap_test bm j \<longleftrightarrow> bitmap_test (page_bitmap m) j \<and> \<not> (i \<le> j \<and> j < i + unat n)"
    using bitmap_clear_range_Ok [of i "unat n" "page_bitmap m"] used by (fastforce simp: used_pages_def)
  have "n \<noteq> 0" using n by (metis unat_0 less_irrefl)
  then have "free_pages (page_addr m i) n m = Ok (m\<lparr>page_bitmap := bm\<rparr>)"
    using wf ix range bm(1) by (simp add: free_pages_def mem_wf_def Let_def)
  moreover have "used_pages (m\<lparr>page_bitmap := bm\<rparr>) = used_pages m - {i..<i + unat n}"
    unfolding set_eq_iff by (simp add: used_pages_def bm(2))
  ultimately show ?thesis using wf by (auto simp: mem_wf_def page_addr_def)
qed

lemma free_pages_double:
  assumes wf: "mem_wf m" and i: "i + unat n \<le> unat (managed_pages m)"
    and k: "i \<le> k" "k < i + unat n" "k \<notin> used_pages m"
  shows "free_pages (page_addr m i) n m = PANIC ''double free detected''"
proof -
  have il: "i < unat (managed_pages m)" and "n \<noteq> 0" and n: "0 < unat n" using i k by auto
  note ix = free_pages_index [OF wf il]
  note range = free_pages_range [OF wf i n]
  have "\<not> bitmap_test (page_bitmap m) k" using i k by (auto simp: used_pages_def)
  then show ?thesis
    using wf ix range \<open>n \<noteq> 0\<close> bitmap_clear_range_PANIC [OF k(1,2)]
    by (simp add: free_pages_def mem_wf_def Let_def)
qed

section \<open>Initialisation\<close>

lemma memory_init_spec:
  assumes ok: "memory_init free_start free_end m = Ok (tot, m')"
    and al: "unat free_start mod 4096 = 0" and nz: "0 < unat free_start"
  shows "mem_wf m'" "used_pages m' = {}" "unat tot = (unat free_end - unat free_start) div 4096"
    and "unat free_start + unat ((tot + 7) div 8) \<le> unat (managed_base m')"
    and "unat (managed_pages m') \<le> 8 * unat ((tot + 7) div 8)"
    and "unat (managed_base m') + unat (managed_pages m') * 4096 \<le> unat free_end"
proof -
  define tp where "tp = (free_end - free_start) div 4096"
  define bb where "bb = (tp + 7) div 8"
  define bp where "bp = (bb + 4096 - 1) div 4096"
  from ok have lt: "free_start < free_end" and bptp: "bp < tp" and tot: "tot = tp"
      and m': "m' = m\<lparr>page_bitmap := (\<lambda>_. 0), managed_base := free_start + bp * 4096,
                 managed_pages := tp - bp, memory_initialized := True\<rparr>"
    unfolding memory_init_def tp_def bb_def bp_def
    by (auto simp: Let_def not_le split: if_splits)
  have "unat (free_end - free_start) = unat free_end - unat free_start"
    using lt by (simp add: unat_sub word_less_nat_alt word_le_nat_alt)
  then have utp: "unat tp = (unat free_end - unat free_start) div 4096"
    unfolding tp_def by (simp only: unat_div_numeral) simp
  have fe: "unat free_end < 2 ^ 32" using unat_lt [of free_end] by simp
  then have tpb: "unat tp \<le> 2 ^ 20" using utp by simp
  then have "unat (tp + 7) = unat tp + 7" by (simp add: unat_word_ariths)
  then have ubb: "unat bb = (unat tp + 7) div 8"
    unfolding bb_def by (simp only: unat_div_numeral) simp
  have "unat (bb + 4096 - 1) = unat bb + 4095"
    using ubb tpb by (simp add: unat_word_ariths)
  then have ubp: "unat bp = (unat bb + 4095) div 4096"
    unfolding bp_def by (simp only: unat_div_numeral) simp
  have lt': "unat bp < unat tp" using bptp by (simp add: word_less_nat_alt)
  have tpe: "unat free_start + unat tp * 4096 \<le> unat free_end"
    using utp lt by (simp add: word_less_nat_alt)
  have ubp4: "unat (bp * 4096) = unat bp * 4096"
    using lt' tpe fe by (simp add: unat_word_ariths)
  have base: "unat (free_start + bp * 4096) = unat free_start + unat bp * 4096"
    using ubp4 lt' tpe fe by (simp add: unat_word_ariths)
  have mp: "unat (tp - bp) = unat tp - unat bp"
    using lt' by (simp add: unat_sub word_le_nat_alt)
  have end': "unat free_start + unat bp * 4096 + (unat tp - unat bp) * 4096 \<le> unat free_end"
    using tpe lt' by (simp add: diff_mult_distrib)
  show "mem_wf m'" using base mp end' al nz fe by (simp add: mem_wf_def m')
  show "used_pages m' = {}" by (simp add: used_pages_def m' bitmap_test_bit)
  show "unat tot = (unat free_end - unat free_start) div 4096" using tot utp by simp
  have "unat bb \<le> unat bp * 4096" using ubp by simp
  then show "unat free_start + unat ((tot + 7) div 8) \<le> unat (managed_base m')"
    using base tot bb_def m' by simp
  show "unat (managed_pages m') \<le> 8 * unat ((tot + 7) div 8)"
    using mp ubb tot bb_def m' by simp
  show "unat (managed_base m') + unat (managed_pages m') * 4096 \<le> unat free_end"
    using base mp end' m' by simp
qed

section \<open>Single frames: the interface the rest of the kernel uses\<close>

text \<open>
  The kernel allocates and frees one page at a time. The contract: an allocation returns a frame
  that was not in use, a frame in use can be freed, and freeing anything else does not return.
\<close>

locale frame_allocator =
  fixes inv :: "'s \<Rightarrow> bool"
    and used :: "'s \<Rightarrow> 'f set"
    and alloc :: "'s \<Rightarrow> ('f \<times> 's) kres"
    and free :: "'f \<Rightarrow> 's \<Rightarrow> 's kres"
  assumes alloc_fresh:
      "inv s \<Longrightarrow> alloc s = Ok (f, s') \<Longrightarrow> f \<notin> used s \<and> used s' = insert f (used s) \<and> inv s'"
    and free_used:
      "inv s \<Longrightarrow> f \<in> used s \<Longrightarrow> \<exists>s'. free f s = Ok s' \<and> used s' = used s - {f} \<and> inv s'"
    and free_unused: "inv s \<Longrightarrow> f \<notin> used s \<Longrightarrow> \<not> returns (free f s)"
begin

lemma alloc_twice_distinct:
  assumes "inv s" "alloc s = Ok (f, s1)" "alloc s1 = Ok (g, s2)"
  shows "f \<noteq> g"
  using alloc_fresh [OF assms(1,2)] alloc_fresh [OF _ assms(3)] by auto

lemma alloc_free_restores:
  assumes "inv s" "alloc s = Ok (f, s1)"
  shows "\<exists>s2. free f s1 = Ok s2 \<and> used s2 = used s \<and> inv s2"
  using alloc_fresh [OF assms] free_used [of s1 f] by auto

lemma free_twice_panics:
  assumes "inv s" "f \<in> used s" "free f s = Ok s1"
  shows "\<not> returns (free f s1)"
proof -
  obtain s' where "free f s = Ok s'" "used s' = used s - {f}" "inv s'"
    using free_used [OF assms(1,2)] by blast
  with assms(3) have "inv s1" "f \<notin> used s1" by auto
  then show ?thesis by (rule free_unused)
qed

text \<open>Freeing a list of frames: what tearing down an address space does.\<close>

fun free_all :: "'f list \<Rightarrow> 's \<Rightarrow> 's kres" where
  "free_all [] s = Ok s"
| "free_all (f # fs) s = kbind (free f s) (free_all fs)"

lemma free_all_used:
  assumes "inv s" "set fs \<subseteq> used s" "distinct fs"
  shows "\<exists>s'. free_all fs s = Ok s' \<and> used s' = used s - set fs \<and> inv s'"
  using assms
proof (induction fs arbitrary: s)
  case Nil
  then show ?case by simp
next
  case (Cons f fs)
  then obtain s1 where s1: "free f s = Ok s1" "used s1 = used s - {f}" "inv s1"
    using free_used [of s f] by auto
  then have "set fs \<subseteq> used s1" using Cons.prems by auto
  then obtain s2 where "free_all fs s1 = Ok s2" "used s2 = used s1 - set fs" "inv s2"
    using Cons.IH [OF s1(3)] Cons.prems(3) by auto
  with s1 show ?case by (auto intro!: exI [of _ s2])
qed

end

definition used_frames :: "mem_state \<Rightarrow> u32 set" where
  "used_frames m = page_addr m ` used_pages m"

lemma managed_frame_cases:
  assumes "mem_wf m" "f mod 4096 = 0" "\<not> f < managed_base m"
    and "\<not> managed_pages m \<le> (f - managed_base m) div 4096"
  shows "f = page_addr m (unat ((f - managed_base m) div 4096))"
proof -
  define d where "d = f - managed_base m"
  have ud: "unat d = unat f - unat (managed_base m)"
    using assms(3) by (simp add: d_def unat_sub not_less)
  have "unat (f mod 4096) = unat f mod 4096" by (simp only: unat_mod_numeral) simp
  then have "unat f mod 4096 = 0" using assms(2) by simp
  moreover have "unat (managed_base m) mod 4096 = 0" using assms(1) by (simp add: mem_wf_def)
  ultimately have dv: "unat d mod 4096 = 0"
    using ud by (metis dvd_diff_nat mod_0_imp_dvd dvd_imp_mod_0)
  have "unat (d div 4096) = unat d div 4096" by (simp only: unat_div_numeral) simp
  moreover have lt: "unat (d div 4096) < unat (managed_pages m)"
    using assms(4) by (simp add: d_def word_le_nat_alt)
  ultimately have "unat (page_addr m (unat (d div 4096))) = unat (managed_base m) + unat d"
    using unat_page_addr [OF assms(1) lt] dv by auto
  also have "\<dots> = unat f" using ud assms(3) by (simp add: word_less_nat_alt)
  finally show ?thesis by (simp add: d_def word_unat_eq_iff)
qed

interpretation frames: frame_allocator mem_wf used_frames "alloc_pages 1" "\<lambda>f. free_pages f 1"
proof
  fix s :: mem_state and f s'
  assume wf: "mem_wf s" and ok: "alloc_pages 1 s = Ok (f, s')"
  obtain i where "f = page_addr s i" "i + unat (1 :: u32) \<le> unat (managed_pages s)"
      "free_run (page_bitmap s) (unat (1 :: u32)) i"
      "s' = s\<lparr>page_bitmap := bitmap_set_range (page_bitmap s) i (unat (1 :: u32)),
              ram := ram_fill (ram s) f (unat (1 :: u32) * 4096) 0\<rparr>"
    using alloc_pages_Ok [OF wf ok] by metis
  then have i: "f = page_addr s i" "i < unat (managed_pages s)" "free_run (page_bitmap s) 1 i"
      "s' = s\<lparr>page_bitmap := bitmap_set_range (page_bitmap s) i 1, ram := ram_fill (ram s) f 4096 0\<rparr>"
    by simp_all
  have up: "used_pages s' = insert i (used_pages s)" "i \<notin> used_pages s"
    using used_pages_set_range [of i 1 s] i(2,3,4)
    by (auto simp: free_run_def used_pages_def simp del: bitmap_set_range.simps)
  have pa: "page_addr s' = page_addr s" and wf': "mem_wf s'"
    using mem_wf_cong(2) [OF alloc_pages_frame [OF ok]] alloc_pages_wf [OF wf ok] by auto
  have "j = i" if "j \<in> used_pages s" "page_addr s j = f" for j
    using that page_addr_inj [OF wf _ i(2)] i(1) by (auto simp: used_pages_def)
  with up have "f \<notin> used_frames s" by (auto simp: used_frames_def)
  moreover have "used_frames s' = insert f (used_frames s)"
    by (simp add: used_frames_def up pa i(1))
  ultimately show "f \<notin> used_frames s \<and> used_frames s' = insert f (used_frames s) \<and> mem_wf s'"
    using wf' by simp
next
  fix s :: mem_state and f
  assume wf: "mem_wf s" and f: "f \<in> used_frames s"
  then obtain i where i: "f = page_addr s i" "i \<in> used_pages s" by (auto simp: used_frames_def)
  then have "i < unat (managed_pages s)" by (simp add: used_pages_def)
  then obtain s' where s': "free_pages f 1 s = Ok s'" "used_pages s' = used_pages s - {i}"
      "mem_wf s'" "page_addr s' = page_addr s"
    using free_pages_Ok [OF wf, of i 1] i by auto
  moreover have "used_frames s' = used_frames s - {f}"
    using s' i page_addr_inj [OF wf] by (auto simp: used_frames_def used_pages_def)
  ultimately show "\<exists>s'. free_pages f 1 s = Ok s' \<and> used_frames s' = used_frames s - {f} \<and> mem_wf s'"
    by blast
next
  fix s :: mem_state and f
  assume wf: "mem_wf s" and f: "f \<notin> used_frames s"
  let ?i = "(f - managed_base s) div 4096"
  show "\<not> returns (free_pages f 1 s)"
  proof (cases "f mod 4096 \<noteq> 0 \<or> f < managed_base s \<or> managed_pages s \<le> ?i")
    case True
    then show ?thesis by (auto simp: free_pages_def Let_def)
  next
    case False
    then have eq: "f = page_addr s (unat ?i)" by (intro managed_frame_cases [OF wf]) simp_all
    with f have "unat ?i \<notin> used_pages s" by (auto simp: used_frames_def)
    moreover have "unat ?i < unat (managed_pages s)" using False by (simp add: word_le_nat_alt)
    ultimately have "free_pages f 1 s = PANIC ''double free detected''"
      using free_pages_double [OF wf, of "unat ?i" 1 "unat ?i"] eq by simp
    then show ?thesis by simp
  qed
qed

section \<open>Properties\<close>

definition small_mem :: mem_state where
  "small_mem = \<lparr>page_bitmap = \<lambda>_. 0, managed_base = 0x80201000, managed_pages = 4, memory_initialized = True,
     ram = \<lambda>_. 0xaa\<rparr>"

lemma small_mem_wf: "mem_wf small_mem" "used_pages small_mem = {}"
  by (simp_all add: mem_wf_def small_mem_def used_pages_def bitmap_test_def)

lemma small_mem_alloc:
  obtains p m' where "alloc_pages 2 small_mem = Ok (p, m')"
proof -
  have "free_run (page_bitmap small_mem) 2 0" by (simp add: free_run_def small_mem_def bitmap_test_def)
  then have "returns (alloc_pages 2 small_mem)"
    unfolding alloc_pages_returns_iff [OF small_mem_wf(1)] by (auto simp: small_mem_def intro!: exI [of _ 0])
  then show thesis using that by (auto simp: returns_iff)
qed

text \<open>C15: A successful allocation returns the first run of free pages that is long enough, marks exactly these pages
  as used, and zeroes exactly their bytes.\<close>

theorem alloc_pages_first_fit:
  assumes "mem_wf m" "alloc_pages n m = Ok (p, m')"
  shows "\<exists>start. p = page_addr m start \<and> start + unat n \<le> unat (managed_pages m) \<and>
    {start ..< start + unat n} \<inter> used_pages m = {} \<and> used_pages m' = used_pages m \<union> {start ..< start + unat n} \<and>
    (\<forall>s < start. \<not> free_run (page_bitmap m) (unat n) s) \<and>
    (\<forall>a. ram m' a = (if unat (a - p) < unat n * 4096 then 0 else ram m a)) \<and> mem_wf m'"
proof (rule alloc_pages_Ok [OF assms])
  fix start
  assume s: "p = page_addr m start" "start + unat n \<le> unat (managed_pages m)"
    "free_run (page_bitmap m) (unat n) start" "\<And>s. s < start \<Longrightarrow> \<not> free_run (page_bitmap m) (unat n) s"
    "m' = m\<lparr>page_bitmap := bitmap_set_range (page_bitmap m) start (unat n), ram := ram_fill (ram m) p (unat n * 4096) 0\<rparr>"
  have "used_pages m' = used_pages m \<union> {start ..< start + unat n}"
    using used_pages_set_range [OF s(2)] s(5) by simp
  moreover have "{start ..< start + unat n} \<inter> used_pages m = {}"
    using s(3) by (auto simp: free_run_def used_pages_def)
  ultimately show ?thesis
    using s alloc_pages_wf [OF assms] by (auto simp: ram_fill_def intro!: exI [of _ start])
qed

theorem alloc_pages_first_fit_witness:
  "\<exists>p m'. alloc_pages 2 small_mem = Ok (p, m') \<and> (\<exists>start. p = page_addr small_mem start \<and> used_pages m' = {start ..< start + 2})"
proof -
  obtain p m' where a: "alloc_pages 2 small_mem = Ok (p, m')" by (rule small_mem_alloc)
  show ?thesis using alloc_pages_first_fit [OF small_mem_wf(1) a] small_mem_wf(2) a by auto
qed

text \<open>An allocation returns if and only if the count is positive and a long enough run of free pages exists;
  otherwise the kernel panics, so that a caller never gets a bad address.\<close>

theorem alloc_pages_returns_iff_run:
  assumes "mem_wf m"
  shows "returns (alloc_pages n m) \<longleftrightarrow>
    n \<noteq> 0 \<and> (\<exists>s. s + unat n \<le> unat (managed_pages m) \<and> free_run (page_bitmap m) (unat n) s)"
  by (rule alloc_pages_returns_iff [OF assms])

theorem alloc_pages_returns_iff_run_witness: "\<not> returns (alloc_pages 5 small_mem)"
  unfolding alloc_pages_returns_iff_run [OF small_mem_wf(1)] by (simp add: small_mem_def)

text \<open>Freeing an allocated page makes exactly that page free again, and freeing it a second time panics.\<close>

theorem free_page_once:
  assumes "mem_wf m" "alloc_pages 1 m = Ok (f, m1)"
  shows "f \<notin> used_frames m \<and> (\<exists>m2. free_pages f 1 m1 = Ok m2 \<and> used_frames m2 = used_frames m \<and> mem_wf m2 \<and>
    \<not> returns (free_pages f 1 m2))"
proof -
  obtain m2 where m2: "free_pages f 1 m1 = Ok m2" "used_frames m2 = used_frames m" "mem_wf m2"
    using frames.alloc_free_restores [OF assms] by blast
  moreover have f: "f \<notin> used_frames m" using frames.alloc_fresh [OF assms] by blast
  ultimately show ?thesis using frames.free_unused [of m2 f] by auto
qed

theorem free_page_once_witness:
  "\<exists>f m1 m2. alloc_pages 1 small_mem = Ok (f, m1) \<and> free_pages f 1 m1 = Ok m2 \<and> used_frames m2 = {}"
proof -
  have "free_run (page_bitmap small_mem) 1 0" by (simp add: free_run_def small_mem_def bitmap_test_def)
  then have "returns (alloc_pages 1 small_mem)"
    unfolding alloc_pages_returns_iff [OF small_mem_wf(1)] by (auto simp: small_mem_def intro!: exI [of _ 0])
  then obtain f m1 where a: "alloc_pages 1 small_mem = Ok (f, m1)" by (auto simp: returns_iff)
  have "used_frames small_mem = {}" using small_mem_wf(2) by (simp add: used_frames_def)
  then show ?thesis using free_page_once [OF small_mem_wf(1) a] a by auto
qed

text \<open>\<open>memory_init\<close> splits the free RAM into the bitmap and the managed pages without overlap: the bitmap ends
  before the managed pages begin, has a bit for each of them, and the last page ends inside the RAM.\<close>

theorem memory_init_regions_disjoint:
  assumes "memory_init free_start free_end m = Ok (tot, m')" "unat free_start mod 4096 = 0" "0 < unat free_start"
  shows "mem_wf m' \<and> used_pages m' = {} \<and> unat free_start + unat ((tot + 7) div 8) \<le> unat (managed_base m') \<and>
    unat (managed_pages m') \<le> 8 * unat ((tot + 7) div 8) \<and>
    unat (managed_base m') + unat (managed_pages m') * 4096 \<le> unat free_end"
  using memory_init_spec [OF assms] by blast

theorem memory_init_regions_disjoint_witness:
  "\<exists>m'. memory_init 0x80200000 0x80210000 small_mem = Ok (16, m') \<and> mem_wf m' \<and>
     unat (managed_base m') + unat (managed_pages m') * 4096 \<le> 0x80210000"
proof -
  obtain m' where i: "memory_init 0x80200000 0x80210000 small_mem = Ok (16, m')"
    by (simp add: memory_init_def Let_def word_le_nat_alt)
  show ?thesis using memory_init_regions_disjoint [OF i] i by simp
qed

end
