(* ===== verification/Paging.thy ===== *)
theory Paging
  imports Memory
begin

text \<open>
  Sv32 page tables (\<open>map_page\<close> of src/kernel/mm/memory.c): two levels of 1024 little-endian 32-bit
  entries in physical memory. \<open>sv32_walk\<close> is the translation the hardware performs, the reference
  for \<open>map_page\<close>: after a call the mapped address translates to the given frame and flags, and
  no other page's translation changes.
\<close>

section \<open>32-bit accesses\<close>

definition load32 :: "(u32 \<Rightarrow> u8) \<Rightarrow> u32 \<Rightarrow> u32" where
  "load32 r a = ucast (r a) OR push_bit 8 (ucast (r (a + 1)))
     OR push_bit 16 (ucast (r (a + 2))) OR push_bit 24 (ucast (r (a + 3)))"

definition store32 :: "(u32 \<Rightarrow> u8) \<Rightarrow> u32 \<Rightarrow> u32 \<Rightarrow> (u32 \<Rightarrow> u8)" where
  "store32 r a v = r(a := ucast v, a + 1 := ucast (drop_bit 8 v),
     a + 2 := ucast (drop_bit 16 v), a + 3 := ucast (drop_bit 24 v))"

lemma load32_store32_same [simp]: "load32 (store32 r a v) a = v"
proof (rule bit_word_eqI)
  fix n assume "n < LENGTH(32)"
  then consider "n < 8" | "8 \<le> n" "n < 16" | "16 \<le> n" "n < 24" | "24 \<le> n" "n < 32"
    by fastforce
  then show "bit (load32 (store32 r a v) a) n = bit v n"
    by cases (auto simp: load32_def store32_def bit_or_iff bit_push_bit_iff bit_ucast_iff bit_drop_bit_eq)
qed

lemma aligned_offset:
  fixes a :: u32
  assumes "unat a mod 4 = 0" "j < 4"
  shows "unat (a + of_nat j) = unat a + j"
proof -
  have "unat a < 4294967296" using unat_lt [of a] by simp
  with assms have "unat a + j < 4294967296" by (intro aligned_add_lt [of _ 4]) auto
  then show ?thesis using assms(2) by (simp add: unat_word_ariths unsigned_of_nat take_bit_nat_eq_self)
qed

lemma aligned_words_disjoint:
  fixes a b :: u32
  assumes "unat a mod 4 = 0" "unat b mod 4 = 0" "a \<noteq> b" "i < 4" "j < 4"
  shows "a + of_nat i \<noteq> b + of_nat j"
proof
  assume "a + of_nat i = b + of_nat j"
  then have "unat a + i = unat b + j"
    using aligned_offset [OF assms(1,4)] aligned_offset [OF assms(2,5)] by simp
  with assms(1,2,4,5) have "unat a = unat b" by presburger
  with assms(3) show False by (simp add: word_unat_eq_iff)
qed

lemma load32_store32_other:
  assumes "unat a mod 4 = 0" "unat b mod 4 = 0" "a \<noteq> b"
  shows "load32 (store32 r a v) b = load32 r b"
proof -
  have d: "b + of_nat i \<noteq> a + of_nat j" if "i < 4" "j < 4" for i j
    using aligned_words_disjoint [OF assms(2,1) _ that] assms(3) by blast
  have "store32 r a v (b + of_nat i) = r (b + of_nat i)" if "i < 4" for i
    using d [OF that, of 0] d [OF that, of 1] d [OF that, of 2] d [OF that, of 3]
    by (simp add: store32_def)
  from this [of 0] this [of 1] this [of 2] this [of 3] show ?thesis
    by (simp add: load32_def)
qed

section \<open>Mapping a page\<close>

definition vpn1 :: "u32 \<Rightarrow> u32" where
  "vpn1 vaddr = drop_bit 22 vaddr AND 0x3ff"

definition vpn0 :: "u32 \<Rightarrow> u32" where
  "vpn0 vaddr = drop_bit 12 vaddr AND 0x3ff"

text \<open>The address of \<open>table[i]\<close>, the table that an entry points to, and the entry for a frame.\<close>

definition pte_addr :: "u32 \<Rightarrow> u32 \<Rightarrow> u32" where
  "pte_addr table i = table + i * 4"

definition pte_table :: "u32 \<Rightarrow> u32" where
  "pte_table pte = drop_bit 10 pte * 4096"

definition mk_pte :: "u32 \<Rightarrow> u32 \<Rightarrow> u32" where
  "mk_pte paddr flags = push_bit 10 (paddr div 4096) OR flags"

definition map_page :: "u32 \<Rightarrow> u32 \<Rightarrow> u32 \<Rightarrow> u32 \<Rightarrow> mem_state \<Rightarrow> mem_state kres" where
  "map_page table1 vaddr paddr flags m =
     (if vaddr mod 4096 \<noteq> 0 then PANIC ''unaligned vaddr''
      else if paddr mod 4096 \<noteq> 0 then PANIC ''unaligned paddr''
      else
        kbind
          (if load32 (ram m) (pte_addr table1 (vpn1 vaddr)) AND PAGE_V = 0
           then kbind (alloc_pages 1 m) (\<lambda>(pt_paddr, m).
             Ok (m\<lparr>ram := store32 (ram m) (pte_addr table1 (vpn1 vaddr)) (mk_pte pt_paddr PAGE_V)\<rparr>))
           else Ok m)
          (\<lambda>m. let table0 = pte_table (load32 (ram m) (pte_addr table1 (vpn1 vaddr)))
            in Ok (m\<lparr>ram := store32 (ram m) (pte_addr table0 (vpn0 vaddr))
                               (mk_pte paddr (flags OR PAGE_V))\<rparr>)))"

text \<open>The Sv32 translation of a page: the physical address of the frame and the low ten bits.\<close>

definition sv32_walk :: "(u32 \<Rightarrow> u8) \<Rightarrow> u32 \<Rightarrow> u32 \<Rightarrow> (u32 \<times> u32) option" where
  "sv32_walk r table1 vaddr =
     (let pte1 = load32 r (pte_addr table1 (vpn1 vaddr))
      in if pte1 AND PAGE_V = 0 then None
         else let pte0 = load32 r (pte_addr (pte_table pte1) (vpn0 vaddr))
           in if pte0 AND PAGE_V = 0 then None
              else Some (pte_table pte0, pte0 AND 0x3ff))"

lemma high_bits_zero: "unat (w :: u32) < 2 ^ k \<Longrightarrow> k \<le> n \<Longrightarrow> \<not> bit w n"
  by (metis bit_word_unat div_less even_zero less_le_trans one_le_numeral power_increasing)

lemma pte_table_mk_pte:
  assumes "paddr mod 4096 = 0" "unat flags < 1024"
  shows "pte_table (mk_pte paddr flags) = paddr" and "mk_pte paddr flags AND 0x3ff = flags"
proof -
  have f: "\<not> bit flags n" if "10 \<le> n" for n
    using high_bits_zero [of flags 10 n] assms(2) that by simp
  have "take_bit 12 paddr = 0" using assms(1) by (simp add: take_bit_eq_mod)
  then have p: "\<not> bit paddr n" if "n < 12" for n
    using that by (metis bit_0_eq bit_take_bit_iff bot_apply bot_bool_def)
  have mk: "mk_pte paddr flags = push_bit 10 (drop_bit 12 paddr) OR flags"
    by (simp add: mk_pte_def drop_bit_eq_div)
  have tb: "pte_table x = push_bit 12 (drop_bit 10 x)" for x
    by (simp add: pte_table_def push_bit_eq_mult)
  show "pte_table (mk_pte paddr flags) = paddr"
  proof (rule bit_word_eqI)
    fix n assume "n < LENGTH(32)"
    then show "bit (pte_table (mk_pte paddr flags)) n = bit paddr n"
      using f [of "10 + (n - 12)"] p [of n]
      by (cases "n < 12") (auto simp: tb mk bit_or_iff bit_push_bit_iff bit_drop_bit_eq)
  qed
  have m: "(0x3ff :: u32) = mask 10" by (simp add: mask_eq_exp_minus_1)
  show "mk_pte paddr flags AND 0x3ff = flags"
  proof (rule bit_word_eqI)
    fix n assume "n < LENGTH(32)"
    then show "bit (mk_pte paddr flags AND 0x3ff) n = bit flags n"
      unfolding m using f [of n]
      by (cases "n < 10") (auto simp: mk bit_or_iff bit_and_iff bit_push_bit_iff bit_mask_iff)
  qed
qed

lemma vpn_lt: "unat (vpn1 v) < 1024" "unat (vpn0 v) < 1024"
proof -
  have "unat (x AND 0x3ff :: u32) < 1024" for x
    using word_and_le1 [of x "0x3ff", THEN word_le_nat_alt [THEN iffD1]] by simp
  then show "unat (vpn1 v) < 1024" "unat (vpn0 v) < 1024"
    by (simp_all add: vpn1_def vpn0_def)
qed

lemma unat_pte_addr:
  assumes "unat table mod 4096 = 0" "unat i < 1024"
  shows "unat (pte_addr table i) = unat table + unat i * 4"
proof -
  have "unat table < 4294967296" using unat_lt [of table] by simp
  with assms have "unat table + unat i * 4 < 4294967296" by (intro aligned_add_lt [of _ 4096]) auto
  moreover have "unat (i * 4) = unat i * 4"
    using assms(2) by (simp add: unat_word_ariths)
  ultimately show ?thesis by (simp add: pte_addr_def unat_word_ariths)
qed

lemma pte_addr_inj:
  assumes "unat f mod 4096 = 0" "unat g mod 4096 = 0" "unat i < 1024" "unat j < 1024"
  shows "pte_addr f i = pte_addr g j \<longleftrightarrow> f = g \<and> i = j"
proof
  assume "pte_addr f i = pte_addr g j"
  then have e: "unat f + unat i * 4 = unat g + unat j * 4"
    using unat_pte_addr [OF assms(1,3)] unat_pte_addr [OF assms(2,4)] by simp
  obtain p q where "unat f = 4096 * p" "unat g = 4096 * q"
    using assms(1,2) by (auto elim!: dvdE)
  moreover have "p = q"
    using e assms(3,4) calculation by (cases p q rule: linorder_cases) auto
  ultimately show "f = g \<and> i = j" using e by (simp add: word_unat_eq_iff)
qed simp

lemma pte_addr_aligned:
  assumes "unat f mod 4096 = 0" "unat i < 1024"
  shows "unat (pte_addr f i) mod 4 = 0"
proof -
  obtain p where "unat f = 4096 * p" using assms(1) by (auto elim!: dvdE)
  then have "unat (pte_addr f i) = 4 * (1024 * p + unat i)"
    using unat_pte_addr [OF assms] by simp
  then show ?thesis by simp
qed

lemma load_store_pte:
  assumes "unat f mod 4096 = 0" "unat g mod 4096 = 0" "unat i < 1024" "unat j < 1024"
  shows "load32 (store32 r (pte_addr f i) v) (pte_addr g j) =
     (if f = g \<and> i = j then v else load32 r (pte_addr g j))"
  using load32_store32_other [of "pte_addr f i" "pte_addr g j" r v] pte_addr_inj [OF assms]
    pte_addr_aligned assms by auto

text \<open>Zeroing a frame clears its entries and leaves every other frame alone.\<close>

lemma in_frame_iff:
  fixes f g :: u32
  assumes "unat f mod 4096 = 0" "unat g mod 4096 = 0" "k < 4096"
  shows "unat (g + of_nat k - f) < 4096 \<longleftrightarrow> g = f"
proof
  assume lt: "unat (g + of_nat k - f) < 4096"
  obtain p q where pq: "unat f = 4096 * p" "unat g = 4096 * q"
    using assms(1,2) by (auto elim!: dvdE)
  have "unat (g - f) = 4096 * (if p \<le> q then q - p else q + 1048576 - p)"
    using pq by (simp add: unat_sub_if_size word_size diff_mult_distrib2)
  then obtain d where d: "unat (g - f) = 4096 * d" by blast
  have "unat (g - f) < 4294967296" using unat_lt [of "g - f"] by simp
  then have "unat (g - f) + k < 4294967296"
    using d assms(3) by (intro aligned_add_lt [of _ 4096]) auto
  then have "unat (w + of_nat k) = unat w + k" if "w = g - f" for w
    using assms(3) that by (simp add: unat_word_ariths unsigned_of_nat take_bit_nat_eq_self)
  moreover have "g + of_nat k - f = (g - f) + of_nat k" by simp
  ultimately have "unat (g + of_nat k - f) = 4096 * d + k"
    using d by metis
  with lt have "d = 0" by (cases d) auto
  then have "unat (g - f) = 0" using d by simp
  then show "g = f" by (simp add: unat_eq_zero)
next
  assume "g = f"
  then have "g + of_nat k - f = of_nat k" by simp
  with assms(3) show "unat (g + of_nat k - f) < 4096"
    by (simp add: unsigned_of_nat take_bit_nat_eq_self)
qed

lemma ram_fill_frame:
  assumes "unat f mod 4096 = 0" "unat g mod 4096 = 0" "unat i < 1024" "j < 4"
  shows "ram_fill r f 4096 v (pte_addr g i + of_nat j) =
     (if g = f then v else r (pte_addr g i + of_nat j))"
proof -
  have k: "unat i * 4 + j < 4096" using assms(3,4) by simp
  have eq: "pte_addr g i + of_nat j = g + of_nat (unat i * 4 + j)"
    by (simp add: pte_addr_def)
  have "unat (pte_addr g i + of_nat j - f) < 4096 \<longleftrightarrow> g = f"
    unfolding eq by (rule in_frame_iff [OF assms(1,2) k])
  then show ?thesis by (simp only: ram_fill_def)
qed

lemma load32_ram_fill:
  assumes "unat f mod 4096 = 0" "unat g mod 4096 = 0" "unat i < 1024"
  shows "load32 (ram_fill r f 4096 0) (pte_addr g i) = (if g = f then 0 else load32 r (pte_addr g i))"
  using ram_fill_frame [OF assms, of 0 r 0] ram_fill_frame [OF assms, of 1 r 0]
    ram_fill_frame [OF assms, of 2 r 0] ram_fill_frame [OF assms, of 3 r 0]
  by (simp add: load32_def)

section \<open>Correctness of map\_page\<close>

text \<open>
  A well-formed address space: its tables are distinct allocated frames.
\<close>

definition pt_wf :: "mem_state \<Rightarrow> u32 \<Rightarrow> bool" where
  "pt_wf m table1 \<longleftrightarrow> table1 \<in> used_frames m \<and>
     (\<forall>i. unat i < 1024 \<longrightarrow> load32 (ram m) (pte_addr table1 i) AND PAGE_V \<noteq> 0 \<longrightarrow>
        pte_table (load32 (ram m) (pte_addr table1 i)) \<in> used_frames m - {table1} \<and>
        (\<forall>j. unat j < 1024 \<longrightarrow> load32 (ram m) (pte_addr table1 j) AND PAGE_V \<noteq> 0 \<longrightarrow>
           pte_table (load32 (ram m) (pte_addr table1 i)) = pte_table (load32 (ram m) (pte_addr table1 j)) \<longrightarrow>
           i = j))"

lemma used_frame_aligned:
  assumes "mem_wf m" "f \<in> used_frames m"
  shows "unat f mod 4096 = 0"
proof -
  obtain i where i: "f = page_addr m i" "i < unat (managed_pages m)"
    using assms(2) by (auto simp: used_frames_def used_pages_def)
  then show ?thesis using unat_page_addr [OF assms(1) i(2)] assms(1) by (auto simp: mem_wf_def)
qed

lemma used_frames_ram [simp]: "used_frames (m\<lparr>ram := r\<rparr>) = used_frames m"
  by (simp add: used_frames_def used_pages_def page_addr_def)

lemma mem_wf_ram [simp]: "mem_wf (m\<lparr>ram := r\<rparr>) = mem_wf m"
  by (simp add: mem_wf_def)

lemma alloc_one_ram:
  assumes "mem_wf m" "alloc_pages 1 m = Ok (p, m')"
  shows "ram m' = ram_fill (ram m) p 4096 0"
  by (rule alloc_pages_Ok [OF assms]) simp

text \<open>The first-level entry after the optional allocation of a second-level table.\<close>

definition ensure_table :: "u32 \<Rightarrow> u32 \<Rightarrow> mem_state \<Rightarrow> mem_state kres" where
  "ensure_table table1 i m =
     (if load32 (ram m) (pte_addr table1 i) AND PAGE_V = 0
      then kbind (alloc_pages 1 m) (\<lambda>(pt_paddr, m).
        Ok (m\<lparr>ram := store32 (ram m) (pte_addr table1 i) (mk_pte pt_paddr PAGE_V)\<rparr>))
      else Ok m)"

lemma map_page_ensure:
  "map_page table1 vaddr paddr flags m =
     (if vaddr mod 4096 \<noteq> 0 then PANIC ''unaligned vaddr''
      else if paddr mod 4096 \<noteq> 0 then PANIC ''unaligned paddr''
      else kbind (ensure_table table1 (vpn1 vaddr) m)
        (\<lambda>m. Ok (m\<lparr>ram := store32 (ram m)
           (pte_addr (pte_table (load32 (ram m) (pte_addr table1 (vpn1 vaddr)))) (vpn0 vaddr))
           (mk_pte paddr (flags OR PAGE_V))\<rparr>)))"
  by (simp add: map_page_def ensure_table_def Let_def)

text \<open>The translation of the page with table indices \<open>i\<close> and \<open>j\<close>.\<close>

definition walk_entry :: "u32 \<Rightarrow> (u32 \<times> u32) option" where
  "walk_entry pte0 = (if pte0 AND PAGE_V = 0 then None else Some (pte_table pte0, pte0 AND 0x3ff))"

definition walk_at :: "(u32 \<Rightarrow> u8) \<Rightarrow> u32 \<Rightarrow> u32 \<Rightarrow> u32 \<Rightarrow> (u32 \<times> u32) option" where
  "walk_at r table1 i j =
     (let pte1 = load32 r (pte_addr table1 i)
      in if pte1 AND PAGE_V = 0 then None else walk_entry (load32 r (pte_addr (pte_table pte1) j)))"

lemma sv32_walk_at: "sv32_walk r table1 v = walk_at r table1 (vpn1 v) (vpn0 v)"
  by (simp add: sv32_walk_def walk_at_def walk_entry_def Let_def)

lemma pt_wfD:
  assumes "pt_wf m t" "unat i < 1024" "load32 (ram m) (pte_addr t i) AND PAGE_V \<noteq> 0"
  shows "t \<in> used_frames m" "pte_table (load32 (ram m) (pte_addr t i)) \<in> used_frames m"
    "pte_table (load32 (ram m) (pte_addr t i)) \<noteq> t"
  using assms by (auto simp: pt_wf_def)

lemma pt_wf_inj:
  assumes "pt_wf m t" "unat i < 1024" "unat j < 1024" "load32 (ram m) (pte_addr t i) AND PAGE_V \<noteq> 0"
    "load32 (ram m) (pte_addr t j) AND PAGE_V \<noteq> 0"
    "pte_table (load32 (ram m) (pte_addr t i)) = pte_table (load32 (ram m) (pte_addr t j))"
  shows "i = j"
  using assms unfolding pt_wf_def by blast

lemma mod_4096_unat: "unat (f :: u32) mod 4096 = 0 \<Longrightarrow> f mod 4096 = 0"
  using unat_mod_numeral [of f] by (simp add: unat_eq_zero [symmetric] del: unat_eq_zero)

lemma PAGE_V_odd: "(x :: u32) AND PAGE_V \<noteq> 0 \<longleftrightarrow> odd x"
  by (simp add: PAGE_V_def and_one_eq mod_2_eq_odd)

lemma odd_mk_pte: "odd (mk_pte paddr flags) \<longleftrightarrow> odd flags"
  by (simp add: mk_pte_def even_or_iff)

lemma ensure_table_existing:
  "load32 (ram m) (pte_addr t i) AND PAGE_V \<noteq> 0 \<Longrightarrow> ensure_table t i m = Ok m"
  by (simp add: ensure_table_def)

text \<open>A new second-level table: every entry of the page directory but \<open>i\<close> and every entry of the
  existing tables stay, entry \<open>i\<close> points to a zeroed fresh frame.\<close>

lemma ensure_table_new:
  assumes wf: "mem_wf m" and pt: "pt_wf m t" and i: "unat i < 1024"
    and none: "load32 (ram m) (pte_addr t i) AND PAGE_V = 0"
    and ok: "ensure_table t i m = Ok m'"
  obtains p where "p \<notin> used_frames m" "used_frames m' = insert p (used_frames m)" "mem_wf m'"
    "load32 (ram m') (pte_addr t i) AND PAGE_V \<noteq> 0"
    "pte_table (load32 (ram m') (pte_addr t i)) = p"
    "\<And>j. unat j < 1024 \<Longrightarrow> load32 (ram m') (pte_addr p j) = 0"
    "\<And>g j. g \<in> used_frames m \<Longrightarrow> unat j < 1024 \<Longrightarrow> (g, j) \<noteq> (t, i) \<Longrightarrow>
       load32 (ram m') (pte_addr g j) = load32 (ram m) (pte_addr g j)"
proof -
  obtain p m1 where a: "alloc_pages 1 m = Ok (p, m1)"
    and m': "m' = m1\<lparr>ram := store32 (ram m1) (pte_addr t i) (mk_pte p PAGE_V)\<rparr>"
    using ok none by (auto simp: ensure_table_def kbind_Ok_iff)
  have f: "p \<notin> used_frames m" "used_frames m1 = insert p (used_frames m)" "mem_wf m1"
    using frames.alloc_fresh [OF wf a] by auto
  have r: "ram m1 = ram_fill (ram m) p 4096 0" by (rule alloc_one_ram [OF wf a])
  have t: "t \<in> used_frames m" using pt by (simp add: pt_wf_def)
  have ap: "unat p mod 4096 = 0" using used_frame_aligned [OF f(3), of p] f(2) by simp
  have al: "unat g mod 4096 = 0" if "g \<in> used_frames m" for g
    using used_frame_aligned [OF wf that] .
  have pt': "load32 (ram m') (pte_addr t i) = mk_pte p PAGE_V" by (simp add: m')
  have "odd (mk_pte p PAGE_V)" by (simp add: odd_mk_pte PAGE_V_def)
  then have 1: "load32 (ram m') (pte_addr t i) AND PAGE_V \<noteq> 0" by (simp add: pt' PAGE_V_odd)
  have 2: "pte_table (load32 (ram m') (pte_addr t i)) = p"
    unfolding pt' by (rule pte_table_mk_pte) (simp_all add: mod_4096_unat [OF ap] PAGE_V_def)
  have 3: "load32 (ram m') (pte_addr p j) = 0" if j: "unat j < 1024" for j
    using load_store_pte [OF al [OF t] ap i j] load32_ram_fill [OF ap ap j] t f(1)
    by (auto simp: m' r)
  have 4: "load32 (ram m') (pte_addr g j) = load32 (ram m) (pte_addr g j)"
    if g: "g \<in> used_frames m" and j: "unat j < 1024" and ne: "(g, j) \<noteq> (t, i)" for g j
    using load_store_pte [OF al [OF t] al [OF g] i j] load32_ram_fill [OF ap al [OF g] j] g f(1) ne
    by (auto simp: m' r)
  show thesis by (rule that [OF f(1) _ _ 1 2 3 4]) (use f m' in simp_all)
qed

lemma ensure_table_correct:
  assumes wf: "mem_wf m" and pt: "pt_wf m t" and i: "unat i < 1024"
    and ok: "ensure_table t i m = Ok m'"
  shows "mem_wf m'" "pt_wf m' t" "load32 (ram m') (pte_addr t i) AND PAGE_V \<noteq> 0"
    and "\<And>k j. unat k < 1024 \<Longrightarrow> unat j < 1024 \<Longrightarrow> walk_at (ram m') t k j = walk_at (ram m) t k j"
proof -
  have "mem_wf m' \<and> pt_wf m' t \<and> load32 (ram m') (pte_addr t i) AND PAGE_V \<noteq> 0 \<and>
    (\<forall>k j. unat k < 1024 \<longrightarrow> unat j < 1024 \<longrightarrow> walk_at (ram m') t k j = walk_at (ram m) t k j)"
  proof (cases "load32 (ram m) (pte_addr t i) AND PAGE_V = 0")
    case False
    then show ?thesis using ensure_table_existing [OF False] assms by simp
  next
    case True
    obtain p where p: "p \<notin> used_frames m" "used_frames m' = insert p (used_frames m)" "mem_wf m'"
      "load32 (ram m') (pte_addr t i) AND PAGE_V \<noteq> 0"
      "pte_table (load32 (ram m') (pte_addr t i)) = p"
      and z: "\<And>j. unat j < 1024 \<Longrightarrow> load32 (ram m') (pte_addr p j) = 0"
      and o: "\<And>g j. g \<in> used_frames m \<Longrightarrow> unat j < 1024 \<Longrightarrow> (g, j) \<noteq> (t, i) \<Longrightarrow>
         load32 (ram m') (pte_addr g j) = load32 (ram m) (pte_addr g j)"
      using ensure_table_new [OF wf pt i True ok] by metis
    have t: "t \<in> used_frames m" using pt by (simp add: pt_wf_def)
    have d: "load32 (ram m') (pte_addr t k) = load32 (ram m) (pte_addr t k)"
      if "unat k < 1024" "k \<noteq> i" for k using o [OF t that(1)] that(2) by simp
    have "walk_at (ram m') t k j = walk_at (ram m) t k j" if k: "unat k < 1024" "unat j < 1024" for k j
    proof (cases "k = i")
      case True
      then show ?thesis
        using p(4,5) z [OF k(2)] \<open>load32 (ram m) (pte_addr t i) AND PAGE_V = 0\<close>
        by (simp add: walk_at_def walk_entry_def Let_def)
    next
      case False
      then show ?thesis
        using d [OF k(1)] o [OF _ k(2)] pt_wfD [OF pt k(1)] by (auto simp: walk_at_def Let_def)
    qed
    moreover have "pt_wf m' t"
      unfolding pt_wf_def
    proof (intro conjI allI impI)
      show "t \<in> used_frames m'" using t p(2) by simp
    next
      fix k assume k: "unat k < 1024" "load32 (ram m') (pte_addr t k) AND PAGE_V \<noteq> 0"
      show "pte_table (load32 (ram m') (pte_addr t k)) \<in> used_frames m' - {t}"
        using k d [OF k(1)] p(1,2,5) t pt_wfD [OF pt k(1)] by (cases "k = i") auto
    next
      fix k j assume k: "unat k < 1024" "load32 (ram m') (pte_addr t k) AND PAGE_V \<noteq> 0"
        and j: "unat j < 1024" "load32 (ram m') (pte_addr t j) AND PAGE_V \<noteq> 0"
        and e: "pte_table (load32 (ram m') (pte_addr t k)) = pte_table (load32 (ram m') (pte_addr t j))"
      have "k = i \<Longrightarrow> j \<noteq> i \<Longrightarrow> False" using e p(1,5) d [OF j(1)] pt_wfD [OF pt j(1)] j(2) by auto
      moreover have "k \<noteq> i \<Longrightarrow> j = i \<Longrightarrow> False"
        using e p(1,5) d [OF k(1)] pt_wfD [OF pt k(1)] k(2) by auto
      moreover have "k \<noteq> i \<Longrightarrow> j \<noteq> i \<Longrightarrow> k = j"
        using e d [OF k(1)] d [OF j(1)] pt_wf_inj [OF pt k(1) j(1)] k(2) j(2) by auto
      ultimately show "k = j" by blast
    qed
    ultimately show ?thesis using p(3,4) by blast
  qed
  then show "mem_wf m'" "pt_wf m' t" "load32 (ram m') (pte_addr t i) AND PAGE_V \<noteq> 0"
    and "\<And>k j. unat k < 1024 \<Longrightarrow> unat j < 1024 \<Longrightarrow> walk_at (ram m') t k j = walk_at (ram m) t k j"
    by blast+
qed

lemma vpn_page_eq:
  assumes "v mod 4096 = 0" "w mod 4096 = 0" "vpn1 v = vpn1 w" "vpn0 v = vpn0 w"
  shows "v = w"
proof (rule bit_word_eqI)
  fix n assume n: "n < LENGTH(32)"
  have m: "(0x3ff :: u32) = mask 10" by (simp add: mask_eq_exp_minus_1)
  have lo: "\<not> bit x k" if "x mod 4096 = 0" "k < 12" for x :: u32 and k
  proof -
    have "take_bit 12 x = 0" using that(1) by (simp add: take_bit_eq_mod)
    then show ?thesis using that(2) by (metis bit_0_eq bit_take_bit_iff bot_apply bot_bool_def)
  qed
  have b0: "bit (vpn0 x) (n - 12) = bit x n" if "12 \<le> n" "n < 22" for x
    using that by (auto simp: vpn0_def m bit_and_iff bit_drop_bit_eq bit_mask_iff)
  have b1: "bit (vpn1 x) (n - 22) = bit x n" if "22 \<le> n" "n < 32" for x
    using that by (auto simp: vpn1_def m bit_and_iff bit_drop_bit_eq bit_mask_iff)
  consider "n < 12" | "12 \<le> n" "n < 22" | "22 \<le> n" "n < 32" using n by fastforce
  then show "bit v n = bit w n"
  proof cases
    case 1
    then show ?thesis using lo [OF assms(1)] lo [OF assms(2)] by blast
  next
    case 2
    then show ?thesis using b0 [of v] b0 [of w] assms(4) by metis
  next
    case 3
    then show ?thesis using b1 [of v] b1 [of w] assms(3) by metis
  qed
qed

text \<open>The store of the leaf entry into an existing table.\<close>

lemma store_leaf:
  assumes wf: "mem_wf m" and pt: "pt_wf m t" and i: "unat i < 1024" and j: "unat j < 1024"
    and v: "load32 (ram m) (pte_addr t i) AND PAGE_V \<noteq> 0"
    and r: "r = store32 (ram m) (pte_addr (pte_table (load32 (ram m) (pte_addr t i))) j) e"
  shows "walk_at r t i j = walk_entry e" "pt_wf (m\<lparr>ram := r\<rparr>) t"
    and "\<And>i' j'. unat i' < 1024 \<Longrightarrow> unat j' < 1024 \<Longrightarrow> (i', j') \<noteq> (i, j) \<Longrightarrow>
       walk_at r t i' j' = walk_at (ram m) t i' j'"
proof -
  let ?t0 = "pte_table (load32 (ram m) (pte_addr t i))"
  note t0 = pt_wfD [OF pt i v]
  have al: "unat g mod 4096 = 0" if "g \<in> used_frames m" for g
    using used_frame_aligned [OF wf that] .
  have st: "load32 r (pte_addr g k) = (if ?t0 = g \<and> j = k then e else load32 (ram m) (pte_addr g k))"
    if "g \<in> used_frames m" "unat k < 1024" for g k
    unfolding r by (rule load_store_pte [OF al al j that(2)]) (use t0 that in auto)
  have root: "load32 r (pte_addr t k) = load32 (ram m) (pte_addr t k)" if "unat k < 1024" for k
    using st [OF t0(1) that] t0(3) by simp
  show "walk_at r t i j = walk_entry e"
    using v st [OF t0(2) j] by (simp add: walk_at_def root [OF i])
  show "pt_wf (m\<lparr>ram := r\<rparr>) t" using pt unfolding pt_wf_def by (simp add: root)
  fix i' j' assume i': "unat i' < 1024" and j': "unat j' < 1024" and ne: "(i', j') \<noteq> (i, j)"
  show "walk_at r t i' j' = walk_at (ram m) t i' j'"
  proof (cases "load32 (ram m) (pte_addr t i') AND PAGE_V = 0")
    case False
    note s = st [OF pt_wfD(2) [OF pt i' False] j']
    have "\<not> (?t0 = pte_table (load32 (ram m) (pte_addr t i')) \<and> j = j')"
      using ne pt_wf_inj [OF pt i i' v False] by auto
    then show ?thesis using s False by (auto simp: walk_at_def root [OF i'] Let_def)
  qed (simp add: walk_at_def root [OF i'])
qed

lemma unat_or_lt: "unat a < 2 ^ k \<Longrightarrow> unat b < 2 ^ k \<Longrightarrow> unat (a OR b :: 'a::len word) < 2 ^ k"
  by (metis or_nat_def less_2_cases_iff unsigned_or_eq take_bit_nat_eq_self_iff take_bit_or)

lemma map_page_result:
  assumes wf: "mem_wf m" and pt: "pt_wf m t" and fl: "unat flags < 1024"
    and ok: "map_page t vaddr paddr flags m = Ok m'"
  shows "mem_wf m'" "pt_wf m' t" "sv32_walk (ram m') t vaddr = Some (paddr, flags OR PAGE_V)"
    and "\<And>v. v mod 4096 = 0 \<Longrightarrow> v \<noteq> vaddr \<Longrightarrow> sv32_walk (ram m') t v = sv32_walk (ram m) t v"
proof -
  have al: "vaddr mod 4096 = 0" "paddr mod 4096 = 0"
    using ok by (auto simp: map_page_ensure split: if_splits)
  let ?e = "mk_pte paddr (flags OR PAGE_V)"
  obtain m1 where m1: "ensure_table t (vpn1 vaddr) m = Ok m1"
    and m': "m' = m1\<lparr>ram := store32 (ram m1)
           (pte_addr (pte_table (load32 (ram m1) (pte_addr t (vpn1 vaddr)))) (vpn0 vaddr)) ?e\<rparr>"
    using ok by (auto simp: map_page_ensure kbind_Ok_iff split: if_splits)
  note en = ensure_table_correct [OF wf pt vpn_lt(1) m1]
  have r: "ram m' = store32 (ram m1)
      (pte_addr (pte_table (load32 (ram m1) (pte_addr t (vpn1 vaddr)))) (vpn0 vaddr)) ?e"
    by (simp add: m')
  note sl = store_leaf [OF en(1,2) vpn_lt(1) vpn_lt(2) en(3) r]
  show "mem_wf m'" using en(1) by (simp add: m')
  have "m' = m1\<lparr>ram := ram m'\<rparr>" by (simp add: m')
  then show "pt_wf m' t" using sl(2) by metis
  have f: "unat (flags OR PAGE_V) < 1024"
    using unat_or_lt [of flags 10 PAGE_V] fl by (simp add: PAGE_V_def)
  have "?e AND PAGE_V \<noteq> 0" unfolding PAGE_V_odd odd_mk_pte by (simp add: PAGE_V_def even_or_iff)
  then show "sv32_walk (ram m') t vaddr = Some (paddr, flags OR PAGE_V)"
    using sl(1) pte_table_mk_pte [OF al(2) f] by (simp add: sv32_walk_at walk_entry_def)
  fix v :: u32 assume "v mod 4096 = 0" "v \<noteq> vaddr"
  then have "(vpn1 v, vpn0 v) \<noteq> (vpn1 vaddr, vpn0 vaddr)"
    using vpn_page_eq [of v vaddr, OF _ al(1)] by (metis prod.inject)
  then show "sv32_walk (ram m') t v = sv32_walk (ram m) t v"
    unfolding sv32_walk_at using sl(3) [OF vpn_lt(1,2)] en(4) [OF vpn_lt(1,2)] by simp
qed

section \<open>Properties\<close>

text \<open>A page directory in the only used page of a small memory.\<close>

definition one_table :: mem_state where
  "one_table = \<lparr>page_bitmap = (\<lambda>_. 0)(0 := 1), managed_base = 0x80201000, managed_pages = 4,
     memory_initialized = True, ram = \<lambda>_. 0\<rparr>"

lemma one_table_wf: "mem_wf one_table" "pt_wf one_table 0x80201000"
proof -
  show "mem_wf one_table" by (simp add: mem_wf_def one_table_def)
  have "0 \<in> used_pages one_table" by (simp add: used_pages_def one_table_def bitmap_test_def)
  moreover have "page_addr one_table 0 = 0x80201000" by (simp add: page_addr_def one_table_def)
  ultimately have "0x80201000 \<in> used_frames one_table" by (metis used_frames_def imageI)
  moreover have "load32 (ram one_table) a = 0" for a by (simp add: load32_def one_table_def)
  ultimately show "pt_wf one_table 0x80201000" by (simp add: pt_wf_def)
qed

text \<open>C16: After \<open>map_page\<close> the hardware walk translates the mapped page to the given frame with the given flags and
  the valid bit, every other page translates as before, and the tables stay distinct allocated frames.\<close>

theorem map_page_maps_one_page:
  assumes "mem_wf m" "pt_wf m table1" "unat flags < 1024" "map_page table1 vaddr paddr flags m = Ok m'"
  shows "mem_wf m' \<and> pt_wf m' table1 \<and> sv32_walk (ram m') table1 vaddr = Some (paddr, flags OR PAGE_V) \<and>
    (\<forall>v. v mod 4096 = 0 \<longrightarrow> v \<noteq> vaddr \<longrightarrow> sv32_walk (ram m') table1 v = sv32_walk (ram m) table1 v)"
  using map_page_result [OF assms] by blast

theorem map_page_maps_one_page_witness:
  "\<exists>m'. map_page 0x80201000 0x1000000 0x80203000 (PAGE_U OR PAGE_R) one_table = Ok m' \<and>
     sv32_walk (ram m') 0x80201000 0x1000000 = Some (0x80203000, PAGE_U OR PAGE_R OR PAGE_V)"
proof -
  have "free_run (page_bitmap one_table) 1 1" by (simp add: free_run_def one_table_def bitmap_test_def)
  then have "returns (alloc_pages 1 one_table)"
    unfolding alloc_pages_returns_iff [OF one_table_wf(1)] by (auto simp: one_table_def intro!: exI [of _ 1])
  then obtain p m1 where "alloc_pages 1 one_table = Ok (p, m1)" by (auto simp: returns_iff)
  moreover have "load32 (ram one_table) a = 0" for a by (simp add: load32_def one_table_def)
  ultimately obtain m' where m: "map_page 0x80201000 0x1000000 0x80203000 (PAGE_U OR PAGE_R) one_table = Ok m'"
    by (simp add: map_page_def Let_def)
  have "unat (PAGE_U OR PAGE_R) < 1024" by (simp add: PAGE_U_def PAGE_R_def)
  then show ?thesis using m map_page_maps_one_page [OF one_table_wf _ m] by (simp add: or.assoc)
qed

end
