(* ===== verification/ProcMem.thy ===== *)
theory ProcMem
  imports Paging
begin

text \<open>
  The address space of a process (src/kernel/proc/process.c): the identity mappings of the kernel and the
  devices, loading a program image, copying the user pages for fork, and tearing a space down. These are the
  loops of \<open>create_process\<close>, \<open>process_fork\<close>, \<open>process_exec\<close>, \<open>free_process_memory\<close> and \<open>free_user_pages_only\<close>
  over the page tables, on the physical memory alone; the process table is in the theory Process.

  The loops call \<open>alloc_pages\<close>, \<open>free_pages\<close> and \<open>map_page\<close>, any of which can panic.
\<close>

section \<open>Definitions\<close>

definition USER_BASE :: u32 where [hdr_consts]: "USER_BASE = 0x1000000"
definition MMIO_BASE :: u32 where [hdr_consts]: "MMIO_BASE = 0x10000000"
definition MMIO_END :: u32 where [hdr_consts]: "MMIO_END = 0x10010000"
definition RTC_MMIO_BASE :: u32 where [hdr_consts]: "RTC_MMIO_BASE = 0x00101000"
definition RTC_MMIO_END :: u32 where [hdr_consts]: "RTC_MMIO_END = 0x00102000"

text \<open>
  The addresses of a loop \<open>for (p = a; p < b; p += PAGE_SIZE)\<close>. The equations \<open>page_range_step\<close> and
  \<open>page_range_stop\<close> are the ones of the loop as long as \<open>p + PAGE_SIZE\<close> does not wrap.
\<close>

definition page_range :: "u32 \<Rightarrow> u32 \<Rightarrow> u32 list" where
  "page_range a b = map (\<lambda>i. a + of_nat i * 4096) [0 ..< (unat b - unat a + 4095) div 4096]"

lemma page_range_stop: "\<not> a < b \<Longrightarrow> page_range a b = []"
  by (simp add: page_range_def word_less_nat_alt)

lemma page_range_step:
  assumes "a < b" "unat a + 4096 < 2 ^ 32"
  shows "page_range a b = a # page_range (a + 4096) b"
proof -
  let ?n = "(unat b - unat a + 4095) div 4096"
  have u: "unat (a + 4096) = unat a + 4096"
    using assms(2) by (simp add: unat_word_ariths)
  have n: "?n = Suc ((unat b - unat (a + 4096) + 4095) div 4096)"
    unfolding u using assms(1) unfolding word_less_nat_alt by (cases "unat a + 4096 \<le> unat b") auto
  have e: "[0 ..< Suc k] = 0 # map Suc [0 ..< k]" for k
    by (simp add: upt_conv_Cons map_Suc_upt del: upt_Suc)
  have "a + of_nat (Suc i) * 4096 = a + 4096 + of_nat i * 4096" for i
    by (simp add: distrib_right)
  then show ?thesis
    unfolding page_range_def n e list.map map_map o_def by (simp del: of_nat_Suc)
qed

fun map_range :: "u32 \<Rightarrow> u32 \<Rightarrow> u32 list \<Rightarrow> mem_state \<Rightarrow> mem_state kres" where
  "map_range t flags [] m = Ok m"
| "map_range t flags (p # ps) m = kbind (map_page t p p flags m) (map_range t flags ps)"

text \<open>The three mapping loops that \<open>create_process\<close> and \<open>process_fork\<close> start with.\<close>

definition map_kernel :: "u32 \<Rightarrow> u32 \<Rightarrow> u32 \<Rightarrow> mem_state \<Rightarrow> mem_state kres" where
  "map_kernel t kernel_base free_ram_end m =
     kbind (map_range t (PAGE_R OR PAGE_W OR PAGE_X) (page_range kernel_base free_ram_end) m) (\<lambda>m.
     kbind (map_range t (PAGE_R OR PAGE_W) (page_range MMIO_BASE MMIO_END) m) (\<lambda>m.
     map_range t (PAGE_R OR PAGE_W) (page_range RTC_MMIO_BASE RTC_MMIO_END) m))"

text \<open>\<open>memcpy\<close> to physical memory.\<close>

definition ram_write :: "(u32 \<Rightarrow> u8) \<Rightarrow> u32 \<Rightarrow> u8 list \<Rightarrow> (u32 \<Rightarrow> u8)" where
  "ram_write r a xs = (\<lambda>x. if unat (x - a) < length xs then xs ! unat (x - a) else r x)"

definition ram_read :: "(u32 \<Rightarrow> u8) \<Rightarrow> u32 \<Rightarrow> nat \<Rightarrow> u8 list" where
  "ram_read r a n = map (\<lambda>k. r (a + of_nat k)) [0 ..< n]"

text \<open>
  The image is copied page by page; \<open>va\<close> is \<open>USER_BASE + off\<close> and \<open>img\<close> the part from \<open>off\<close> on. The loop of
  \<open>process_exec\<close> also tests the allocated address against 0 and gives up then (\<open>None\<close> below).
\<close>

function load_image :: "u32 \<Rightarrow> u32 \<Rightarrow> u8 list \<Rightarrow> mem_state \<Rightarrow> mem_state kres" where
  "load_image t va img m =
     (if img = [] then Ok m
      else kbind (alloc_pages 1 m) (\<lambda>(page, m).
        kbind (map_page t va page (PAGE_U OR PAGE_R OR PAGE_W OR PAGE_X)
                 (m\<lparr>ram := ram_write (ram m) page (take 4096 img)\<rparr>))
          (load_image t (va + 4096) (drop 4096 img))))"
  by pat_completeness auto
termination
  by (relation "measure (\<lambda>(t, va, img, m). length img)") auto

declare load_image.simps [simp del]

function exec_load_image :: "u32 \<Rightarrow> u32 \<Rightarrow> u8 list \<Rightarrow> mem_state \<Rightarrow> (bool \<times> mem_state) kres" where
  "exec_load_image t va img m =
     (if img = [] then Ok (True, m)
      else kbind (alloc_pages 1 m) (\<lambda>(page, m).
        if page = 0 then Ok (False, m)
        else kbind (map_page t va page (PAGE_U OR PAGE_R OR PAGE_W OR PAGE_X)
                 (m\<lparr>ram := ram_write (ram m) page (take 4096 img)\<rparr>))
          (exec_load_image t (va + 4096) (drop 4096 img))))"
  by pat_completeness auto
termination
  by (relation "measure (\<lambda>(t, va, img, m). length img)") auto

declare exec_load_image.simps [simp del]

definition image_pages :: "u8 list \<Rightarrow> u32" where
  "image_pages img = (of_nat (length img) + 4096 - 1) div 4096"

text \<open>The copy of the user pages for fork; the flag is False where the code goes to \<open>fail\<close>.\<close>

definition user_va :: "nat \<Rightarrow> u32" where
  "user_va i = USER_BASE + of_nat i * 4096"

fun copy_pages :: "u32 \<Rightarrow> u32 \<Rightarrow> nat \<Rightarrow> nat \<Rightarrow> mem_state \<Rightarrow> (bool \<times> mem_state) kres" where
  "copy_pages pt1 child_table i 0 m = Ok (True, m)"
| "copy_pages pt1 child_table i (Suc n) m =
     (let vaddr = user_va i;
          pte1 = load32 (ram m) (pte_addr pt1 (vpn1 vaddr))
      in if pte1 AND PAGE_V = 0 then Ok (False, m)
         else
           let pt0 = pte_table pte1;
               pte0 = load32 (ram m) (pte_addr pt0 (vpn0 vaddr))
           in if pte0 AND PAGE_V = 0 then Ok (False, m)
              else
                let parent_page = pte_table pte0
                in kbind (alloc_pages 1 m) (\<lambda>(child_page, m).
                     if child_page = 0 then Ok (False, m)
                     else
                       let m = m\<lparr>ram := ram_write (ram m) child_page (ram_read (ram m) parent_page 4096)\<rparr>;
                           flags = (load32 (ram m) (pte_addr pt0 (vpn0 vaddr)) AND 0x3ff) AND NOT PAGE_V
                       in kbind (map_page child_table vaddr child_page flags m)
                            (copy_pages pt1 child_table (Suc i) n)))"

text \<open>The loop over the user pages of \<open>free_process_memory\<close> and \<open>free_user_pages_only\<close>.\<close>

fun free_user_pages :: "u32 \<Rightarrow> nat \<Rightarrow> nat \<Rightarrow> mem_state \<Rightarrow> mem_state kres" where
  "free_user_pages table1 i 0 m = Ok m"
| "free_user_pages table1 i (Suc n) m =
     (let vaddr = user_va i;
          pte1 = load32 (ram m) (pte_addr table1 (vpn1 vaddr))
      in if pte1 AND PAGE_V = 0 then free_user_pages table1 (Suc i) n m
         else
           let table0 = pte_table pte1;
               pte0 = load32 (ram m) (pte_addr table0 (vpn0 vaddr))
           in if pte0 AND PAGE_V = 0 then free_user_pages table1 (Suc i) n m
              else kbind (free_pages (pte_table pte0) 1 m) (\<lambda>m.
                free_user_pages table1 (Suc i) n
                  (m\<lparr>ram := store32 (ram m) (pte_addr table0 (vpn0 vaddr)) 0\<rparr>)))"

fun free_tables :: "u32 \<Rightarrow> nat \<Rightarrow> nat \<Rightarrow> mem_state \<Rightarrow> mem_state kres" where
  "free_tables table1 i 0 m = Ok m"
| "free_tables table1 i (Suc n) m =
     (let pte1 = load32 (ram m) (pte_addr table1 (of_nat i))
      in if pte1 AND PAGE_V = 0 then free_tables table1 (Suc i) n m
         else kbind (free_pages (pte_table pte1) 1 m) (\<lambda>m.
           free_tables table1 (Suc i) n (m\<lparr>ram := store32 (ram m) (pte_addr table1 (of_nat i)) 0\<rparr>)))"

definition free_space :: "u32 \<Rightarrow> u32 \<Rightarrow> mem_state \<Rightarrow> mem_state kres" where
  "free_space table1 user_pages m =
     kbind (free_user_pages table1 0 (unat user_pages) m) (\<lambda>m.
     kbind (free_tables table1 0 1024 m) (free_pages table1 1))"

end
