(* ===== verification/AddrSpace.thy ===== *)
theory AddrSpace
  imports ProcMem
begin

text \<open>
  Correctness of the address spaces that the loops of ProcMem build, copy and tear down. \<open>tables\<close> are the frames of
  a page table; \<open>extends\<close> says that one memory state comes from another by allocating frames and writing only to
  the page table and to newly allocated frames. Every building loop extends the memory, so that what other spaces
  and the kernel hold in their frames is untouched; tearing down gives back exactly what was allocated.
\<close>

lemma unat_of_nat32: "n < 2 ^ 32 \<Longrightarrow> unat (of_nat n :: u32) = n"
  by (simp add: unsigned_of_nat take_bit_nat_eq_self)

section \<open>Frames that a write does not touch\<close>

definition frame_eq :: "(u32 \<Rightarrow> u8) \<Rightarrow> (u32 \<Rightarrow> u8) \<Rightarrow> u32 \<Rightarrow> bool" where
  "frame_eq r r' g \<longleftrightarrow> (\<forall>k < 4096. r' (g + of_nat k) = r (g + of_nat k))"

lemma frame_eq_refl [simp]: "frame_eq r r g" by (simp add: frame_eq_def)

lemma frame_eq_trans: "frame_eq r r' g \<Longrightarrow> frame_eq r' r'' g \<Longrightarrow> frame_eq r r'' g" by (simp add: frame_eq_def)

lemma frame_offset_eq:
  fixes f g :: u32
  assumes "unat f mod 4096 = 0" "unat g mod 4096 = 0" "j < 4096" "k < 4096" "g + of_nat k = f + of_nat j"
  shows "g = f"
proof -
  have "g + of_nat k - f = of_nat j" by (simp add: assms(5))
  then have "unat (g + of_nat k - f) < 4096"
    using assms(3) by (simp add: unsigned_of_nat take_bit_nat_eq_self)
  then show ?thesis using in_frame_iff [OF assms(1,2,4)] by blast
qed

lemma load32_frame_eq:
  assumes "frame_eq r r' g" "unat i < 1024"
  shows "load32 r' (pte_addr g i) = load32 r (pte_addr g i)"
proof -
  have "r' (pte_addr g i + of_nat j) = r (pte_addr g i + of_nat j)" if "j < 4" for j
  proof -
    have "pte_addr g i + of_nat j = g + of_nat (unat i * 4 + j)" by (simp add: pte_addr_def)
    moreover have "unat i * 4 + j < 4096" using assms(2) that by simp
    ultimately show ?thesis using assms(1) by (metis frame_eq_def)
  qed
  from this [of 0] this [of 1] this [of 2] this [of 3] show ?thesis by (simp add: load32_def)
qed

lemma store32_frame_eq:
  assumes "unat f mod 4096 = 0" "unat g mod 4096 = 0" "unat i < 1024" "g \<noteq> f"
  shows "frame_eq r (store32 r (pte_addr f i) v) g"
  unfolding frame_eq_def
proof (intro allI impI)
  fix k :: nat assume k: "k < 4096"
  have "g + of_nat k \<noteq> pte_addr f i + of_nat j" if "j < 4" for j
  proof
    assume e: "g + of_nat k = pte_addr f i + of_nat j"
    have "pte_addr f i + of_nat j = f + of_nat (unat i * 4 + j)" by (simp add: pte_addr_def)
    then have "g = f" using e assms(3) that by (intro frame_offset_eq [OF assms(1,2) _ k, of "unat i * 4 + j"]) simp_all
    then show False using assms(4) by simp
  qed
  from this [of 0] this [of 1] this [of 2] this [of 3]
  show "store32 r (pte_addr f i) v (g + of_nat k) = r (g + of_nat k)" by (simp add: store32_def)
qed

lemma ram_fill_frame_eq:
  assumes "unat f mod 4096 = 0" "unat g mod 4096 = 0" "g \<noteq> f"
  shows "frame_eq r (ram_fill r f 4096 v) g"
  using in_frame_iff [OF assms(1,2)] assms(3) by (simp add: frame_eq_def ram_fill_def)

lemma ram_write_frame_eq:
  assumes "unat f mod 4096 = 0" "unat g mod 4096 = 0" "g \<noteq> f" "length xs \<le> 4096"
  shows "frame_eq r (ram_write r f xs) g"
  unfolding frame_eq_def ram_write_def
proof (intro allI impI)
  fix k :: nat assume "k < 4096"
  then have "\<not> unat (g + of_nat k - f) < 4096" using in_frame_iff [OF assms(1,2)] assms(3) by blast
  then show "(if unat (g + of_nat k - f) < length xs then xs ! unat (g + of_nat k - f) else r (g + of_nat k)) = r (g + of_nat k)"
    using assms(4) by simp
qed

lemma ram_write_at:
  assumes "k < 4096"
  shows "ram_write r f xs (f + of_nat k) = (if k < length xs then xs ! k else r (f + of_nat k))"
  using assms by (simp add: ram_write_def unsigned_of_nat take_bit_nat_eq_self)

section \<open>The frames of a page table\<close>

definition valid_entries :: "mem_state \<Rightarrow> u32 \<Rightarrow> u32 set" where
  "valid_entries m t = {i. unat i < 1024 \<and> load32 (ram m) (pte_addr t i) AND PAGE_V \<noteq> 0}"

definition tables :: "mem_state \<Rightarrow> u32 \<Rightarrow> u32 set" where
  "tables m t = insert t ((\<lambda>i. pte_table (load32 (ram m) (pte_addr t i))) ` valid_entries m t)"

lemma tables_used: "pt_wf m t \<Longrightarrow> tables m t \<subseteq> used_frames m"
  by (auto simp: tables_def valid_entries_def pt_wf_def)

lemma tables_memI:
  "unat i < 1024 \<Longrightarrow> load32 (ram m) (pte_addr t i) AND PAGE_V \<noteq> 0 \<Longrightarrow> pte_table (load32 (ram m) (pte_addr t i)) \<in> tables m t"
  by (auto simp: tables_def valid_entries_def)

text \<open>A page table whose frames are not written stays as it is.\<close>

lemma same_tables:
  assumes "\<And>g. g \<in> tables m t \<Longrightarrow> frame_eq (ram m) (ram m') g"
  shows "tables m' t = tables m t" "sv32_walk (ram m') t v = sv32_walk (ram m) t v"
    "pt_wf m t \<Longrightarrow> used_frames m \<subseteq> used_frames m' \<Longrightarrow> pt_wf m' t"
proof -
  have root: "load32 (ram m') (pte_addr t i) = load32 (ram m) (pte_addr t i)" if "unat i < 1024" for i
    by (rule load32_frame_eq [OF _ that]) (simp add: assms tables_def)
  have "valid_entries m' t = valid_entries m t" by (auto simp: valid_entries_def root)
  then show "tables m' t = tables m t" by (auto simp: tables_def valid_entries_def root intro!: image_cong)
  have leaf: "load32 (ram m') (pte_addr (pte_table (load32 (ram m) (pte_addr t i))) j) =
      load32 (ram m) (pte_addr (pte_table (load32 (ram m) (pte_addr t i))) j)"
    if "unat i < 1024" "unat j < 1024" "load32 (ram m) (pte_addr t i) AND PAGE_V \<noteq> 0" for i j
    by (rule load32_frame_eq [OF assms that(2)]) (rule tables_memI [OF that(1,3)])
  show "sv32_walk (ram m') t v = sv32_walk (ram m) t v"
    using leaf [OF vpn_lt(1) vpn_lt(2)] by (auto simp: sv32_walk_def root [OF vpn_lt(1)] Let_def)
  show "pt_wf m' t" if "pt_wf m t" "used_frames m \<subseteq> used_frames m'"
    using that unfolding pt_wf_def by (auto simp: root)
qed

section \<open>Extending an address space\<close>

definition fresh :: "mem_state \<Rightarrow> mem_state \<Rightarrow> u32 set" where
  "fresh m m' = used_frames m' - used_frames m"

definition extends :: "u32 \<Rightarrow> mem_state \<Rightarrow> mem_state \<Rightarrow> bool" where
  "extends t m m' \<longleftrightarrow> mem_wf m' \<and> pt_wf m' t \<and> used_frames m \<subseteq> used_frames m' \<and>
     tables m t \<subseteq> tables m' t \<and> tables m' t \<subseteq> tables m t \<union> fresh m m' \<and>
     (\<forall>g. unat g mod 4096 = 0 \<longrightarrow> g \<notin> tables m t \<longrightarrow> g \<notin> fresh m m' \<longrightarrow> frame_eq (ram m) (ram m') g)"

lemma extends_refl: "mem_wf m \<Longrightarrow> pt_wf m t \<Longrightarrow> extends t m m"
  by (simp add: extends_def)

lemma extendsD:
  assumes "extends t m m'"
  shows "mem_wf m'" "pt_wf m' t" "used_frames m \<subseteq> used_frames m'" "tables m t \<subseteq> tables m' t"
    "tables m' t \<subseteq> tables m t \<union> fresh m m'"
    "\<And>g. unat g mod 4096 = 0 \<Longrightarrow> g \<notin> tables m t \<Longrightarrow> g \<notin> fresh m m' \<Longrightarrow> frame_eq (ram m) (ram m') g"
  using assms by (auto simp: extends_def)

lemma extends_trans:
  assumes "extends t m m1" "extends t m1 m2"
  shows "extends t m m2"
proof -
  note a = extendsD [OF assms(1)] and b = extendsD [OF assms(2)]
  have fr: "fresh m m2 = fresh m m1 \<union> fresh m1 m2" using a(3) b(3) by (auto simp: fresh_def)
  have "frame_eq (ram m) (ram m2) g" if g: "unat g mod 4096 = 0" "g \<notin> tables m t" "g \<notin> fresh m m2" for g
  proof (rule frame_eq_trans)
    show "frame_eq (ram m) (ram m1) g" using a(6) [of g] g fr by blast
    show "frame_eq (ram m1) (ram m2) g" using b(6) [of g] g fr a(5) by blast
  qed
  then show ?thesis using a b fr unfolding extends_def by blast
qed


text \<open>What \<open>map_page\<close> allocates: at most one table, for the first-level entry of the address.\<close>

lemma ensure_extends:
  assumes wf: "mem_wf m" and pt: "pt_wf m t" and i: "unat i < 1024" and ok: "ensure_table t i m = Ok m'"
  shows "extends t m m'" "used_frames m' = used_frames m \<union> tables m' t" "valid_entries m' t = insert i (valid_entries m t)"
proof -
  note c = ensure_table_correct [OF wf pt i ok]
  have "extends t m m' \<and> used_frames m' = used_frames m \<union> tables m' t \<and> valid_entries m' t = insert i (valid_entries m t)"
  proof (cases "load32 (ram m) (pte_addr t i) AND PAGE_V = 0")
    case False
    then have "m' = m" using ok by (simp add: ensure_table_def)
    then show ?thesis
      using extends_refl [OF wf pt] tables_used [OF pt] False i by (auto simp: valid_entries_def)
  next
    case True
    obtain p m1 where a: "alloc_pages 1 m = Ok (p, m1)"
      and m': "m' = m1\<lparr>ram := store32 (ram m1) (pte_addr t i) (mk_pte p PAGE_V)\<rparr>"
      using ok True by (auto simp: ensure_table_def kbind_Ok_iff)
    have f: "p \<notin> used_frames m" "used_frames m1 = insert p (used_frames m)" "mem_wf m1"
      using frames.alloc_fresh [OF wf a] by auto
    have ap: "unat p mod 4096 = 0" using used_frame_aligned [OF f(3), of p] f(2) by simp
    have t: "t \<in> used_frames m" using pt by (simp add: pt_wf_def)
    note at = used_frame_aligned [OF wf t]
    have u: "used_frames m' = insert p (used_frames m)" using f(2) by (simp add: m')
    then have fr: "fresh m m' = {p}" using f(1) by (auto simp: fresh_def)
    have e: "load32 (ram m') (pte_addr t i) = mk_pte p PAGE_V" by (simp add: m')
    have pe: "pte_table (mk_pte p PAGE_V) = p"
      by (rule pte_table_mk_pte) (simp_all add: mod_4096_unat [OF ap] PAGE_V_def)
    have o: "load32 (ram m') (pte_addr t j) = load32 (ram m) (pte_addr t j)" if "unat j < 1024" "j \<noteq> i" for j
      using load_store_pte [OF at at i that(1)] load32_ram_fill [OF ap at that(1)] that t f(1) alloc_one_ram [OF wf a]
      by (auto simp: m')
    have v: "valid_entries m' t = insert i (valid_entries m t)"
      using c(3) i o by (auto simp: valid_entries_def) metis+
    have "(\<lambda>j. pte_table (load32 (ram m') (pte_addr t j))) ` valid_entries m t =
        (\<lambda>j. pte_table (load32 (ram m) (pte_addr t j))) ` valid_entries m t"
    proof (intro image_cong refl)
      fix j assume "j \<in> valid_entries m t"
      then have "unat j < 1024" "j \<noteq> i" using True by (auto simp: valid_entries_def)
      then show "pte_table (load32 (ram m') (pte_addr t j)) = pte_table (load32 (ram m) (pte_addr t j))" by (simp add: o)
    qed
    then have tb: "tables m' t = insert p (tables m t)" by (auto simp: tables_def v e pe)
    have "frame_eq (ram m) (ram m') g" if g: "unat g mod 4096 = 0" "g \<notin> tables m t" "g \<notin> {p}" for g
    proof (rule frame_eq_trans)
      show "frame_eq (ram m) (ram m1) g" unfolding alloc_one_ram [OF wf a] by (rule ram_fill_frame_eq [OF ap g(1)]) (use g in simp)
      show "frame_eq (ram m1) (ram m') g"
        unfolding m' by simp (rule store32_frame_eq [OF at g(1) i], use g in \<open>auto simp: tables_def\<close>)
    qed
    then show ?thesis using c u fr tb v tables_used [OF pt] by (auto simp: extends_def)
  qed
  then show "extends t m m'" "used_frames m' = used_frames m \<union> tables m' t" "valid_entries m' t = insert i (valid_entries m t)"
    by auto
qed

lemma store_leaf_extends:
  assumes wf: "mem_wf m" and pt: "pt_wf m t" and i: "i \<in> valid_entries m t" and j: "unat j < 1024"
    and m': "m' = m\<lparr>ram := store32 (ram m) (pte_addr (pte_table (load32 (ram m) (pte_addr t i))) j) e\<rparr>"
  shows "extends t m m'" "tables m' t = tables m t" "valid_entries m' t = valid_entries m t"
proof -
  have i': "unat i < 1024" "load32 (ram m) (pte_addr t i) AND PAGE_V \<noteq> 0" using i by (auto simp: valid_entries_def)
  let ?t0 = "pte_table (load32 (ram m) (pte_addr t i))"
  note t0 = pt_wfD [OF pt i']
  note al = used_frame_aligned [OF wf]
  have root: "load32 (ram m') (pte_addr t k) = load32 (ram m) (pte_addr t k)" if "unat k < 1024" for k
    using load_store_pte [OF al [OF t0(2)] al [OF t0(1)] j that] t0(3) by (simp add: m')
  show v: "valid_entries m' t = valid_entries m t" by (auto simp: valid_entries_def root)
  then show tb: "tables m' t = tables m t"
    by (auto simp: tables_def valid_entries_def root intro!: image_cong)
  have "?t0 \<in> tables m t" using i by (simp add: tables_def)
  then have "frame_eq (ram m) (ram m') g" if "unat g mod 4096 = 0" "g \<notin> tables m t" for g
    unfolding m' by simp (rule store32_frame_eq [OF al [OF t0(2)] that(1) j], use that in auto)
  moreover have "pt_wf m' t" using store_leaf(2) [OF wf pt i'(1) j i'(2) refl] by (simp add: m')
  ultimately show "extends t m m'" using wf tb by (simp add: extends_def m' fresh_def)
qed

lemma map_page_extends:
  assumes wf: "mem_wf m" and pt: "pt_wf m t" and ok: "map_page t vaddr paddr flags m = Ok m'"
  shows "extends t m m'" "used_frames m' = used_frames m \<union> tables m' t"
    "valid_entries m' t = insert (vpn1 vaddr) (valid_entries m t)"
proof -
  obtain m1 where m1: "ensure_table t (vpn1 vaddr) m = Ok m1"
    and m': "m' = m1\<lparr>ram := store32 (ram m1)
           (pte_addr (pte_table (load32 (ram m1) (pte_addr t (vpn1 vaddr)))) (vpn0 vaddr)) (mk_pte paddr (flags OR PAGE_V))\<rparr>"
    using ok by (auto simp: map_page_ensure kbind_Ok_iff split: if_splits)
  note e = ensure_extends [OF wf pt vpn_lt(1) m1]
  have "vpn1 vaddr \<in> valid_entries m1 t" by (simp add: e(3))
  note l = store_leaf_extends [OF extendsD(1,2) [OF e(1)] this vpn_lt(2) m']
  show "extends t m m'" by (rule extends_trans [OF e(1) l(1)])
  show "used_frames m' = used_frames m \<union> tables m' t" using e(2) l(2) by (simp add: m')
  show "valid_entries m' t = insert (vpn1 vaddr) (valid_entries m t)" using l(3) e(3) by simp
qed

lemma map_range_result:
  assumes "map_range t flags ps m = Ok m'" "mem_wf m" "pt_wf m t" "unat flags < 1024"
  shows "extends t m m'" "used_frames m' = used_frames m \<union> tables m' t"
    "valid_entries m' t = vpn1 ` set ps \<union> valid_entries m t"
    "\<And>p. p \<in> set ps \<Longrightarrow> sv32_walk (ram m') t p = Some (p, flags OR PAGE_V)"
    "\<And>v. v mod 4096 = 0 \<Longrightarrow> v \<notin> set ps \<Longrightarrow> sv32_walk (ram m') t v = sv32_walk (ram m) t v"
proof -
  have R: "extends t m m' \<and> used_frames m' = used_frames m \<union> tables m' t \<and>
    valid_entries m' t = vpn1 ` set ps \<union> valid_entries m t \<and>
    (\<forall>p \<in> set ps. sv32_walk (ram m') t p = Some (p, flags OR PAGE_V)) \<and>
    (\<forall>v. v mod 4096 = 0 \<longrightarrow> v \<notin> set ps \<longrightarrow> sv32_walk (ram m') t v = sv32_walk (ram m) t v)"
    using assms
  proof (induction ps arbitrary: m)
    case Nil
    then show ?case using extends_refl [of m t] tables_used [of m t] by auto
  next
    case (Cons p ps)
    then obtain m1 where m1: "map_page t p p flags m = Ok m1" "map_range t flags ps m1 = Ok m'"
      by (auto simp: kbind_Ok_iff)
    note r = map_page_result [OF Cons.prems(2,3,4) m1(1)] and e = map_page_extends [OF Cons.prems(2,3) m1(1)]
    have IH: "extends t m1 m'" "used_frames m' = used_frames m1 \<union> tables m' t"
      "valid_entries m' t = vpn1 ` set ps \<union> valid_entries m1 t"
      "\<forall>p \<in> set ps. sv32_walk (ram m') t p = Some (p, flags OR PAGE_V)"
      "\<forall>v. v mod 4096 = 0 \<longrightarrow> v \<notin> set ps \<longrightarrow> sv32_walk (ram m') t v = sv32_walk (ram m1) t v"
      using Cons.IH [OF m1(2) r(1,2) Cons.prems(4)] by auto
    have "p mod 4096 = 0" using m1(1) by (auto simp: map_page_def split: if_splits)
    then have "sv32_walk (ram m') t p = Some (p, flags OR PAGE_V)" using IH(4,5) r(3) by (cases "p \<in> set ps") auto
    moreover have "used_frames m' = used_frames m \<union> tables m' t" using e(2) IH(2) extendsD(4) [OF IH(1)] by blast
    moreover have "valid_entries m' t = vpn1 ` set (p # ps) \<union> valid_entries m t" using e(3) IH(3) by auto
    ultimately show ?case using extends_trans [OF e(1) IH(1)] IH(4,5) r(4) by auto
  qed
  then show "extends t m m'" "used_frames m' = used_frames m \<union> tables m' t"
    "valid_entries m' t = vpn1 ` set ps \<union> valid_entries m t"
    "\<And>p. p \<in> set ps \<Longrightarrow> sv32_walk (ram m') t p = Some (p, flags OR PAGE_V)"
    by blast+
  show "\<And>v. v mod 4096 = 0 \<Longrightarrow> v \<notin> set ps \<Longrightarrow> sv32_walk (ram m') t v = sv32_walk (ram m) t v" using R by metis
qed


section \<open>Adding a page of data\<close>

lemma alloc_write_extends:
  assumes wf: "mem_wf m" and pt: "pt_wf m t" and a: "alloc_pages 1 m = Ok (p, m1)" and xs: "length xs \<le> 4096"
    and m2: "m2 = m1\<lparr>ram := ram_write (ram m1) p xs\<rparr>"
  shows "extends t m m2" "tables m2 t = tables m t" "valid_entries m2 t = valid_entries m t"
    "p \<notin> used_frames m" "used_frames m2 = insert p (used_frames m)"
    "sv32_walk (ram m2) t v = sv32_walk (ram m) t v"
    "k < 4096 \<Longrightarrow> ram m2 (p + of_nat k) = (if k < length xs then xs ! k else 0)"
proof -
  have f: "p \<notin> used_frames m" "used_frames m1 = insert p (used_frames m)" "mem_wf m1"
    using frames.alloc_fresh [OF wf a] by auto
  have ap: "unat p mod 4096 = 0" using used_frame_aligned [OF f(3), of p] f(2) by simp
  have eq: "frame_eq (ram m) (ram m2) g" if "unat g mod 4096 = 0" "g \<noteq> p" for g
    using frame_eq_trans [OF ram_fill_frame_eq [OF ap that] ram_write_frame_eq [OF ap that xs]]
    by (simp add: m2 alloc_one_ram [OF wf a])
  have "frame_eq (ram m) (ram m2) g" if "g \<in> tables m t" for g
    by (rule eq) (use that tables_used [OF pt] used_frame_aligned [OF wf] f(1) in auto)
  note st = same_tables [of m t m2, OF this]
  show tb: "tables m2 t = tables m t" by (rule st(1))
  show "sv32_walk (ram m2) t v = sv32_walk (ram m) t v" by (rule st(2))
  show u: "used_frames m2 = insert p (used_frames m)" by (simp add: m2 f(2))
  have t: "frame_eq (ram m) (ram m2) t"
    by (rule eq) (use pt used_frame_aligned [OF wf] f(1) in \<open>auto simp: pt_wf_def\<close>)
  show "valid_entries m2 t = valid_entries m t"
    using load32_frame_eq [OF t] by (auto simp: valid_entries_def)
  have "pt_wf m2 t" by (rule st(3)) (use u pt in auto)
  moreover have "\<forall>g. unat g mod 4096 = 0 \<longrightarrow> g \<notin> tables m t \<longrightarrow> g \<notin> fresh m m2 \<longrightarrow> frame_eq (ram m) (ram m2) g"
  proof (intro allI impI)
    fix g assume "unat g mod 4096 = 0" "g \<notin> fresh m m2"
    then show "frame_eq (ram m) (ram m2) g" using u f(1) by (intro eq) (auto simp: fresh_def)
  qed
  moreover have "mem_wf m2" using f(3) by (simp add: m2)
  moreover have "used_frames m \<subseteq> used_frames m2" using u by auto
  ultimately show "extends t m m2" unfolding extends_def tb by (simp only:) simp
  show "p \<notin> used_frames m" by (rule f(1))
  show "ram m2 (p + of_nat k) = (if k < length xs then xs ! k else 0)" if "k < 4096"
    using that by (simp add: m2 ram_write_at alloc_one_ram [OF wf a] ram_fill_def unsigned_of_nat take_bit_nat_eq_self)
qed

text \<open>A frame that was in use and is no table keeps its contents, and does not become a table.\<close>

lemma extends_data:
  assumes "extends t m m'" "mem_wf m" "p \<in> used_frames m" "p \<notin> tables m t"
  shows "frame_eq (ram m) (ram m') p" "p \<notin> tables m' t"
  using extendsD(5) [OF assms(1)] extendsD(6) [OF assms(1) used_frame_aligned [OF assms(2,3)] assms(4)] assms(3,4)
  by (auto simp: fresh_def)

lemma add_page:
  assumes wf: "mem_wf m" and pt: "pt_wf m t" and a: "alloc_pages 1 m = Ok (p, m1)" and xs: "length xs \<le> 4096"
    and fl: "unat flags < 1024" and mp: "map_page t va p flags (m1\<lparr>ram := ram_write (ram m1) p xs\<rparr>) = Ok m'"
  shows "extends t m m'" "p \<notin> used_frames m" "p \<in> used_frames m'" "p \<notin> tables m' t"
    "used_frames m' = insert p (used_frames m) \<union> tables m' t"
    "valid_entries m' t = insert (vpn1 va) (valid_entries m t)"
    "sv32_walk (ram m') t va = Some (p, flags OR PAGE_V)"
    "\<And>v. v mod 4096 = 0 \<Longrightarrow> v \<noteq> va \<Longrightarrow> sv32_walk (ram m') t v = sv32_walk (ram m) t v"
    "\<And>k. k < 4096 \<Longrightarrow> ram m' (p + of_nat k) = (if k < length xs then xs ! k else 0)"
proof -
  let ?m2 = "m1\<lparr>ram := ram_write (ram m1) p xs\<rparr>"
  note w = alloc_write_extends [OF wf pt a xs refl]
  note wf2 = extendsD(1) [OF w(1)] and pt2 = extendsD(2) [OF w(1)]
  note r = map_page_result [OF wf2 pt2 fl mp] and e = map_page_extends [OF wf2 pt2 mp]
  show "extends t m m'" by (rule extends_trans [OF w(1) e(1)])
  show np: "p \<notin> used_frames m" by (rule w(4))
  have "p \<notin> tables ?m2 t" using np w(2) tables_used [OF pt] by auto
  note d = extends_data [OF e(1) wf2 _ this]
  show "p \<notin> tables m' t" "p \<in> used_frames m'" using d(2) w(5) extendsD(3) [OF e(1)] by auto
  show "used_frames m' = insert p (used_frames m) \<union> tables m' t" using e(2) w(5) by simp
  show "valid_entries m' t = insert (vpn1 va) (valid_entries m t)" using e(3) w(3) by simp
  show "sv32_walk (ram m') t va = Some (p, flags OR PAGE_V)" by (rule r(3))
  show "sv32_walk (ram m') t v = sv32_walk (ram m) t v" if "v mod 4096 = 0" "v \<noteq> va" for v
    using r(4) [OF that] w(6) by simp
  show "ram m' (p + of_nat k) = (if k < length xs then xs ! k else 0)" if "k < 4096" for k
    using d(1) w(5,7) that by (simp add: frame_eq_def)
qed

text \<open>The pages from \<open>va\<close> on are mapped to the frames \<open>fs\<close>.\<close>

definition maps_pages :: "mem_state \<Rightarrow> u32 \<Rightarrow> u32 \<Rightarrow> u32 list \<Rightarrow> u32 list \<Rightarrow> bool" where
  "maps_pages m t va fs flags \<longleftrightarrow> length flags = length fs \<and>
     (\<forall>i < length fs. sv32_walk (ram m) t (va + of_nat i * 4096) = Some (fs ! i, flags ! i))"

definition pages_hold :: "mem_state \<Rightarrow> u32 list \<Rightarrow> u8 list list \<Rightarrow> bool" where
  "pages_hold m fs ds \<longleftrightarrow> length ds = length fs \<and>
     (\<forall>i < length fs. \<forall>k < 4096. ram m (fs ! i + of_nat k) = (if k < length (ds ! i) then ds ! i ! k else 0))"

text \<open>What a loop that adds one page after the other does: the frames are new, distinct and hold the data.\<close>

definition adds_pages :: "u32 \<Rightarrow> u32 \<Rightarrow> mem_state \<Rightarrow> mem_state \<Rightarrow> u32 list \<Rightarrow> u32 list \<Rightarrow> u8 list list \<Rightarrow> bool" where
  "adds_pages t va m m' fs flags ds \<longleftrightarrow> extends t m m' \<and> distinct fs \<and> set fs \<subseteq> fresh m m' \<and> set fs \<inter> tables m' t = {} \<and>
     used_frames m' = used_frames m \<union> set fs \<union> tables m' t \<and> maps_pages m' t va fs flags \<and> pages_hold m' fs ds \<and>
     valid_entries m' t = (\<lambda>i. vpn1 (va + of_nat i * 4096)) ` {..< length fs} \<union> valid_entries m t \<and>
     (\<forall>v. v mod 4096 = 0 \<longrightarrow> v \<notin> (\<lambda>i. va + of_nat i * 4096) ` {..< length fs} \<longrightarrow>
        sv32_walk (ram m') t v = sv32_walk (ram m) t v)"

lemma adds_pages_Nil: "mem_wf m \<Longrightarrow> pt_wf m t \<Longrightarrow> adds_pages t va m m [] [] []"
  using tables_used [of m t] by (auto simp: adds_pages_def extends_refl maps_pages_def pages_hold_def)


lemma page_shift: "va + of_nat (Suc i) * 4096 = (va + 4096) + of_nat i * (4096 :: u32)"
  by (simp add: distrib_right)

lemma image_lessThan_Suc: "f ` {..< Suc n} = insert (f 0) ((\<lambda>i. f (Suc i)) ` {..< n})"
  by (simp add: lessThan_Suc_eq_insert_0 image_image)

lemma page_not_later:
  assumes "unat (va :: u32) + 4096 * Suc n \<le> 2 ^ 32" "i < n"
  shows "va \<noteq> va + of_nat (Suc i) * 4096"
proof
  assume "va = va + of_nat (Suc i) * 4096"
  then have z: "of_nat (Suc i * 4096) = (0 :: u32)" by simp
  have "Suc i * 4096 < 2 ^ 32" using assms by simp
  then have "unat (of_nat (Suc i * 4096) :: u32) = Suc i * 4096"
    by (simp only: unsigned_of_nat) (simp add: take_bit_nat_eq_self)
  then show False unfolding z by simp
qed

lemma adds_pages_Cons:
  assumes wf: "mem_wf m" and pt: "pt_wf m t" and a: "alloc_pages 1 m = Ok (p, m1)" and xs: "length xs \<le> 4096"
    and fl: "unat flags < 1024" and mp: "map_page t va p flags (m1\<lparr>ram := ram_write (ram m1) p xs\<rparr>) = Ok m2"
    and rest: "adds_pages t (va + 4096) m2 m' fs fls ds" and wrap: "unat va + 4096 * Suc (length fs) \<le> 2 ^ 32"
  shows "adds_pages t va m m' (p # fs) ((flags OR PAGE_V) # fls) (xs # ds)"
proof -
  note p = add_page [OF wf pt a xs fl mp]
  have r: "extends t m2 m'" "distinct fs" "set fs \<subseteq> fresh m2 m'" "set fs \<inter> tables m' t = {}"
    "used_frames m' = used_frames m2 \<union> set fs \<union> tables m' t" "maps_pages m' t (va + 4096) fs fls" "pages_hold m' fs ds"
    and ve: "valid_entries m' t = (\<lambda>i. vpn1 (va + 4096 + of_nat i * 4096)) ` {..< length fs} \<union> valid_entries m2 t"
    and wk: "\<And>v. v mod 4096 = 0 \<Longrightarrow> v \<notin> (\<lambda>i. va + 4096 + of_nat i * 4096) ` {..< length fs} \<Longrightarrow>
        sv32_walk (ram m') t v = sv32_walk (ram m2) t v"
    using rest by (auto simp: adds_pages_def)
  have al: "va mod 4096 = 0" using mp by (auto simp: map_page_def split: if_splits)
  note wf2 = extendsD(1) [OF p(1)]
  note d = extends_data [OF r(1) wf2 p(3,4)]
  have ext: "extends t m m'" by (rule extends_trans [OF p(1) r(1)])
  have "va \<notin> (\<lambda>i. va + 4096 + of_nat i * 4096) ` {..< length fs}"
    using page_not_later [OF wrap] unfolding page_shift by blast
  then have w0: "sv32_walk (ram m') t va = Some (p, flags OR PAGE_V)" using wk al p(7) by simp
  have "maps_pages m' t va (p # fs) ((flags OR PAGE_V) # fls)"
    using r(6) w0 by (auto simp: maps_pages_def nth_Cons page_shift simp del: of_nat_Suc split: nat.split)
  moreover have "pages_hold m' (p # fs) (xs # ds)"
    using r(7) p(9) d(1) by (auto simp: pages_hold_def frame_eq_def nth_Cons split: nat.split)
  moreover have "set (p # fs) \<subseteq> fresh m m'" "distinct (p # fs)" "set (p # fs) \<inter> tables m' t = {}"
    using r(2,3,4) p(2,3) d(2) extendsD(3) [OF p(1)] extendsD(3) [OF r(1)] by (auto simp: fresh_def)
  moreover have "used_frames m' = used_frames m \<union> set (p # fs) \<union> tables m' t"
    using r(5) p(5) extendsD(4) [OF r(1)] by auto
  moreover have "valid_entries m' t = (\<lambda>i. vpn1 (va + of_nat i * 4096)) ` {..< length (p # fs)} \<union> valid_entries m t"
    unfolding list.size add_Suc_right add_0_right image_lessThan_Suc page_shift ve p(6) by simp
  moreover have "sv32_walk (ram m') t v = sv32_walk (ram m) t v"
    if "v mod 4096 = 0" "v \<notin> (\<lambda>i. va + of_nat i * 4096) ` {..< length (p # fs)}" for v
    using that wk [OF that(1)] p(8) [OF that(1)]
    unfolding list.size add_Suc_right add_0_right image_lessThan_Suc page_shift by simp
  ultimately show ?thesis unfolding adds_pages_def using ext by blast
qed

section \<open>Loading an image\<close>

text \<open>The pages of an image.\<close>

function pages_of :: "u8 list \<Rightarrow> u8 list list" where
  "pages_of img = (if img = [] then [] else take 4096 img # pages_of (drop 4096 img))"
  by pat_completeness auto
termination
  by (relation "measure length") auto

declare pages_of.simps [simp del]

lemma length_pages_of: "length (pages_of img) = (length img + 4095) div 4096"
proof (induction img rule: pages_of.induct)
  case (1 img)
  show ?case
  proof (cases "img = []")
    case False
    then obtain k where k: "length img = Suc k" by (cases img) auto
    have "(length img + 4095) div 4096 = (k + 4096) div 4096" by (simp add: k)
    also have "\<dots> = Suc (k div 4096)" by simp
    also have "k div 4096 = (length img - 4096 + 4095) div 4096" by (cases "k < 4095") (auto simp: k)
    finally have "(length img + 4095) div 4096 = Suc ((length img - 4096 + 4095) div 4096)" .
    then show ?thesis using 1 False by (subst pages_of.simps) simp
  qed (simp add: pages_of.simps)
qed

lemma concat_pages_of: "concat (pages_of img) = img"
  by (induction img rule: pages_of.induct) (subst pages_of.simps, simp)

definition USER_FLAGS :: u32 where
  "USER_FLAGS = (PAGE_U OR PAGE_R OR PAGE_W OR PAGE_X) OR PAGE_V"

lemma load_image_adds_pages:
  assumes "load_image t va img m = Ok m'" "mem_wf m" "pt_wf m t" "unat va + 4096 * length (pages_of img) \<le> 2 ^ 32"
  shows "\<exists>fs. length fs = length (pages_of img) \<and>
    adds_pages t va m m' fs (replicate (length fs) USER_FLAGS) (pages_of img)"
  using assms
proof (induction t va img m rule: load_image.induct)
  case (1 t va img m)
  show ?case
  proof (cases "img = []")
    case True
    then show ?thesis using 1(2-4) adds_pages_Nil by (simp add: load_image.simps pages_of.simps)
  next
    case False
    let ?fl = "PAGE_U OR PAGE_R OR PAGE_W OR PAGE_X"
    obtain p m1 m2 where a: "alloc_pages 1 m = Ok (p, m1)"
      and mp: "map_page t va p ?fl (m1\<lparr>ram := ram_write (ram m1) p (take 4096 img)\<rparr>) = Ok m2"
      and r: "load_image t (va + 4096) (drop 4096 img) m2 = Ok m'"
      using 1(2) False by (subst (asm) load_image.simps) (auto simp: kbind_Ok_iff)
    have pg: "pages_of img = take 4096 img # pages_of (drop 4096 img)" using False by (subst pages_of.simps) simp
    have fl: "unat ?fl < 1024" by (simp add: PAGE_U_def PAGE_R_def PAGE_W_def PAGE_X_def)
    have len: "length (take 4096 img) \<le> 4096" by simp
    note p = add_page [OF 1(3,4) a len fl mp]
    let ?n = "length (pages_of (drop 4096 img))"
    have w: "unat va + 4096 * Suc ?n \<le> 2 ^ 32" using 1(5) by (simp add: pg)
    have "unat (va + 4096) + 4096 * ?n \<le> 2 ^ 32"
    proof (cases "unat va + 4096 < 2 ^ 32")
      case True
      then show ?thesis using w by (simp add: unat_word_ariths)
    next
      case False
      then have "?n = 0" using w by (cases ?n) auto
      then show ?thesis using unat_lt [of "va + 4096"] by simp
    qed
    then obtain fs where fs: "length fs = ?n"
      "adds_pages t (va + 4096) m2 m' fs (replicate (length fs) USER_FLAGS) (pages_of (drop 4096 img))"
      using 1(1) [OF False r extendsD(1,2) [OF p(1)]] by blast
    have "adds_pages t va m m' (p # fs) ((?fl OR PAGE_V) # replicate (length fs) USER_FLAGS)
        (take 4096 img # pages_of (drop 4096 img))"
      by (rule adds_pages_Cons [OF 1(3,4) a len fl mp fs(2)]) (simp only: fs(1) w)
    then show ?thesis using fs(1) by (intro exI [of _ "p # fs"]) (simp add: pg USER_FLAGS_def)
  qed
qed


section \<open>A new address space\<close>

lemma alloc_table:
  assumes wf: "mem_wf m" and a: "alloc_pages 1 m = Ok (t, m1)"
  shows "mem_wf m1" "pt_wf m1 t" "valid_entries m1 t = {}" "tables m1 t = {t}" "t \<notin> used_frames m"
    "used_frames m1 = insert t (used_frames m)" "sv32_walk (ram m1) t v = None"
    "unat g mod 4096 = 0 \<Longrightarrow> g \<noteq> t \<Longrightarrow> frame_eq (ram m) (ram m1) g"
proof -
  have f: "t \<notin> used_frames m" "used_frames m1 = insert t (used_frames m)" "mem_wf m1"
    using frames.alloc_fresh [OF wf a] by auto
  have at: "unat t mod 4096 = 0" using used_frame_aligned [OF f(3), of t] f(2) by simp
  have z: "load32 (ram m1) (pte_addr t i) = 0" if "unat i < 1024" for i
    using load32_ram_fill [OF at at that] by (simp add: alloc_one_ram [OF wf a])
  show v: "valid_entries m1 t = {}" by (auto simp: valid_entries_def z)
  show "tables m1 t = {t}" by (simp add: tables_def v)
  show "pt_wf m1 t" using f(2) by (simp add: pt_wf_def z)
  show "sv32_walk (ram m1) t v = None" by (simp add: sv32_walk_def z [OF vpn_lt(1)])
  show "mem_wf m1" "t \<notin> used_frames m" "used_frames m1 = insert t (used_frames m)" by (rule f)+
  show "frame_eq (ram m) (ram m1) g" if "unat g mod 4096 = 0" "g \<noteq> t"
    unfolding alloc_one_ram [OF wf a] by (rule ram_fill_frame_eq [OF at that])
qed

text \<open>The identity mappings of the kernel, with their flags; none of them is accessible to user programs.\<close>

definition kernel_map :: "u32 \<Rightarrow> u32 \<Rightarrow> u32 \<Rightarrow> (u32 \<times> u32) option" where
  "kernel_map kernel_base free_ram_end v =
     (if v \<in> set (page_range RTC_MMIO_BASE RTC_MMIO_END) \<or> v \<in> set (page_range MMIO_BASE MMIO_END)
      then Some (v, PAGE_R OR PAGE_W OR PAGE_V)
      else if v \<in> set (page_range kernel_base free_ram_end) then Some (v, PAGE_R OR PAGE_W OR PAGE_X OR PAGE_V)
      else None)"

definition kernel_entries :: "u32 \<Rightarrow> u32 \<Rightarrow> u32 set" where
  "kernel_entries kernel_base free_ram_end = vpn1 ` (set (page_range kernel_base free_ram_end) \<union>
     set (page_range MMIO_BASE MMIO_END) \<union> set (page_range RTC_MMIO_BASE RTC_MMIO_END))"

lemma kernel_map_not_user: "kernel_map kb fe v = Some (f, flags) \<Longrightarrow> flags AND PAGE_U = 0 \<and> f = v"
  by (auto simp: kernel_map_def PAGE_R_def PAGE_W_def PAGE_X_def PAGE_U_def PAGE_V_def split: if_splits)

lemma map_kernel_result:
  assumes "map_kernel t kb fe m = Ok m'" "mem_wf m" "pt_wf m t" "\<And>v. sv32_walk (ram m) t v = None"
  shows "extends t m m'" "used_frames m' = used_frames m \<union> tables m' t"
    "valid_entries m' t = kernel_entries kb fe \<union> valid_entries m t"
    "\<And>v. v mod 4096 = 0 \<Longrightarrow> sv32_walk (ram m') t v = kernel_map kb fe v"
proof -
  obtain m1 m2 where m1: "map_range t (PAGE_R OR PAGE_W OR PAGE_X) (page_range kb fe) m = Ok m1"
    and m2: "map_range t (PAGE_R OR PAGE_W) (page_range MMIO_BASE MMIO_END) m1 = Ok m2"
    and m3: "map_range t (PAGE_R OR PAGE_W) (page_range RTC_MMIO_BASE RTC_MMIO_END) m2 = Ok m'"
    using assms(1) by (auto simp: map_kernel_def kbind_Ok_iff)
  have fl: "unat (PAGE_R OR PAGE_W OR PAGE_X) < 1024" "unat (PAGE_R OR PAGE_W) < 1024"
    by (simp_all add: PAGE_R_def PAGE_W_def PAGE_X_def)
  note a = map_range_result [OF m1 assms(2,3) fl(1)]
  note b = map_range_result [OF m2 extendsD(1,2) [OF a(1)] fl(2)]
  note c = map_range_result [OF m3 extendsD(1,2) [OF b(1)] fl(2)]
  show "extends t m m'" by (rule extends_trans [OF a(1) extends_trans [OF b(1) c(1)]])
  show "used_frames m' = used_frames m \<union> tables m' t"
    using a(2) b(2) c(2) extendsD(4) [OF b(1)] extendsD(4) [OF c(1)] by blast
  show "valid_entries m' t = kernel_entries kb fe \<union> valid_entries m t"
    using a(3) b(3) c(3) by (auto simp: kernel_entries_def)
  fix v :: u32 assume v: "v mod 4096 = 0"
  show "sv32_walk (ram m') t v = kernel_map kb fe v"
  proof (cases "v \<in> set (page_range RTC_MMIO_BASE RTC_MMIO_END)")
    case True
    then show ?thesis using c(4) [of v] by (simp add: kernel_map_def or.assoc)
  next
    case R: False
    show ?thesis
    proof (cases "v \<in> set (page_range MMIO_BASE MMIO_END)")
      case True
      then show ?thesis using c(5) [OF v R] b(4) [of v] by (simp add: kernel_map_def or.assoc)
    next
      case False
      then show ?thesis using c(5) [OF v R] b(5) [OF v False] a(4) [of v] a(5) [OF v] R assms(4)
        by (cases "v \<in> set (page_range kb fe)") (auto simp: kernel_map_def or.assoc)
    qed
  qed
qed

text \<open>The whole construction: the table, the kernel mappings, then the image.\<close>

lemma new_space_result:
  assumes wf: "mem_wf m" and a: "alloc_pages 1 m = Ok (t, m1)" and k: "map_kernel t kb fe m1 = Ok m2"
    and l: "load_image t USER_BASE img m2 = Ok m'" and sz: "length (pages_of img) \<le> 0xff000"
  obtains fs where "mem_wf m'" "pt_wf m' t" "length fs = length (pages_of img)" "distinct fs"
    "set fs \<inter> tables m' t = {}" "set fs \<inter> used_frames m = {}" "tables m' t \<inter> used_frames m = {}"
    "used_frames m' = used_frames m \<union> set fs \<union> tables m' t"
    "maps_pages m' t USER_BASE fs (replicate (length fs) USER_FLAGS)" "pages_hold m' fs (pages_of img)"
    "\<And>v. v mod 4096 = 0 \<Longrightarrow> v \<notin> user_va ` {..< length fs} \<Longrightarrow> sv32_walk (ram m') t v = kernel_map kb fe v"
    "\<And>g. unat g mod 4096 = 0 \<Longrightarrow> g \<notin> set fs \<Longrightarrow> g \<notin> tables m' t \<Longrightarrow> frame_eq (ram m) (ram m') g"
    "valid_entries m' t = (vpn1 \<circ> user_va) ` {..< length fs} \<union> kernel_entries kb fe"
proof -
  note t = alloc_table [OF wf a]
  note km = map_kernel_result [OF k t(1,2,7)]
  note wf2 = extendsD(1,2) [OF km(1)]
  have "unat USER_BASE + 4096 * length (pages_of img) \<le> 2 ^ 32" using sz by (simp add: USER_BASE_def)
  from load_image_adds_pages [OF l wf2 this] obtain fs where len: "length fs = length (pages_of img)"
    and ad: "adds_pages t USER_BASE m2 m' fs (replicate (length fs) USER_FLAGS) (pages_of img)" by blast
  have d: "extends t m2 m'" "distinct fs" "set fs \<subseteq> fresh m2 m'" "set fs \<inter> tables m' t = {}"
    "used_frames m' = used_frames m2 \<union> set fs \<union> tables m' t"
    "maps_pages m' t USER_BASE fs (replicate (length fs) USER_FLAGS)" "pages_hold m' fs (pages_of img)"
    "valid_entries m' t = (\<lambda>i. vpn1 (USER_BASE + of_nat i * 4096)) ` {..< length fs} \<union> valid_entries m2 t"
    and wk: "\<And>v. v mod 4096 = 0 \<Longrightarrow> v \<notin> (\<lambda>i. USER_BASE + of_nat i * 4096) ` {..< length fs} \<Longrightarrow>
        sv32_walk (ram m') t v = sv32_walk (ram m2) t v"
    using ad by (auto simp: adds_pages_def)
  have ext: "extends t m1 m'" by (rule extends_trans [OF km(1) d(1)])
  have u: "used_frames m' = used_frames m \<union> set fs \<union> tables m' t"
    using d(5) km(2) t(4,6) extendsD(4) [OF km(1)] extendsD(4) [OF d(1)] by auto
  have fsn: "set fs \<inter> used_frames m = {}" using d(3) km(2) t(6) by (auto simp: fresh_def)
  have tn: "tables m' t \<inter> used_frames m = {}"
    using extendsD(5) [OF ext] t(4,5,6) by (auto simp: fresh_def)
  show thesis
  proof (rule that [OF extendsD(1,2) [OF d(1)] len d(2,4) fsn tn u d(6,7)])
    fix v :: u32 assume "v mod 4096 = 0" "v \<notin> user_va ` {..< length fs}"
    then show "sv32_walk (ram m') t v = kernel_map kb fe v" using wk km(4) by (simp add: user_va_def)
  next
    fix g :: u32 assume g: "unat g mod 4096 = 0" "g \<notin> set fs" "g \<notin> tables m' t"
    have "g \<noteq> t" using g(3) by (auto simp: tables_def)
    moreover have "g \<notin> fresh m1 m'" using u g t(6) by (auto simp: fresh_def)
    ultimately show "frame_eq (ram m) (ram m') g"
      using frame_eq_trans [OF t(8) [OF g(1)] extendsD(6) [OF ext g(1)]] t(4) by simp
  next
    show "valid_entries m' t = (vpn1 \<circ> user_va) ` {..< length fs} \<union> kernel_entries kb fe"
      using d(8) km(3) t(3) by (simp add: user_va_def o_def)
  qed
qed


section \<open>Tearing an address space down\<close>

lemma free_pages_ram: "free_pages f n m = Ok m' \<Longrightarrow> ram m' = ram m"
  by (auto simp: free_pages_def kbind_Ok_iff Let_def split: if_splits)

lemma free_one:
  assumes "mem_wf m" "f \<in> used_frames m"
  obtains m' where "free_pages f 1 m = Ok m'" "used_frames m' = used_frames m - {f}" "mem_wf m'" "ram m' = ram m"
proof -
  obtain m' where m': "free_pages f 1 m = Ok m'" "used_frames m' = used_frames m - {f}" "mem_wf m'"
    using frames.free_used [OF assms] by blast
  with that free_pages_ram [OF m'(1)] show thesis by blast
qed

lemma pt_wf_shrink:
  assumes "pt_wf m t" "ram m' = ram m" "used_frames m' = used_frames m - A" "A \<inter> tables m t = {}"
  shows "pt_wf m' t" "tables m' t = tables m t" "valid_entries m' t = valid_entries m t"
proof -
  show "valid_entries m' t = valid_entries m t" "tables m' t = tables m t"
    using assms(2) by (simp_all add: tables_def valid_entries_def)
  have in_used: "g \<in> used_frames m'" if "g \<in> tables m t" for g
    using that tables_used [OF assms(1)] assms(3,4) by blast
  show "pt_wf m' t"
    unfolding pt_wf_def assms(2)
  proof (intro conjI allI impI)
    show "t \<in> used_frames m'" by (rule in_used) (simp add: tables_def)
    fix i assume i: "unat i < 1024" "load32 (ram m) (pte_addr t i) AND PAGE_V \<noteq> 0"
    show "pte_table (load32 (ram m) (pte_addr t i)) \<in> used_frames m' - {t}"
      using in_used [OF tables_memI [OF i]] pt_wfD(3) [OF assms(1) i] by simp
    fix j assume "unat j < 1024" "load32 (ram m) (pte_addr t j) AND PAGE_V \<noteq> 0"
      "pte_table (load32 (ram m) (pte_addr t i)) = pte_table (load32 (ram m) (pte_addr t j))"
    then show "i = j" using pt_wf_inj [OF assms(1) i(1) _ i(2)] by blast
  qed
qed

text \<open>Unmapping one user page, as the loop does it.\<close>

lemma unmap_page:
  assumes wf: "mem_wf m" and pt: "pt_wf m t" and w: "sv32_walk (ram m) t v = Some (f, fl)"
    and f: "f \<in> used_frames m" "f \<notin> tables m t" and v: "v mod 4096 = 0"
    and pte1: "pte1 = load32 (ram m) (pte_addr t (vpn1 v))" and pte0: "pte0 = load32 (ram m) (pte_addr (pte_table pte1) (vpn0 v))"
  obtains m1 m2 where "pte1 AND PAGE_V \<noteq> 0" "pte0 AND PAGE_V \<noteq> 0" "free_pages (pte_table pte0) 1 m = Ok m1"
    "m2 = m1\<lparr>ram := store32 (ram m1) (pte_addr (pte_table pte1) (vpn0 v)) 0\<rparr>"
    "mem_wf m2" "pt_wf m2 t" "used_frames m2 = used_frames m - {f}" "tables m2 t = tables m t"
    "\<And>v'. v' mod 4096 = 0 \<Longrightarrow> v' \<noteq> v \<Longrightarrow> sv32_walk (ram m2) t v' = sv32_walk (ram m) t v'"
    "sv32_walk (ram m2) t v = None"
    "\<And>g. unat g mod 4096 = 0 \<Longrightarrow> g \<notin> tables m t \<Longrightarrow> frame_eq (ram m) (ram m2) g"
proof -
  have val: "pte1 AND PAGE_V \<noteq> 0" "pte0 AND PAGE_V \<noteq> 0" "pte_table pte0 = f"
    using w unfolding pte0 unfolding pte1 sv32_walk_def by (auto simp: Let_def split: if_splits)
  obtain m1 where m1: "free_pages f 1 m = Ok m1" "used_frames m1 = used_frames m - {f}" "mem_wf m1" "ram m1 = ram m"
    by (rule free_one [OF wf f(1)])
  have s: "pt_wf m1 t" "tables m1 t = tables m t" "valid_entries m1 t = valid_entries m t"
    by (rule pt_wf_shrink [OF pt m1(4,2)]; use f(2) in simp)+
  let ?r = "store32 (ram m1) (pte_addr (pte_table pte1) (vpn0 v)) 0"
  have i: "vpn1 v \<in> valid_entries m1 t" "load32 (ram m1) (pte_addr t (vpn1 v)) AND PAGE_V \<noteq> 0"
    using val(1) vpn_lt(1) [of v] by (auto simp: valid_entries_def m1(4) pte1)
  have r: "?r = store32 (ram m1) (pte_addr (pte_table (load32 (ram m1) (pte_addr t (vpn1 v)))) (vpn0 v)) 0"
    by (simp add: pte1 m1(4))
  note e = store_leaf_extends [OF m1(3) s(1) i(1) vpn_lt(2), where e = 0 and m' = "m1\<lparr>ram := ?r\<rparr>"]
  note l = store_leaf [OF m1(3) s(1) vpn_lt(1) vpn_lt(2) i(2) r]
  show thesis
  proof (rule that [OF val(1,2) _ refl])
    show "free_pages (pte_table pte0) 1 m = Ok m1" using m1(1) val(3) by simp
    show "mem_wf (m1\<lparr>ram := ?r\<rparr>)" "used_frames (m1\<lparr>ram := ?r\<rparr>) = used_frames m - {f}" using m1 by auto
    show "pt_wf (m1\<lparr>ram := ?r\<rparr>) t" by (rule l(2))
    show "tables (m1\<lparr>ram := ?r\<rparr>) t = tables m t" using e(2) r s(2) by simp
    fix v' :: u32 assume "v' mod 4096 = 0" "v' \<noteq> v"
    then have "(vpn1 v', vpn0 v') \<noteq> (vpn1 v, vpn0 v)" using vpn_page_eq [of v' v] v by (metis prod.inject)
    then show "sv32_walk (ram (m1\<lparr>ram := ?r\<rparr>)) t v' = sv32_walk (ram m) t v'"
      using l(3) [OF vpn_lt(1,2)] m1(4) by (simp add: sv32_walk_at)
  next
    show "sv32_walk (ram (m1\<lparr>ram := ?r\<rparr>)) t v = None" using l(1) by (simp add: sv32_walk_at walk_entry_def)
    fix g :: u32 assume "unat g mod 4096 = 0" "g \<notin> tables m t"
    then show "frame_eq (ram m) (ram (m1\<lparr>ram := ?r\<rparr>)) g"
      using extendsD(6) [OF e(1)] r s(2) m1(4) by (simp add: fresh_def)
  qed
qed

definition user_frames :: "mem_state \<Rightarrow> u32 \<Rightarrow> nat \<Rightarrow> u32 list \<Rightarrow> bool" where
  "user_frames m t i fs \<longleftrightarrow> distinct fs \<and> set fs \<subseteq> used_frames m - tables m t \<and>
     (\<forall>k < length fs. \<exists>fl. sv32_walk (ram m) t (user_va (i + k)) = Some (fs ! k, fl))"

lemma user_va_aligned: "user_va i mod 4096 = 0"
proof -
  have "user_va i = push_bit 12 (4096 + of_nat i)" by (simp add: user_va_def USER_BASE_def push_bit_eq_mult distrib_right)
  then have "take_bit 12 (user_va i) = 0" by (simp only: take_bit_push_bit) simp
  then show ?thesis by (simp add: take_bit_eq_mod)
qed

lemma unat_user_va:
  assumes "k < 0xff000"
  shows "unat (user_va k) = 0x1000000 + k * 4096"
proof -
  have e: "user_va k = of_nat (0x1000000 + k * 4096)" by (simp add: user_va_def USER_BASE_def)
  show ?thesis unfolding e by (rule unat_of_nat32) (use assms in simp)
qed

lemma user_va_inj:
  assumes "i < 0xff000" "j < 0xff000" "user_va i = user_va j"
  shows "i = j"
  using unat_user_va [OF assms(1)] unat_user_va [OF assms(2)] unfolding assms(3) by linarith

lemma free_user_pages_result:
  assumes "mem_wf m" "pt_wf m t" "user_frames m t i fs" "i + length fs \<le> 0xff000"
  shows "\<exists>m'. free_user_pages t i (length fs) m = Ok m' \<and> mem_wf m' \<and> pt_wf m' t \<and>
    used_frames m' = used_frames m - set fs \<and> tables m' t = tables m t \<and>
    (\<forall>v. v mod 4096 = 0 \<longrightarrow> v \<notin> user_va ` {i ..< i + length fs} \<longrightarrow> sv32_walk (ram m') t v = sv32_walk (ram m) t v) \<and>
    (\<forall>k < length fs. sv32_walk (ram m') t (user_va (i + k)) = None) \<and>
    (\<forall>g. unat g mod 4096 = 0 \<longrightarrow> g \<notin> tables m t \<longrightarrow> frame_eq (ram m) (ram m') g)"
  using assms
proof (induction fs arbitrary: i m)
  case Nil
  then show ?case by simp
next
  case (Cons f fs)
  have u: "\<exists>fl. sv32_walk (ram m) t (user_va (i + k)) = Some ((f # fs) ! k, fl)" if "k < Suc (length fs)" for k
    using Cons.prems(3) that by (simp add: user_frames_def)
  obtain fl where w: "sv32_walk (ram m) t (user_va i) = Some (f, fl)" using u [of 0] by auto
  have f: "f \<in> used_frames m" "f \<notin> tables m t" "f \<notin> set fs" "distinct fs" "set fs \<subseteq> used_frames m - tables m t"
    using Cons.prems(3) by (auto simp: user_frames_def)
  let ?p1 = "load32 (ram m) (pte_addr t (vpn1 (user_va i)))"
  let ?p0 = "load32 (ram m) (pte_addr (pte_table ?p1) (vpn0 (user_va i)))"
  obtain m1 m2 where m2: "?p1 AND PAGE_V \<noteq> 0" "?p0 AND PAGE_V \<noteq> 0" "free_pages (pte_table ?p0) 1 m = Ok m1"
    "m2 = m1\<lparr>ram := store32 (ram m1) (pte_addr (pte_table ?p1) (vpn0 (user_va i))) 0\<rparr>"
    "mem_wf m2" "pt_wf m2 t" "used_frames m2 = used_frames m - {f}" "tables m2 t = tables m t"
    and wk: "\<And>v'. v' mod 4096 = 0 \<Longrightarrow> v' \<noteq> user_va i \<Longrightarrow> sv32_walk (ram m2) t v' = sv32_walk (ram m) t v'"
    and un: "sv32_walk (ram m2) t (user_va i) = None"
    and fr: "\<And>g. unat g mod 4096 = 0 \<Longrightarrow> g \<notin> tables m t \<Longrightarrow> frame_eq (ram m) (ram m2) g"
    using unmap_page [OF Cons.prems(1,2) w f(1,2) user_va_aligned refl refl] by metis
  have "user_frames m2 t (Suc i) fs"
    unfolding user_frames_def
  proof (intro conjI allI impI)
    show "set fs \<subseteq> used_frames m2 - tables m2 t" using f m2(7,8) by auto
    fix k assume k: "k < length fs"
    have "user_va (Suc i + k) \<noteq> user_va i" using user_va_inj [of "Suc i + k" i] k Cons.prems(4) by auto
    then show "\<exists>fl. sv32_walk (ram m2) t (user_va (Suc i + k)) = Some (fs ! k, fl)"
      using wk [OF user_va_aligned] u [of "Suc k"] k by simp
  qed (rule f(4))
  from Cons.IH [OF m2(5,6) this] Cons.prems(4) obtain m' where m': "free_user_pages t (Suc i) (length fs) m2 = Ok m'"
    "mem_wf m'" "pt_wf m' t" "used_frames m' = used_frames m2 - set fs" "tables m' t = tables m2 t"
    "\<forall>v. v mod 4096 = 0 \<longrightarrow> v \<notin> user_va ` {Suc i ..< Suc i + length fs} \<longrightarrow> sv32_walk (ram m') t v = sv32_walk (ram m2) t v"
    "\<forall>k < length fs. sv32_walk (ram m') t (user_va (Suc i + k)) = None"
    "\<forall>g. unat g mod 4096 = 0 \<longrightarrow> g \<notin> tables m2 t \<longrightarrow> frame_eq (ram m2) (ram m') g"
    by auto
  have "free_user_pages t i (length (f # fs)) m = Ok m'" using m2(1-4) m'(1) by (simp add: Let_def)
  moreover have "sv32_walk (ram m') t v = sv32_walk (ram m) t v"
    if "v mod 4096 = 0" "v \<notin> user_va ` {i ..< i + length (f # fs)}" for v
  proof -
    have "v \<noteq> user_va i" "v \<notin> user_va ` {Suc i ..< Suc i + length fs}" using that(2) by auto
    then show ?thesis using m'(6) wk that(1) by simp
  qed
  moreover have "sv32_walk (ram m') t (user_va (i + k)) = None" if "k < length (f # fs)" for k
  proof (cases k)
    case 0
    have "user_va i \<noteq> user_va j" if "Suc i \<le> j" "j < Suc i + length fs" for j
      using user_va_inj [of i j] Cons.prems(4) that by auto
    then have "user_va i \<notin> user_va ` {Suc i ..< Suc i + length fs}" by (meson atLeastLessThan_iff imageE)
    then show ?thesis using m'(6) un user_va_aligned [of i] 0 by simp
  next
    case (Suc j)
    then show ?thesis using m'(7) that by simp
  qed
  moreover have "frame_eq (ram m) (ram m') g" if "unat g mod 4096 = 0" "g \<notin> tables m t" for g
    using frame_eq_trans [OF fr [OF that]] m'(8) that m2(8) by simp
  ultimately show ?case using m' m2(7,8) by auto
qed


text \<open>Freeing the second-level table of one entry, as the loop does it.\<close>

lemma drop_table:
  assumes wf: "mem_wf m" and pt: "pt_wf m t" and i: "i \<in> valid_entries m t"
  obtains m1 m2 where "free_pages (pte_table (load32 (ram m) (pte_addr t i))) 1 m = Ok m1"
    "m2 = m1\<lparr>ram := store32 (ram m1) (pte_addr t i) 0\<rparr>" "mem_wf m2" "pt_wf m2 t"
    "valid_entries m2 t = valid_entries m t - {i}"
    "used_frames m2 - (tables m2 t - {t}) = used_frames m - (tables m t - {t})"
proof -
  let ?T = "\<lambda>j. pte_table (load32 (ram m) (pte_addr t j))"
  have i': "unat i < 1024" "load32 (ram m) (pte_addr t i) AND PAGE_V \<noteq> 0" using i by (auto simp: valid_entries_def)
  note d = pt_wfD [OF pt i']
  obtain m1 where m1: "free_pages (?T i) 1 m = Ok m1" "used_frames m1 = used_frames m - {?T i}" "mem_wf m1" "ram m1 = ram m"
    by (rule free_one [OF wf d(2)])
  define m2 where "m2 = m1\<lparr>ram := store32 (ram m1) (pte_addr t i) 0\<rparr>"
  have at: "unat t mod 4096 = 0" by (rule used_frame_aligned [OF wf d(1)])
  have ld: "load32 (ram m2) (pte_addr t j) = (if i = j then 0 else load32 (ram m) (pte_addr t j))" if "unat j < 1024" for j
    using load_store_pte [OF at at i'(1) that] by (simp add: m2_def m1(4))
  have ve: "valid_entries m2 t = valid_entries m t - {i}" by (auto simp: valid_entries_def ld split: if_splits)
  have u: "used_frames m2 = used_frames m - {?T i}" by (simp add: m2_def m1(2))
  have inj: "?T j \<noteq> ?T i" if "j \<in> valid_entries m t" "j \<noteq> i" for j
    using pt_wf_inj [OF pt _ i'(1) _ i'(2), of j] that by (auto simp: valid_entries_def)
  have tb: "tables m2 t = insert t (?T ` (valid_entries m t - {i}))"
    unfolding tables_def ve by (auto simp: ld valid_entries_def intro!: image_cong)
  have "pt_wf m2 t"
    unfolding pt_wf_def
  proof (intro conjI allI impI)
    show "t \<in> used_frames m2" using u d by auto
    fix k assume k: "unat k < 1024" "load32 (ram m2) (pte_addr t k) AND PAGE_V \<noteq> 0"
    then have k': "k \<noteq> i" "load32 (ram m2) (pte_addr t k) = load32 (ram m) (pte_addr t k)"
      "load32 (ram m) (pte_addr t k) AND PAGE_V \<noteq> 0" using ld [OF k(1)] by (auto split: if_splits)
    then have "k \<in> valid_entries m t" using k(1) by (simp add: valid_entries_def)
    then show "pte_table (load32 (ram m2) (pte_addr t k)) \<in> used_frames m2 - {t}"
      using pt_wfD [OF pt k(1) k'(3)] inj k' u by simp
    fix j assume j: "unat j < 1024" "load32 (ram m2) (pte_addr t j) AND PAGE_V \<noteq> 0"
      "pte_table (load32 (ram m2) (pte_addr t k)) = pte_table (load32 (ram m2) (pte_addr t j))"
    then have "load32 (ram m2) (pte_addr t j) = load32 (ram m) (pte_addr t j)" using ld [OF j(1)] by (auto split: if_splits)
    then show "k = j" using pt_wf_inj [OF pt k(1) j(1) k'(3)] j(2,3) k'(2) by simp
  qed
  moreover have "used_frames m2 - (tables m2 t - {t}) = used_frames m - (tables m t - {t})"
    unfolding u tb using i d inj by (auto simp: tables_def)
  moreover have "mem_wf m2" using m1(3) by (simp add: m2_def)
  ultimately show thesis using that [OF m1(1) m2_def] ve by blast
qed

lemma free_tables_result:
  assumes "mem_wf m" "pt_wf m t" "\<forall>j \<in> valid_entries m t. i \<le> unat j" "i + n = 1024"
  shows "\<exists>m'. free_tables t i n m = Ok m' \<and> mem_wf m' \<and> t \<in> used_frames m' \<and>
    used_frames m' = used_frames m - (tables m t - {t})"
  using assms
proof (induction n arbitrary: i m)
  case 0
  then have "valid_entries m t = {}" by (auto simp: valid_entries_def)
  then show ?case using 0 by (simp add: tables_def pt_wf_def)
next
  case (Suc n)
  let ?p = "load32 (ram m) (pte_addr t (of_nat i))"
  have ui: "unat (of_nat i :: u32) = i" by (rule unat_of_nat32) (use Suc.prems(4) in simp)
  have later: "Suc i \<le> unat j" if "j \<in> valid_entries m t" "j \<noteq> of_nat i" for j
    using Suc.prems(3) that ui by (metis Suc_leI le_neq_implies_less word_unat_eq_iff)
  show ?case
  proof (cases "?p AND PAGE_V = 0")
    case True
    then have "of_nat i \<notin> valid_entries m t" by (simp add: valid_entries_def)
    then have "\<forall>j \<in> valid_entries m t. Suc i \<le> unat j" using later by blast
    from Suc.IH [OF Suc.prems(1,2) this] Suc.prems(4) True show ?thesis by (simp add: Let_def)
  next
    case False
    then have "of_nat i \<in> valid_entries m t" using ui Suc.prems(4) by (simp add: valid_entries_def)
    then obtain m1 m2 where m2: "free_pages (pte_table ?p) 1 m = Ok m1"
      "m2 = m1\<lparr>ram := store32 (ram m1) (pte_addr t (of_nat i)) 0\<rparr>" "mem_wf m2" "pt_wf m2 t"
      "valid_entries m2 t = valid_entries m t - {of_nat i}"
      "used_frames m2 - (tables m2 t - {t}) = used_frames m - (tables m t - {t})"
      by (rule drop_table [OF Suc.prems(1,2)])
    have "\<forall>j \<in> valid_entries m2 t. Suc i \<le> unat j" using later m2(5) by blast
    from Suc.IH [OF m2(3,4) this] Suc.prems(4) m2(1,2,6) False show ?thesis by (simp add: Let_def)
  qed
qed

lemma free_space_result:
  assumes wf: "mem_wf m" and pt: "pt_wf m t" and uf: "user_frames m t 0 fs" and n: "length fs \<le> 0xff000" "unat n = length fs"
  shows "\<exists>m'. free_space t n m = Ok m' \<and> mem_wf m' \<and> used_frames m' = used_frames m - set fs - tables m t"
proof -
  obtain m1 where m1: "free_user_pages t 0 (length fs) m = Ok m1" "mem_wf m1" "pt_wf m1 t"
    "used_frames m1 = used_frames m - set fs" "tables m1 t = tables m t"
    using free_user_pages_result [OF wf pt uf] n(1) by auto
  have "\<exists>m'. free_tables t 0 1024 m1 = Ok m' \<and> mem_wf m' \<and> t \<in> used_frames m' \<and>
      used_frames m' = used_frames m1 - (tables m1 t - {t})"
    by (rule free_tables_result [OF m1(2,3)]) simp_all
  then obtain m2 where m2: "free_tables t 0 1024 m1 = Ok m2" "mem_wf m2" "t \<in> used_frames m2"
    "used_frames m2 = used_frames m1 - (tables m1 t - {t})"
    by blast
  obtain m3 where m3: "free_pages t 1 m2 = Ok m3" "used_frames m3 = used_frames m2 - {t}" "mem_wf m3"
    by (rule free_one [OF m2(2,3)])
  have "free_space t n m = Ok m3" unfolding free_space_def n(2) m1(1) kbind.simps m2(1) m3(1) ..
  moreover have "used_frames m3 = used_frames m - set fs - tables m t"
  proof -
    have "t \<in> tables m t" by (simp add: tables_def)
    then show ?thesis unfolding m3(2) m2(4) m1(4,5) by blast
  qed
  ultimately show ?thesis using m3(3) by blast
qed


section \<open>Copying a space\<close>

lemma walk_Some_entries:
  assumes "sv32_walk r t v = Some (f, fl)"
  shows "load32 r (pte_addr t (vpn1 v)) AND PAGE_V \<noteq> 0"
    "load32 r (pte_addr (pte_table (load32 r (pte_addr t (vpn1 v)))) (vpn0 v)) AND PAGE_V \<noteq> 0"
    "pte_table (load32 r (pte_addr (pte_table (load32 r (pte_addr t (vpn1 v)))) (vpn0 v))) = f"
    "load32 r (pte_addr (pte_table (load32 r (pte_addr t (vpn1 v)))) (vpn0 v)) AND 0x3ff = fl"
  using assms by (auto simp: sv32_walk_def Let_def split: if_splits)

lemma walk_None_entries:
  "sv32_walk r t v = None \<longleftrightarrow> load32 r (pte_addr t (vpn1 v)) AND PAGE_V = 0 \<or>
     load32 r (pte_addr (pte_table (load32 r (pte_addr t (vpn1 v)))) (vpn0 v)) AND PAGE_V = 0"
  by (auto simp: sv32_walk_def Let_def)

lemma used_frame_nonzero:
  assumes "mem_wf m" "f \<in> used_frames m"
  shows "f \<noteq> 0"
proof -
  obtain i where i: "f = page_addr m i" "i < unat (managed_pages m)"
    using assms(2) by (auto simp: used_frames_def used_pages_def)
  have "0 < unat f" using unat_page_addr [OF assms(1) i(2)] assms(1) i(1) by (simp add: mem_wf_def)
  then show ?thesis by auto
qed

text \<open>The flags of the copy: those of the original, without and then again with the valid bit.\<close>

lemma copied_flags:
  fixes pte :: u32
  assumes "pte AND PAGE_V \<noteq> 0"
  shows "unat ((pte AND 0x3ff) AND NOT PAGE_V) < 1024" "((pte AND 0x3ff) AND NOT PAGE_V) OR PAGE_V = pte AND 0x3ff"
proof -
  have "(pte AND 0x3ff) AND NOT PAGE_V \<le> 0x3ff" by (metis and.assoc and.commute word_and_le1)
  then show "unat ((pte AND 0x3ff) AND NOT PAGE_V) < 1024" by (simp add: word_le_nat_alt)
  have m: "(0x3ff :: u32) = mask 10" by (simp add: mask_eq_exp_minus_1)
  have o: "odd pte" using assms by (simp add: PAGE_V_odd)
  show "((pte AND 0x3ff) AND NOT PAGE_V) OR PAGE_V = pte AND 0x3ff"
  proof (rule bit_word_eqI)
    fix n assume "n < LENGTH(32)"
    then show "bit (((pte AND 0x3ff) AND NOT PAGE_V) OR PAGE_V) n = bit (pte AND 0x3ff) n"
      using o unfolding bit_0 [symmetric]
      by (cases "n = 0") (auto simp: m PAGE_V_def bit_or_iff bit_and_iff bit_not_iff bit_mask_iff bit_1_iff simp del: bit_0)
  qed
qed

lemma ram_read_nth: "k < n \<Longrightarrow> ram_read r a n ! k = r (a + of_nat k)"
  by (simp add: ram_read_def)

lemma ram_read_eq: "frame_eq r r' f \<Longrightarrow> ram_read r' f 4096 = ram_read r f 4096"
  by (simp add: ram_read_def frame_eq_def)


lemma user_va_Suc: "user_va i + 4096 = user_va (Suc i)" "user_va i + of_nat k * 4096 = user_va (i + k)"
  by (simp_all add: user_va_def algebra_simps)

text \<open>Frames of one space that do not belong to the page table of another keep what they hold.\<close>

lemma other_space_kept:
  assumes "extends ct m m'" "mem_wf m" "maps_pages m pt1 va fs fls" "tables m pt1 \<union> set fs \<subseteq> used_frames m - tables m ct"
  shows "maps_pages m' pt1 va fs fls" "tables m' pt1 \<union> set fs \<subseteq> used_frames m' - tables m' ct"
    "\<And>f. f \<in> set fs \<Longrightarrow> ram_read (ram m') f 4096 = ram_read (ram m) f 4096"
proof -
  have d: "frame_eq (ram m) (ram m') g" "g \<notin> tables m' ct" "g \<in> used_frames m'" if "g \<in> tables m pt1 \<union> set fs" for g
    using extends_data [OF assms(1,2), of g] that assms(4) extendsD(3) [OF assms(1)] by auto
  have t: "\<And>g. g \<in> tables m pt1 \<Longrightarrow> frame_eq (ram m) (ram m') g" using d(1) by blast
  show "maps_pages m' pt1 va fs fls" using assms(3) same_tables(2) [OF t] by (simp add: maps_pages_def)
  show "tables m' pt1 \<union> set fs \<subseteq> used_frames m' - tables m' ct" using same_tables(1) [OF t] d(2,3) by auto
  show "ram_read (ram m') f 4096 = ram_read (ram m) f 4096" if "f \<in> set fs" for f using ram_read_eq d(1) that by blast
qed

text \<open>One step of the copy, with everything it reads traced back to the state before the allocation.\<close>

lemma copy_step:
  assumes wf: "mem_wf m" and pt: "pt_wf m ct" and w: "sv32_walk (ram m) pt1 (user_va i) = Some (f, fl)"
    and fm: "f \<in> used_frames m" "pte_table (load32 (ram m) (pte_addr pt1 (vpn1 (user_va i)))) \<in> used_frames m"
    and a: "alloc_pages 1 m = Ok (p, m1)"
  shows "copy_pages pt1 ct i (Suc n) m =
    kbind (map_page ct (user_va i) p (fl AND NOT PAGE_V) (m1\<lparr>ram := ram_write (ram m1) p (ram_read (ram m) f 4096)\<rparr>))
      (copy_pages pt1 ct (Suc i) n)"
proof -
  note e = walk_Some_entries [OF w]
  let ?pt0 = "pte_table (load32 (ram m) (pte_addr pt1 (vpn1 (user_va i))))"
  let ?pte0 = "load32 (ram m) (pte_addr ?pt0 (vpn0 (user_va i)))"
  have f: "p \<notin> used_frames m" "mem_wf m1" "p \<in> used_frames m1" using frames.alloc_fresh [OF wf a] by auto
  have p0: "p \<noteq> 0" by (rule used_frame_nonzero [OF f(2,3)])
  have ap: "unat p mod 4096 = 0" by (rule used_frame_aligned [OF f(2,3)])
  have len: "length (ram_read (ram m) f 4096) \<le> 4096" by (simp add: ram_read_def)
  have eq: "frame_eq (ram m) (ram m1) g" "frame_eq (ram m) (ram_write (ram m1) p (ram_read (ram m) f 4096)) g"
    if g: "g \<in> used_frames m" for g
  proof -
    have g': "unat g mod 4096 = 0" "g \<noteq> p" using used_frame_aligned [OF wf g] g f(1) by auto
    show "frame_eq (ram m) (ram m1) g" unfolding alloc_one_ram [OF wf a] by (rule ram_fill_frame_eq [OF ap g'])
    then show "frame_eq (ram m) (ram_write (ram m1) p (ram_read (ram m) f 4096)) g"
      using frame_eq_trans ram_write_frame_eq [OF ap g' len] by blast
  qed
  have rd: "ram_read (ram m1) f 4096 = ram_read (ram m) f 4096" by (rule ram_read_eq [OF eq(1) [OF fm(1)]])
  have "load32 (ram_write (ram m1) p (ram_read (ram m) f 4096)) (pte_addr ?pt0 (vpn0 (user_va i))) = ?pte0"
    by (rule load32_frame_eq [OF eq(2) [OF fm(2)] vpn_lt(2)])
  then show ?thesis using e a p0 by (simp add: Let_def rd)
qed

lemma copy_pages_result:
  assumes "copy_pages pt1 ct i (length fs) m = Ok (r, m')" "mem_wf m" "pt_wf m ct" "maps_pages m pt1 (user_va i) fs fls"
    "tables m pt1 \<union> set fs \<subseteq> used_frames m - tables m ct" "i + length fs \<le> 0xff000"
  shows "r \<and> (\<exists>cs. length cs = length fs \<and>
    adds_pages ct (user_va i) m m' cs fls (map (\<lambda>f. ram_read (ram m) f 4096) fs))"
  using assms
proof (induction fs arbitrary: i m fls)
  case Nil
  then show ?case using adds_pages_Nil by (auto simp: maps_pages_def)
next
  case (Cons f fs)
  obtain fl fls' where fls: "fls = fl # fls'" using Cons.prems(4) by (cases fls) (auto simp: maps_pages_def)
  have w: "sv32_walk (ram m) pt1 (user_va i) = Some (f, fl)" using Cons.prems(4) by (auto simp: maps_pages_def fls)
  have mp': "maps_pages m pt1 (user_va (Suc i)) fs fls'"
    using Cons.prems(4) unfolding maps_pages_def fls user_va_Suc by (auto dest: spec [of _ "Suc _"])
  note e = walk_Some_entries [OF w]
  obtain p m1 where a: "alloc_pages 1 m = Ok (p, m1)" using Cons.prems(1) e(1,2) by (auto simp: Let_def kbind_Ok_iff)
  let ?xs = "ram_read (ram m) f 4096"
  let ?m2 = "m1\<lparr>ram := ram_write (ram m1) p ?xs\<rparr>"
  let ?fl = "fl AND NOT PAGE_V"
  have len: "length ?xs \<le> 4096" by (simp add: ram_read_def)
  have sub: "tables m pt1 \<union> set (f # fs) \<subseteq> used_frames m - tables m ct" by (rule Cons.prems(5))
  have fm: "f \<in> used_frames m" "pte_table (load32 (ram m) (pte_addr pt1 (vpn1 (user_va i)))) \<in> used_frames m"
    using sub tables_memI [OF vpn_lt(1) e(1)] by auto
  have step: "copy_pages pt1 ct i (length (f # fs)) m =
      kbind (map_page ct (user_va i) p ?fl ?m2) (copy_pages pt1 ct (Suc i) (length fs))"
    using copy_step [OF Cons.prems(2,3) w fm a, of "length fs"] by simp
  then obtain m3 where mp: "map_page ct (user_va i) p ?fl ?m2 = Ok m3"
    and rest: "copy_pages pt1 ct (Suc i) (length fs) m3 = Ok (r, m')"
    using Cons.prems(1) by (auto simp: kbind_Ok_iff)
  note fl = copied_flags [OF e(2), unfolded e(4)]
  note ad = add_page [OF Cons.prems(2,3) a len fl(1) mp]
  have sub': "tables m pt1 \<union> set fs \<subseteq> used_frames m - tables m ct" using sub by auto
  note k = other_space_kept [OF ad(1) Cons.prems(2) mp' sub']
  from Cons.IH [OF rest extendsD(1,2) [OF ad(1)] k(1,2)] Cons.prems(6) obtain cs where r: r "length cs = length fs"
    and cs: "adds_pages ct (user_va (Suc i)) m3 m' cs fls' (map (\<lambda>f. ram_read (ram m3) f 4096) fs)" by auto
  have ds: "map (\<lambda>f. ram_read (ram m3) f 4096) fs = map (\<lambda>f. ram_read (ram m) f 4096) fs"
    by (rule map_cong [OF refl]) (rule k(3))
  have wrap: "unat (user_va i) + 4096 * Suc (length cs) \<le> 2 ^ 32"
    using unat_user_va [of i] Cons.prems(6) r(2) by simp
  have "adds_pages ct (user_va i) m m' (p # cs) ((?fl OR PAGE_V) # fls')
      (?xs # map (\<lambda>f. ram_read (ram m3) f 4096) fs)"
    by (rule adds_pages_Cons [OF Cons.prems(2,3) a len fl(1) mp _ wrap]) (simp add: user_va_Suc cs)
  then have "adds_pages ct (user_va i) m m' (p # cs) fls (map (\<lambda>f. ram_read (ram m) f 4096) (f # fs))"
    unfolding fl(2) ds by (simp add: fls)
  then show ?case using r by (metis length_Cons)
qed

end
