(* ===== verification/SpaceBudget.thy ===== *)
theory SpaceBudget
  imports AddrSpace
begin

text \<open>
  Enough memory is enough: the loops that build an address space return whenever the allocator has a free frame for
  each page of the image, for each second-level table and for the page directory. \<open>room n m\<close> says that \<open>n\<close> frames
  are free.
\<close>

section \<open>Counting frames\<close>

definition room :: "nat \<Rightarrow> mem_state \<Rightarrow> bool" where
  "room n m \<longleftrightarrow> card (used_frames m) + n \<le> unat (managed_pages m)"

lemma used_pages_finite [simp]: "finite (used_pages m)"
  by (rule finite_subset [of _ "{..< unat (managed_pages m)}"]) (auto simp: used_pages_def)

lemma used_frames_finite [simp]: "finite (used_frames m)"
  by (simp add: used_frames_def)

lemma card_used_frames: "mem_wf m \<Longrightarrow> card (used_frames m) = card (used_pages m)"
  unfolding used_frames_def
  by (rule card_image) (auto simp: inj_on_def used_pages_def intro: page_addr_inj)

lemma room_mono: "room n m \<Longrightarrow> k \<le> n \<Longrightarrow> room k m" by (simp add: room_def)

lemma room_ram [simp]: "room n (m\<lparr>ram := r\<rparr>) = room n m" by (simp add: room_def)

lemma alloc_one_returns:
  assumes wf: "mem_wf m" and r: "room (Suc n) m"
  obtains p m' where "alloc_pages 1 m = Ok (p, m')" "room n m'"
proof -
  have "card (used_pages m) < card {..< unat (managed_pages m)}"
    using r card_used_frames [OF wf] by (simp add: room_def)
  then have "\<not> {..< unat (managed_pages m)} \<subseteq> used_pages m" using card_mono [OF used_pages_finite] by (metis linorder_not_le)
  then obtain i where "i < unat (managed_pages m)" "i \<notin> used_pages m" by auto
  then have "free_run (page_bitmap m) 1 i" "i + 1 \<le> unat (managed_pages m)" by (auto simp: free_run_def used_pages_def less_Suc_eq_le dest: le_antisym)
  then have "returns (alloc_pages 1 m)" unfolding alloc_pages_returns_iff [OF wf] by auto
  then obtain p m' where a: "alloc_pages 1 m = Ok (p, m')" by (auto simp: returns_iff)
  have "managed_pages m' = managed_pages m" using alloc_pages_frame [OF a] by simp
  then have "room n m'" using r frames.alloc_fresh [OF wf a] by (simp add: room_def)
  then show thesis using a that by blast
qed

lemma map_page_returns:
  assumes wf: "mem_wf m" and pt: "pt_wf m t" and al: "v mod 4096 = 0" "p mod 4096 = 0"
    and r: "room (n + (if vpn1 v \<in> valid_entries m t then 0 else 1)) m"
  obtains m' where "map_page t v p flags m = Ok m'" "room n m'"
proof (cases "vpn1 v \<in> valid_entries m t")
  case True
  then have "load32 (ram m) (pte_addr t (vpn1 v)) AND PAGE_V \<noteq> 0" by (simp add: valid_entries_def)
  then show thesis using that r True al by (simp add: map_page_def Let_def)
next
  case False
  then have z: "load32 (ram m) (pte_addr t (vpn1 v)) AND PAGE_V = 0" using vpn_lt(1) [of v] by (simp add: valid_entries_def)
  obtain q m1 where "alloc_pages 1 m = Ok (q, m1)" "room n m1"
    by (rule alloc_one_returns [OF wf]) (use r False in simp)
  then show thesis using that z al by (simp add: map_page_def Let_def)
qed

lemma map_range_returns:
  assumes "mem_wf m" "pt_wf m t" "\<forall>p \<in> set ps. p mod 4096 = 0" "room (n + card (vpn1 ` set ps - valid_entries m t)) m"
    "unat flags < 1024"
  shows "\<exists>m'. map_range t flags ps m = Ok m' \<and> room n m'"
  using assms
proof (induction ps arbitrary: m)
  case Nil
  then show ?case by simp
next
  case (Cons p ps)
  let ?new = "if vpn1 p \<in> valid_entries m t then 0 else 1 :: nat"
  let ?A = "vpn1 ` set ps - insert (vpn1 p) (valid_entries m t)"
  have "vpn1 ` set (p # ps) - valid_entries m t = (if vpn1 p \<in> valid_entries m t then ?A else insert (vpn1 p) ?A)" by auto
  then have "card (vpn1 ` set (p # ps) - valid_entries m t) = ?new + card ?A" by simp
  then have "room (n + card ?A + ?new) m" using Cons.prems(4) by (simp add: add.commute add.left_commute)
  then obtain m1 where m1: "map_page t p p flags m = Ok m1" "room (n + card ?A) m1"
    using map_page_returns [OF Cons.prems(1,2), of p p "n + card ?A" flags] Cons.prems(3) by (metis list.set_intros(1))
  note e = map_page_extends [OF Cons.prems(1,2) m1(1)]
  from Cons.IH [OF extendsD(1,2) [OF e(1)]] m1(2) Cons.prems(3,5) obtain m' where
    "map_range t flags ps m1 = Ok m'" "room n m'" by (auto simp: e(3))
  then show ?case using m1(1) by auto
qed


text \<open>The first-level entries that \<open>n\<close> pages from \<open>va\<close> on need.\<close>

definition page_entries :: "u32 \<Rightarrow> nat \<Rightarrow> u32 set" where
  "page_entries va n = (\<lambda>i. vpn1 (va + of_nat i * 4096)) ` {..< n}"

lemma page_entries_Suc: "page_entries va (Suc n) = insert (vpn1 va) (page_entries (va + 4096) n)"
  unfolding page_entries_def image_lessThan_Suc page_shift by simp

lemma page_entries_finite [simp]: "finite (page_entries va n)" by (simp add: page_entries_def)

lemma unat_mod_4096: "unat ((v :: u32) mod 4096) = unat v mod 4096"
  by (simp only: unat_mod_numeral) simp

lemma aligned_step:
  assumes "(va :: u32) mod 4096 = 0"
  shows "(va + 4096) mod 4096 = 0"
proof (rule mod_4096_unat)
  have "unat va mod 4096 = 0" using unat_mod_4096 [of va] assms by simp
  moreover have "unat (va + 4096) = (unat va + 4096) mod 4294967296" by (simp add: unat_word_ariths)
  ultimately show "unat (va + 4096) mod 4096 = 0" by (simp add: mod_mod_cancel)
qed

lemma load_image_returns:
  assumes "mem_wf m" "pt_wf m t" "va mod 4096 = 0"
    "room (n + length (pages_of img) + card (page_entries va (length (pages_of img)) - valid_entries m t)) m"
  shows "\<exists>m'. load_image t va img m = Ok m' \<and> room n m'"
  using assms
proof (induction t va img m rule: load_image.induct)
  case (1 t va img m)
  show ?case
  proof (cases "img = []")
    case True
    then show ?thesis using 1(5) by (simp add: load_image.simps pages_of.simps page_entries_def)
  next
    case False
    let ?fl = "PAGE_U OR PAGE_R OR PAGE_W OR PAGE_X" and ?k = "length (pages_of (drop 4096 img))"
    let ?A = "page_entries (va + 4096) ?k - insert (vpn1 va) (valid_entries m t)"
    let ?new = "if vpn1 va \<in> valid_entries m t then 0 else 1 :: nat"
    have pg: "pages_of img = take 4096 img # pages_of (drop 4096 img)" using False by (subst pages_of.simps) simp
    have "page_entries va (Suc ?k) - valid_entries m t = (if vpn1 va \<in> valid_entries m t then ?A else insert (vpn1 va) ?A)"
      by (auto simp: page_entries_Suc)
    then have "card (page_entries va (Suc ?k) - valid_entries m t) = ?new + card ?A" by simp
    then have r: "room (Suc (n + ?k + card ?A + ?new)) m" using 1(5) by (simp add: pg add.commute add.left_commute)
    obtain p m1 where a: "alloc_pages 1 m = Ok (p, m1)" "room (n + ?k + card ?A + ?new) m1"
      by (rule alloc_one_returns [OF 1(2) r])
    let ?m2 = "m1\<lparr>ram := ram_write (ram m1) p (take 4096 img)\<rparr>"
    have len: "length (take 4096 img) \<le> 4096" by simp
    note w = alloc_write_extends [OF 1(2,3) a(1) len refl]
    have ap: "p mod 4096 = 0"
      by (rule mod_4096_unat [OF used_frame_aligned [OF extendsD(1) [OF w(1)]]]) (simp add: w(5) del: used_frames_ram)
    have "room (n + ?k + card ?A + (if vpn1 va \<in> valid_entries ?m2 t then 0 else 1)) ?m2" using a(2) by (simp add: w(3))
    then obtain m3 where m3: "map_page t va p ?fl ?m2 = Ok m3" "room (n + ?k + card ?A) m3"
      using map_page_returns [OF extendsD(1,2) [OF w(1)] 1(4) ap, of "n + ?k + card ?A" ?fl] by blast
    have fl: "unat ?fl < 1024" by (simp add: PAGE_U_def PAGE_R_def PAGE_W_def PAGE_X_def)
    note ad = add_page [OF 1(2,3) a(1) len fl m3(1)]
    obtain m' where "load_image t (va + 4096) (drop 4096 img) m3 = Ok m'" "room n m'"
      using 1(1) [OF False extendsD(1,2) [OF ad(1)] aligned_step [OF 1(4)]] m3(2) by (auto simp: ad(6))
    then have "load_image t va img m = Ok m'" using False a(1) m3(1) by (subst load_image.simps) simp
    then show ?thesis using \<open>room n m'\<close> by blast
  qed
qed


section \<open>A whole address space\<close>

lemma card_entries:
  assumes "A \<subseteq> range vpn1"
  shows "finite A" "card A \<le> 1024"
proof -
  have "range vpn1 \<subseteq> of_nat ` {..< 1024}"
  proof
    fix x assume "x \<in> range vpn1"
    then have "unat x < 1024" using vpn_lt(1) by auto
    then show "x \<in> of_nat ` {..< 1024}" by (intro image_eqI [of _ _ "unat x"]) simp_all
  qed
  then have sub: "A \<subseteq> of_nat ` {..< 1024}" using assms by blast
  then show "finite A" by (rule finite_subset) simp
  have "card (of_nat ` {..< 1024} :: u32 set) \<le> 1024" using card_image_le [of "{..< 1024 :: nat}"] by simp
  then show "card A \<le> 1024" using card_mono [OF _ sub] by simp
qed

lemma page_range_aligned:
  assumes "a mod 4096 = 0" "p \<in> set (page_range a b)"
  shows "p mod 4096 = 0"
proof -
  have "(a + of_nat i * 4096) mod 4096 = 0" for i
  proof (induction i)
    case (Suc i)
    have "a + of_nat (Suc i) * 4096 = (a + of_nat i * 4096) + 4096" by (simp add: distrib_right)
    then show ?case using aligned_step [OF Suc] by (simp only:)
  qed (simp add: assms(1))
  then show ?thesis using assms(2) by (auto simp: page_range_def)
qed

lemma card_Un_rest: "finite A \<Longrightarrow> finite B \<Longrightarrow> card (A \<union> B) = card A + card (B - A)"
  by (metis card_Un_disjoint Diff_disjoint Un_Diff_cancel finite_Diff)

lemma map_kernel_returns:
  assumes wf: "mem_wf m" and pt: "pt_wf m t" and v: "valid_entries m t = {}" and kb: "kb mod 4096 = 0"
    and r: "room (n + card (kernel_entries kb fe)) m"
  obtains m' where "map_kernel t kb fe m = Ok m'" "room n m'"
proof -
  let ?K = "vpn1 ` set (page_range kb fe)" and ?M = "vpn1 ` set (page_range MMIO_BASE MMIO_END)"
  let ?R = "vpn1 ` set (page_range RTC_MMIO_BASE RTC_MMIO_END)"
  have c: "card (kernel_entries kb fe) = card ?K + card (?M - ?K) + card (?R - (?K \<union> ?M))"
    unfolding kernel_entries_def image_Un by (simp add: card_Un_rest)
  have fl: "unat (PAGE_R OR PAGE_W OR PAGE_X) < 1024" "unat (PAGE_R OR PAGE_W) < 1024"
    by (simp_all add: PAGE_R_def PAGE_W_def PAGE_X_def)
  have al: "p mod 4096 = 0" if "p \<in> set (page_range kb fe) \<or> p \<in> set (page_range MMIO_BASE MMIO_END) \<or>
      p \<in> set (page_range RTC_MMIO_BASE RTC_MMIO_END)" for p
    using that page_range_aligned [OF kb] page_range_aligned [of MMIO_BASE] page_range_aligned [of RTC_MMIO_BASE]
    by (auto simp: MMIO_BASE_def RTC_MMIO_BASE_def)
  have "room ((n + card (?R - (?K \<union> ?M)) + card (?M - ?K)) + card (?K - valid_entries m t)) m"
    using r by (simp add: c v add.commute add.left_commute)
  from map_range_returns [OF wf pt _ this fl(1)] al obtain m1 where
    m1: "map_range t (PAGE_R OR PAGE_W OR PAGE_X) (page_range kb fe) m = Ok m1" "room (n + card (?R - (?K \<union> ?M)) + card (?M - ?K)) m1"
    by blast
  note e1 = map_range_result [OF m1(1) wf pt fl(1)]
  have "room ((n + card (?R - (?K \<union> ?M))) + card (?M - valid_entries m1 t)) m1" using m1(2) by (simp add: e1(3) v)
  from map_range_returns [OF extendsD(1,2) [OF e1(1)] _ this fl(2)] al obtain m2 where
    m2: "map_range t (PAGE_R OR PAGE_W) (page_range MMIO_BASE MMIO_END) m1 = Ok m2" "room (n + card (?R - (?K \<union> ?M))) m2"
    by blast
  note e2 = map_range_result [OF m2(1) extendsD(1,2) [OF e1(1)] fl(2)]
  have "?R - valid_entries m2 t = ?R - (?K \<union> ?M)" by (auto simp: e2(3) e1(3) v)
  then have "room (n + card (?R - valid_entries m2 t)) m2" using m2(2) by simp
  from map_range_returns [OF extendsD(1,2) [OF e2(1)] _ this fl(2)] al obtain m3 where
    "map_range t (PAGE_R OR PAGE_W) (page_range RTC_MMIO_BASE RTC_MMIO_END) m2 = Ok m3" "room n m3"
    by blast
  then show thesis using m1(1) m2(1) that by (simp add: map_kernel_def)
qed

text \<open>1024 second-level tables and the directory are the most that an address space can need.\<close>

lemma entries_bound:
  "Suc (n + k + card (page_entries va k - kernel_entries kb fe) + card (kernel_entries kb fe)) \<le> n + 1025 + k"
proof -
  let ?E = "kernel_entries kb fe" and ?U = "page_entries va k"
  have E: "?E \<subseteq> range vpn1" "?U \<subseteq> range vpn1" by (auto simp: kernel_entries_def page_entries_def)
  have "card ?E + card (?U - ?E) = card (?E \<union> ?U)"
    using card_Un_rest [OF card_entries(1) [OF E(1)] card_entries(1) [OF E(2)]] by simp
  also have "\<dots> \<le> 1024" by (rule card_entries(2)) (use E in simp)
  finally show ?thesis by simp
qed

lemma new_tables_return:
  assumes wf: "mem_wf m" and kb: "kb mod 4096 = 0" and r: "room (n + 1025 + k) m"
  obtains t m1 m2 where "alloc_pages 1 m = Ok (t, m1)" "map_kernel t kb fe m1 = Ok m2"
    "room (n + k + card (page_entries va k - valid_entries m2 t)) m2"
proof -
  let ?E = "kernel_entries kb fe" and ?U = "page_entries va k"
  obtain t m1 where a: "alloc_pages 1 m = Ok (t, m1)" "room (n + k + card (?U - ?E) + card ?E) m1"
    using alloc_one_returns [OF wf room_mono [OF r entries_bound]] by blast
  note t = alloc_table [OF wf a(1)]
  obtain m2 where m2: "map_kernel t kb fe m1 = Ok m2" "room (n + k + card (?U - ?E)) m2"
    by (rule map_kernel_returns [OF t(1,2,3) kb a(2)])
  then show thesis using that [OF a(1)] map_kernel_result(3) [OF m2(1) t(1,2,7)] by (simp add: t(3))
qed

lemma new_space_returns:
  assumes wf: "mem_wf m" and kb: "kb mod 4096 = 0" and r: "room (n + 1025 + length (pages_of img)) m"
  obtains t m1 m2 m' where "alloc_pages 1 m = Ok (t, m1)" "map_kernel t kb fe m1 = Ok m2"
    "load_image t USER_BASE img m2 = Ok m'" "room n m'"
proof -
  obtain t m1 m2 where m2: "alloc_pages 1 m = Ok (t, m1)" "map_kernel t kb fe m1 = Ok m2"
    "room (n + length (pages_of img) + card (page_entries USER_BASE (length (pages_of img)) - valid_entries m2 t)) m2"
    by (rule new_tables_return [OF wf kb r])
  note t = alloc_table [OF wf m2(1)]
  note k = map_kernel_result [OF m2(2) t(1,2,7)]
  have "USER_BASE mod 4096 = 0" by (simp add: USER_BASE_def)
  from load_image_returns [OF extendsD(1,2) [OF k(1)] this m2(3)] show thesis using that m2(1,2) by blast
qed

text \<open>Copying the pages of a complete space.\<close>

lemma copy_pages_returns:
  assumes "mem_wf m" "pt_wf m ct" "maps_pages m pt1 (user_va i) fs fls" "tables m pt1 \<union> set fs \<subseteq> used_frames m - tables m ct"
    "room (n + length fs + card (page_entries (user_va i) (length fs) - valid_entries m ct)) m"
  shows "\<exists>m'. copy_pages pt1 ct i (length fs) m = Ok (True, m') \<and> room n m'"
  using assms
proof (induction fs arbitrary: i m fls)
  case Nil
  then show ?case by (simp add: page_entries_def)
next
  case (Cons f fs)
  let ?A = "page_entries (user_va (Suc i)) (length fs) - insert (vpn1 (user_va i)) (valid_entries m ct)"
  let ?new = "if vpn1 (user_va i) \<in> valid_entries m ct then 0 else 1 :: nat"
  obtain fl fls' where fls: "fls = fl # fls'" using Cons.prems(3) by (cases fls) (auto simp: maps_pages_def)
  have w: "sv32_walk (ram m) pt1 (user_va i) = Some (f, fl)" using Cons.prems(3) by (auto simp: maps_pages_def fls)
  have mp': "maps_pages m pt1 (user_va (Suc i)) fs fls'"
    using Cons.prems(3) unfolding maps_pages_def fls user_va_Suc by (auto dest: spec [of _ "Suc _"])
  have "page_entries (user_va i) (Suc (length fs)) - valid_entries m ct =
      (if vpn1 (user_va i) \<in> valid_entries m ct then ?A else insert (vpn1 (user_va i)) ?A)"
    by (auto simp: page_entries_Suc user_va_Suc(1))
  then have "card (page_entries (user_va i) (Suc (length fs)) - valid_entries m ct) = ?new + card ?A" by simp
  then have r: "room (Suc (n + length fs + card ?A + ?new)) m" using Cons.prems(5) by (simp add: add.commute add.left_commute)
  obtain p m1 where a: "alloc_pages 1 m = Ok (p, m1)" "room (n + length fs + card ?A + ?new) m1"
    by (rule alloc_one_returns [OF Cons.prems(1) r])
  note e = walk_Some_entries [OF w] and st = copy_step [OF Cons.prems(1,2) w _ _ a(1)]
  have fm: "f \<in> used_frames m" "pte_table (load32 (ram m) (pte_addr pt1 (vpn1 (user_va i)))) \<in> used_frames m"
    using Cons.prems(4) tables_memI [OF vpn_lt(1) e(1)] by auto
  let ?xs = "ram_read (ram m) f 4096"
  let ?m2 = "m1\<lparr>ram := ram_write (ram m1) p ?xs\<rparr>"
  have len: "length ?xs \<le> 4096" by (simp add: ram_read_def)
  note aw = alloc_write_extends [OF Cons.prems(1,2) a(1) len refl]
  have ap: "p mod 4096 = 0"
    by (rule mod_4096_unat [OF used_frame_aligned [OF extendsD(1) [OF aw(1)]]]) (simp add: aw(5) del: used_frames_ram)
  let ?fl = "fl AND NOT PAGE_V"
  have "room (n + length fs + card ?A + (if vpn1 (user_va i) \<in> valid_entries ?m2 ct then 0 else 1)) ?m2"
    using a(2) by (simp add: aw(3))
  then obtain m3 where m3: "map_page ct (user_va i) p ?fl ?m2 = Ok m3" "room (n + length fs + card ?A) m3"
    using map_page_returns [OF extendsD(1,2) [OF aw(1)] user_va_aligned ap, of "n + length fs + card ?A" i] by blast
  note ad = add_page [OF Cons.prems(1,2) a(1) len copied_flags(1) [OF e(2), unfolded e(4)] m3(1)]
  have sub': "tables m pt1 \<union> set fs \<subseteq> used_frames m - tables m ct" using Cons.prems(4) by auto
  note k = other_space_kept [OF ad(1) Cons.prems(1) mp' sub']
  have "room (n + length fs + card (page_entries (user_va (Suc i)) (length fs) - valid_entries m3 ct)) m3"
    using m3(2) by (simp add: ad(6))
  from Cons.IH [OF extendsD(1,2) [OF ad(1)] k(1,2) this] obtain m' where
    "copy_pages pt1 ct (Suc i) (length fs) m3 = Ok (True, m')" "room n m'" by blast
  then show ?case using st [OF fm, of "length fs"] m3(1) by simp
qed

end
