(* ===== verification/BlockDev.thy ===== *)
theory BlockDev
  imports Prelude
begin

text \<open>
  The virtio block driver (src/kernel/fs/blockdev_virtio.c, blockdev.h): device discovery,
  configuration, capacity, one request through the virtqueue, recovery after a timeout, and the
  two entry points \<open>blockdev_read\<close> and \<open>blockdev_write\<close>.

  The device is hardware, not code of the repository: it is an arbitrary value of the codatatype
  \<open>dev\<close>, which answers register reads, changes at register writes, and reacts to a queue
  notification. What the file system relies on is the coinductive predicate \<open>honest_disk\<close>: a device
  that may fail or time out at any request, but that has carried out a request whenever it has moved
  the used index and reported status 0. Log output is not modelled.
\<close>

section \<open>Constants\<close>

definition BLOCKDEV_BLOCK_SIZE :: nat where "BLOCKDEV_BLOCK_SIZE = 512"
definition BLOCKDEV_BLOCK_COUNT :: nat where "BLOCKDEV_BLOCK_COUNT = 256"

definition VIRTIO_MMIO_BASE :: u32 where "VIRTIO_MMIO_BASE = 0x10001000"
definition VIRTIO_MMIO_STRIDE :: u32 where "VIRTIO_MMIO_STRIDE = 0x1000"
definition VIRTIO_MMIO_MAX_DEVS :: nat where "VIRTIO_MMIO_MAX_DEVS = 8"

definition VIRTIO_MMIO_MAGIC_VALUE :: u32 where "VIRTIO_MMIO_MAGIC_VALUE = 0x000"
definition VIRTIO_MMIO_VERSION :: u32 where "VIRTIO_MMIO_VERSION = 0x004"
definition VIRTIO_MMIO_DEVICE_ID :: u32 where "VIRTIO_MMIO_DEVICE_ID = 0x008"
definition VIRTIO_MMIO_VENDOR_ID :: u32 where "VIRTIO_MMIO_VENDOR_ID = 0x00c"
definition VIRTIO_MMIO_DEVICE_FEATURES :: u32 where "VIRTIO_MMIO_DEVICE_FEATURES = 0x010"
definition VIRTIO_MMIO_DEVICE_FEATURES_SEL :: u32 where "VIRTIO_MMIO_DEVICE_FEATURES_SEL = 0x014"
definition VIRTIO_MMIO_DRIVER_FEATURES :: u32 where "VIRTIO_MMIO_DRIVER_FEATURES = 0x020"
definition VIRTIO_MMIO_DRIVER_FEATURES_SEL :: u32 where "VIRTIO_MMIO_DRIVER_FEATURES_SEL = 0x024"
definition VIRTIO_MMIO_QUEUE_SEL :: u32 where "VIRTIO_MMIO_QUEUE_SEL = 0x030"
definition VIRTIO_MMIO_QUEUE_NUM_MAX :: u32 where "VIRTIO_MMIO_QUEUE_NUM_MAX = 0x034"
definition VIRTIO_MMIO_QUEUE_NUM :: u32 where "VIRTIO_MMIO_QUEUE_NUM = 0x038"
definition VIRTIO_MMIO_QUEUE_READY :: u32 where "VIRTIO_MMIO_QUEUE_READY = 0x044"
definition VIRTIO_MMIO_STATUS :: u32 where "VIRTIO_MMIO_STATUS = 0x070"
definition VIRTIO_MMIO_QUEUE_DESC_LOW :: u32 where "VIRTIO_MMIO_QUEUE_DESC_LOW = 0x080"
definition VIRTIO_MMIO_QUEUE_DESC_HIGH :: u32 where "VIRTIO_MMIO_QUEUE_DESC_HIGH = 0x084"
definition VIRTIO_MMIO_QUEUE_AVAIL_LOW :: u32 where "VIRTIO_MMIO_QUEUE_AVAIL_LOW = 0x090"
definition VIRTIO_MMIO_QUEUE_AVAIL_HIGH :: u32 where "VIRTIO_MMIO_QUEUE_AVAIL_HIGH = 0x094"
definition VIRTIO_MMIO_QUEUE_USED_LOW :: u32 where "VIRTIO_MMIO_QUEUE_USED_LOW = 0x0a0"
definition VIRTIO_MMIO_QUEUE_USED_HIGH :: u32 where "VIRTIO_MMIO_QUEUE_USED_HIGH = 0x0a4"
definition VIRTIO_MMIO_CONFIG :: u32 where "VIRTIO_MMIO_CONFIG = 0x100"

definition VIRTIO_MAGIC :: u32 where "VIRTIO_MAGIC = 0x74726976"
definition VIRTIO_VENDOR :: u32 where "VIRTIO_VENDOR = 0x554d4551"
definition VIRTIO_DEV_BLOCK :: u32 where "VIRTIO_DEV_BLOCK = 2"

definition VIRTIO_STATUS_ACKNOWLEDGE :: u32 where "VIRTIO_STATUS_ACKNOWLEDGE = 1"
definition VIRTIO_STATUS_DRIVER :: u32 where "VIRTIO_STATUS_DRIVER = 2"
definition VIRTIO_STATUS_FEATURES_OK :: u32 where "VIRTIO_STATUS_FEATURES_OK = 8"
definition VIRTIO_STATUS_DRIVER_OK :: u32 where "VIRTIO_STATUS_DRIVER_OK = 4"
definition VIRTIO_STATUS_FAILED :: u32 where "VIRTIO_STATUS_FAILED = 128"

definition VIRTQ_DESC_F_NEXT :: u16 where "VIRTQ_DESC_F_NEXT = 1"
definition VIRTQ_DESC_F_WRITE :: u16 where "VIRTQ_DESC_F_WRITE = 2"
definition VIRTIO_BLK_T_IN :: u32 where "VIRTIO_BLK_T_IN = 0"
definition VIRTIO_BLK_T_OUT :: u32 where "VIRTIO_BLK_T_OUT = 1"
definition VIRTIO_F_VERSION_1 :: nat where "VIRTIO_F_VERSION_1 = 32"
definition VQ_NUM :: u32 where "VQ_NUM = 8"
definition VQ_ALIGN :: u32 where "VQ_ALIGN = 4096"
definition VIRTIO_IO_SPIN_LIMIT :: nat where "VIRTIO_IO_SPIN_LIMIT = 30000000"

lemmas virtio_mmio_consts [hdr_consts] =
  VIRTIO_MMIO_BASE_def VIRTIO_MMIO_STRIDE_def VIRTIO_MMIO_MAX_DEVS_def VIRTIO_MMIO_MAGIC_VALUE_def
  VIRTIO_MMIO_VERSION_def VIRTIO_MMIO_DEVICE_ID_def VIRTIO_MMIO_VENDOR_ID_def
  VIRTIO_MMIO_DEVICE_FEATURES_def VIRTIO_MMIO_DEVICE_FEATURES_SEL_def
  VIRTIO_MMIO_DRIVER_FEATURES_def VIRTIO_MMIO_DRIVER_FEATURES_SEL_def VIRTIO_MMIO_QUEUE_SEL_def
  VIRTIO_MMIO_QUEUE_NUM_MAX_def VIRTIO_MMIO_QUEUE_NUM_def VIRTIO_MMIO_QUEUE_READY_def
  VIRTIO_MMIO_STATUS_def VIRTIO_MMIO_QUEUE_DESC_LOW_def VIRTIO_MMIO_QUEUE_DESC_HIGH_def
  VIRTIO_MMIO_QUEUE_AVAIL_LOW_def VIRTIO_MMIO_QUEUE_AVAIL_HIGH_def VIRTIO_MMIO_QUEUE_USED_LOW_def
  VIRTIO_MMIO_QUEUE_USED_HIGH_def VIRTIO_MMIO_CONFIG_def

lemmas virtio_value_consts [hdr_consts] =
  VIRTIO_MAGIC_def VIRTIO_VENDOR_def VIRTIO_DEV_BLOCK_def VIRTIO_STATUS_ACKNOWLEDGE_def
  VIRTIO_STATUS_DRIVER_def VIRTIO_STATUS_FEATURES_OK_def VIRTIO_STATUS_DRIVER_OK_def
  VIRTIO_STATUS_FAILED_def VIRTIO_F_VERSION_1_def VQ_NUM_def VQ_ALIGN_def

lemmas virtq_consts = VIRTQ_DESC_F_NEXT_def VIRTQ_DESC_F_WRITE_def VIRTIO_BLK_T_IN_def VIRTIO_BLK_T_OUT_def

section \<open>The virtqueue and the device\<close>

text \<open>The targets of the descriptors: the static request header, the caller's block buffer, the
  static status byte.\<close>

datatype dma_addr = Null_addr | Req_hdr_addr | Buf_addr | Req_status_addr

record virtq_desc =
  d_addr :: dma_addr
  d_len :: u32
  d_flags :: u16
  d_next :: u16

record virtio_blk_req_hdr =
  h_type :: u32
  h_reserved :: u32
  h_sector :: u64

text \<open>What the device finds in memory when it is notified.\<close>

record vq_view =
  v_desc :: "nat \<Rightarrow> virtq_desc"
  v_avail_idx :: u16
  v_avail_ring :: "nat \<Rightarrow> u16"
  v_used_idx :: u16
  v_hdr :: virtio_blk_req_hdr
  v_buf :: "u8 list"

text \<open>What it leaves there: the used index at the successive polls of the driver, the status byte
  and the contents of the buffer.\<close>

record completion =
  c_polls :: "nat \<Rightarrow> u16"
  c_status :: u8
  c_buf :: "u8 list"

codatatype dev = Dev
  (dev_reg: "u32 \<Rightarrow> u32")
  (dev_write: "u32 \<Rightarrow> u32 \<Rightarrow> dev")
  (dev_done: "vq_view \<Rightarrow> completion")
  (dev_next: "vq_view \<Rightarrow> dev")

record blk_state =
  virtio_mmio :: u32
  capacity_blocks :: u32
  vq_mem_addr :: u32
  vq_desc :: "nat \<Rightarrow> virtq_desc"
  vq_avail_idx :: u16
  vq_avail_ring :: "nat \<Rightarrow> u16"
  vq_used_idx :: u16
  vq_last_used_idx :: u16
  req_hdr :: virtio_blk_req_hdr
  req_status :: u8
  blk_log_once :: bool
  last_io_timed_out :: bool
  blk_recovering :: bool
  the_dev :: dev

definition zero_desc :: virtq_desc where
  "zero_desc = \<lparr>d_addr = Null_addr, d_len = 0, d_flags = 0, d_next = 0\<rparr>"

section \<open>Registers, discovery, configuration\<close>

definition mmio_read :: "u32 \<Rightarrow> blk_state \<Rightarrow> u32" where
  "mmio_read off b = dev_reg (the_dev b) (virtio_mmio b + off)"

definition mmio_write :: "u32 \<Rightarrow> u32 \<Rightarrow> blk_state \<Rightarrow> blk_state" where
  "mmio_write off val b = b\<lparr>the_dev := dev_write (the_dev b) (virtio_mmio b + off) val\<rparr>"

definition is_blk_dev :: "dev \<Rightarrow> u32 \<Rightarrow> bool" where
  "is_blk_dev d base \<longleftrightarrow>
     dev_reg d (base + VIRTIO_MMIO_MAGIC_VALUE) = VIRTIO_MAGIC \<and>
     \<not> dev_reg d (base + VIRTIO_MMIO_VERSION) < 2 \<and>
     dev_reg d (base + VIRTIO_MMIO_DEVICE_ID) = VIRTIO_DEV_BLOCK \<and>
     dev_reg d (base + VIRTIO_MMIO_VENDOR_ID) = VIRTIO_VENDOR"

definition mmio_slot :: "nat \<Rightarrow> u32" where
  "mmio_slot i = VIRTIO_MMIO_BASE + of_nat i * VIRTIO_MMIO_STRIDE"

definition virtio_find_blk :: "blk_state \<Rightarrow> int \<times> blk_state" where
  "virtio_find_blk b =
     (case scan_from (\<lambda>i. is_blk_dev (the_dev b) (mmio_slot i)) 0 VIRTIO_MMIO_MAX_DEVS of
        Some i \<Rightarrow> (0, b\<lparr>virtio_mmio := mmio_slot i\<rparr>)
      | None \<Rightarrow> (-1, b))"

definition virtio_setup_vq_layout :: "blk_state \<Rightarrow> blk_state" where
  "virtio_setup_vq_layout b = b\<lparr>vq_desc := \<lambda>_. zero_desc, vq_avail_idx := 0,
     vq_avail_ring := \<lambda>_. 0, vq_used_idx := 0, vq_last_used_idx := 0\<rparr>"

text \<open>The parts of \<open>vq_mem\<close>: eight 16-byte descriptors, the avail ring behind them, the used ring on
  the second page.\<close>

definition vq_desc_addr :: "blk_state \<Rightarrow> u32" where
  "vq_desc_addr b = vq_mem_addr b"

definition vq_avail_addr :: "blk_state \<Rightarrow> u32" where
  "vq_avail_addr b = vq_mem_addr b + 16 * VQ_NUM"

definition vq_used_addr :: "blk_state \<Rightarrow> u32" where
  "vq_used_addr b = vq_mem_addr b + VQ_ALIGN"

definition virtio_setup_queue :: "blk_state \<Rightarrow> int \<times> blk_state" where
  "virtio_setup_queue b =
     (let b = mmio_write VIRTIO_MMIO_QUEUE_SEL 0 b;
          qmax = mmio_read VIRTIO_MMIO_QUEUE_NUM_MAX b
      in if qmax = 0 \<or> qmax < VQ_NUM then (-1, b)
         else (0, fold (\<lambda>(off, val). mmio_write off val)
           [(VIRTIO_MMIO_QUEUE_NUM, VQ_NUM),
            (VIRTIO_MMIO_QUEUE_READY, 0),
            (VIRTIO_MMIO_QUEUE_DESC_LOW, vq_desc_addr b),
            (VIRTIO_MMIO_QUEUE_DESC_HIGH, 0),
            (VIRTIO_MMIO_QUEUE_AVAIL_LOW, vq_avail_addr b),
            (VIRTIO_MMIO_QUEUE_AVAIL_HIGH, 0),
            (VIRTIO_MMIO_QUEUE_USED_LOW, vq_used_addr b),
            (VIRTIO_MMIO_QUEUE_USED_HIGH, 0),
            (VIRTIO_MMIO_QUEUE_READY, 1)] b))"

definition virtio_configure_device :: "blk_state \<Rightarrow> int \<times> blk_state" where
  "virtio_configure_device b =
     (let b = mmio_write VIRTIO_MMIO_STATUS 0 b;
          b = mmio_write VIRTIO_MMIO_STATUS VIRTIO_STATUS_ACKNOWLEDGE b;
          b = mmio_write VIRTIO_MMIO_STATUS (VIRTIO_STATUS_ACKNOWLEDGE OR VIRTIO_STATUS_DRIVER) b;
          b = mmio_write VIRTIO_MMIO_DEVICE_FEATURES_SEL 0 b;
          b = mmio_write VIRTIO_MMIO_DEVICE_FEATURES_SEL 1 b;
          features1 = mmio_read VIRTIO_MMIO_DEVICE_FEATURES b
      in if features1 AND push_bit (VIRTIO_F_VERSION_1 - 32) 1 = 0 then (-1, b)
         else
           let b = mmio_write VIRTIO_MMIO_DRIVER_FEATURES_SEL 0 b;
               b = mmio_write VIRTIO_MMIO_DRIVER_FEATURES 0 b;
               b = mmio_write VIRTIO_MMIO_DRIVER_FEATURES_SEL 1 b;
               b = mmio_write VIRTIO_MMIO_DRIVER_FEATURES (push_bit (VIRTIO_F_VERSION_1 - 32) 1) b;
               b = mmio_write VIRTIO_MMIO_STATUS
                     (mmio_read VIRTIO_MMIO_STATUS b OR VIRTIO_STATUS_FEATURES_OK) b
           in if mmio_read VIRTIO_MMIO_STATUS b AND VIRTIO_STATUS_FEATURES_OK = 0 then (-1, b)
              else chain (virtio_setup_queue b) (\<lambda>b.
                (0, mmio_write VIRTIO_MMIO_STATUS
                  (VIRTIO_STATUS_ACKNOWLEDGE OR VIRTIO_STATUS_DRIVER OR VIRTIO_STATUS_DRIVER_OK) b)))"

definition virtio_read_capacity :: "blk_state \<Rightarrow> int \<times> blk_state" where
  "virtio_read_capacity b =
     (let cap_lo = mmio_read (VIRTIO_MMIO_CONFIG + 0x00) b;
          cap_hi = mmio_read (VIRTIO_MMIO_CONFIG + 0x04) b;
          cap = push_bit 32 (ucast cap_hi) OR (ucast cap_lo :: u64)
      in if cap = 0 then (-1, b)
         else if 0xffffffff < cap then (0, b\<lparr>capacity_blocks := 0xffffffff\<rparr>)
         else (0, b\<lparr>capacity_blocks := ucast cap\<rparr>))"

section \<open>One request\<close>

definition io_descs :: "u32 \<Rightarrow> (nat \<Rightarrow> virtq_desc) \<Rightarrow> (nat \<Rightarrow> virtq_desc)" where
  "io_descs type d =
     d(0 := \<lparr>d_addr = Req_hdr_addr, d_len = 16, d_flags = VIRTQ_DESC_F_NEXT, d_next = 1\<rparr>,
       1 := \<lparr>d_addr = Buf_addr, d_len = 512,
             d_flags = (if type = VIRTIO_BLK_T_IN then VIRTQ_DESC_F_NEXT OR VIRTQ_DESC_F_WRITE
                        else VIRTQ_DESC_F_NEXT),
             d_next = 2\<rparr>,
       2 := \<lparr>d_addr = Req_status_addr, d_len = 1, d_flags = VIRTQ_DESC_F_WRITE, d_next = 0\<rparr>)"

definition io_submit :: "u32 \<Rightarrow> u32 \<Rightarrow> blk_state \<Rightarrow> blk_state" where
  "io_submit type block_index b = b\<lparr>
     last_io_timed_out := False,
     req_hdr := \<lparr>h_type = type, h_reserved = 0, h_sector = ucast block_index\<rparr>,
     req_status := 0xff,
     vq_desc := io_descs type (vq_desc b),
     vq_avail_ring := (vq_avail_ring b)(unat (vq_avail_idx b) mod 8 := 0),
     vq_avail_idx := vq_avail_idx b + 1\<rparr>"

definition io_view :: "blk_state \<Rightarrow> u8 list \<Rightarrow> vq_view" where
  "io_view b buf = \<lparr>v_desc = vq_desc b, v_avail_idx = vq_avail_idx b, v_avail_ring = vq_avail_ring b,
     v_used_idx = vq_used_idx b, v_hdr = req_hdr b, v_buf = buf\<rparr>"

text \<open>
  \<open>virtio_do_io\<close>: the request is published and the queue notified; the driver polls the used index at
  most \<open>VIRTIO_IO_SPIN_LIMIT + 1\<close> times. The buffer is returned as the device left it.
\<close>

definition virtio_do_io :: "u32 \<Rightarrow> u32 \<Rightarrow> u8 list \<Rightarrow> blk_state \<Rightarrow> int \<times> u8 list \<times> blk_state" where
  "virtio_do_io type block_index buf b0 =
     (let b = io_submit type block_index b0;
          c = dev_done (the_dev b) (io_view b buf);
          b = b\<lparr>the_dev := dev_next (the_dev b) (io_view b buf), req_status := c_status c\<rparr>
      in case scan_from (\<lambda>k. c_polls c k \<noteq> vq_last_used_idx b) 0 (Suc VIRTIO_IO_SPIN_LIMIT) of
           None \<Rightarrow> (-1, c_buf c, b\<lparr>last_io_timed_out := True, blk_log_once := True\<rparr>)
         | Some k \<Rightarrow>
             let b = b\<lparr>vq_used_idx := c_polls c (Suc k), vq_last_used_idx := c_polls c (Suc k)\<rparr>
             in if c_status c \<noteq> 0 then (-1, c_buf c, b\<lparr>blk_log_once := True\<rparr>)
                else (0, c_buf c, b))"

definition probe_buf :: "u8 list" where
  "probe_buf = replicate 512 0"

definition virtio_recover_from_timeout :: "blk_state \<Rightarrow> int \<times> blk_state" where
  "virtio_recover_from_timeout b =
     (if blk_recovering b then (-1, b)
      else
        let b = virtio_setup_vq_layout (b\<lparr>blk_recovering := True\<rparr>);
            (r, b) = chain (virtio_configure_device b) virtio_read_capacity
        in if r < 0 then (-1, (mmio_write VIRTIO_MMIO_STATUS VIRTIO_STATUS_FAILED b)\<lparr>blk_recovering := False\<rparr>)
           else
             let (r, _, b) = virtio_do_io VIRTIO_BLK_T_IN 0 probe_buf b
             in if r < 0
                then (-1, (mmio_write VIRTIO_MMIO_STATUS VIRTIO_STATUS_FAILED b)\<lparr>blk_recovering := False\<rparr>)
                else (0, b\<lparr>blk_recovering := False\<rparr>))"

definition blockdev_init :: "blk_state \<Rightarrow> blk_state kres" where
  "blockdev_init b =
     (let (r, b) = virtio_find_blk b
      in if r < 0 then PANIC ''virtio-blk(modern) not found''
         else let (r, b) = virtio_configure_device (virtio_setup_vq_layout b)
           in if r < 0 then PANIC ''virtio-blk configure failed''
              else let (r, b) = virtio_read_capacity b
                in if r < 0 then PANIC ''virtio-blk capacity is zero''
                   else let (r, _, b) = virtio_do_io VIRTIO_BLK_T_IN 0 probe_buf b
                     in if r < 0 then PANIC ''virtio-blk probe io failed'' else Ok b)"

definition blockdev_in_range :: "u32 \<Rightarrow> blk_state \<Rightarrow> bool" where
  "blockdev_in_range block_index b \<longleftrightarrow>
     \<not> (BLOCKDEV_BLOCK_COUNT \<le> unat block_index \<or> capacity_blocks b \<le> block_index)"

definition blockdev_read :: "u32 \<Rightarrow> u8 list \<Rightarrow> blk_state \<Rightarrow> int \<times> u8 list \<times> blk_state" where
  "blockdev_read block_index out_block b =
     (if \<not> blockdev_in_range block_index b then (-1, out_block, b)
      else
        let (r, buf, b) = virtio_do_io VIRTIO_BLK_T_IN block_index out_block b
        in if r = 0 then (0, buf, b)
           else if \<not> last_io_timed_out b then (-1, buf, b)
           else
             let (r, b) = virtio_recover_from_timeout b
             in if r < 0 then (-1, buf, b) else virtio_do_io VIRTIO_BLK_T_IN block_index buf b)"

definition blockdev_write :: "u32 \<Rightarrow> u8 list \<Rightarrow> blk_state \<Rightarrow> int \<times> blk_state" where
  "blockdev_write block_index in_block b =
     (if \<not> blockdev_in_range block_index b then (-1, b)
      else
        let (r, _, b) = virtio_do_io VIRTIO_BLK_T_OUT block_index in_block b
        in if r = 0 then (0, b)
           else if \<not> last_io_timed_out b then (-1, b)
           else
             let (r, b) = virtio_recover_from_timeout b
             in if r < 0 then (-1, b)
                else let (r, _, b) = virtio_do_io VIRTIO_BLK_T_OUT block_index in_block b in (r, b))"

section \<open>Devices that keep their promises\<close>

text \<open>
  The request that the device reads from memory: the head descriptor is the last ring entry, the
  chain is header, buffer, status, and the buffer descriptor is device-writable exactly for a read.
\<close>

definition request_chain :: "vq_view \<Rightarrow> bool" where
  "request_chain v \<longleftrightarrow>
     v_avail_ring v (unat (v_avail_idx v - 1) mod 8) = 0 \<and>
     v_desc v 0 = \<lparr>d_addr = Req_hdr_addr, d_len = 16, d_flags = 1, d_next = 1\<rparr> \<and>
     v_desc v 1 = \<lparr>d_addr = Buf_addr, d_len = 512,
       d_flags = (if h_type (v_hdr v) = 0 then 3 else 1), d_next = 2\<rparr> \<and>
     v_desc v 2 = \<lparr>d_addr = Req_status_addr, d_len = 1, d_flags = 2, d_next = 0\<rparr> \<and>
     (h_type (v_hdr v) = 0 \<or> h_type (v_hdr v) = 1) \<and> length (v_buf v) = 512"

definition acknowledged :: "vq_view \<Rightarrow> completion \<Rightarrow> bool" where
  "acknowledged v c \<longleftrightarrow> (\<exists>k. c_polls c k \<noteq> v_used_idx v) \<and> c_status c = 0"

coinductive honest_disk :: "(u64 \<Rightarrow> u8 list) \<Rightarrow> dev \<Rightarrow> bool" where
  honest_diskI: "(\<And>s. length (disk s) = 512) \<Longrightarrow> (\<And>a x. honest_disk disk (dev_write d a x)) \<Longrightarrow>
     (\<And>v. request_chain v \<Longrightarrow> h_type (v_hdr v) = 0 \<Longrightarrow>
        honest_disk disk (dev_next d v) \<and> length (c_buf (dev_done d v)) = 512 \<and>
        (acknowledged v (dev_done d v) \<longrightarrow> c_buf (dev_done d v) = disk (h_sector (v_hdr v)))) \<Longrightarrow>
     (\<And>v. request_chain v \<Longrightarrow> h_type (v_hdr v) = 1 \<Longrightarrow>
        \<exists>new. honest_disk (disk(h_sector (v_hdr v) := new)) (dev_next d v) \<and>
          (acknowledged v (dev_done d v) \<longrightarrow> new = v_buf v)) \<Longrightarrow>
     honest_disk disk d"

inductive_cases honest_diskE: "honest_disk disk d"

text \<open>A driver state: the device behind it is honest, the driver has seen every used-index move and no
  recovery is under way.\<close>

definition blk_inv :: "(u64 \<Rightarrow> u8 list) \<Rightarrow> blk_state \<Rightarrow> bool" where
  "blk_inv disk b \<longleftrightarrow> honest_disk disk (the_dev b) \<and> vq_used_idx b = vq_last_used_idx b"

lemma honest_disk_write: "honest_disk disk d \<Longrightarrow> honest_disk disk (dev_write d a x)"
  by (erule honest_diskE) blast

lemma honest_disk_length: "honest_disk disk d \<Longrightarrow> length (disk s) = 512"
  by (erule honest_diskE) blast

lemma honest_disk_out:
  assumes "honest_disk disk d" "request_chain v" "h_type (v_hdr v) = 1"
  shows "\<exists>new. honest_disk (disk(h_sector (v_hdr v) := new)) (dev_next d v) \<and>
      (acknowledged v (dev_done d v) \<longrightarrow> new = v_buf v)"
  using assms(1) by (rule honest_diskE) (simp add: assms(2,3))

lemma request_chain_submit:
  assumes "type = 0 \<or> type = 1" "length buf = 512"
  shows "request_chain (io_view (io_submit type i b) buf)"
  using assms by (auto simp: request_chain_def io_view_def io_submit_def io_descs_def virtq_consts)

lemma request_view [simp]:
  "v_hdr (io_view (io_submit type i b) buf) = \<lparr>h_type = type, h_reserved = 0, h_sector = ucast i\<rparr>"
  "v_buf (io_view (io_submit type i b) buf) = buf"
  "v_used_idx (io_view (io_submit type i b) buf) = vq_used_idx b"
  by (simp_all add: io_view_def io_submit_def)

lemma scan_polls_acknowledged:
  assumes "scan_from (\<lambda>k. c_polls c k \<noteq> u) 0 n = Some k" "v_used_idx v = u" "c_status c = 0"
  shows "acknowledged v c"
  using scan_from_SomeD [OF assms(1)] assms(2,3) by (auto simp: acknowledged_def)

lemma do_io_result:
  assumes "virtio_do_io type i buf b = (r, buf', b')"
  shows "r = 0 \<or> r = -1" "r = 0 \<longrightarrow> \<not> last_io_timed_out b'"
    and "capacity_blocks b' = capacity_blocks b" "blk_recovering b' = blk_recovering b"
  using assms by (auto simp: virtio_do_io_def io_submit_def Let_def split: option.splits if_splits)

lemma do_io_dev:
  assumes "virtio_do_io type i buf b = (r, buf', b')"
  defines "v \<equiv> io_view (io_submit type i b) buf"
  shows "the_dev b' = dev_next (the_dev b) v" "buf' = c_buf (dev_done (the_dev b) v)"
    and "vq_used_idx b = vq_last_used_idx b \<Longrightarrow> vq_used_idx b' = vq_last_used_idx b'"
    and "vq_used_idx b = vq_last_used_idx b \<Longrightarrow> r = 0 \<Longrightarrow> acknowledged v (dev_done (the_dev b) v)"
proof -
  have sub: "the_dev (io_submit type i b) = the_dev b" "vq_last_used_idx (io_submit type i b) = vq_last_used_idx b"
      "vq_used_idx (io_submit type i b) = vq_used_idx b"
    by (simp_all add: io_submit_def)
  show "the_dev b' = dev_next (the_dev b) v" "buf' = c_buf (dev_done (the_dev b) v)"
    and "vq_used_idx b = vq_last_used_idx b \<Longrightarrow> vq_used_idx b' = vq_last_used_idx b'"
    using assms(1) by (auto simp: virtio_do_io_def v_def sub Let_def split: option.splits if_splits)
  assume u: "vq_used_idx b = vq_last_used_idx b" and r: "r = 0"
  obtain k where "scan_from (\<lambda>k. c_polls (dev_done (the_dev b) v) k \<noteq> vq_last_used_idx b) 0
       (Suc VIRTIO_IO_SPIN_LIMIT) = Some k" "c_status (dev_done (the_dev b) v) = 0"
    using assms(1) r
    by (auto simp: virtio_do_io_def v_def sub Let_def simp del: scan_from.simps split: option.splits if_splits)
  note k = this
  show "acknowledged v (dev_done (the_dev b) v)"
    by (rule scan_polls_acknowledged [OF k(1) _ k(2)]) (simp add: v_def u)
qed

lemma do_io_in:
  assumes inv: "blk_inv disk b" and len: "length buf = 512"
    and io: "virtio_do_io VIRTIO_BLK_T_IN i buf b = (r, buf', b')"
  shows "blk_inv disk b'" "length buf' = 512" "r = 0 \<longrightarrow> buf' = disk (ucast i)"
proof -
  let ?v = "io_view (io_submit VIRTIO_BLK_T_IN i b) buf"
  have h: "honest_disk disk (the_dev b)" and u: "vq_used_idx b = vq_last_used_idx b"
    using inv by (simp_all add: blk_inv_def)
  have "request_chain ?v" "h_type (v_hdr ?v) = 0"
    using request_chain_submit len by (auto simp: virtq_consts)
  then have "honest_disk disk (dev_next (the_dev b) ?v)" "length (c_buf (dev_done (the_dev b) ?v)) = 512"
      "acknowledged ?v (dev_done (the_dev b) ?v) \<longrightarrow> c_buf (dev_done (the_dev b) ?v) = disk (ucast i)"
    using h by (auto elim!: honest_diskE)
  with do_io_dev [OF io] u show "blk_inv disk b'" "length buf' = 512" "r = 0 \<longrightarrow> buf' = disk (ucast i)"
    by (auto simp: blk_inv_def)
qed

lemma do_io_out:
  assumes inv: "blk_inv disk b" and len: "length buf = 512"
    and io: "virtio_do_io VIRTIO_BLK_T_OUT i buf b = (r, buf', b')"
  obtains new where "blk_inv (disk(ucast i := new)) b'" "r = 0 \<Longrightarrow> new = buf"
proof -
  let ?v = "io_view (io_submit VIRTIO_BLK_T_OUT i b) buf"
  have h: "honest_disk disk (the_dev b)" and u: "vq_used_idx b = vq_last_used_idx b"
    using inv by (simp_all add: blk_inv_def)
  have "request_chain ?v" "h_type (v_hdr ?v) = 1"
    using request_chain_submit len by (auto simp: virtq_consts)
  then have "\<exists>new. honest_disk (disk(h_sector (v_hdr ?v) := new)) (dev_next (the_dev b) ?v) \<and>
      (acknowledged ?v (dev_done (the_dev b) ?v) \<longrightarrow> new = v_buf ?v)"
    by (rule honest_disk_out [OF h])
  then obtain new where "honest_disk (disk(ucast i := new)) (dev_next (the_dev b) ?v)"
      "acknowledged ?v (dev_done (the_dev b) ?v) \<longrightarrow> new = buf"
    by auto
  with do_io_dev [OF io] u show thesis by (auto simp: blk_inv_def intro!: that)
qed

text \<open>Register writes, the queue reset and the whole recovery leave the disk as it is.\<close>

lemma blk_inv_mmio_write [simp]: "blk_inv disk b \<Longrightarrow> blk_inv disk (mmio_write off x b)"
  by (simp add: blk_inv_def mmio_write_def honest_disk_write)

lemma blk_inv_update [simp]:
  "blk_inv disk (b\<lparr>blk_recovering := x\<rparr>) = blk_inv disk b"
  "blk_inv disk (b\<lparr>capacity_blocks := y\<rparr>) = blk_inv disk b"
  "blk_inv disk (b\<lparr>virtio_mmio := z\<rparr>) = blk_inv disk b"
  by (simp_all add: blk_inv_def)

lemma blk_inv_layout: "blk_inv disk b \<Longrightarrow> blk_inv disk (virtio_setup_vq_layout b)"
  by (simp add: blk_inv_def virtio_setup_vq_layout_def)

lemma blk_inv_setup_queue: "blk_inv disk b \<Longrightarrow> blk_inv disk (snd (virtio_setup_queue b))"
  by (simp add: virtio_setup_queue_def Let_def)

lemma blk_inv_chain:
  "blk_inv disk (snd r) \<Longrightarrow> (\<And>b. blk_inv disk b \<Longrightarrow> blk_inv disk (snd (f b))) \<Longrightarrow>
     blk_inv disk (snd (chain r f))"
  by (simp add: chain_def)

lemma blk_inv_configure: "blk_inv disk b \<Longrightarrow> blk_inv disk (snd (virtio_configure_device b))"
  by (simp add: virtio_configure_device_def Let_def blk_inv_chain blk_inv_setup_queue)

lemma blk_inv_read_capacity: "blk_inv disk b \<Longrightarrow> blk_inv disk (snd (virtio_read_capacity b))"
  by (simp add: virtio_read_capacity_def Let_def)

lemma probe_buf_length [simp]: "length probe_buf = 512"
  by (simp add: probe_buf_def)

lemma blk_inv_recover:
  assumes "blk_inv disk b"
  shows "blk_inv disk (snd (virtio_recover_from_timeout b))"
proof -
  obtain r1 b1 where c: "chain (virtio_configure_device (virtio_setup_vq_layout (b\<lparr>blk_recovering := True\<rparr>)))
      virtio_read_capacity = (r1, b1)" by force
  have "blk_inv disk (snd (r1, b1))" unfolding c [symmetric]
    by (intro blk_inv_chain blk_inv_configure blk_inv_layout blk_inv_read_capacity) (simp add: assms)
  then have b1: "blk_inv disk b1" by simp
  obtain r2 x b2 where io: "virtio_do_io VIRTIO_BLK_T_IN 0 probe_buf b1 = (r2, x, b2)"
    by (metis prod_cases3)
  have "blk_inv disk b2" using do_io_in(1) [OF b1 probe_buf_length io] .
  then show ?thesis using assms b1
    by (auto simp: virtio_recover_from_timeout_def c io Let_def)
qed

lemma recover_code: "fst (virtio_recover_from_timeout b) = 0 \<or> fst (virtio_recover_from_timeout b) = -1"
  by (auto simp: virtio_recover_from_timeout_def Let_def split: prod.splits)

lemma blockdev_init_honest:
  assumes h: "honest_disk disk (the_dev b)" and ok: "blockdev_init b = Ok b'"
  shows "blk_inv disk b'"
proof -
  obtain r1 b1 where f: "virtio_find_blk b = (r1, b1)" by force
  then have "the_dev b1 = the_dev b" by (auto simp: virtio_find_blk_def split: option.splits)
  then have l: "blk_inv disk (virtio_setup_vq_layout b1)"
    using h by (simp add: blk_inv_def virtio_setup_vq_layout_def)
  obtain r2 b2 where c: "virtio_configure_device (virtio_setup_vq_layout b1) = (r2, b2)" by force
  obtain r3 b3 where rc: "virtio_read_capacity b2 = (r3, b3)" by force
  obtain r4 x b4 where io: "virtio_do_io VIRTIO_BLK_T_IN 0 probe_buf b3 = (r4, x, b4)" by (metis prod_cases3)
  have "blk_inv disk b2" using blk_inv_configure [OF l] c by simp
  then have "blk_inv disk b3" using blk_inv_read_capacity [of disk b2] rc by simp
  then have "blk_inv disk b4" using do_io_in(1) [OF _ probe_buf_length io] by blast
  moreover have "b' = b4" using ok by (auto simp: blockdev_init_def f c rc io Let_def split: if_splits)
  ultimately show ?thesis by simp
qed

text \<open>A read that returns 0 returns the block; a failed one changes nothing on the disk.\<close>

lemma blockdev_read_honest:
  assumes inv: "blk_inv disk b" and len: "length buf = 512"
    and rd: "blockdev_read i buf b = (r, buf', b')"
  shows "blk_inv disk b'" "length buf' = 512" "r = 0 \<or> r = -1"
    and "r = 0 \<longrightarrow> buf' = disk (ucast i) \<and> unat i < 256"
proof -
  have "blk_inv disk b' \<and> length buf' = 512 \<and> (r = 0 \<or> r = -1) \<and>
      (r = 0 \<longrightarrow> buf' = disk (ucast i) \<and> unat i < 256)"
  proof (cases "blockdev_in_range i b")
    case False
    then show ?thesis using assms by (auto simp: blockdev_read_def)
  next
    case True
    then have lt: "unat i < 256" by (simp add: blockdev_in_range_def BLOCKDEV_BLOCK_COUNT_def)
    obtain r1 x1 b1 where io1: "virtio_do_io VIRTIO_BLK_T_IN i buf b = (r1, x1, b1)" by (metis prod_cases3)
    obtain r2 b2 where rc: "virtio_recover_from_timeout b1 = (r2, b2)" by force
    obtain r3 x3 b3 where io3: "virtio_do_io VIRTIO_BLK_T_IN i x1 b2 = (r3, x3, b3)" by (metis prod_cases3)
    note i1 = do_io_in [OF inv len io1] do_io_result(1) [OF io1]
    have inv2: "blk_inv disk b2" using blk_inv_recover [OF i1(1)] rc by simp
    note i3 = do_io_in [OF inv2 i1(2) io3] do_io_result(1) [OF io3]
    show ?thesis using rd True i1 i3 inv2 lt
      by (auto simp: blockdev_read_def io1 rc io3 Let_def split: if_splits)
  qed
  then show "blk_inv disk b'" "length buf' = 512" "r = 0 \<or> r = -1"
    and "r = 0 \<longrightarrow> buf' = disk (ucast i) \<and> unat i < 256" by auto
qed

lemma blockdev_write_honest:
  assumes inv: "blk_inv disk b" and len: "length buf = 512"
    and wr: "blockdev_write i buf b = (r, b')"
  obtains new where "blk_inv (disk(ucast i := new)) b'" "r = 0 \<Longrightarrow> new = buf \<and> unat i < 256"
    "r = 0 \<or> r = -1"
proof (cases "blockdev_in_range i b")
  case False
  have "disk(ucast i := disk (ucast i)) = disk" by simp
  with False that [of "disk (ucast i)"] show thesis using inv wr by (auto simp: blockdev_write_def)
next
  case True
  then have lt: "unat i < 256" by (simp add: blockdev_in_range_def BLOCKDEV_BLOCK_COUNT_def)
  obtain r1 x1 b1 where io1: "virtio_do_io VIRTIO_BLK_T_OUT i buf b = (r1, x1, b1)" by (metis prod_cases3)
  obtain r2 b2 where rc: "virtio_recover_from_timeout b1 = (r2, b2)" by force
  obtain r3 x3 b3 where io3: "virtio_do_io VIRTIO_BLK_T_OUT i buf b2 = (r3, x3, b3)" by (metis prod_cases3)
  obtain n1 where n1: "blk_inv (disk(ucast i := n1)) b1" "r1 = 0 \<Longrightarrow> n1 = buf"
    using do_io_out [OF inv len io1] by blast
  have inv2: "blk_inv (disk(ucast i := n1)) b2" using blk_inv_recover [OF n1(1)] rc by simp
  obtain n3 where n3: "blk_inv (disk(ucast i := n3)) b3" "r3 = 0 \<Longrightarrow> n3 = buf"
    using do_io_out [OF inv2 len io3] by auto
  note rs = do_io_result(1) [OF io1] do_io_result(1) [OF io3]
  show thesis
  proof (cases "r1 = 0 \<or> \<not> last_io_timed_out b1 \<or> r2 < 0")
    case True
    then show thesis using that [of n1] wr \<open>blockdev_in_range i b\<close> n1 inv2 rs lt
      by (auto simp: blockdev_write_def io1 rc io3 Let_def split: if_splits)
  next
    case False
    then show thesis using that [of n3] wr \<open>blockdev_in_range i b\<close> n3 rs lt
      by (auto simp: blockdev_write_def io1 rc io3 Let_def split: if_splits)
  qed
qed

section \<open>The interface to the file system\<close>

text \<open>
  What a client of the block device relies on: a read that succeeds returns the block that was
  stored, a write that succeeds stores it, a write that fails harms no other block. The client's
  loops over consecutive blocks are proved once from these laws.
\<close>

locale block_store =
  fixes inv :: "(nat \<Rightarrow> 'a list) \<Rightarrow> 'b \<Rightarrow> bool"
    and rd :: "nat \<Rightarrow> 'a list \<Rightarrow> 'b \<Rightarrow> int \<times> 'a list \<times> 'b"
    and wr :: "nat \<Rightarrow> 'a list \<Rightarrow> 'b \<Rightarrow> int \<times> 'b"
    and bsize :: nat
    and bcount :: nat
  assumes rd_law: "inv disk b \<Longrightarrow> i < bcount \<Longrightarrow> length y = bsize \<Longrightarrow> rd i y b = (r, x, b') \<Longrightarrow>
      inv disk b' \<and> length x = bsize \<and> (r \<ge> 0 \<longrightarrow> x = disk i)"
    and wr_law: "inv disk b \<Longrightarrow> i < bcount \<Longrightarrow> length x = bsize \<Longrightarrow> wr i x b = (r, b') \<Longrightarrow>
      \<exists>new. inv (disk(i := new)) b' \<and> (r \<ge> 0 \<longrightarrow> new = x)"
begin

fun write_blocks :: "'a list list \<Rightarrow> nat \<Rightarrow> 'b \<Rightarrow> int \<times> 'b" where
  "write_blocks [] i b = (0, b)"
| "write_blocks (x # xs) i b = chain (wr i x b) (write_blocks xs (Suc i))"

fun read_blocks :: "nat \<Rightarrow> nat \<Rightarrow> 'a list \<Rightarrow> 'b \<Rightarrow> ('a list list \<times> 'b) option" where
  "read_blocks 0 i y b = Some ([], b)"
| "read_blocks (Suc n) i y b =
     (let (r, x, b) = rd i y b
      in if r < 0 then None
         else case read_blocks n (Suc i) x b of
           None \<Rightarrow> None
         | Some (xs, b) \<Rightarrow> Some (x # xs, b))"

lemma write_blocks_inv:
  assumes "inv disk b" "i + length xs \<le> bcount" "\<And>x. x \<in> set xs \<Longrightarrow> length x = bsize"
    and "write_blocks xs i b = (r, b')"
  obtains disk' where "inv disk' b'" "\<And>k. k < i \<or> i + length xs \<le> k \<Longrightarrow> disk' k = disk k"
    "r \<ge> 0 \<Longrightarrow> map disk' [i ..< i + length xs] = xs"
  using assms
proof (induction xs arbitrary: i b disk thesis)
  case Nil
  then show ?case by auto
next
  case (Cons x xs)
  obtain r1 b1 where w: "wr i x b = (r1, b1)" by force
  obtain new where new: "inv (disk(i := new)) b1" "r1 \<ge> 0 \<longrightarrow> new = x"
    using wr_law [OF Cons.prems(2) _ _ w] Cons.prems(3,4) by auto
  show ?case
  proof (cases "r1 < 0")
    case True
    then have "b' = b1" "r = -1" using Cons.prems(5) w by auto
    then show ?thesis by (intro Cons.prems(1) [OF new(1) [folded \<open>b' = b1\<close>]]) auto
  next
    case False
    obtain disk' where d: "inv disk' b'" "\<And>k. k < Suc i \<or> Suc i + length xs \<le> k \<Longrightarrow> disk' k = (disk(i := x)) k"
      "r \<ge> 0 \<Longrightarrow> map disk' [Suc i ..< Suc i + length xs] = xs"
    proof (rule Cons.IH)
      show "inv (disk(i := x)) b1" using new False by auto
      show "Suc i + length xs \<le> bcount" using Cons.prems(3) by simp
      show "\<And>y. y \<in> set xs \<Longrightarrow> length y = bsize" using Cons.prems(4) by simp
      show "write_blocks xs (Suc i) b1 = (r, b')" using Cons.prems(5) w False by simp
    qed blast
    show ?thesis
      by (rule Cons.prems(1) [OF d(1)]) (use d(2,3) in \<open>auto simp: upt_conv_Cons simp del: upt_Suc\<close>)
  qed
qed

lemma read_blocks_value:
  assumes "inv disk b" "i + n \<le> bcount" "length y = bsize" "read_blocks n i y b = Some (xs, b')"
  shows "xs = map disk [i ..< i + n] \<and> inv disk b'"
  using assms
proof (induction n arbitrary: i y b xs)
  case 0
  then show ?case by simp
next
  case (Suc n)
  obtain r x b1 where rd: "rd i y b = (r, x, b1)" by (metis prod_cases3)
  then obtain ys where ys: "read_blocks n (Suc i) x b1 = Some (ys, b')" "xs = x # ys" "\<not> r < 0"
    using Suc.prems(4) by (auto split: if_splits option.splits)
  have "inv disk b1" "x = disk i" "length x = bsize"
    using rd_law [OF Suc.prems(1) _ Suc.prems(3) rd] Suc.prems(2) ys(3) by auto
  moreover have "ys = map disk [Suc i ..< Suc i + n] \<and> inv disk b'"
    by (rule Suc.IH [OF \<open>inv disk b1\<close> _ \<open>length x = bsize\<close> ys(1)]) (use Suc.prems(2) in simp)
  ultimately show ?case using ys(2) by (simp add: upt_conv_Cons del: upt_Suc)
qed

text \<open>What was written completely is what is read back.\<close>

lemma write_then_read:
  assumes "inv disk b" "length xs \<le> bcount" "\<And>x. x \<in> set xs \<Longrightarrow> length x = bsize"
    and "write_blocks xs 0 b = (r, b1)" "r \<ge> 0" "length y = bsize"
    and "read_blocks (length xs) 0 y b1 = Some (ys, b2)"
  shows "ys = xs"
proof -
  have "0 + length xs \<le> bcount" using assms(2) by simp
  then obtain disk' where "inv disk' b1" "map disk' [0 ..< 0 + length xs] = xs"
    using write_blocks_inv [OF assms(1) _ assms(3,4)] assms(5) by metis
  then show ?thesis using read_blocks_value [of disk' b1 0 "length xs" y ys b2] assms(2,6,7) by simp
qed

end

abbreviation blk_rd :: "nat \<Rightarrow> u8 list \<Rightarrow> blk_state \<Rightarrow> int \<times> u8 list \<times> blk_state" where
  "blk_rd i \<equiv> blockdev_read (of_nat i)"

abbreviation blk_wr :: "nat \<Rightarrow> u8 list \<Rightarrow> blk_state \<Rightarrow> int \<times> blk_state" where
  "blk_wr i \<equiv> blockdev_write (of_nat i)"

definition blocks_inv :: "(nat \<Rightarrow> u8 list) \<Rightarrow> blk_state \<Rightarrow> bool" where
  "blocks_inv disk b \<longleftrightarrow> (\<exists>d. blk_inv d b \<and> (\<forall>i < 256. d (of_nat i) = disk i))"

lemma of_nat_sector: "i < 256 \<Longrightarrow> ucast (of_nat i :: u32) = (of_nat i :: u64)"
  by (simp add: word_unat_eq_iff unat_ucast_up unsigned_of_nat take_bit_nat_eq_self)

lemma of_nat_sector_inj: "i < 256 \<Longrightarrow> j < 256 \<Longrightarrow> (of_nat i :: u64) = of_nat j \<longleftrightarrow> i = j"
  by (simp add: word_unat_eq_iff unsigned_of_nat take_bit_nat_eq_self)

interpretation blk: block_store blocks_inv blk_rd blk_wr 512 256
proof
  fix disk b i y r x b'
  assume inv: "blocks_inv disk b" and i: "i < 256" and len: "length y = 512" and rd: "blk_rd i y b = (r, x, b')"
  then obtain d where d: "blk_inv d b" "\<forall>i < 256. d (of_nat i) = disk i" by (auto simp: blocks_inv_def)
  show "blocks_inv disk b' \<and> length x = 512 \<and> (r \<ge> 0 \<longrightarrow> x = disk i)"
    using blockdev_read_honest [OF d(1) len rd] d(2) i by (auto simp: blocks_inv_def of_nat_sector)
next
  fix disk b i x r b'
  assume inv: "blocks_inv disk b" and i: "i < 256" and len: "length x = 512" and wr: "blk_wr i x b = (r, b')"
  then obtain d where d: "blk_inv d b" "\<forall>i < 256. d (of_nat i) = disk i" by (auto simp: blocks_inv_def)
  obtain new where new: "blk_inv (d(ucast (of_nat i :: u32) := new)) b'" "r = 0 \<Longrightarrow> new = x" "r = 0 \<or> r = -1"
    using blockdev_write_honest [OF d(1) len wr] by metis
  then have "blk_inv (d(of_nat i := new)) b'" using of_nat_sector [OF i] by simp
  moreover have "\<forall>j < 256. (d(of_nat i := new)) (of_nat j) = (disk(i := new)) j"
    using d(2) i by (auto simp: of_nat_sector_inj)
  ultimately have "blocks_inv (disk(i := new)) b'" by (auto simp: blocks_inv_def)
  then show "\<exists>new. blocks_inv (disk(i := new)) b' \<and> (r \<ge> 0 \<longrightarrow> new = x)"
    using new(2,3) by auto
qed

section \<open>A RAM disk\<close>

text \<open>A concrete honest device, for evaluating the driver: it completes every request at the first
  poll, and its registers identify a modern virtio block device with 256 sectors.\<close>

definition ram_disk_reg :: "u32 \<Rightarrow> u32" where
  "ram_disk_reg a =
     (if a = 0x10001000 then 0x74726976 else if a = 0x10001004 then 2
      else if a = 0x10001008 then 2 else if a = 0x1000100c then 0x554d4551
      else if a = 0x10001010 then 1 else if a = 0x10001034 then 8
      else if a = 0x10001070 then 8 else if a = 0x10001100 then 256 else 0)"

definition ram_disk_done :: "(u64 \<Rightarrow> u8 list) \<Rightarrow> vq_view \<Rightarrow> completion" where
  "ram_disk_done disk v = \<lparr>c_polls = \<lambda>_. v_used_idx v + 1, c_status = 0,
     c_buf = (if h_type (v_hdr v) = 0 then disk (h_sector (v_hdr v)) else v_buf v)\<rparr>"

definition ram_disk_store :: "(u64 \<Rightarrow> u8 list) \<Rightarrow> vq_view \<Rightarrow> (u64 \<Rightarrow> u8 list)" where
  "ram_disk_store disk v = (if h_type (v_hdr v) = 1 then disk(h_sector (v_hdr v) := v_buf v) else disk)"

primcorec ram_disk :: "(u64 \<Rightarrow> u8 list) \<Rightarrow> dev" where
  "dev_reg (ram_disk disk) = ram_disk_reg"
| "dev_write (ram_disk disk) = (\<lambda>a x. ram_disk disk)"
| "dev_done (ram_disk disk) = ram_disk_done disk"
| "dev_next (ram_disk disk) = (\<lambda>v. ram_disk (ram_disk_store disk v))"

lemma ram_disk_honest: "(\<And>s. length (disk s) = 512) \<Longrightarrow> honest_disk disk (ram_disk disk)"
proof -
  assume "\<And>s. length (disk s) = 512"
  then show "honest_disk disk (ram_disk disk)"
  proof (coinduction arbitrary: disk)
    case honest_disk
    then show ?case
      by (auto simp: ram_disk_done_def ram_disk_store_def request_chain_def intro!: exI)
  qed
qed

definition blk_boot :: "dev \<Rightarrow> blk_state" where
  "blk_boot d = \<lparr>virtio_mmio = 0, capacity_blocks = 0, vq_mem_addr = 0x80300000, vq_desc = \<lambda>_. zero_desc,
     vq_avail_idx = 0, vq_avail_ring = \<lambda>_. 0, vq_used_idx = 0, vq_last_used_idx = 0,
     req_hdr = \<lparr>h_type = 0, h_reserved = 0, h_sector = 0\<rparr>, req_status = 0, blk_log_once = False,
     last_io_timed_out = False, blk_recovering = False, the_dev = d\<rparr>"

lemmas blk_eval = virtio_find_blk_def is_blk_dev_def mmio_slot_def virtio_setup_vq_layout_def
  virtio_configure_device_def virtio_setup_queue_def virtio_read_capacity_def mmio_read_def mmio_write_def
  vq_desc_addr_def vq_avail_addr_def vq_used_addr_def virtio_do_io_def io_submit_def io_view_def
  ram_disk_reg_def ram_disk_done_def ram_disk_store_def virtq_consts blockdev_in_range_def
  BLOCKDEV_BLOCK_COUNT_def Let_def hdr_consts

lemma ram_disk_boots:
  obtains b where "blockdev_init (blk_boot (ram_disk disk)) = Ok b" "capacity_blocks b = 256"
    "the_dev b = ram_disk disk" "vq_used_idx b = vq_last_used_idx b"
  by (simp add: blockdev_init_def blk_boot_def blk_eval)

section \<open>Properties\<close>

text \<open>C17: Over an honest device a read that returns 0 has returned the stored block, a write that returns 0 has stored
  the block, no call changes any other block, and both refuse block numbers from 256 on; timeouts, device errors and
  the recovery that the driver then performs included.\<close>

theorem blockdev_read_write_honest:
  assumes "blk_inv disk b" "length buf = 512"
  shows "(case blockdev_read i buf b of (r, buf', b') \<Rightarrow>
       blk_inv disk b' \<and> length buf' = 512 \<and> (r = 0 \<longrightarrow> buf' = disk (ucast i) \<and> unat i < 256)) \<and>
    (case blockdev_write i buf b of (r, b') \<Rightarrow>
       \<exists>new. blk_inv (disk(ucast i := new)) b' \<and> (r = 0 \<longrightarrow> new = buf \<and> unat i < 256))"
proof -
  obtain r x b1 where rd: "blockdev_read i buf b = (r, x, b1)" by (metis prod_cases3)
  obtain r2 b2 where wr: "blockdev_write i buf b = (r2, b2)" by force
  obtain new where "blk_inv (disk(ucast i := new)) b2" "r2 = 0 \<Longrightarrow> new = buf \<and> unat i < 256"
    using blockdev_write_honest [OF assms wr] by metis
  then show ?thesis using blockdev_read_honest [OF assms rd] rd wr by auto
qed

theorem blockdev_read_write_honest_witness:
  "\<exists>b b1 b2 buf. blockdev_init (blk_boot (ram_disk (\<lambda>_. replicate 512 0))) = Ok b \<and>
     blockdev_write 5 (replicate 512 7) b = (0, b1) \<and> blockdev_read 5 (replicate 512 0) b1 = (0, buf, b2) \<and>
     buf = replicate 512 7"
proof -
  let ?d = "\<lambda>_ :: u64. replicate 512 (0 :: u8)"
  obtain b where b: "blockdev_init (blk_boot (ram_disk ?d)) = Ok b" "capacity_blocks b = 256"
      "the_dev b = ram_disk ?d" "vq_used_idx b = vq_last_used_idx b"
    by (rule ram_disk_boots)
  have inv: "blk_inv ?d b" using ram_disk_honest [of ?d] b by (simp add: blk_inv_def)
  obtain b1 where w: "blockdev_write 5 (replicate 512 7) b = (0, b1)" "the_dev b1 = ram_disk (?d(5 := replicate 512 7))"
      "capacity_blocks b1 = 256" "vq_used_idx b1 = vq_last_used_idx b1"
    using b by (simp add: blockdev_write_def virtio_do_io_def io_submit_def io_view_def ram_disk_done_def
        ram_disk_store_def blockdev_in_range_def BLOCKDEV_BLOCK_COUNT_def virtq_consts Let_def word_le_nat_alt)
  obtain buf b2 where rd: "blockdev_read 5 (replicate 512 0) b1 = (0, buf, b2)"
    using w by (simp add: blockdev_read_def virtio_do_io_def io_submit_def io_view_def ram_disk_done_def
        ram_disk_store_def blockdev_in_range_def BLOCKDEV_BLOCK_COUNT_def virtq_consts Let_def word_le_nat_alt)
  obtain new where "blk_inv (?d(5 := new)) b1" "new = replicate 512 7"
    using blockdev_read_write_honest [OF inv, of "replicate 512 7" 5] w(1) by auto
  then have "buf = replicate 512 7"
    using blockdev_read_write_honest [of _ b1 "replicate 512 0" 5] rd by fastforce
  then show ?thesis using b(1) w(1) rd by blast
qed

end
