(* ===== verification/NodeFs.thy ===== *)
theory NodeFs
  imports CommonLibs BlockDev
begin

text \<open>
  The node file system of src/kernel/fs/fs.c, the backend behind every mount: a table of 128 nodes with
  parent links, path resolution, the operations \<open>open\<close>, \<open>read\<close>, \<open>write\<close>, \<open>mkdir\<close>, \<open>readdir\<close>, \<open>unlink\<close> and
  \<open>rmdir\<close>, and the persistent image that the root instance keeps on the block device.

  An \<open>int\<close> result that is an index or \<open>-1\<close> is a \<open>nat option\<close>. The cursor \<open>pos\<close> into a path is the part of
  the path that starts there. \<open>pfs_work_img\<close>, the static image buffer, is rebuilt completely by each use, so
  it is a local value.
\<close>

section \<open>Data\<close>

definition FS_PATH_MAX :: nat where "FS_PATH_MAX = 64"
definition FS_NAME_MAX :: nat where "FS_NAME_MAX = 16"
definition FS_FD_MAX :: nat where "FS_FD_MAX = 16"
definition FS_MAX_NODES :: nat where "FS_MAX_NODES = 128"
definition FS_FILE_MAX_SIZE :: nat where "FS_FILE_MAX_SIZE = 512"
definition FS_TYPE_FILE :: int where "FS_TYPE_FILE = 1"
definition FS_TYPE_DIR :: int where "FS_TYPE_DIR = 2"
definition O_RDONLY :: int where "O_RDONLY = 0x1"
definition O_WRONLY :: int where "O_WRONLY = 0x2"
definition O_CREAT :: int where "O_CREAT = 0x10"
definition O_TRUNC :: int where "O_TRUNC = 0x20"
definition PFS_MAGIC :: u32 where "PFS_MAGIC = 0x50465331"
definition PROCS_MAX :: nat where "PROCS_MAX = 64"

lemmas fs_consts [hdr_consts] = FS_PATH_MAX_def FS_NAME_MAX_def FS_FD_MAX_def FS_MAX_NODES_def
  FS_FILE_MAX_SIZE_def FS_TYPE_FILE_def FS_TYPE_DIR_def O_RDONLY_def O_WRONLY_def O_CREAT_def O_TRUNC_def
  PROCS_MAX_def

lemma fs_types_distinct [simp]: "FS_TYPE_FILE \<noteq> FS_TYPE_DIR" "FS_TYPE_DIR \<noteq> FS_TYPE_FILE"
  by (simp_all add: FS_TYPE_FILE_def FS_TYPE_DIR_def)

record vfs_fd =
  f_used :: bool
  f_mount_idx :: int
  f_node_index :: int
  f_offset :: u32
  f_flags :: int

type_synonym fd_tab = "nat \<Rightarrow> nat \<Rightarrow> vfs_fd"

record fs_node =
  n_used :: int
  n_type :: int
  n_parent :: int
  n_name :: "char list"
  n_size :: u32
  n_data :: "u8 list"

record nodefs =
  mount_idx :: int
  persistent :: bool
  nodes :: "nat \<Rightarrow> fs_node"

record fs_dirent =
  de_name :: "char list"
  de_type :: int
  de_size :: u32

definition zero_node :: fs_node where
  "zero_node = \<lparr>n_used = 0, n_type = 0, n_parent = 0, n_name = replicate 16 NUL, n_size = 0,
     n_data = replicate 512 0\<rparr>"

definition set_node :: "nat \<Rightarrow> fs_node \<Rightarrow> nodefs \<Rightarrow> nodefs" where
  "set_node i n fs = fs\<lparr>nodes := (nodes fs)(i := n)\<rparr>"

lemma set_node_simps [simp]:
  "nodes (set_node i n fs) = (nodes fs)(i := n)"
  "persistent (set_node i n fs) = persistent fs"
  "mount_idx (set_node i n fs) = mount_idx fs"
  by (simp_all add: set_node_def)

section \<open>Names and paths\<close>

definition copy_name :: "char list \<Rightarrow> string \<Rightarrow> int \<times> char list" where
  "copy_name dst src = (if length src \<le> 15 then 0 else -1, strncpy_loop dst 0 15 src)"

fun str_len :: "string \<Rightarrow> nat" where
  "str_len [] = 0"
| "str_len (c # s) = Suc (str_len s)"

lemma str_len_length [simp]: "str_len s = length s"
  by (induction s) auto

datatype component = Comp_Err | Comp_End | Comp string string

fun component_loop :: "string \<Rightarrow> nat \<Rightarrow> string \<Rightarrow> component" where
  "component_loop out_name i [] = Comp out_name []"
| "component_loop out_name i (c # rest) =
     (if c = CHR ''/'' then Comp out_name (c # rest)
      else if 15 \<le> i then Comp_Err
      else component_loop (out_name @ [c]) (Suc i) rest)"

fun skip_slashes :: "string \<Rightarrow> string" where
  "skip_slashes [] = []"
| "skip_slashes (c # rest) = (if c = CHR ''/'' then skip_slashes rest else c # rest)"

definition next_component :: "string \<Rightarrow> component" where
  "next_component path =
     (let rest = skip_slashes path in if rest = [] then Comp_End else component_loop [] 0 rest)"

lemma length_skip_slashes: "length (skip_slashes p) \<le> length p"
  by (induction p) auto

lemma component_loop_rest: "component_loop out i p = Comp name rest \<Longrightarrow> length rest \<le> length p"
  by (induction out i p rule: component_loop.induct) (auto split: if_splits)

lemma component_loop_length:
  "component_loop out i (c # p) = Comp name rest \<Longrightarrow> c \<noteq> CHR ''/'' \<Longrightarrow> length rest \<le> length p"
  by (auto split: if_splits dest: component_loop_rest)

lemma skip_slashes_hd: "skip_slashes p \<noteq> [] \<Longrightarrow> hd (skip_slashes p) \<noteq> CHR ''/''"
  by (induction p) auto

lemma next_component_shorter:
  assumes "next_component p = Comp name rest"
  shows "length rest < length p"
proof (cases "skip_slashes p")
  case Nil
  then show ?thesis using assms by (simp add: next_component_def)
next
  case (Cons c q)
  then have "component_loop [] 0 (c # q) = Comp name rest" "c \<noteq> CHR ''/''"
    using assms skip_slashes_hd [of p] by (simp_all add: next_component_def Let_def)
  then have "length rest \<le> length q" by (rule component_loop_length)
  then show ?thesis using length_skip_slashes [of p] Cons by simp
qed

section \<open>The persistent image\<close>

definition le32 :: "u32 \<Rightarrow> u8 list" where
  "le32 w = [ucast w, ucast (drop_bit 8 w), ucast (drop_bit 16 w), ucast (drop_bit 24 w)]"

definition un_le32 :: "u8 list \<Rightarrow> u32" where
  "un_le32 x = ucast (x ! 0) OR push_bit 8 (ucast (x ! 1)) OR push_bit 16 (ucast (x ! 2))
     OR push_bit 24 (ucast (x ! 3))"

text \<open>The memory layout of \<open>struct fs_node\<close>: 544 bytes without padding.\<close>

definition encode_node :: "fs_node \<Rightarrow> u8 list" where
  "encode_node n = le32 (of_int (n_used n)) @ le32 (of_int (n_type n)) @ le32 (of_int (n_parent n))
     @ map of_char (n_name n) @ le32 (n_size n) @ n_data n"

definition decode_node :: "u8 list \<Rightarrow> fs_node" where
  "decode_node x = \<lparr>n_used = sint (un_le32 x), n_type = sint (un_le32 (drop 4 x)),
     n_parent = sint (un_le32 (drop 8 x)), n_name = map (\<lambda>c. char_of (unat c)) (take 16 (drop 12 x)),
     n_size = un_le32 (drop 28 x), n_data = take 512 (drop 32 x)\<rparr>"

definition pfs_image :: "nodefs \<Rightarrow> u8 list" where
  "pfs_image fs = le32 PFS_MAGIC @ concat (map (\<lambda>i. encode_node (nodes fs i)) [0 ..< 128])"

definition SIZEOF_PFS_IMAGE :: nat where
  "SIZEOF_PFS_IMAGE = 4 + 128 * 544"

definition image_nodes :: "u8 list \<Rightarrow> nat \<Rightarrow> fs_node" where
  "image_nodes img i = (if i < 128 then decode_node (take 544 (drop (4 + i * 544) img)) else zero_node)"

definition pfs_block_count :: nat where
  "pfs_block_count = (SIZEOF_PFS_IMAGE + BLOCKDEV_BLOCK_SIZE - 1) div BLOCKDEV_BLOCK_SIZE"

definition pfs_copy_len :: "nat \<Rightarrow> nat" where
  "pfs_copy_len i = (let remain = SIZEOF_PFS_IMAGE - i * BLOCKDEV_BLOCK_SIZE
     in if BLOCKDEV_BLOCK_SIZE < remain then BLOCKDEV_BLOCK_SIZE else remain)"

definition pfs_block :: "u8 list \<Rightarrow> nat \<Rightarrow> u8 list" where
  "pfs_block img i = memcpy (replicate BLOCKDEV_BLOCK_SIZE 0) 0 img (i * BLOCKDEV_BLOCK_SIZE) (pfs_copy_len i)"

fun pfs_write_loop :: "u8 list \<Rightarrow> nat \<Rightarrow> nat \<Rightarrow> blk_state \<Rightarrow> int \<times> blk_state" where
  "pfs_write_loop img 0 i b = (0, b)"
| "pfs_write_loop img (Suc n) i b =
     chain (blockdev_write (of_nat i) (pfs_block img i) b) (pfs_write_loop img n (Suc i))"

definition pfs_sync :: "nodefs \<Rightarrow> blk_state \<Rightarrow> int \<times> blk_state" where
  "pfs_sync fs b =
     (if \<not> persistent fs then (0, b)
      else if BLOCKDEV_BLOCK_COUNT < pfs_block_count then (-1, b)
      else pfs_write_loop (pfs_image fs) pfs_block_count 0 b)"

definition nodefs_format :: "nodefs \<Rightarrow> nodefs" where
  "nodefs_format fs = fs\<lparr>nodes := (\<lambda>_. zero_node)(0 := zero_node\<lparr>n_used := 1, n_type := FS_TYPE_DIR,
     n_parent := -1, n_name := (replicate 16 NUL)[0 := CHR ''/'', 1 := NUL]\<rparr>)\<rparr>"

fun pfs_read_loop :: "nat \<Rightarrow> nat \<Rightarrow> u8 list \<Rightarrow> u8 list \<Rightarrow> blk_state \<Rightarrow> (u8 list \<times> blk_state) kres" where
  "pfs_read_loop 0 i block img b = Ok (img, b)"
| "pfs_read_loop (Suc n) i block img b =
     (let (r, block, b) = blockdev_read (of_nat i) block b
      in if r < 0 then PANIC ''pfs block read failed''
         else pfs_read_loop n (Suc i) block
           (memcpy img (i * BLOCKDEV_BLOCK_SIZE) block 0 (pfs_copy_len i)) b)"

text \<open>The local block buffer and the static image start with zeros; both are overwritten.\<close>

definition nodefs_init_instance :: "bool \<Rightarrow> blk_state \<Rightarrow> (nodefs \<times> blk_state) kres" where
  "nodefs_init_instance persist b =
     (let fs = \<lparr>mount_idx = -1, persistent = persist, nodes = \<lambda>_. zero_node\<rparr>
      in if \<not> persist then Ok (nodefs_format fs, b)
         else if BLOCKDEV_BLOCK_COUNT < pfs_block_count then PANIC ''pfs image too large for blockdev''
         else kbind (pfs_read_loop pfs_block_count 0 (replicate 512 0) (replicate SIZEOF_PFS_IMAGE 0) b)
           (\<lambda>(img, b).
             if un_le32 (take 4 img) \<noteq> PFS_MAGIC then
               (let (r, b) = pfs_sync (nodefs_format fs) b
                in if r < 0 then PANIC ''pfs initial sync failed'' else Ok (nodefs_format fs, b))
             else
               let fs = fs\<lparr>nodes := image_nodes img\<rparr>
               in if n_used (nodes fs 0) = 0 \<or> n_type (nodes fs 0) \<noteq> FS_TYPE_DIR then
                    (let (r, b) = pfs_sync (nodefs_format fs) b
                     in if r < 0 then PANIC ''pfs recovery sync failed'' else Ok (nodefs_format fs, b))
                  else Ok (fs, b)))"

section \<open>Node lookup\<close>

definition nodefs_find_child :: "nodefs \<Rightarrow> nat \<Rightarrow> string \<Rightarrow> nat option" where
  "nodefs_find_child fs parent_idx name =
     scan_from (\<lambda>i. n_used (nodes fs i) \<noteq> 0 \<and> n_parent (nodes fs i) = int parent_idx \<and>
       strcmp (cstr (n_name (nodes fs i))) name = 0) 0 FS_MAX_NODES"

definition fresh_node :: fs_node where
  "fresh_node = \<lparr>n_used = 1, n_type = 0, n_parent = -1, n_name = replicate 16 NUL, n_size = 0,
     n_data = replicate 512 0\<rparr>"

definition nodefs_alloc_node :: "nodefs \<Rightarrow> (nat \<times> nodefs) option" where
  "nodefs_alloc_node fs =
     (case scan_from (\<lambda>i. n_used (nodes fs i) = 0) 1 (FS_MAX_NODES - 1) of
        None \<Rightarrow> None
      | Some i \<Rightarrow> Some (i, set_node i fresh_node fs))"

function resolve_loop :: "nodefs \<Rightarrow> nat \<Rightarrow> string \<Rightarrow> nat option" where
  "resolve_loop fs cur path =
     (case next_component path of
        Comp_Err \<Rightarrow> None
      | Comp_End \<Rightarrow> Some cur
      | Comp name rest \<Rightarrow>
          (case nodefs_find_child fs cur name of
             None \<Rightarrow> None
           | Some child \<Rightarrow> resolve_loop fs child rest))"
  by pat_completeness auto
termination
  by (relation "measure (\<lambda>(fs, cur, path). length path)") (auto dest: next_component_shorter)

declare resolve_loop.simps [simp del]

definition nodefs_resolve_path :: "nodefs \<Rightarrow> string \<Rightarrow> nat option" where
  "nodefs_resolve_path fs path = (if char_at path 0 \<noteq> CHR ''/'' then None else resolve_loop fs 0 path)"

function parent_loop :: "nodefs \<Rightarrow> nat \<Rightarrow> string \<Rightarrow> string \<Rightarrow> (nat \<times> string) option" where
  "parent_loop fs cur cname path =
     (case next_component path of
        Comp_Err \<Rightarrow> None
      | Comp_End \<Rightarrow>
          (let (r, leaf) = copy_name (replicate 16 NUL) cname
           in if r < 0 then None else Some (cur, cstr leaf))
      | Comp peek rest \<Rightarrow>
          (case nodefs_find_child fs cur cname of
             None \<Rightarrow> None
           | Some child \<Rightarrow>
               if n_type (nodes fs child) \<noteq> FS_TYPE_DIR then None
               else let (r, cname) = copy_name (replicate 16 NUL) peek
                 in if r < 0 then None else parent_loop fs child (cstr cname) rest))"
  by pat_completeness auto
termination
  by (relation "measure (\<lambda>(fs, cur, cname, path). length path)") (auto dest: next_component_shorter)

declare parent_loop.simps [simp del]

definition nodefs_resolve_parent_and_leaf :: "nodefs \<Rightarrow> string \<Rightarrow> (nat \<times> string) option" where
  "nodefs_resolve_parent_and_leaf fs path =
     (if char_at path 0 \<noteq> CHR ''/'' \<or> char_at path 1 = NUL then None
      else case next_component path of
        Comp cname rest \<Rightarrow> parent_loop fs 0 cname rest
      | _ \<Rightarrow> None)"

definition nodefs_is_node_open :: "fd_tab \<Rightarrow> nodefs \<Rightarrow> nat \<Rightarrow> bool" where
  "nodefs_is_node_open fds fs node_index =
     (if mount_idx fs < 0 then False
      else \<exists>pid \<in> {0 ..< PROCS_MAX}. \<exists>fd \<in> {0 ..< FS_FD_MAX}. f_used (fds pid fd) \<and>
             f_mount_idx (fds pid fd) = mount_idx fs \<and> f_node_index (fds pid fd) = int node_index)"

definition nodefs_is_dir_empty :: "nodefs \<Rightarrow> nat \<Rightarrow> bool" where
  "nodefs_is_dir_empty fs node_index =
     (scan_from (\<lambda>i. n_used (nodes fs i) \<noteq> 0 \<and> n_parent (nodes fs i) = int node_index) 0 FS_MAX_NODES = None)"

section \<open>Operations\<close>

text \<open>Creating an entry: the common part of \<open>nodefs_open\<close> with \<open>O_CREAT\<close> and \<open>nodefs_mkdir\<close>.\<close>

definition nodefs_create :: "int \<Rightarrow> string \<Rightarrow> nodefs \<Rightarrow> blk_state \<Rightarrow> nat option \<times> nodefs \<times> blk_state" where
  "nodefs_create type path fs b =
     (case nodefs_resolve_parent_and_leaf fs path of
        None \<Rightarrow> (None, fs, b)
      | Some (parent, leaf) \<Rightarrow>
          if nodefs_find_child fs parent leaf \<noteq> None then (None, fs, b)
          else case nodefs_alloc_node fs of
            None \<Rightarrow> (None, fs, b)
          | Some (idx, fs) \<Rightarrow>
              let n = (nodes fs idx)\<lparr>n_type := type, n_parent := int parent\<rparr>;
                  (r, name) = copy_name (n_name n) leaf;
                  n = n\<lparr>n_name := name\<rparr>
              in if r < 0 then (None, set_node idx (n\<lparr>n_used := 0\<rparr>) fs, b)
                 else let fs = set_node idx n fs; (r, b) = pfs_sync fs b
                   in if r < 0 then (None, fs, b) else (Some idx, fs, b))"

definition nodefs_open :: "string \<Rightarrow> int \<Rightarrow> nodefs \<Rightarrow> blk_state \<Rightarrow> nat option \<times> nodefs \<times> blk_state" where
  "nodefs_open path flags fs b =
     (let flags = (if flags AND (O_RDONLY OR O_WRONLY) = 0 then flags OR O_RDONLY else flags);
          (node, fs, b) =
            (case nodefs_resolve_path fs path of
               Some node \<Rightarrow> (Some node, fs, b)
             | None \<Rightarrow> if flags AND O_CREAT = 0 then (None, fs, b) else nodefs_create FS_TYPE_FILE path fs b)
      in case node of
           None \<Rightarrow> (None, fs, b)
         | Some node \<Rightarrow>
             if n_type (nodes fs node) \<noteq> FS_TYPE_FILE then (None, fs, b)
             else if flags AND O_TRUNC \<noteq> 0 \<and> flags AND O_WRONLY \<noteq> 0 then
               (let fs = set_node node ((nodes fs node)\<lparr>n_size := 0, n_data := replicate 512 0\<rparr>) fs;
                    (r, b) = pfs_sync fs b
                in if r < 0 then (None, fs, b) else (Some node, fs, b))
             else (Some node, fs, b))"

text \<open>\<open>nodefs_read\<close>: the return value, the bytes that the caller's buffer receives, the new offset.\<close>

definition valid_file_node :: "nodefs \<Rightarrow> int \<Rightarrow> bool" where
  "valid_file_node fs node \<longleftrightarrow> \<not> (node \<le> 0 \<or> int FS_MAX_NODES \<le> node \<or> n_used (nodes fs (nat node)) = 0) \<and>
     n_type (nodes fs (nat node)) = FS_TYPE_FILE"

definition nodefs_read :: "int \<Rightarrow> u32 \<Rightarrow> u32 \<Rightarrow> nodefs \<Rightarrow> int \<times> u8 list \<times> u32" where
  "nodefs_read node offset sz fs =
     (if \<not> valid_file_node fs node then (-1, [], offset)
      else let n = nodes fs (nat node)
        in if n_size n \<le> offset then (0, [], offset)
           else let remain = n_size n - offset;
                    to_read = (if remain < sz then remain else sz)
             in (uint to_read, take (unat to_read) (drop (unat offset) (n_data n)), offset + to_read))"

definition nodefs_write :: "int \<Rightarrow> u32 \<Rightarrow> u8 list \<Rightarrow> u32 \<Rightarrow> nodefs \<Rightarrow> blk_state \<Rightarrow>
    int \<times> u32 \<times> nodefs \<times> blk_state" where
  "nodefs_write node offset buf sz fs b =
     (if \<not> valid_file_node fs node then (-1, offset, fs, b)
      else let n = nodes fs (nat node)
        in if 512 \<le> offset then (0, offset, fs, b)
           else let writable = 512 - offset;
                    to_write = (if writable < sz then writable else sz);
                    data = memcpy (n_data n) (unat offset) buf 0 (unat to_write);
                    offset = offset + to_write;
                    size' = (if n_size n < offset then offset else n_size n);
                    fs = set_node (nat node) (n\<lparr>n_data := data, n_size := size'\<rparr>) fs;
                    (r, b) = pfs_sync fs b
             in if r < 0 then (-1, offset, fs, b) else (uint to_write, offset, fs, b))"

definition nodefs_mkdir :: "string \<Rightarrow> nodefs \<Rightarrow> blk_state \<Rightarrow> int \<times> nodefs \<times> blk_state" where
  "nodefs_mkdir path fs b =
     (case nodefs_create FS_TYPE_DIR path fs b of
        (None, fs, b) \<Rightarrow> (-1, fs, b)
      | (Some idx, fs, b) \<Rightarrow> (0, fs, b))"

fun readdir_loop :: "nodefs \<Rightarrow> nat \<Rightarrow> int \<Rightarrow> int \<Rightarrow> nat \<Rightarrow> nat \<Rightarrow> nat option" where
  "readdir_loop fs dir index seen i 0 = None"
| "readdir_loop fs dir index seen i (Suc k) =
     (if n_used (nodes fs i) = 0 \<or> n_parent (nodes fs i) \<noteq> int dir
      then readdir_loop fs dir index seen (Suc i) k
      else if seen = index then Some i
      else readdir_loop fs dir index (seen + 1) (Suc i) k)"

definition nodefs_readdir :: "string \<Rightarrow> int \<Rightarrow> nodefs \<Rightarrow> fs_dirent option" where
  "nodefs_readdir path index fs =
     (if index < 0 then None
      else case nodefs_resolve_path fs path of
        None \<Rightarrow> None
      | Some dir \<Rightarrow>
          if n_type (nodes fs dir) \<noteq> FS_TYPE_DIR then None
          else case readdir_loop fs dir index 0 0 FS_MAX_NODES of
            None \<Rightarrow> None
          | Some i \<Rightarrow> Some \<lparr>de_name = snd (copy_name (replicate 16 NUL) (cstr (n_name (nodes fs i)))),
              de_type = n_type (nodes fs i), de_size = n_size (nodes fs i)\<rparr>)"

definition nodefs_remove :: "nat \<Rightarrow> nodefs \<Rightarrow> blk_state \<Rightarrow> int \<times> nodefs \<times> blk_state" where
  "nodefs_remove node fs b =
     (let fs = set_node node zero_node fs; (r, b) = pfs_sync fs b
      in if r < 0 then (-1, fs, b) else (0, fs, b))"

definition nodefs_unlink :: "fd_tab \<Rightarrow> string \<Rightarrow> nodefs \<Rightarrow> blk_state \<Rightarrow> int \<times> nodefs \<times> blk_state" where
  "nodefs_unlink fds path fs b =
     (case nodefs_resolve_path fs path of
        None \<Rightarrow> (-1, fs, b)
      | Some node \<Rightarrow>
          if node = 0 then (-1, fs, b)
          else if n_type (nodes fs node) \<noteq> FS_TYPE_FILE then (-1, fs, b)
          else if nodefs_is_node_open fds fs node then (-1, fs, b)
          else nodefs_remove node fs b)"

definition nodefs_rmdir :: "string \<Rightarrow> nodefs \<Rightarrow> blk_state \<Rightarrow> int \<times> nodefs \<times> blk_state" where
  "nodefs_rmdir path fs b =
     (case nodefs_resolve_path fs path of
        None \<Rightarrow> (-1, fs, b)
      | Some node \<Rightarrow>
          if node = 0 then (-1, fs, b)
          else if n_type (nodes fs node) \<noteq> FS_TYPE_DIR then (-1, fs, b)
          else if \<not> nodefs_is_dir_empty fs node then (-1, fs, b)
          else nodefs_remove node fs b)"

end
