(* ===== verification/NodeTree.thy ===== *)
theory NodeTree
  imports NodeFs
begin

text \<open>
  What the node file system promises: path resolution follows the names between the slashes, the node
  table stays a tree with unique names (\<open>nodefs_wf\<close>), and every operation acts on the abstract file system
  \<open>tree_of\<close>, a map from name lists to files and directories, as its specification says.
\<close>

section \<open>Paths as name lists\<close>

function path_comps :: "string \<Rightarrow> string list" where
  "path_comps [] = []"
| "path_comps (c # s) =
     (if c = CHR ''/'' then path_comps s
      else (c # takeWhile (\<lambda>x. x \<noteq> CHR ''/'') s) # path_comps (dropWhile (\<lambda>x. x \<noteq> CHR ''/'') s))"
  by pat_completeness auto
termination
  by (relation "measure length") (auto simp: le_imp_less_Suc length_dropWhile_le)

lemma path_comps_skip: "path_comps (skip_slashes p) = path_comps p"
  by (induction p) auto

lemma component_loop_takeWhile:
  "i = length out \<Longrightarrow> component_loop out i p =
     (if i + length (takeWhile (\<lambda>x. x \<noteq> CHR ''/'') p) \<le> 15 \<or> takeWhile (\<lambda>x. x \<noteq> CHR ''/'') p = []
      then Comp (out @ takeWhile (\<lambda>x. x \<noteq> CHR ''/'') p) (dropWhile (\<lambda>x. x \<noteq> CHR ''/'') p) else Comp_Err)"
  by (induction out i p rule: component_loop.induct) auto

lemma next_component_cases:
  "next_component p =
     (case path_comps p of
        [] \<Rightarrow> Comp_End
      | c # cs \<Rightarrow> if length c \<le> 15 then Comp c (dropWhile (\<lambda>x. x \<noteq> CHR ''/'') (skip_slashes p)) else Comp_Err)"
  and next_component_rest:
  "path_comps p = c # cs \<Longrightarrow> path_comps (dropWhile (\<lambda>x. x \<noteq> CHR ''/'') (skip_slashes p)) = cs"
  using skip_slashes_hd [of p]
  by (cases "skip_slashes p"; simp add: next_component_def component_loop_takeWhile
      path_comps_skip [of p, symmetric])+

definition name_ok :: "string \<Rightarrow> bool" where
  "name_ok c \<longleftrightarrow> c \<noteq> [] \<and> length c \<le> 15 \<and> nul_free c \<and> CHR ''/'' \<notin> set c"

lemma path_comps_ok:
  assumes "nul_free p" "c \<in> set (path_comps p)"
  shows "c \<noteq> []" "nul_free c" "CHR ''/'' \<notin> set c"
proof -
  have "c \<noteq> [] \<and> nul_free c \<and> CHR ''/'' \<notin> set c"
    using assms
  proof (induction p rule: path_comps.induct)
    case (2 d s)
    have "nul_free (takeWhile (\<lambda>x. x \<noteq> CHR ''/'') s)" "nul_free (dropWhile (\<lambda>x. x \<noteq> CHR ''/'') s)"
      using "2.prems"(1) by (auto simp: nul_free_def dest: set_takeWhileD set_dropWhileD)
    with 2 show ?case by (auto split: if_splits dest: set_takeWhileD)
  qed simp
  then show "c \<noteq> []" "nul_free c" "CHR ''/'' \<notin> set c" by auto
qed

text \<open>Following a list of names from a node.\<close>

fun walk :: "nodefs \<Rightarrow> nat \<Rightarrow> string list \<Rightarrow> nat option" where
  "walk fs cur [] = Some cur"
| "walk fs cur (c # cs) = (case nodefs_find_child fs cur c of None \<Rightarrow> None | Some i \<Rightarrow> walk fs i cs)"

lemma walk_append: "walk fs cur (cs @ ds) = Option.bind (walk fs cur cs) (\<lambda>i. walk fs i ds)"
  by (induction cs arbitrary: cur) (auto split: option.splits)

lemma resolve_loop_walk:
  "resolve_loop fs cur p = (if \<forall>c \<in> set (path_comps p). length c \<le> 15 then walk fs cur (path_comps p) else None)"
proof (induction "length p" arbitrary: p cur rule: less_induct)
  case less
  show ?case
  proof (cases "path_comps p")
    case Nil
    then show ?thesis by (simp add: resolve_loop.simps [of fs cur p] next_component_cases)
  next
    case (Cons c cs)
    let ?r = "dropWhile (\<lambda>x. x \<noteq> CHR ''/'') (skip_slashes p)"
    note r = next_component_rest [OF Cons]
    show ?thesis
    proof (cases "length c \<le> 15")
      case True
      then have n: "next_component p = Comp c ?r" by (simp add: next_component_cases Cons)
      show ?thesis
        using less [OF next_component_shorter [OF n]] True
        by (auto simp: resolve_loop.simps [of fs cur p] n Cons r split: option.splits)
    next
      case False
      then show ?thesis by (simp add: resolve_loop.simps [of fs cur p] next_component_cases Cons)
    qed
  qed
qed

definition names_of :: "string \<Rightarrow> string list option" where
  "names_of p = (if char_at p 0 = CHR ''/'' \<and> (\<forall>c \<in> set (path_comps p). length c \<le> 15)
     then Some (path_comps p) else None)"

lemma names_of_ok: "names_of p = Some cs \<Longrightarrow> nul_free p \<Longrightarrow> \<forall>c \<in> set cs. name_ok c"
  by (auto simp: names_of_def name_ok_def path_comps_ok split: if_splits)

lemma resolve_path_walk: "nodefs_resolve_path fs p = Option.bind (names_of p) (walk fs 0)"
  by (auto simp: nodefs_resolve_path_def names_of_def resolve_loop_walk)

fun walk_dirs :: "nodefs \<Rightarrow> nat \<Rightarrow> string list \<Rightarrow> nat option" where
  "walk_dirs fs cur [] = Some cur"
| "walk_dirs fs cur (c # cs) =
     (case nodefs_find_child fs cur c of
        None \<Rightarrow> None
      | Some i \<Rightarrow> if n_type (nodes fs i) \<noteq> FS_TYPE_DIR then None else walk_dirs fs i cs)"

lemma copy_name_fits:
  assumes "length dst = 16" "length src \<le> 15" "nul_free src"
  shows "fst (copy_name dst src) = 0" "cstr (snd (copy_name dst src)) = src"
    "length (snd (copy_name dst src)) = 16"
proof -
  have "copy_name dst src = (0, overwrite dst 0 (src @ [NUL]))"
    using assms strncpy_loop_overwrite [of 0 15 src dst] by (simp add: copy_name_def)
  then show "fst (copy_name dst src) = 0" "cstr (snd (copy_name dst src)) = src"
    "length (snd (copy_name dst src)) = 16"
    using assms cstr_overwrite_at_end [of "[]" dst src] by simp_all
qed

lemma nul_free_rest: "nul_free p \<Longrightarrow> nul_free (dropWhile P (skip_slashes p))"
proof -
  have "set (skip_slashes p) \<subseteq> set p" by (induction p) auto
  then show "nul_free p \<Longrightarrow> nul_free (dropWhile P (skip_slashes p))"
    by (auto simp: nul_free_def dest: set_dropWhileD)
qed

lemma parent_loop_walk:
  assumes "length c \<le> 15" "nul_free c" "nul_free p"
  shows "parent_loop fs cur c p =
     (if \<forall>d \<in> set (path_comps p). length d \<le> 15
      then map_option (\<lambda>i. (i, last (c # path_comps p))) (walk_dirs fs cur (butlast (c # path_comps p)))
      else None)"
  using assms
proof (induction "length p" arbitrary: p cur c rule: less_induct)
  case less
  note cn = copy_name_fits [of "replicate 16 NUL"]
  show ?case
  proof (cases "path_comps p")
    case Nil
    then show ?thesis using cn [of c] less.prems
      by (simp add: parent_loop.simps [of fs cur c p] next_component_cases case_prod_beta)
  next
    case (Cons d ds)
    let ?r = "dropWhile (\<lambda>x. x \<noteq> CHR ''/'') (skip_slashes p)"
    note r = next_component_rest [OF Cons]
    show ?thesis
    proof (cases "length d \<le> 15")
      case True
      then have n: "next_component p = Comp d ?r" by (simp add: next_component_cases Cons)
      have "nul_free d" using path_comps_ok [OF less.prems(3)] Cons by simp
      moreover have "nul_free ?r"
        using less.prems(3) by (rule nul_free_rest)
      ultimately show ?thesis
        using less(1) [OF next_component_shorter [OF n] True] cn [OF _ True] True
        by (auto simp: parent_loop.simps [of fs cur c p] n Cons r Let_def case_prod_beta split: option.splits)
    next
      case False
      then show ?thesis by (simp add: parent_loop.simps [of fs cur c p] next_component_cases Cons)
    qed
  qed
qed

lemma resolve_parent_walk:
  assumes "nul_free p"
  shows "nodefs_resolve_parent_and_leaf fs p =
     (case names_of p of
        None \<Rightarrow> None
      | Some cs \<Rightarrow> if cs = [] then None
          else map_option (\<lambda>i. (i, last cs)) (walk_dirs fs 0 (butlast cs)))"
proof (cases "char_at p 0 = CHR ''/''")
  case False
  then show ?thesis by (simp add: nodefs_resolve_parent_and_leaf_def names_of_def)
next
  case True
  then obtain q where p: "p = CHR ''/'' # q" by (cases p) auto
  show ?thesis
  proof (cases "path_comps p")
    case Nil
    then show ?thesis
      by (simp add: nodefs_resolve_parent_and_leaf_def names_of_def next_component_cases)
  next
    case (Cons c cs)
    then have q: "char_at p 1 \<noteq> NUL" using assms p by (cases q) auto
    note c = path_comps_ok [OF assms, of c]
    let ?r = "dropWhile (\<lambda>x. x \<noteq> CHR ''/'') (skip_slashes p)"
    show ?thesis
      using True q Cons c parent_loop_walk [of c ?r fs 0] next_component_rest [OF Cons] nul_free_rest [OF assms]
      by (auto simp: nodefs_resolve_parent_and_leaf_def names_of_def next_component_cases)
  qed
qed

section \<open>The invariant\<close>

definition live :: "nodefs \<Rightarrow> nat \<Rightarrow> bool" where
  "live fs i \<longleftrightarrow> i < 128 \<and> n_used (nodes fs i) \<noteq> 0"

text \<open>The shape of one node: arrays of the declared length, a terminated name, contents within the file
  size limit with zeros behind them, and everything zeroed when unused.\<close>

definition node_shape :: "fs_node \<Rightarrow> bool" where
  "node_shape n \<longleftrightarrow> length (n_name n) = 16 \<and> length (cstr (n_name n)) \<le> 15 \<and> length (n_data n) = 512 \<and>
     unat (n_size n) \<le> 512 \<and> drop (unat (n_size n)) (n_data n) = replicate (512 - unat (n_size n)) 0 \<and>
     (n_used n = 0 \<and> n = zero_node \<or> n_used n = 1) \<and>
     n_type n \<in> {0, FS_TYPE_FILE, FS_TYPE_DIR} \<and> -1 \<le> n_parent n \<and> n_parent n < 128"

definition root_ok :: "nodefs \<Rightarrow> bool" where
  "root_ok fs \<longleftrightarrow> n_used (nodes fs 0) = 1 \<and> n_type (nodes fs 0) = FS_TYPE_DIR \<and> n_parent (nodes fs 0) = -1"

definition links_ok :: "nodefs \<Rightarrow> bool" where
  "links_ok fs \<longleftrightarrow> (\<forall>i. live fs i \<longrightarrow> i \<noteq> 0 \<longrightarrow>
     n_type (nodes fs i) \<in> {FS_TYPE_FILE, FS_TYPE_DIR} \<and> 0 \<le> n_parent (nodes fs i) \<and>
     live fs (nat (n_parent (nodes fs i))) \<and> n_type (nodes fs (nat (n_parent (nodes fs i)))) = FS_TYPE_DIR \<and>
     name_ok (cstr (n_name (nodes fs i))))"

definition names_unique :: "nodefs \<Rightarrow> bool" where
  "names_unique fs \<longleftrightarrow> (\<forall>i j. live fs i \<longrightarrow> live fs j \<longrightarrow> n_parent (nodes fs i) = n_parent (nodes fs j) \<longrightarrow>
     cstr (n_name (nodes fs i)) = cstr (n_name (nodes fs j)) \<longrightarrow> i = j)"

definition acyclic_links :: "nodefs \<Rightarrow> bool" where
  "acyclic_links fs \<longleftrightarrow> (\<exists>rank :: nat \<Rightarrow> nat. \<forall>i. live fs i \<longrightarrow> i \<noteq> 0 \<longrightarrow>
     rank (nat (n_parent (nodes fs i))) < rank i)"

definition nodefs_wf :: "nodefs \<Rightarrow> bool" where
  "nodefs_wf fs \<longleftrightarrow> (\<forall>i. node_shape (nodes fs i)) \<and> (\<forall>i \<ge> 128. nodes fs i = zero_node) \<and>
     root_ok fs \<and> links_ok fs \<and> names_unique fs \<and> acyclic_links fs"

lemma nodefs_wfD:
  assumes "nodefs_wf fs"
  shows "node_shape (nodes fs i)" "root_ok fs" "links_ok fs" "names_unique fs" "acyclic_links fs"
    "128 \<le> i \<Longrightarrow> nodes fs i = zero_node"
  using assms by (auto simp: nodefs_wf_def)

lemma live_root: "nodefs_wf fs \<Longrightarrow> live fs 0"
  by (auto simp: nodefs_wf_def root_ok_def live_def)

lemma live_link:
  assumes "nodefs_wf fs" "live fs i" "i \<noteq> 0"
  shows "n_type (nodes fs i) \<in> {FS_TYPE_FILE, FS_TYPE_DIR}" "0 \<le> n_parent (nodes fs i)"
    "live fs (nat (n_parent (nodes fs i)))" "n_type (nodes fs (nat (n_parent (nodes fs i)))) = FS_TYPE_DIR"
    "name_ok (cstr (n_name (nodes fs i)))"
  using assms by (auto simp: nodefs_wf_def links_ok_def)

lemma find_child_live:
  assumes "nodefs_find_child fs p c = Some i"
  shows "live fs i" "n_parent (nodes fs i) = int p" "nul_free c \<Longrightarrow> cstr (n_name (nodes fs i)) = c"
  using scan_from_SomeD [OF assms [unfolded nodefs_find_child_def]]
    strcmp_zero_iff [of "cstr (n_name (nodes fs i))" c]
  by (auto simp: live_def FS_MAX_NODES_def)

lemma find_child_None:
  assumes "nul_free c" "nodefs_find_child fs p c = None" "live fs i" "n_parent (nodes fs i) = int p"
  shows "cstr (n_name (nodes fs i)) \<noteq> c"
proof -
  have "\<not> (n_used (nodes fs i) \<noteq> 0 \<and> n_parent (nodes fs i) = int p \<and>
      strcmp (cstr (n_name (nodes fs i))) c = 0)"
    using assms(2,3) by (simp only: nodefs_find_child_def scan_from_None live_def FS_MAX_NODES_def) auto
  then show ?thesis using assms by (auto simp: live_def strcmp_zero_iff)
qed

lemma find_child_iff:
  assumes "nodefs_wf fs" "nul_free c"
  shows "nodefs_find_child fs p c = Some i \<longleftrightarrow>
     live fs i \<and> n_parent (nodes fs i) = int p \<and> cstr (n_name (nodes fs i)) = c"
proof
  assume i: "live fs i \<and> n_parent (nodes fs i) = int p \<and> cstr (n_name (nodes fs i)) = c"
  then obtain j where j: "nodefs_find_child fs p c = Some j"
    using find_child_None [OF assms(2)] by (cases "nodefs_find_child fs p c") auto
  moreover have "j = i" using find_child_live [OF j] assms(2) i nodefs_wfD(4) [OF assms(1)]
    unfolding names_unique_def by metis
  ultimately show "nodefs_find_child fs p c = Some i" by simp
qed (simp add: find_child_live assms(2))

lemma find_child_nonzero: "nodefs_wf fs \<Longrightarrow> nodefs_find_child fs p c = Some i \<Longrightarrow> i \<noteq> 0"
  using find_child_live [of fs p c i] by (cases "i = 0") (auto simp: nodefs_wf_def root_ok_def)

lemma walk_snoc: "walk fs cur (cs @ [c]) = Option.bind (walk fs cur cs) (\<lambda>p. nodefs_find_child fs p c)"
  by (simp add: walk_append) (auto split: option.splits bind_splits)

lemma walk_live: "nodefs_wf fs \<Longrightarrow> live fs cur \<Longrightarrow> walk fs cur cs = Some i \<Longrightarrow> live fs i"
  by (induction cs arbitrary: cur) (auto split: option.splits dest: find_child_live)

lemma walk_root_zero:
  assumes "nodefs_wf fs" "walk fs 0 cs = Some 0"
  shows "cs = []"
proof (cases cs rule: rev_cases)
  case (snoc ds c)
  then show ?thesis using assms find_child_nonzero [OF assms(1)]
    by (auto simp: walk_snoc split: bind_splits)
qed simp

lemma walk_inj:
  assumes "nodefs_wf fs" "walk fs 0 cs = Some i" "walk fs 0 ds = Some i"
    and "list_all nul_free cs" "list_all nul_free ds"
  shows "cs = ds"
  using assms(2-)
proof (induction cs arbitrary: i ds rule: rev_induct)
  case Nil
  then show ?case using walk_root_zero [OF assms(1)] by auto
next
  case (snoc c cs)
  then obtain p where p: "walk fs 0 cs = Some p" "nodefs_find_child fs p c = Some i"
    by (auto simp: walk_snoc split: bind_splits)
  then have "i \<noteq> 0" using find_child_nonzero [OF assms(1)] by blast
  then obtain d ds' where ds: "ds = ds' @ [d]" using snoc.prems(2) by (cases ds rule: rev_cases) auto
  then obtain q where q: "walk fs 0 ds' = Some q" "nodefs_find_child fs q d = Some i"
    using snoc.prems(2) by (auto simp: walk_snoc split: bind_splits)
  have "p = q" "c = d"
    using find_child_live [OF p(2)] find_child_live [OF q(2)] snoc.prems(3,4) ds by auto
  then show ?case using snoc.IH [OF p(1), of ds'] q(1) ds snoc.prems(3,4) by simp
qed

text \<open>Every allocated node has a path.\<close>

lemma live_has_path:
  assumes "nodefs_wf fs" "live fs i"
  obtains cs where "walk fs 0 cs = Some i" "list_all nul_free cs"
proof -
  obtain rank :: "nat \<Rightarrow> nat" where rank: "\<And>i. live fs i \<Longrightarrow> i \<noteq> 0 \<Longrightarrow> rank (nat (n_parent (nodes fs i))) < rank i"
    using nodefs_wfD(5) [OF assms(1)] by (auto simp: acyclic_links_def)
  have "\<exists>cs. walk fs 0 cs = Some i \<and> list_all nul_free cs" using assms(2)
  proof (induction "rank i" arbitrary: i rule: less_induct)
    case less
    show ?case
    proof (cases "i = 0")
      case True
      then show ?thesis by (auto intro: exI [of _ "[]"])
    next
      case False
      let ?p = "nat (n_parent (nodes fs i))"
      note l = live_link [OF assms(1) less.prems False]
      obtain cs where "walk fs 0 cs = Some ?p" "list_all nul_free cs" using less(1) [OF rank [OF less.prems False] l(3)] by blast
      moreover have "nodefs_find_child fs ?p (cstr (n_name (nodes fs i))) = Some i"
        using less.prems l(2) by (simp add: find_child_iff [OF assms(1)])
      ultimately have "walk fs 0 (cs @ [cstr (n_name (nodes fs i))]) = Some i \<and>
          list_all nul_free (cs @ [cstr (n_name (nodes fs i))])" by (simp add: walk_snoc)
      then show ?thesis by blast
    qed
  qed
  then show thesis using that by blast
qed

text \<open>A directory's children are reached only through it, so the walk meets only directories.\<close>

lemma walk_dirs_walk:
  assumes "nodefs_wf fs" "live fs cur"
  shows "walk_dirs fs cur cs = (case walk fs cur cs of
      None \<Rightarrow> None
    | Some i \<Rightarrow> if cs \<noteq> [] \<and> n_type (nodes fs i) \<noteq> FS_TYPE_DIR then None else Some i)"
  using assms(2)
proof (induction cs arbitrary: cur)
  case (Cons c cs)
  show ?case
  proof (cases "nodefs_find_child fs cur c")
    case (Some i)
    note i = find_child_live [OF Some]
    show ?thesis
    proof (cases "n_type (nodes fs i) = FS_TYPE_DIR")
      case True
      then show ?thesis using Some Cons.IH [OF i(1)] by (cases cs) (auto split: option.splits)
    next
      case False
      have "nodefs_find_child fs i d = None" for d
      proof (rule ccontr)
        assume "nodefs_find_child fs i d \<noteq> None"
        then obtain j where j: "nodefs_find_child fs i d = Some j" by blast
        then have "n_type (nodes fs i) = FS_TYPE_DIR"
          using live_link(4) [OF assms(1) find_child_live(1) [OF j] find_child_nonzero [OF assms(1) j]]
            find_child_live(2) [OF j] by simp
        with False show False ..
      qed
      then show ?thesis using Some False by (cases cs) auto
    qed
  qed simp
qed simp

section \<open>The abstract file system\<close>

datatype fs_entry = File "u8 list" | Dir

type_synonym fs_tree = "string list \<rightharpoonup> fs_entry"

definition entry_of :: "fs_node \<Rightarrow> fs_entry" where
  "entry_of n = (if n_type n = FS_TYPE_FILE then File (take (unat (n_size n)) (n_data n)) else Dir)"

definition tree_of :: "nodefs \<Rightarrow> fs_tree" where
  "tree_of fs cs = (if list_all nul_free cs then map_option (\<lambda>i. entry_of (nodes fs i)) (walk fs 0 cs) else None)"

text \<open>The three ways in which an operation changes the node table: a node is added below a directory,
  a node without children is cleared, the contents of a node are replaced.\<close>

definition adds_node :: "nodefs \<Rightarrow> nat \<Rightarrow> fs_node \<Rightarrow> nat \<Rightarrow> string \<Rightarrow> bool" where
  "adds_node fs idx n p c \<longleftrightarrow> nodefs_wf fs \<and> \<not> live fs idx \<and> idx < 128 \<and> idx \<noteq> 0 \<and>
     live fs p \<and> n_type (nodes fs p) = FS_TYPE_DIR \<and>
     node_shape n \<and> n_used n = 1 \<and> n_type n \<in> {FS_TYPE_FILE, FS_TYPE_DIR} \<and> n_parent n = int p \<and>
     cstr (n_name n) = c \<and> name_ok c \<and> nodefs_find_child fs p c = None"

lemma adds_nodeD:
  assumes "adds_node fs idx n p c"
  shows "nodefs_wf fs" "\<not> live fs idx" "idx < 128" "idx \<noteq> 0" "live fs p" "n_type (nodes fs p) = FS_TYPE_DIR"
    and "node_shape n" "n_used n = 1" "n_type n \<in> {FS_TYPE_FILE, FS_TYPE_DIR}" "n_parent n = int p"
      "cstr (n_name n) = c" "name_ok c" "nodefs_find_child fs p c = None" "p \<noteq> idx" "nul_free c"
  using assms by (auto simp: adds_node_def name_ok_def)

lemma live_added: "adds_node fs idx n p c \<Longrightarrow> live (set_node idx n fs) i \<longleftrightarrow> i = idx \<or> live fs i"
  by (auto simp: live_def adds_node_def)

lemma no_child_of_unused:
  assumes "nodefs_wf fs" "\<not> live fs idx" "live fs i"
  shows "n_parent (nodes fs i) \<noteq> int idx"
proof
  assume i: "n_parent (nodes fs i) = int idx"
  have "n_parent (nodes fs 0) = -1" using assms(1) by (simp add: nodefs_wf_def root_ok_def)
  then have "i \<noteq> 0" using i by (cases "i = 0") auto
  then have "live fs idx" using live_link(3) [OF assms(1,3)] i by simp
  with assms(2) show False ..
qed

lemma added_links:
  assumes a: "adds_node fs idx n p c"
  shows "links_ok (set_node idx n fs)"
  unfolding links_ok_def
proof (intro allI impI)
  fix i assume i: "live (set_node idx n fs) i" "i \<noteq> 0"
  note d = adds_nodeD [OF a]
  show "n_type (nodes (set_node idx n fs) i) \<in> {FS_TYPE_FILE, FS_TYPE_DIR} \<and>
     0 \<le> n_parent (nodes (set_node idx n fs) i) \<and>
     live (set_node idx n fs) (nat (n_parent (nodes (set_node idx n fs) i))) \<and>
     n_type (nodes (set_node idx n fs) (nat (n_parent (nodes (set_node idx n fs) i)))) = FS_TYPE_DIR \<and>
     name_ok (cstr (n_name (nodes (set_node idx n fs) i)))"
  proof (cases "i = idx")
    case True
    then show ?thesis using d by (simp add: live_added [OF a])
  next
    case False
    then have l: "live fs i" using i(1) live_added [OF a] by simp
    note k = live_link [OF d(1) l i(2)]
    then have "nat (n_parent (nodes fs i)) \<noteq> idx" using d(2) by auto
    then show ?thesis using k False by (simp add: live_added [OF a])
  qed
qed

lemma added_unique:
  assumes a: "adds_node fs idx n p c"
  shows "names_unique (set_node idx n fs)"
  unfolding names_unique_def
proof (intro allI impI)
  let ?f = "set_node idx n fs"
  fix i j assume e: "live ?f i" "live ?f j" "n_parent (nodes ?f i) = n_parent (nodes ?f j)"
    "cstr (n_name (nodes ?f i)) = cstr (n_name (nodes ?f j))"
  note d = adds_nodeD [OF a]
  have new: "live fs k \<Longrightarrow> n_parent (nodes fs k) = int p \<Longrightarrow> cstr (n_name (nodes fs k)) \<noteq> c" for k
    using find_child_None [OF d(15,13)] .
  have "live fs i \<Longrightarrow> live fs j \<Longrightarrow> i \<noteq> idx \<Longrightarrow> j \<noteq> idx \<Longrightarrow> i = j"
    using e(3,4) nodefs_wfD(4) [OF d(1)] by (simp add: names_unique_def)
  moreover have "i = idx \<Longrightarrow> j \<noteq> idx \<Longrightarrow> False" using e new [of j] d by (auto simp: live_added [OF a])
  moreover have "i \<noteq> idx \<Longrightarrow> j = idx \<Longrightarrow> False" using e new [of i] d by (auto simp: live_added [OF a])
  ultimately show "i = j" using e(1,2) live_added [OF a] by blast
qed

lemma added_acyclic:
  assumes a: "adds_node fs idx n p c"
  shows "acyclic_links (set_node idx n fs)"
proof -
  note d = adds_nodeD [OF a]
  obtain rank :: "nat \<Rightarrow> nat" where rank: "\<And>i. live fs i \<Longrightarrow> i \<noteq> 0 \<Longrightarrow> rank (nat (n_parent (nodes fs i))) < rank i"
    using nodefs_wfD(5) [OF d(1)] by (auto simp: acyclic_links_def)
  show ?thesis
    unfolding acyclic_links_def
  proof (intro exI [of _ "rank(idx := Suc (rank p))"] allI impI)
    fix i assume i: "live (set_node idx n fs) i" "i \<noteq> 0"
    show "(rank(idx := Suc (rank p))) (nat (n_parent (nodes (set_node idx n fs) i))) <
        (rank(idx := Suc (rank p))) i"
    proof (cases "i = idx")
      case True
      then show ?thesis using d(10,14) by simp
    next
      case False
      then have l: "live fs i" using i(1) live_added [OF a] by simp
      then have "nat (n_parent (nodes fs i)) \<noteq> idx" using live_link(3) [OF d(1) l i(2)] d(2) by auto
      then show ?thesis using rank [OF l i(2)] False by simp
    qed
  qed
qed

lemma added_wf:
  assumes a: "adds_node fs idx n p c"
  shows "nodefs_wf (set_node idx n fs)"
  using adds_nodeD [OF a] added_links [OF a] added_unique [OF a] added_acyclic [OF a]
  by (auto simp: nodefs_wf_def root_ok_def)

lemma added_find_child:
  assumes a: "adds_node fs idx n p c" and d: "nul_free d"
  shows "nodefs_find_child (set_node idx n fs) q d =
     (if q = p \<and> d = c then Some idx else nodefs_find_child fs q d)"
proof (cases "q = p \<and> d = c")
  case True
  then show ?thesis
    using find_child_iff [OF added_wf [OF a] d, of q idx] adds_nodeD [OF a] by (simp add: live_added [OF a])
next
  case False
  have "nodefs_find_child (set_node idx n fs) q d = Some j \<longleftrightarrow> nodefs_find_child fs q d = Some j" for j
    using find_child_iff [OF added_wf [OF a] d, of q j] find_child_iff [OF adds_nodeD(1) [OF a] d, of q j]
      False adds_nodeD [OF a]
    by (cases "j = idx") (auto simp: live_added [OF a])
  then show ?thesis using False by (metis not_Some_eq)
qed

lemma added_walk:
  assumes a: "adds_node fs idx n p c"
    and "walk fs 0 cs = Some p" "list_all nul_free cs" "list_all nul_free ds"
  shows "walk (set_node idx n fs) 0 ds = (if ds = cs @ [c] then Some idx else walk fs 0 ds)"
  using assms(4)
proof (induction ds rule: rev_induct)
  case (snoc d ds)
  note ad = adds_nodeD [OF a]
  from snoc.prems have d: "nul_free d" and ds: "list_all nul_free ds" by auto
  have idx: "nodefs_find_child fs idx d = None"
    using no_child_of_unused [OF ad(1,2)] find_child_live [of fs idx d]
    by (cases "nodefs_find_child fs idx d") auto
  show ?case
  proof (cases "ds = cs @ [c]")
    case True
    have "walk fs 0 (ds @ [d]) = None" using assms(2) ad(13) True by (simp add: walk_append)
    moreover have "walk (set_node idx n fs) 0 (ds @ [d]) = None"
      unfolding walk_snoc snoc.IH [OF ds] using True added_find_child [OF a d, of idx] ad(14) idx by simp
    ultimately show ?thesis using True by simp
  next
    case False
    then have "walk (set_node idx n fs) 0 ds = walk fs 0 ds" using snoc.IH [OF ds] by simp
    moreover have "walk fs 0 ds = Some p \<longleftrightarrow> ds = cs"
      using walk_inj [OF ad(1) _ assms(2) ds assms(3)] assms(2) by auto
    ultimately show ?thesis
      using added_find_child [OF a d] by (auto simp: walk_snoc split: bind_splits)
  qed
qed simp

lemma tree_added:
  assumes a: "adds_node fs idx n p c" and cs: "walk fs 0 cs = Some p" "list_all nul_free cs"
  shows "tree_of (set_node idx n fs) = (tree_of fs)(cs @ [c] \<mapsto> entry_of n)"
proof
  fix ds
  note ad = adds_nodeD [OF a]
  have e: "i \<noteq> idx" if "walk fs 0 ds = Some i" for i
    using walk_live [OF ad(1) live_root [OF ad(1)] that] ad(2) by auto
  show "tree_of (set_node idx n fs) ds = ((tree_of fs)(cs @ [c] \<mapsto> entry_of n)) ds"
    using added_walk [OF a cs, of ds] cs(2) ad(15) e
    by (cases "walk fs 0 ds") (auto simp: tree_of_def)
qed

text \<open>Clearing a node that has no children.\<close>

definition leaf_node :: "nodefs \<Rightarrow> nat \<Rightarrow> bool" where
  "leaf_node fs i \<longleftrightarrow> nodefs_wf fs \<and> live fs i \<and> i \<noteq> 0 \<and> (\<forall>j. live fs j \<longrightarrow> n_parent (nodes fs j) \<noteq> int i)"

lemma zero_node_shape: "node_shape zero_node"
  by (simp add: node_shape_def zero_node_def cstr_def)

lemma live_cleared: "live (set_node i zero_node fs) j \<longleftrightarrow> j \<noteq> i \<and> live fs j"
  by (auto simp: live_def zero_node_def)

lemma cleared_wf:
  assumes a: "leaf_node fs i"
  shows "nodefs_wf (set_node i zero_node fs)"
proof -
  have wf: "nodefs_wf fs" and i: "i \<noteq> 0" and c: "live fs j \<Longrightarrow> n_parent (nodes fs j) \<noteq> int i" for j
    using a by (auto simp: leaf_node_def)
  have p: "nat (n_parent (nodes fs j)) \<noteq> i" if "live fs j" "j \<noteq> 0" for j
    using live_link(2) [OF wf that] c [OF that(1)] by auto
  have "links_ok (set_node i zero_node fs)"
    using live_link [OF wf] p by (auto simp: links_ok_def live_cleared)
  moreover have "names_unique (set_node i zero_node fs)"
    using nodefs_wfD(4) [OF wf] by (auto simp: names_unique_def live_cleared)
  moreover have "acyclic_links (set_node i zero_node fs)"
    using nodefs_wfD(5) [OF wf] unfolding acyclic_links_def by (auto simp: live_cleared)
  ultimately show ?thesis using wf i zero_node_shape by (auto simp: nodefs_wf_def root_ok_def)
qed

lemma cleared_find_child:
  assumes a: "leaf_node fs i" and d: "nul_free d"
  shows "nodefs_find_child (set_node i zero_node fs) q d =
     (if nodefs_find_child fs q d = Some i then None else nodefs_find_child fs q d)"
proof -
  have wf: "nodefs_wf fs" using a by (simp add: leaf_node_def)
  have "nodefs_find_child (set_node i zero_node fs) q d = Some j \<longleftrightarrow>
      j \<noteq> i \<and> nodefs_find_child fs q d = Some j" for j
    using find_child_iff [OF cleared_wf [OF a] d, of q j] find_child_iff [OF wf d, of q j]
    by (auto simp: live_cleared)
  then show ?thesis by (metis not_Some_eq)
qed

lemma cleared_walk:
  assumes a: "leaf_node fs i" and "list_all nul_free ds"
  shows "walk (set_node i zero_node fs) 0 ds = (if walk fs 0 ds = Some i then None else walk fs 0 ds)"
  using assms(2)
proof (induction ds rule: rev_induct)
  case Nil
  then show ?case using a by (simp add: leaf_node_def)
next
  case (snoc d ds)
  then have d: "nul_free d" and ds: "list_all nul_free ds" by auto
  have "nodefs_find_child fs i d = None"
    using a find_child_live [of fs i d] by (cases "nodefs_find_child fs i d") (auto simp: leaf_node_def)
  then show ?case
    using snoc.IH [OF ds] cleared_find_child [OF a d] by (auto simp: walk_snoc split: bind_splits)
qed

lemma tree_cleared:
  assumes a: "leaf_node fs i" and cs: "walk fs 0 cs = Some i" "list_all nul_free cs"
  shows "tree_of (set_node i zero_node fs) = (tree_of fs)(cs := None)"
proof
  fix ds
  have wf: "nodefs_wf fs" using a by (simp add: leaf_node_def)
  have "list_all nul_free ds \<Longrightarrow> walk fs 0 ds = Some i \<longleftrightarrow> ds = cs"
    using walk_inj [OF wf _ cs(1) _ cs(2)] cs(1) by auto
  then show "tree_of (set_node i zero_node fs) ds = ((tree_of fs)(cs := None)) ds"
    using cleared_walk [OF a, of ds] by (cases "walk fs 0 ds") (auto simp: tree_of_def)
qed

text \<open>Replacing the contents of a node.\<close>

definition same_link :: "fs_node \<Rightarrow> fs_node \<Rightarrow> bool" where
  "same_link n m \<longleftrightarrow> n_used n = n_used m \<and> n_type n = n_type m \<and> n_parent n = n_parent m \<and> n_name n = n_name m"

lemma changed_find_child:
  "same_link n (nodes fs i) \<Longrightarrow> nodefs_find_child (set_node i n fs) q d = nodefs_find_child fs q d"
  unfolding nodefs_find_child_def by (rule scan_from_cong) (auto simp: same_link_def)

lemma changed_walk: "same_link n (nodes fs i) \<Longrightarrow> walk (set_node i n fs) cur cs = walk fs cur cs"
  by (induction cs arbitrary: cur) (auto simp: changed_find_child split: option.splits)

lemma changed_wf:
  assumes "nodefs_wf fs" "live fs i" "same_link n (nodes fs i)" "node_shape n"
  shows "nodefs_wf (set_node i n fs)"
proof -
  have l: "live (set_node i n fs) j = live fs j" for j
    using assms(3) by (auto simp: live_def same_link_def)
  have f: "n_type (nodes (set_node i n fs) j) = n_type (nodes fs j)"
    "n_parent (nodes (set_node i n fs) j) = n_parent (nodes fs j)"
    "n_name (nodes (set_node i n fs) j) = n_name (nodes fs j)"
    "n_used (nodes (set_node i n fs) j) = n_used (nodes fs j)" for j
    using assms(3) by (auto simp: same_link_def)
  have "links_ok (set_node i n fs)" using nodefs_wfD(3) [OF assms(1)] unfolding links_ok_def l f .
  moreover have "names_unique (set_node i n fs)"
    using nodefs_wfD(4) [OF assms(1)] unfolding names_unique_def l f .
  moreover have "acyclic_links (set_node i n fs)"
    using nodefs_wfD(5) [OF assms(1)] unfolding acyclic_links_def l f .
  moreover have "root_ok (set_node i n fs)" using nodefs_wfD(2) [OF assms(1)] unfolding root_ok_def f .
  ultimately show ?thesis using assms(1,2,4) by (auto simp: nodefs_wf_def live_def)
qed

lemma tree_changed:
  assumes "nodefs_wf fs" "same_link n (nodes fs i)" "walk fs 0 cs = Some i" "list_all nul_free cs"
  shows "tree_of (set_node i n fs) = (tree_of fs)(cs \<mapsto> entry_of n)"
proof
  fix ds
  have "list_all nul_free ds \<Longrightarrow> walk fs 0 ds = Some i \<longleftrightarrow> ds = cs"
    using walk_inj [OF assms(1) _ assms(3) _ assms(4)] assms(3) by auto
  then show "tree_of (set_node i n fs) ds = ((tree_of fs)(cs \<mapsto> entry_of n)) ds"
    using assms(4) changed_walk [OF assms(2)] by (cases "walk fs 0 ds") (auto simp: tree_of_def)
qed

section \<open>The operations refine the abstract file system\<close>

text \<open>The specification of the operations on a tree; \<open>None\<close> is a refused operation.\<close>

definition spec_create :: "fs_entry \<Rightarrow> string list \<Rightarrow> fs_tree \<Rightarrow> fs_tree option" where
  "spec_create e cs t =
     (if cs \<noteq> [] \<and> t (butlast cs) = Some Dir \<and> t cs = None then Some (t(cs \<mapsto> e)) else None)"

definition spec_unlink :: "string list \<Rightarrow> fs_tree \<Rightarrow> fs_tree option" where
  "spec_unlink cs t = (case t cs of Some (File d) \<Rightarrow> Some (t(cs := None)) | _ \<Rightarrow> None)"

definition spec_rmdir :: "string list \<Rightarrow> fs_tree \<Rightarrow> fs_tree option" where
  "spec_rmdir cs t = (if cs \<noteq> [] \<and> t cs = Some Dir \<and> (\<forall>c. t (cs @ [c]) = None) then Some (t(cs := None)) else None)"

lemma alloc_node_free:
  assumes "nodefs_alloc_node fs = Some (idx, fs1)"
  shows "\<not> live fs idx" "idx < 128" "idx \<noteq> 0" "fs1 = set_node idx fresh_node fs"
  using assms
  by (auto simp: nodefs_alloc_node_def FS_MAX_NODES_def live_def simp del: scan_from_numeral
      split: option.splits dest!: scan_from_SomeD)

lemma alloc_node_full:
  assumes "nodefs_alloc_node fs = None" "0 < i" "i < 128"
  shows "live fs i"
  using assms
  by (auto simp: nodefs_alloc_node_def FS_MAX_NODES_def live_def scan_from_None simp del: scan_from_numeral
      split: option.splits)

lemma fresh_child_adds:
  assumes "nodefs_wf fs" "nodefs_alloc_node fs = Some (idx, fs1)" "live fs p" "n_type (nodes fs p) = FS_TYPE_DIR"
    "nodefs_find_child fs p c = None" "name_ok c" "type \<in> {FS_TYPE_FILE, FS_TYPE_DIR}"
  shows "adds_node fs idx (fresh_node\<lparr>n_type := type, n_parent := int p,
      n_name := snd (copy_name (n_name fresh_node) c)\<rparr>) p c"
proof -
  have "length (n_name fresh_node) = 16" by (simp add: fresh_node_def)
  moreover have "length c \<le> 15" "nul_free c" using assms(6) by (auto simp: name_ok_def)
  ultimately have "cstr (snd (copy_name (n_name fresh_node) c)) = c"
      "length (snd (copy_name (n_name fresh_node) c)) = 16"
    using copy_name_fits by blast+
  then show ?thesis
    using assms alloc_node_free [OF assms(2)] \<open>length c \<le> 15\<close>
    by (auto simp: adds_node_def node_shape_def fresh_node_def live_def)
qed

lemma names_nul_free: "names_of p = Some cs \<Longrightarrow> nul_free p \<Longrightarrow> list_all nul_free cs"
  using names_of_ok [of p cs] by (auto simp: list_all_iff name_ok_def)

lemma list_all_butlast: "list_all P xs \<Longrightarrow> list_all P (butlast xs)"
  by (auto simp: list_all_iff dest: in_set_butlastD)

lemma live_type: "nodefs_wf fs \<Longrightarrow> live fs i \<Longrightarrow> n_type (nodes fs i) \<in> {FS_TYPE_FILE, FS_TYPE_DIR}"
  using live_link(1) [of fs i] by (cases "i = 0") (auto simp: nodefs_wf_def root_ok_def)

lemma tree_of_Dir_iff:
  assumes "nodefs_wf fs" "list_all nul_free cs"
  shows "tree_of fs cs = Some Dir \<longleftrightarrow> (\<exists>i. walk fs 0 cs = Some i \<and> n_type (nodes fs i) = FS_TYPE_DIR)"
  using assms live_type [OF assms(1) walk_live [OF assms(1) live_root [OF assms(1)], of cs]]
  by (cases "walk fs 0 cs") (auto simp: tree_of_def entry_of_def)

lemma tree_of_None_iff: "list_all nul_free cs \<Longrightarrow> tree_of fs cs = None \<longleftrightarrow> walk fs 0 cs = None"
  by (auto simp: tree_of_def)

lemma walk_dirs_root:
  assumes "nodefs_wf fs" "list_all nul_free cs"
  shows "walk_dirs fs 0 cs = Some i \<longleftrightarrow> walk fs 0 cs = Some i \<and> n_type (nodes fs i) = FS_TYPE_DIR"
  using walk_dirs_walk [OF assms(1) live_root [OF assms(1)], of cs] nodefs_wfD(2) [OF assms(1)]
  by (cases cs) (auto simp: root_ok_def split: option.splits if_splits)

definition new_entry :: "int \<Rightarrow> fs_entry" where
  "new_entry type = (if type = FS_TYPE_FILE then File [] else Dir)"

definition create_spec :: "int \<Rightarrow> string \<Rightarrow> nodefs \<Rightarrow> fs_tree option" where
  "create_spec type path fs = Option.bind (names_of path) (\<lambda>cs. spec_create (new_entry type) cs (tree_of fs))"

lemma parent_and_leaf:
  assumes wf: "nodefs_wf fs" and nf: "nul_free path"
  shows "(case nodefs_resolve_parent_and_leaf fs path of
       None \<Rightarrow> create_spec type path fs = None
     | Some (p, c) \<Rightarrow> \<exists>cs. names_of path = Some (cs @ [c]) \<and> walk fs 0 cs = Some p \<and>
         n_type (nodes fs p) = FS_TYPE_DIR \<and> list_all nul_free (cs @ [c]) \<and> name_ok c \<and>
         create_spec type path fs = (if nodefs_find_child fs p c = None
           then Some ((tree_of fs)(cs @ [c] \<mapsto> new_entry type)) else None))"
proof (cases "names_of path")
  case None
  then show ?thesis by (simp add: resolve_parent_walk [OF nf] create_spec_def)
next
  case (Some ns)
  note n = names_nul_free [OF Some nf] names_of_ok [OF Some nf]
  show ?thesis
  proof (cases ns rule: rev_cases)
    case Nil
    then show ?thesis using Some by (simp add: resolve_parent_walk [OF nf] create_spec_def spec_create_def)
  next
    case (snoc cs c)
    then have cs: "list_all nul_free cs" using n(1) by simp
    show ?thesis
    proof (cases "walk_dirs fs 0 cs")
      case None
      then have "tree_of fs cs \<noteq> Some Dir"
        using walk_dirs_root [OF wf cs] tree_of_Dir_iff [OF wf cs] by auto
      then show ?thesis using None Some snoc
        by (simp add: resolve_parent_walk [OF nf] create_spec_def spec_create_def)
    next
      case (Some p)
      then have w: "walk fs 0 cs = Some p" "n_type (nodes fs p) = FS_TYPE_DIR"
        using walk_dirs_root [OF wf cs] by auto
      then have "tree_of fs cs = Some Dir" using tree_of_Dir_iff [OF wf cs] by auto
      moreover have "tree_of fs (cs @ [c]) = None \<longleftrightarrow> nodefs_find_child fs p c = None"
        using tree_of_None_iff [of "cs @ [c]" fs] n(1) snoc w(1) by (simp add: walk_snoc)
      ultimately show ?thesis using w n snoc \<open>names_of path = Some ns\<close> Some
        by (auto simp: resolve_parent_walk [OF nf] create_spec_def spec_create_def)
    qed
  qed
qed

text \<open>\<open>nodefs_create\<close>: refused exactly when the specification refuses or no node is free.\<close>

lemma create_refused:
  assumes wf: "nodefs_wf fs" and nf: "nul_free path"
    and "create_spec type path fs = None \<or> nodefs_alloc_node fs = None"
  shows "nodefs_create type path fs b = (None, fs, b)"
  using parent_and_leaf [OF wf nf, of type] assms(3)
  by (auto simp: nodefs_create_def split: option.splits if_splits)

definition created_node :: "int \<Rightarrow> nat \<Rightarrow> string \<Rightarrow> fs_node" where
  "created_node type p c = fresh_node\<lparr>n_type := type, n_parent := int p,
     n_name := snd (copy_name (n_name fresh_node) c)\<rparr>"

lemma create_done:
  assumes wf: "nodefs_wf fs" and nf: "nul_free path" and type: "type \<in> {FS_TYPE_FILE, FS_TYPE_DIR}"
    and spec: "create_spec type path fs = Some t" and alloc: "nodefs_alloc_node fs = Some (idx, fs1)"
  obtains cs p c where
    "nodefs_create type path fs b = (let (r, b') = pfs_sync (set_node idx (created_node type p c) fs) b
       in (if r < 0 then None else Some idx, set_node idx (created_node type p c) fs, b'))"
    "adds_node fs idx (created_node type p c) p c" "names_of path = Some (cs @ [c])" "walk fs 0 cs = Some p"
    "list_all nul_free (cs @ [c])" "tree_of (set_node idx (created_node type p c) fs) = t"
proof -
  obtain p c where pc: "nodefs_resolve_parent_and_leaf fs path = Some (p, c)"
    using parent_and_leaf [OF wf nf, of type] spec by (auto split: option.splits)
  then obtain cs where cs: "names_of path = Some (cs @ [c])" "walk fs 0 cs = Some p"
      "n_type (nodes fs p) = FS_TYPE_DIR" "list_all nul_free (cs @ [c])" "name_ok c"
      "nodefs_find_child fs p c = None" "t = (tree_of fs)(cs @ [c] \<mapsto> new_entry type)"
    using parent_and_leaf [OF wf nf, of type] spec by (auto split: if_splits)
  have ad: "adds_node fs idx (created_node type p c) p c"
    unfolding created_node_def
    by (rule fresh_child_adds [OF wf alloc walk_live [OF wf live_root [OF wf] cs(2)] cs(3,6,5) type])
  have "entry_of (created_node type p c) = new_entry type"
    by (simp add: entry_of_def created_node_def new_entry_def fresh_node_def)
  then have t: "tree_of (set_node idx (created_node type p c) fs) = t"
    using tree_added [OF ad cs(2)] cs(4,7) by simp
  have "fst (copy_name (n_name fresh_node) c) = 0"
    using cs(5) by (simp add: copy_name_def name_ok_def)
  then have "nodefs_create type path fs b = (let (r, b') = pfs_sync (set_node idx (created_node type p c) fs) b
       in (if r < 0 then None else Some idx, set_node idx (created_node type p c) fs, b'))"
    using pc cs(6) alloc alloc_node_free(4) [OF alloc]
    by (simp add: nodefs_create_def Let_def case_prod_beta set_node_def created_node_def)
  then show thesis using that ad cs t by blast
qed

text \<open>What a completed write-back leaves: the new table, and the device after the synchronisation. The
  return value tells whether the synchronisation succeeded.\<close>

definition synced :: "int \<Rightarrow> nodefs \<Rightarrow> blk_state \<Rightarrow> int \<times> nodefs \<times> blk_state" where
  "synced ok fs b = (if fst (pfs_sync fs b) < 0 then -1 else ok, fs, snd (pfs_sync fs b))"

definition synced_node :: "nat \<Rightarrow> nodefs \<Rightarrow> blk_state \<Rightarrow> nat option \<times> nodefs \<times> blk_state" where
  "synced_node i fs b = (if fst (pfs_sync fs b) < 0 then None else Some i, fs, snd (pfs_sync fs b))"

definition same_mount :: "nodefs \<Rightarrow> nodefs \<Rightarrow> bool" where
  "same_mount fs fs' \<longleftrightarrow> mount_idx fs' = mount_idx fs \<and> persistent fs' = persistent fs"

lemma same_mount_simps [simp]: "same_mount fs fs" "same_mount fs (set_node i n fs)"
  by (simp_all add: same_mount_def)

definition live_file :: "nodefs \<Rightarrow> nat \<Rightarrow> bool" where
  "live_file fs i \<longleftrightarrow> live fs i \<and> n_type (nodes fs i) = FS_TYPE_FILE"

lemma live_file_nonzero: "nodefs_wf fs \<Longrightarrow> live_file fs i \<Longrightarrow> i \<noteq> 0"
  by (cases "i = 0") (auto simp: live_file_def nodefs_wf_def root_ok_def)

lemma live_file_added: "adds_node fs idx n p c \<Longrightarrow> live_file fs i \<Longrightarrow> live_file (set_node idx n fs) i"
  using adds_nodeD(2) [of fs idx n p c] by (auto simp: live_file_def live_added)

lemma live_file_cleared: "live_file fs i \<Longrightarrow> i \<noteq> j \<Longrightarrow> live_file (set_node j zero_node fs) i"
  by (simp add: live_file_def live_cleared)

lemma live_file_changed: "same_link n (nodes fs j) \<Longrightarrow> live_file (set_node j n fs) i = live_file fs i"
  by (auto simp: live_file_def same_link_def live_def)

lemma nodefs_mkdir_cases:
  assumes wf: "nodefs_wf fs" and nf: "nul_free path"
  shows "case (create_spec FS_TYPE_DIR path fs, nodefs_alloc_node fs) of
      (Some t, Some _) \<Rightarrow> (\<exists>fs'. nodefs_mkdir path fs b = synced 0 fs' b \<and> nodefs_wf fs' \<and> tree_of fs' = t \<and>
         same_mount fs fs' \<and> (\<forall>i. live_file fs i \<longrightarrow> live_file fs' i))
    | _ \<Rightarrow> nodefs_mkdir path fs b = (-1, fs, b)"
proof (cases "create_spec FS_TYPE_DIR path fs = None \<or> nodefs_alloc_node fs = None")
  case True
  then show ?thesis using create_refused [OF wf nf True]
    by (auto simp: nodefs_mkdir_def split: option.splits)
next
  case False
  then obtain t idx fs1 where t: "create_spec FS_TYPE_DIR path fs = Some t" "nodefs_alloc_node fs = Some (idx, fs1)"
    by auto
  have type: "FS_TYPE_DIR \<in> {FS_TYPE_FILE, FS_TYPE_DIR}" by simp
  show ?thesis
    by (rule create_done [OF wf nf type t, where b = b])
      (auto simp: t nodefs_mkdir_def synced_def Let_def case_prod_beta
        intro!: exI added_wf live_file_added)
qed

definition trunc_node :: "fs_node \<Rightarrow> fs_node" where
  "trunc_node n = n\<lparr>n_size := 0, n_data := replicate 512 0\<rparr>"

lemma trunc_node_ok:
  "same_link (trunc_node n) n" "node_shape n \<Longrightarrow> n_used n \<noteq> 0 \<Longrightarrow> node_shape (trunc_node n)"
  "n_type n = FS_TYPE_FILE \<Longrightarrow> entry_of (trunc_node n) = File []"
  by (auto simp: trunc_node_def same_link_def node_shape_def entry_of_def)

definition wants_trunc :: "int \<Rightarrow> bool" where
  "wants_trunc flags \<longleftrightarrow> flags AND O_TRUNC \<noteq> 0 \<and> flags AND O_WRONLY \<noteq> 0"

text \<open>The default \<open>O_RDONLY\<close> changes neither the creation nor the truncation flag.\<close>

lemma int_and_pow2_or:
  fixes f :: int
  assumes "i \<noteq> 0"
  shows "(f OR 1) AND 2 ^ i = f AND 2 ^ i"
  by (rule bit_eqI) (use assms in \<open>auto simp: bit_and_iff bit_or_iff bit_exp_iff bit_1_iff\<close>)

lemma default_flags:
  "(if f AND (O_RDONLY OR O_WRONLY) = 0 then f OR O_RDONLY else f) AND O_CREAT = f AND O_CREAT"
  "wants_trunc (if f AND (O_RDONLY OR O_WRONLY) = 0 then f OR O_RDONLY else f) = wants_trunc f"
  using int_and_pow2_or [of 1 f] int_and_pow2_or [of 4 f] int_and_pow2_or [of 5 f]
  by (simp_all add: hdr_consts wants_trunc_def)

lemma synced_node_case:
  "(case pfs_sync fs b of (r, b) \<Rightarrow> if r < 0 then (None, fs, b) else (Some i, fs, b)) = synced_node i fs b"
  by (simp add: synced_node_def case_prod_beta)

lemma nodefs_open_unfold:
  "nodefs_open path flags fs b =
     (let (node, fs, b) =
        (case nodefs_resolve_path fs path of
           Some node \<Rightarrow> (Some node, fs, b)
         | None \<Rightarrow> if flags AND O_CREAT = 0 then (None, fs, b) else nodefs_create FS_TYPE_FILE path fs b)
      in case node of
           None \<Rightarrow> (None, fs, b)
         | Some node \<Rightarrow>
             if n_type (nodes fs node) \<noteq> FS_TYPE_FILE then (None, fs, b)
             else if wants_trunc flags then synced_node node (set_node node (trunc_node (nodes fs node)) fs) b
             else (Some node, fs, b))"
proof -
  define f where "f = (if flags AND (O_RDONLY OR O_WRONLY) = 0 then flags OR O_RDONLY else flags)"
  have f: "f AND O_CREAT = flags AND O_CREAT" "wants_trunc f = wants_trunc flags"
    unfolding f_def by (rule default_flags)+
  show ?thesis
    unfolding nodefs_open_def Let_def f_def [symmetric] f(1) wants_trunc_def [symmetric] f(2)
      synced_node_case trunc_node_def ..
qed

definition spec_open :: "bool \<Rightarrow> bool \<Rightarrow> string list \<Rightarrow> fs_tree \<Rightarrow> fs_tree option" where
  "spec_open creat trunc cs t =
     (case t cs of
        Some (File d) \<Rightarrow> Some (if trunc then t(cs \<mapsto> File []) else t)
      | Some Dir \<Rightarrow> None
      | None \<Rightarrow> if creat then spec_create (File []) cs t else None)"

definition open_spec :: "string \<Rightarrow> int \<Rightarrow> nodefs \<Rightarrow> fs_tree option" where
  "open_spec path flags fs =
     Option.bind (names_of path) (\<lambda>cs. spec_open (flags AND O_CREAT \<noteq> 0) (wants_trunc flags) cs (tree_of fs))"

text \<open>What \<open>nodefs_open\<close> may return: on success the specified tree and the node at the path; a failure without
  a failed write-back changes nothing.\<close>

definition open_result :: "string \<Rightarrow> int \<Rightarrow> nodefs \<Rightarrow> nat option \<times> nodefs \<times> blk_state \<Rightarrow> bool" where
  "open_result path flags fs = (\<lambda>(res, fs', b').
     nodefs_wf fs' \<and> same_mount fs fs' \<and> (\<forall>i. live_file fs i \<longrightarrow> live_file fs' i) \<and>
     (\<forall>i. res = Some i \<longrightarrow> live_file fs' i \<and> open_spec path flags fs = Some (tree_of fs') \<and>
        nodefs_resolve_path fs' path = Some i))"

lemma trunc_correct:
  assumes wf: "nodefs_wf fs" and cs: "walk fs 0 cs = Some i" "list_all nul_free cs"
    and f: "n_type (nodes fs i) = FS_TYPE_FILE"
  defines "fs' \<equiv> set_node i (trunc_node (nodes fs i)) fs"
  shows "nodefs_wf fs'" "tree_of fs' = (tree_of fs)(cs \<mapsto> File [])" "live_file fs' j = live_file fs j"
    "walk fs' 0 ds = walk fs 0 ds" "live_file fs i"
proof -
  have l: "live fs i" by (rule walk_live [OF wf live_root [OF wf] cs(1)])
  then have u: "n_used (nodes fs i) \<noteq> 0" by (simp add: live_def)
  note tn = trunc_node_ok [of "nodes fs i"]
  show "nodefs_wf fs'" unfolding fs'_def
    by (rule changed_wf [OF wf l tn(1) tn(2) [OF nodefs_wfD(1) [OF wf] u]])
  show "tree_of fs' = (tree_of fs)(cs \<mapsto> File [])" unfolding fs'_def
    using tree_changed [OF wf tn(1) cs] tn(3) f by simp
  show "live_file fs' j = live_file fs j" unfolding fs'_def by (rule live_file_changed [OF tn(1)])
  show "walk fs' 0 ds = walk fs 0 ds" unfolding fs'_def by (rule changed_walk [OF tn(1)])
  show "live_file fs i" using l f by (simp add: live_file_def)
qed

lemma open_existing:
  assumes wf: "nodefs_wf fs" and nf: "nul_free path" and r: "nodefs_resolve_path fs path = Some i"
  shows "open_result path flags fs (nodefs_open path flags fs b)"
    and "n_type (nodes fs i) \<noteq> FS_TYPE_FILE \<Longrightarrow> nodefs_open path flags fs b = (None, fs, b) \<and> open_spec path flags fs = None"
    and "n_type (nodes fs i) = FS_TYPE_FILE \<Longrightarrow> \<not> persistent fs \<Longrightarrow> fst (nodefs_open path flags fs b) = Some i"
proof -
  obtain cs where ns: "names_of path = Some cs" "walk fs 0 cs = Some i"
    using r by (auto simp: resolve_path_walk split: bind_splits)
  note nc = names_nul_free [OF ns(1) nf]
  have t: "tree_of fs cs = Some (entry_of (nodes fs i))" using nc ns(2) by (simp add: tree_of_def)
  show ne: "nodefs_open path flags fs b = (None, fs, b) \<and> open_spec path flags fs = None"
    if "n_type (nodes fs i) \<noteq> FS_TYPE_FILE"
    using that t by (simp add: nodefs_open_unfold r open_spec_def ns(1) spec_open_def entry_of_def)
  note tc = trunc_correct [OF wf ns(2) nc]
  show "open_result path flags fs (nodefs_open path flags fs b)"
  proof (cases "n_type (nodes fs i) = FS_TYPE_FILE")
    case True
    have r': "nodefs_resolve_path (set_node i (trunc_node (nodes fs i)) fs) path = Some i"
      using ns tc(4) [OF True] by (simp add: resolve_path_walk)
    have sp: "open_spec path flags fs =
        Some (if wants_trunc flags then (tree_of fs)(cs \<mapsto> File []) else tree_of fs)"
      using t True by (simp add: open_spec_def ns(1) spec_open_def entry_of_def)
    show ?thesis using True r r' sp tc [OF True] wf
      by (auto simp: nodefs_open_unfold open_result_def synced_node_def)
  next
    case False
    then show ?thesis using ne [OF False] wf by (simp add: open_result_def)
  qed
  show "fst (nodefs_open path flags fs b) = Some i" if "n_type (nodes fs i) = FS_TYPE_FILE" "\<not> persistent fs"
    using that by (simp add: nodefs_open_unfold r synced_node_def pfs_sync_def)
qed

lemma open_missing:
  assumes wf: "nodefs_wf fs" and nf: "nul_free path" and r: "nodefs_resolve_path fs path = None"
  shows "open_result path flags fs (nodefs_open path flags fs b)"
    and "open_spec path flags fs = (if flags AND O_CREAT \<noteq> 0 then create_spec FS_TYPE_FILE path fs else None)"
    and "open_spec path flags fs = None \<or> nodefs_alloc_node fs = None \<Longrightarrow>
      nodefs_open path flags fs b = (None, fs, b)"
    and "open_spec path flags fs \<noteq> None \<Longrightarrow> nodefs_alloc_node fs = Some (idx, fs1) \<Longrightarrow> \<not> persistent fs \<Longrightarrow>
      fst (nodefs_open path flags fs b) = Some idx"
proof -
  have "tree_of fs cs = None" if "names_of path = Some cs" for cs
    using r that names_nul_free [OF that nf] by (simp add: resolve_path_walk tree_of_None_iff)
  then show sp: "open_spec path flags fs = (if flags AND O_CREAT \<noteq> 0 then create_spec FS_TYPE_FILE path fs else None)"
    by (auto simp: open_spec_def create_spec_def spec_open_def new_entry_def split: bind_splits)
  show ref: "nodefs_open path flags fs b = (None, fs, b)"
    if "open_spec path flags fs = None \<or> nodefs_alloc_node fs = None"
    using that sp create_refused [OF wf nf, of FS_TYPE_FILE b]
    by (auto simp: nodefs_open_unfold r split: if_splits)
  have "open_result path flags fs (nodefs_open path flags fs b) \<and>
      (\<not> persistent fs \<longrightarrow> fst (nodefs_open path flags fs b) = Some i)"
    if t: "open_spec path flags fs = Some t" and al: "nodefs_alloc_node fs = Some (i, f1)" for t i f1
  proof -
    have cr: "flags AND O_CREAT \<noteq> 0" and cs: "create_spec FS_TYPE_FILE path fs = Some t"
      using t sp by (auto split: if_splits)
    have ty: "FS_TYPE_FILE \<in> {FS_TYPE_FILE, FS_TYPE_DIR}" by simp
    obtain ds p c where d: "nodefs_create FS_TYPE_FILE path fs b =
          (let (r, b') = pfs_sync (set_node i (created_node FS_TYPE_FILE p c) fs) b
           in (if r < 0 then None else Some i, set_node i (created_node FS_TYPE_FILE p c) fs, b'))"
        "adds_node fs i (created_node FS_TYPE_FILE p c) p c" "names_of path = Some (ds @ [c])" "walk fs 0 ds = Some p"
        "list_all nul_free (ds @ [c])" "tree_of (set_node i (created_node FS_TYPE_FILE p c) fs) = t"
      by (rule create_done [OF wf nf ty cs al])
    define n where "n = created_node FS_TYPE_FILE p c"
    define f where "f = set_node i n fs"
    define b1 where "b1 = snd (pfs_sync f b)"
    have ft: "n_type (nodes f i) = FS_TYPE_FILE" by (simp add: f_def n_def created_node_def)
    have op: "nodefs_open path flags fs b =
        (if fst (pfs_sync f b) < 0 then (None, f, b1)
         else if wants_trunc flags then synced_node i (set_node i (trunc_node (nodes f i)) f) b1
         else (Some i, f, b1))"
      using cr ft by (simp add: nodefs_open_unfold r d(1) b1_def f_def n_def Let_def case_prod_beta)
    have wf': "nodefs_wf f" unfolding f_def n_def by (rule added_wf [OF d(2)])
    have w: "walk f 0 (ds @ [c]) = Some i"
      unfolding f_def n_def using added_walk [OF d(2,4), of "ds @ [c]"] d(5) by simp
    note tc = trunc_correct [OF wf' w d(5) ft]
    have tf: "tree_of f (ds @ [c]) = Some (File [])"
      using w d(5) by (simp add: tree_of_def entry_of_def f_def n_def created_node_def fresh_node_def)
    have tr: "(tree_of f)(ds @ [c] \<mapsto> File []) = t" using tf d(6) by (simp add: f_def n_def fun_upd_idem)
    have lf: "live_file fs j \<Longrightarrow> live_file f j" for j
      unfolding f_def n_def by (rule live_file_added [OF d(2)])
    have "tree_of f = t" using d(6) by (simp add: f_def n_def)
    moreover have "same_mount fs f" by (simp add: f_def)
    moreover have "same_mount fs (set_node i x f)" for x by (simp add: f_def same_mount_def)
    ultimately show ?thesis
      using wf' tc tr lf t w d(3)
      by (auto simp: op open_result_def synced_node_def resolve_path_walk f_def [symmetric]
          pfs_sync_def same_mount_def)
  qed
  then show "open_result path flags fs (nodefs_open path flags fs b)"
    and "open_spec path flags fs \<noteq> None \<Longrightarrow> nodefs_alloc_node fs = Some (idx, fs1) \<Longrightarrow> \<not> persistent fs \<Longrightarrow>
      fst (nodefs_open path flags fs b) = Some idx"
    using ref wf by (fastforce simp: open_result_def)+
qed

text \<open>Removal.\<close>

definition unlink_spec :: "string \<Rightarrow> nodefs \<Rightarrow> fs_tree option" where
  "unlink_spec path fs = Option.bind (names_of path) (\<lambda>cs. spec_unlink cs (tree_of fs))"

definition rmdir_spec :: "string \<Rightarrow> nodefs \<Rightarrow> fs_tree option" where
  "rmdir_spec path fs = Option.bind (names_of path) (\<lambda>cs. spec_rmdir cs (tree_of fs))"

lemma nodefs_remove_synced: "nodefs_remove i fs b = synced 0 (set_node i zero_node fs) b"
  by (simp add: nodefs_remove_def synced_def Let_def case_prod_beta)

lemma file_is_leaf:
  assumes "nodefs_wf fs" "live_file fs i"
  shows "leaf_node fs i"
proof -
  have "n_parent (nodes fs j) \<noteq> int i" if j: "live fs j" for j
  proof
    assume p: "n_parent (nodes fs j) = int i"
    have "n_parent (nodes fs 0) = -1" using assms(1) by (simp add: nodefs_wf_def root_ok_def)
    then have "j \<noteq> 0" using p by (cases "j = 0") auto
    then have "n_type (nodes fs i) = FS_TYPE_DIR" using live_link(4) [OF assms(1) j] p by simp
    with assms(2) show False by (simp add: live_file_def)
  qed
  then show ?thesis using assms live_file_nonzero [OF assms] by (simp add: leaf_node_def live_file_def)
qed

lemma resolve_Some:
  assumes "nodefs_resolve_path fs path = Some i" "nul_free path" "nodefs_wf fs"
  obtains cs where "names_of path = Some cs" "walk fs 0 cs = Some i" "list_all nul_free cs" "live fs i"
    "tree_of fs cs = Some (entry_of (nodes fs i))" "i = 0 \<longleftrightarrow> cs = []"
proof -
  obtain cs where ns: "names_of path = Some cs" "walk fs 0 cs = Some i"
    using assms(1) by (auto simp: resolve_path_walk split: bind_splits)
  moreover have "list_all nul_free cs" by (rule names_nul_free [OF ns(1) assms(2)])
  moreover have "live fs i" by (rule walk_live [OF assms(3) live_root [OF assms(3)] ns(2)])
  moreover have "i = 0 \<longleftrightarrow> cs = []" using walk_root_zero [OF assms(3)] ns(2) by auto
  ultimately show thesis using that by (simp add: tree_of_def)
qed

lemma resolve_None_tree:
  "nodefs_resolve_path fs path = None \<Longrightarrow> nul_free path \<Longrightarrow> names_of path = Some cs \<Longrightarrow> tree_of fs cs = None"
  using names_nul_free [of path cs] by (simp add: resolve_path_walk tree_of_None_iff)

lemma nodefs_unlink_cases:
  assumes wf: "nodefs_wf fs" and nf: "nul_free path"
  shows "case unlink_spec path fs of
      None \<Rightarrow> nodefs_unlink fds path fs b = (-1, fs, b)
    | Some t \<Rightarrow> (\<exists>i. nodefs_resolve_path fs path = Some i \<and> live_file fs i \<and>
        (if nodefs_is_node_open fds fs i then nodefs_unlink fds path fs b = (-1, fs, b)
         else nodefs_unlink fds path fs b = synced 0 (set_node i zero_node fs) b \<and>
           nodefs_wf (set_node i zero_node fs) \<and> tree_of (set_node i zero_node fs) = t))"
proof (cases "nodefs_resolve_path fs path")
  case None
  then show ?thesis using resolve_None_tree [OF None nf]
    by (auto simp: nodefs_unlink_def unlink_spec_def spec_unlink_def split: option.splits bind_splits)
next
  case (Some i)
  obtain cs where cs: "names_of path = Some cs" "walk fs 0 cs = Some i" "list_all nul_free cs" "live fs i"
    "tree_of fs cs = Some (entry_of (nodes fs i))"
    using resolve_Some [OF Some nf wf] by metis
  show ?thesis
  proof (cases "n_type (nodes fs i) = FS_TYPE_FILE")
    case True
    then have f: "live_file fs i" using cs(4) by (simp add: live_file_def)
    note l = file_is_leaf [OF wf f]
    show ?thesis
      using Some cs True f live_file_nonzero [OF wf f] cleared_wf [OF l] tree_cleared [OF l cs(2,3)]
      by (simp add: unlink_spec_def spec_unlink_def entry_of_def nodefs_unlink_def nodefs_remove_synced)
  next
    case False
    then show ?thesis using Some cs
      by (simp add: unlink_spec_def spec_unlink_def entry_of_def nodefs_unlink_def)
  qed
qed

lemma dir_empty_iff: "nodefs_is_dir_empty fs i \<longleftrightarrow> (\<forall>j. live fs j \<longrightarrow> n_parent (nodes fs j) \<noteq> int i)"
  unfolding nodefs_is_dir_empty_def scan_from_None live_def FS_MAX_NODES_def by auto

lemma dir_empty_tree:
  assumes wf: "nodefs_wf fs" and cs: "walk fs 0 cs = Some i" "list_all nul_free cs"
  shows "nodefs_is_dir_empty fs i \<longleftrightarrow> (\<forall>c. tree_of fs (cs @ [c]) = None)"
proof
  assume e: "nodefs_is_dir_empty fs i"
  have "nodefs_find_child fs i c = None" for c
    using e find_child_live [of fs i c] by (cases "nodefs_find_child fs i c") (auto simp: dir_empty_iff)
  then show "\<forall>c. tree_of fs (cs @ [c]) = None" using cs by (simp add: tree_of_def walk_snoc)
next
  assume e: "\<forall>c. tree_of fs (cs @ [c]) = None"
  show "nodefs_is_dir_empty fs i"
    unfolding dir_empty_iff
  proof (intro allI impI notI)
    fix j assume j: "live fs j" "n_parent (nodes fs j) = int i"
    let ?c = "cstr (n_name (nodes fs j))"
    have "nodefs_find_child fs i ?c = Some j" using j by (simp add: find_child_iff [OF wf])
    then have "tree_of fs (cs @ [?c]) \<noteq> None" using cs by (simp add: tree_of_def walk_snoc)
    with e show False by simp
  qed
qed

lemma nodefs_rmdir_cases:
  assumes wf: "nodefs_wf fs" and nf: "nul_free path"
  shows "case rmdir_spec path fs of
      None \<Rightarrow> nodefs_rmdir path fs b = (-1, fs, b)
    | Some t \<Rightarrow> (\<exists>i. nodefs_rmdir path fs b = synced 0 (set_node i zero_node fs) b \<and> \<not> live_file fs i \<and>
        nodefs_wf (set_node i zero_node fs) \<and> tree_of (set_node i zero_node fs) = t)"
proof (cases "nodefs_resolve_path fs path")
  case None
  then show ?thesis using resolve_None_tree [OF None nf]
    by (auto simp: nodefs_rmdir_def rmdir_spec_def spec_rmdir_def split: option.splits bind_splits)
next
  case (Some i)
  obtain cs where cs: "names_of path = Some cs" "walk fs 0 cs = Some i" "list_all nul_free cs" "live fs i"
    "tree_of fs cs = Some (entry_of (nodes fs i))" "i = 0 \<longleftrightarrow> cs = []"
    using resolve_Some [OF Some nf wf] by metis
  note e = dir_empty_tree [OF wf cs(2,3)]
  have d: "n_type (nodes fs i) = FS_TYPE_DIR \<longleftrightarrow> entry_of (nodes fs i) = Dir"
    using live_type [OF wf cs(4)] by (auto simp: entry_of_def)
  show ?thesis
  proof (cases "n_type (nodes fs i) = FS_TYPE_DIR \<and> i \<noteq> 0 \<and> nodefs_is_dir_empty fs i")
    case True
    then have l: "leaf_node fs i" using wf cs(4) by (simp add: leaf_node_def dir_empty_iff)
    show ?thesis
      using Some cs True d e cleared_wf [OF l] tree_cleared [OF l cs(2,3)]
      by (auto simp: rmdir_spec_def spec_rmdir_def nodefs_rmdir_def nodefs_remove_synced live_file_def
          intro!: exI [of _ i])
  next
    case False
    then show ?thesis using Some cs d e
      by (auto simp: rmdir_spec_def spec_rmdir_def nodefs_rmdir_def)
  qed
qed

end
