(* ===== verification/NodeContents.thy ===== *)
theory NodeContents
  imports NodeTree
begin

text \<open>
  File contents of the node file system: a read returns the bytes of the file at the offset, a write
  replaces them and extends the file with zeros in between, within the limit of 512 bytes.
\<close>

text \<open>Contents. A write behind the end of the file leaves zeros in between.\<close>

definition spec_write :: "nat \<Rightarrow> u8 list \<Rightarrow> u8 list \<Rightarrow> u8 list" where
  "spec_write off x d = take off (d @ replicate (off - length d) 0) @ x @ drop (off + length x) d"

lemma valid_file_node_iff: "nodefs_wf fs \<Longrightarrow> valid_file_node fs node \<longleftrightarrow> (\<exists>i. node = int i \<and> live_file fs i)"
proof
  assume wf: "nodefs_wf fs" and "valid_file_node fs node"
  then show "\<exists>i. node = int i \<and> live_file fs i"
    by (intro exI [of _ "nat node"]) (auto simp: valid_file_node_def live_file_def live_def FS_MAX_NODES_def)
next
  assume wf: "nodefs_wf fs" and "\<exists>i. node = int i \<and> live_file fs i"
  then show "valid_file_node fs node"
    using live_file_nonzero [OF wf]
    by (fastforce simp: valid_file_node_def live_file_def live_def FS_MAX_NODES_def)
qed

definition contents :: "nodefs \<Rightarrow> nat \<Rightarrow> u8 list" where
  "contents fs i = take (unat (n_size (nodes fs i))) (n_data (nodes fs i))"

lemma length_contents: "nodefs_wf fs \<Longrightarrow> length (contents fs i) = unat (n_size (nodes fs i))"
  using nodefs_wfD(1) [of fs i] by (simp add: contents_def node_shape_def)

lemma nodefs_read_contents:
  assumes wf: "nodefs_wf fs" and f: "live_file fs i"
  shows "nodefs_read (int i) off sz fs =
     (let x = take (unat sz) (drop (unat off) (contents fs i)) in (int (length x), x, off + of_nat (length x)))"
proof -
  let ?n = "nodes fs i"
  have v: "valid_file_node fs (int i)" using valid_file_node_iff [OF wf] f by blast
  have sh: "length (n_data ?n) = 512" "unat (n_size ?n) \<le> 512" using nodefs_wfD(1) [OF wf, of i]
    by (auto simp: node_shape_def)
  show ?thesis
  proof (cases "n_size ?n \<le> off")
    case True
    then show ?thesis using v by (simp add: nodefs_read_def contents_def word_le_nat_alt Let_def)
  next
    case False
    define k where "k = (if n_size ?n - off < sz then n_size ?n - off else sz)"
    have s: "unat (n_size ?n - off) = unat (n_size ?n) - unat off" using False by (simp add: unat_sub)
    then have k: "unat k = min (unat sz) (unat (n_size ?n) - unat off)"
      by (simp add: k_def word_less_nat_alt min_def)
    have x: "take (unat k) (drop (unat off) (n_data ?n)) = take (unat sz) (drop (unat off) (contents fs i))"
      using k sh by (simp add: contents_def drop_take min_def)
    have l: "length (take (unat sz) (drop (unat off) (contents fs i))) = unat k"
      using length_contents [OF wf, of i] k by simp
    show ?thesis
      using v False unfolding nodefs_read_def Let_def k_def [symmetric] nat_int x l
      by simp
  qed
qed

lemma overwrite_size:
  assumes "length data = 512" "s \<le> 512" "drop s data = replicate (512 - s) 0" "off + length x \<le> 512"
  shows "take (max s (off + length x)) (overwrite data off x) = spec_write off x (take s data)"
    and "drop (max s (off + length x)) (overwrite data off x) = replicate (512 - max s (off + length x)) 0"
proof -
  have z: "take off data = take off (take s data @ replicate (off - s) 0)"
  proof (cases "off \<le> s")
    case True
    then show ?thesis using assms(1,2) by (simp add: min_def)
  next
    case False
    then have "take off data = take s data @ take (off - s) (drop s data)"
      using take_add [of s "off - s" data] by simp
    moreover have "take (off - s) (drop s data) = replicate (off - s) 0"
      unfolding assms(3) take_replicate using assms(4) by (simp add: min_def)
    moreover have "length (take s data @ replicate (off - s) 0) \<le> off"
      using assms(1,2) False by simp
    ultimately show ?thesis by (simp only: take_all)
  qed
  show "take (max s (off + length x)) (overwrite data off x) = spec_write off x (take s data)"
  proof -
    let ?e = "off + length x"
    have l: "length (take off data) = off" "length (take s data) = s" using assms(1,2,4) by simp_all
    have "take (max s ?e) (take off data @ x @ drop ?e data) = take off data @ x @ take (s - ?e) (drop ?e data)"
      using l(1) by (auto simp: max_def)
    moreover have "take (s - ?e) (drop ?e data) = drop ?e (take s data)" by (simp add: drop_take)
    ultimately show ?thesis unfolding overwrite_def spec_write_def l(2) z [symmetric] by simp
  qed
  have "drop (max s (off + length x)) (overwrite data off x) = drop (max s (off + length x)) data"
    using assms(1,4) by (intro drop_overwrite_after) auto
  also have "\<dots> = drop (max s (off + length x) - s) (drop s data)" by simp
  finally show "drop (max s (off + length x)) (overwrite data off x) = replicate (512 - max s (off + length x)) 0"
    using assms(3) by simp
qed

lemma nodefs_write_contents:
  assumes wf: "nodefs_wf fs" and f: "live_file fs i" and cs: "walk fs 0 cs = Some i" "list_all nul_free cs"
    and off: "unat off \<le> 512" and len: "unat sz \<le> length buf"
  defines "x \<equiv> take (min (unat sz) (512 - unat off)) buf"
  obtains fs' where
    "nodefs_write (int i) off buf sz fs b =
       (if unat off = 512 then (0, off, fs, b)
        else (if fst (pfs_sync fs' b) < 0 then -1 else int (length x), off + of_nat (length x), fs',
              snd (pfs_sync fs' b)))"
    "nodefs_wf fs'" "same_mount fs fs'" "\<And>j. live_file fs' j = live_file fs j"
    "tree_of fs' = (tree_of fs)(cs \<mapsto> File (spec_write (unat off) x (contents fs i)))"
    "contents fs' i = spec_write (unat off) x (contents fs i)"
proof -
  let ?n = "nodes fs i"
  have v: "valid_file_node fs (int i)" using valid_file_node_iff [OF wf] f by blast
  have sh: "length (n_data ?n) = 512" "unat (n_size ?n) \<le> 512"
      "drop (unat (n_size ?n)) (n_data ?n) = replicate (512 - unat (n_size ?n)) 0"
    using nodefs_wfD(1) [OF wf, of i] by (auto simp: node_shape_def)
  define k where "k = (if 512 - off < sz then 512 - off else sz)"
  have "unat (512 - off) = 512 - unat off"
    using off by (simp add: unat_sub word_le_nat_alt)
  then have k: "unat k = min (unat sz) (512 - unat off)" by (simp add: k_def word_less_nat_alt min_def)
  have lx: "length x = unat k" using len by (simp add: x_def k)
  have ok: "unat (off + k) = unat off + length x"
    using off k lx by (simp add: unat_word_ariths)
  define s' where "s' = (if n_size ?n < off + k then off + k else n_size ?n)"
  have s': "unat s' = max (unat (n_size ?n)) (unat off + length x)"
    using ok by (simp add: s'_def word_less_nat_alt max_def)
  have m: "memcpy (n_data ?n) (unat off) buf 0 (unat k) = overwrite (n_data ?n) (unat off) x"
    using memcpy_overwrite [of "unat off" "unat k" "n_data ?n" 0 buf] sh(1) k off len by (simp add: x_def)
  define n' where "n' = ?n\<lparr>n_data := overwrite (n_data ?n) (unat off) x, n_size := s'\<rparr>"
  have le: "unat off + length x \<le> 512" using k off lx by simp
  note ow = overwrite_size [OF sh le]
  have w: "nodefs_write (int i) off buf sz fs b =
       (if unat off = 512 then (0, off, fs, b)
        else (if fst (pfs_sync (set_node i n' fs) b) < 0 then -1 else int (length x), off + of_nat (length x),
              set_node i n' fs, snd (pfs_sync (set_node i n' fs) b)))"
    using v off lx unfolding nodefs_write_def Let_def k_def [symmetric] nat_int m s'_def [symmetric]
    by (simp add: word_le_nat_alt n'_def case_prod_beta)
  have sl: "same_link n' ?n" by (simp add: n'_def same_link_def)
  have "n_used ?n \<noteq> 0" using f by (simp add: live_file_def live_def)
  then have "node_shape n'"
    using nodefs_wfD(1) [OF wf, of i] ow s' le by (auto simp: node_shape_def n'_def)
  then have wf': "nodefs_wf (set_node i n' fs)" using changed_wf [OF wf _ sl] f by (simp add: live_file_def)
  have c: "contents (set_node i n' fs) i = spec_write (unat off) x (contents fs i)"
    using ow(1) s' by (simp add: contents_def n'_def)
  have "entry_of n' = File (spec_write (unat off) x (contents fs i))"
    using f ow(1) s' by (simp add: entry_of_def n'_def contents_def live_file_def)
  then have t: "tree_of (set_node i n' fs) = (tree_of fs)(cs \<mapsto> File (spec_write (unat off) x (contents fs i)))"
    using tree_changed [OF wf sl cs] by simp
  show thesis using that [OF w wf' _ live_file_changed [OF sl] t c] by simp
qed

section \<open>Directory listing\<close>

definition children :: "nodefs \<Rightarrow> nat \<Rightarrow> nat list" where
  "children fs d = filter (\<lambda>i. n_used (nodes fs i) \<noteq> 0 \<and> n_parent (nodes fs i) = int d) [0 ..< 128]"

lemma readdir_loop_nth:
  assumes "seen \<le> index"
  shows "readdir_loop fs dir index seen i k =
    (let l = filter (\<lambda>i. n_used (nodes fs i) \<noteq> 0 \<and> n_parent (nodes fs i) = int dir) [i ..< i + k]
     in if nat (index - seen) < length l then Some (l ! nat (index - seen)) else None)"
  using assms
proof (induction k arbitrary: i seen)
  case 0
  then show ?case by simp
next
  case (Suc k)
  have u: "[i ..< i + Suc k] = i # [Suc i ..< Suc i + k]" by (simp add: upt_conv_Cons del: upt_Suc)
  show ?case
  proof (cases "n_used (nodes fs i) = 0 \<or> n_parent (nodes fs i) \<noteq> int dir")
    case True
    then show ?thesis using Suc.IH [OF Suc.prems, of "Suc i"] unfolding u by (auto simp: Let_def)
  next
    case False
    show ?thesis
    proof (cases "seen = index")
      case True
      then show ?thesis using False unfolding u by (simp add: Let_def)
    next
      case ne: False
      then have "nat (index - seen) = Suc (nat (index - (seen + 1)))" using Suc.prems by simp
      then show ?thesis using Suc.IH [of "seen + 1" "Suc i"] Suc.prems False ne unfolding u
        by (simp add: Let_def)
    qed
  qed
qed

lemma children_live: "set (children fs d) = {i. live fs i \<and> n_parent (nodes fs i) = int d}"
  by (auto simp: children_def live_def)

lemma distinct_children: "distinct (children fs d)"
  by (simp add: children_def)

lemma readdir_children:
  assumes "nodefs_resolve_path fs path = Some d" "n_type (nodes fs d) = FS_TYPE_DIR" "0 \<le> index"
  shows "nodefs_readdir path index fs =
    (if nat index < length (children fs d)
     then (let n = nodes fs (children fs d ! nat index) in
       Some \<lparr>de_name = snd (copy_name (replicate 16 NUL) (cstr (n_name n))), de_type = n_type n, de_size = n_size n\<rparr>)
     else None)"
  using assms readdir_loop_nth [OF assms(3), of fs d 0 128]
  by (simp add: nodefs_readdir_def FS_MAX_NODES_def children_def Let_def del: readdir_loop.simps)

text \<open>The names that \<open>readdir\<close> lists below a directory: each entry of the tree once.\<close>

lemma children_names:
  assumes wf: "nodefs_wf fs" and cs: "walk fs 0 cs = Some d" "list_all nul_free cs"
  shows "distinct (map (\<lambda>i. cstr (n_name (nodes fs i))) (children fs d))"
    and "set (map (\<lambda>i. cstr (n_name (nodes fs i))) (children fs d)) = {c. tree_of fs (cs @ [c]) \<noteq> None}"
proof -
  have "inj_on (\<lambda>i. cstr (n_name (nodes fs i))) (set (children fs d))"
    using nodefs_wfD(4) [OF wf] unfolding inj_on_def children_live names_unique_def by auto
  then show "distinct (map (\<lambda>i. cstr (n_name (nodes fs i))) (children fs d))"
    by (simp add: distinct_map distinct_children)
  have "tree_of fs (cs @ [c]) \<noteq> None \<longleftrightarrow> (\<exists>i. live fs i \<and> n_parent (nodes fs i) = int d \<and> cstr (n_name (nodes fs i)) = c)" for c
  proof (cases "nul_free c")
    case True
    then show ?thesis using find_child_iff [OF wf True, of d] cs
      by (auto simp: tree_of_def walk_snoc)
  qed (use cs in \<open>auto simp: tree_of_def\<close>)
  then show "set (map (\<lambda>i. cstr (n_name (nodes fs i))) (children fs d)) = {c. tree_of fs (cs @ [c]) \<noteq> None}"
    by (auto simp: children_live)
qed

end
