(* ===== verification/PfsImage.thy ===== *)
theory PfsImage
  imports NodeTree
begin

text \<open>
  Persistence of the root file system: the image that \<open>pfs_sync\<close> writes block by block is read back by
  \<open>nodefs_init_instance\<close> into the same node table, over any block device that is honest in the sense of
  \<open>BlockDev\<close>.
\<close>

section \<open>The encoding of a node\<close>

lemma length_le32 [simp]: "length (le32 w) = 4"
  by (simp add: le32_def)

lemma un_le32_le32 [simp]: "un_le32 (le32 w @ r) = w"
proof (rule bit_word_eqI)
  fix n assume "n < LENGTH(32)"
  then consider "n < 8" | "8 \<le> n" "n < 16" | "16 \<le> n" "n < 24" | "24 \<le> n" "n < 32"
    by fastforce
  then show "bit (un_le32 (le32 w @ r)) n = bit w n"
    by cases (auto simp: un_le32_def le32_def bit_or_iff bit_push_bit_iff bit_ucast_iff bit_drop_bit_eq)
qed

lemma un_le32_take [simp]: "4 \<le> k \<Longrightarrow> un_le32 (take k x) = un_le32 x"
  by (simp add: un_le32_def)

lemma length_encode_node: "node_shape n \<Longrightarrow> length (encode_node n) = 544"
  by (simp add: encode_node_def node_shape_def)

lemma sint_of_int_small: "-2147483648 \<le> x \<Longrightarrow> x < 2147483648 \<Longrightarrow> sint (of_int x :: u32) = x"
  by (simp add: signed_of_int signed_take_bit_int_eq_self)

lemma char_of_unat_of_char: "char_of (unat (of_char c :: u8)) = c"
proof -
  have "(of_char c :: nat) < 256" by (metis of_char_mod_256 mod_less_divisor zero_less_numeral)
  then have "unat (of_nat (of_char c) :: u8) = (of_char c :: nat)"
    by (simp add: unsigned_of_nat take_bit_nat_eq_self)
  then have "unat (of_char c :: u8) = (of_char c :: nat)" by (metis of_nat_of_char)
  then show ?thesis by simp
qed

lemma decode_encode_node:
  assumes "node_shape n"
  shows "decode_node (encode_node n) = n"
proof -
  have l: "length (n_name n) = 16" "length (n_data n) = 512" using assms by (simp_all add: node_shape_def)
  have r: "sint (of_int (n_used n) :: u32) = n_used n" "sint (of_int (n_type n) :: u32) = n_type n"
    "sint (of_int (n_parent n) :: u32) = n_parent n"
    using assms by (intro sint_of_int_small; auto simp: node_shape_def FS_TYPE_FILE_def FS_TYPE_DIR_def zero_node_def)+
  show ?thesis using l r
    by (simp add: decode_node_def encode_node_def comp_def char_of_unat_of_char)
qed

section \<open>The image and its blocks\<close>

lemma length_concat_map:
  "(\<And>i. i \<in> set xs \<Longrightarrow> length (f i) = k) \<Longrightarrow> length (concat (map f xs)) = k * length xs"
  by (induction xs) auto

lemma take_drop_concat_map:
  assumes "\<And>i. length (f i) = k" "i < n"
  shows "take k (drop (i * k) (concat (map f [0 ..< n]))) = f i"
proof -
  have "[0 ..< n] = [0 ..< i] @ [i ..< n]" using upt_add_eq_append [of 0 i "n - i"] assms(2) by simp
  moreover have "[i ..< n] = i # [Suc i ..< n]" using assms(2) by (simp add: upt_conv_Cons)
  moreover have "length (concat (map f [0 ..< i])) = i * k"
    using length_concat_map [of "[0 ..< i]" f k] assms(1) by simp
  ultimately show ?thesis using assms(1) by simp
qed

lemma length_pfs_image:
  assumes "nodefs_wf fs"
  shows "length (pfs_image fs) = SIZEOF_PFS_IMAGE"
  using length_concat_map [of "[0 ..< 128]" "\<lambda>i. encode_node (nodes fs i)" 544]
    length_encode_node [OF nodefs_wfD(1) [OF assms]]
  by (simp add: pfs_image_def SIZEOF_PFS_IMAGE_def del: upt_Suc)

lemma image_nodes_pfs_image:
  assumes "nodefs_wf fs"
  shows "image_nodes (pfs_image fs) = nodes fs"
proof
  fix i
  note sh = nodefs_wfD(1) [OF assms]
  show "image_nodes (pfs_image fs) i = nodes fs i"
  proof (cases "i < 128")
    case True
    have "take 544 (drop (4 + i * 544) (pfs_image fs)) =
        take 544 (drop (i * 544) (concat (map (\<lambda>i. encode_node (nodes fs i)) [0 ..< 128])))"
      by (simp add: pfs_image_def del: upt_Suc)
    also have "\<dots> = encode_node (nodes fs i)"
      by (rule take_drop_concat_map [OF length_encode_node [OF sh] True])
    finally show ?thesis using True decode_encode_node [OF sh] by (simp add: image_nodes_def)
  next
    case False
    then show ?thesis using nodefs_wfD(6) [OF assms] by (simp add: image_nodes_def)
  qed
qed

lemma pfs_block_count_value: "pfs_block_count = 137"
  by (simp add: pfs_block_count_def SIZEOF_PFS_IMAGE_def BLOCKDEV_BLOCK_SIZE_def)

lemma pfs_copy_len_value: "pfs_copy_len i = min 512 (SIZEOF_PFS_IMAGE - i * 512)"
  by (simp add: pfs_copy_len_def BLOCKDEV_BLOCK_SIZE_def Let_def min_def)

lemma pfs_block_value:
  assumes "length img = SIZEOF_PFS_IMAGE"
  shows "length (pfs_block img i) = 512" "take (pfs_copy_len i) (pfs_block img i) = take (pfs_copy_len i) (drop (i * 512) img)"
proof -
  have le: "pfs_copy_len i \<le> 512" by (simp add: pfs_copy_len_value)
  have "pfs_block img i = overwrite (replicate 512 0) 0 (take (pfs_copy_len i) (drop (i * 512) img))"
    if "i * 512 \<le> length img"
    unfolding pfs_block_def BLOCKDEV_BLOCK_SIZE_def
    by (rule memcpy_overwrite) (use le that assms in \<open>auto simp: pfs_copy_len_value\<close>)
  moreover have "pfs_block img i = replicate 512 0" "pfs_copy_len i = 0" if "\<not> i * 512 \<le> length img"
    using that assms by (simp_all add: pfs_block_def pfs_copy_len_value BLOCKDEV_BLOCK_SIZE_def)
  ultimately have "pfs_block img i = overwrite (replicate 512 0) 0 (take (pfs_copy_len i) (drop (i * 512) img))"
    by (cases "i * 512 \<le> length img") auto
  moreover have "length (take (pfs_copy_len i) (drop (i * 512) img)) = pfs_copy_len i"
    using assms by (simp add: pfs_copy_len_value)
  ultimately show "length (pfs_block img i) = 512"
    "take (pfs_copy_len i) (pfs_block img i) = take (pfs_copy_len i) (drop (i * 512) img)"
    using le by (simp_all add: overwrite_def)
qed

lemma pfs_write_loop_blocks:
  "pfs_write_loop img n i b = blk.write_blocks (map (pfs_block img) [i ..< i + n]) i b"
proof (induction n arbitrary: i b)
  case (Suc n)
  have "[i ..< i + Suc n] = i # [Suc i ..< Suc i + n]" by (simp add: upt_conv_Cons del: upt_Suc)
  then show ?case using Suc by (simp del: upt_Suc add: chain_def)
qed simp

text \<open>Reading the blocks of an image rebuilds it from the front.\<close>

lemma take_overwrite_through:
  assumes "length img = length g" "off + k \<le> length g" "take off img = take off g"
  shows "take (off + k) (overwrite img off (take k (drop off g))) = take (off + k) g"
  using assms by (simp add: overwrite_def take_add)

lemma pfs_read_loop_image:
  assumes "blocks_inv disk b" "length block = 512" "length img = SIZEOF_PFS_IMAGE" "length g = SIZEOF_PFS_IMAGE"
    and "i + n \<le> 137" "\<And>k. i \<le> k \<Longrightarrow> k < i + n \<Longrightarrow>
      take (pfs_copy_len k) (disk k) = take (pfs_copy_len k) (drop (k * 512) g)"
    and "take (i * 512) img = take (i * 512) g"
    and "pfs_read_loop n i block img b = Ok (img', b')"
  shows "length img' = SIZEOF_PFS_IMAGE \<and> take ((i + n) * 512) img' = take ((i + n) * 512) g \<and> blocks_inv disk b'"
  using assms
proof (induction n arbitrary: i block img b)
  case 0
  then show ?case by simp
next
  case (Suc n)
  obtain r x b1 where rd: "blockdev_read (of_nat i) block b = (r, x, b1)" by (metis prod_cases3)
  then have r: "\<not> r < 0" using Suc.prems(8) by (auto split: if_splits)
  have i: "i < 256" "i * 512 \<le> SIZEOF_PFS_IMAGE" using Suc.prems(5) by (auto simp: SIZEOF_PFS_IMAGE_def)
  have x: "blocks_inv disk b1" "length x = 512"
      "take (pfs_copy_len i) x = take (pfs_copy_len i) (drop (i * 512) g)"
    using blk.rd_law [OF Suc.prems(1) i(1) Suc.prems(2) rd] r Suc.prems(6) [of i] by auto
  let ?k = "pfs_copy_len i"
  let ?img = "memcpy img (i * BLOCKDEV_BLOCK_SIZE) x 0 ?k"
  have k: "i * 512 + ?k \<le> SIZEOF_PFS_IMAGE" "?k \<le> 512" using i(2) by (auto simp: pfs_copy_len_value)
  have "?img = overwrite img (i * 512) (take ?k (drop (i * 512) g))"
    unfolding BLOCKDEV_BLOCK_SIZE_def
    using memcpy_overwrite [of "i * 512" ?k img 0 x] k Suc.prems(3) x
    by simp
  then have im: "length ?img = SIZEOF_PFS_IMAGE" "take (i * 512 + ?k) ?img = take (i * 512 + ?k) g"
    using take_overwrite_through [of img g "i * 512" ?k] Suc.prems(3,4,7) k by auto
  have "take (Suc i * 512) ?img = take (Suc i * 512) g"
  proof (cases "?k = 512")
    case True
    then show ?thesis using im(2) by (simp add: add.commute)
  next
    case False
    then have "i * 512 + ?k = SIZEOF_PFS_IMAGE" using i(2) by (auto simp: pfs_copy_len_value min_def split: if_splits)
    then show ?thesis using im Suc.prems(4) k by simp
  qed
  moreover have "pfs_read_loop n (Suc i) x ?img b1 = Ok (img', b')" using Suc.prems(8) rd r by simp
  ultimately show ?case
    using Suc.IH [OF x(1,2) im(1) Suc.prems(4), of "Suc i"] Suc.prems(5,6) by simp
qed

section \<open>Synchronise, then boot\<close>

definition image_on_disk :: "nodefs \<Rightarrow> (nat \<Rightarrow> u8 list) \<Rightarrow> bool" where
  "image_on_disk fs disk \<longleftrightarrow> (\<forall>k < 137. disk k = pfs_block (pfs_image fs) k)"

lemma pfs_sync_image:
  assumes "nodefs_wf fs" "persistent fs" "blocks_inv disk b" "pfs_sync fs b = (r, b1)" "r \<ge> 0"
  obtains disk' where "blocks_inv disk' b1" "image_on_disk fs disk'"
proof -
  let ?xs = "map (pfs_block (pfs_image fs)) [0 ..< 0 + 137]"
  have "blk.write_blocks ?xs 0 b = (r, b1)"
    using assms(2,4) pfs_write_loop_blocks [of "pfs_image fs" 137 0 b]
    by (simp add: pfs_sync_def pfs_block_count_value BLOCKDEV_BLOCK_COUNT_def del: upt_Suc)
  moreover have "0 + length ?xs \<le> 256" by simp
  moreover have "\<And>x. x \<in> set ?xs \<Longrightarrow> length x = 512"
    using pfs_block_value(1) [OF length_pfs_image [OF assms(1)]] by auto
  ultimately obtain disk' where d: "blocks_inv disk' b1" "r \<ge> 0 \<Longrightarrow> map disk' [0 ..< 0 + length ?xs] = ?xs"
    using blk.write_blocks_inv [OF assms(3), of 0 ?xs r b1] by metis
  have "disk' k = pfs_block (pfs_image fs) k" if "k < 137" for k
    using arg_cong [OF d(2) [OF assms(5)], of "\<lambda>l. l ! k"] that by (simp del: upt_Suc)
  then show thesis using that d(1) by (simp add: image_on_disk_def)
qed

lemma init_loads_image:
  assumes wf: "nodefs_wf fs" and inv: "blocks_inv disk b" and im: "image_on_disk fs disk"
    and ok: "nodefs_init_instance True b = Ok (fs2, b2)"
  shows "fs2 = \<lparr>mount_idx = -1, persistent = True, nodes = nodes fs\<rparr>" "blocks_inv disk b2"
proof -
  obtain img b' where rd: "pfs_read_loop 137 0 (replicate 512 0) (replicate SIZEOF_PFS_IMAGE 0) b = Ok (img, b')"
    using ok by (auto simp: nodefs_init_instance_def pfs_block_count_value BLOCKDEV_BLOCK_COUNT_def kbind_Ok_iff Let_def)
  have l: "length (pfs_image fs) = SIZEOF_PFS_IMAGE" by (rule length_pfs_image [OF wf])
  have "length img = SIZEOF_PFS_IMAGE \<and> take ((0 + 137) * 512) img = take ((0 + 137) * 512) (pfs_image fs) \<and> blocks_inv disk b'"
    by (rule pfs_read_loop_image [OF inv _ _ l _ _ _ rd])
      (use im pfs_block_value(2) [OF l] in \<open>simp_all add: image_on_disk_def\<close>)
  then have img: "img = pfs_image fs" "blocks_inv disk b'"
    using l by (auto simp: SIZEOF_PFS_IMAGE_def)
  have magic: "un_le32 img = PFS_MAGIC" by (simp add: img pfs_image_def)
  have root: "n_used (nodes fs 0) = 1" "n_type (nodes fs 0) = FS_TYPE_DIR"
    using nodefs_wfD(2) [OF wf] by (simp_all add: root_ok_def)
  have "(fs2, b2) = (\<lparr>mount_idx = -1, persistent = True, nodes = nodes fs\<rparr>, b')"
    using ok rd magic root img(1) image_nodes_pfs_image [OF wf]
    by (simp add: nodefs_init_instance_def pfs_block_count_value BLOCKDEV_BLOCK_COUNT_def Let_def)
  then show "fs2 = \<lparr>mount_idx = -1, persistent = True, nodes = nodes fs\<rparr>" "blocks_inv disk b2"
    using img(2) by simp_all
qed

text \<open>A disk without the magic number is formatted.\<close>

lemma init_formats:
  assumes inv: "blocks_inv disk b" and len: "\<And>k. length (disk k) = 512" and no: "un_le32 (disk 0) \<noteq> PFS_MAGIC"
    and ok: "nodefs_init_instance True b = Ok (fs2, b2)"
  shows "fs2 = nodefs_format \<lparr>mount_idx = -1, persistent = True, nodes = \<lambda>_. zero_node\<rparr>"
proof -
  obtain img b' where rd: "pfs_read_loop 137 0 (replicate 512 0) (replicate SIZEOF_PFS_IMAGE 0) b = Ok (img, b')"
    using ok by (auto simp: nodefs_init_instance_def pfs_block_count_value BLOCKDEV_BLOCK_COUNT_def kbind_Ok_iff Let_def)
  define c where "c = concat (map disk [0 ..< 137])"
  define g where "g = take SIZEOF_PFS_IMAGE c"
  have lc: "length c = 70144" using length_concat_map [of "[0 ..< 137]" disk 512] len by (simp add: c_def del: upt_Suc)
  then have l: "length g = SIZEOF_PFS_IMAGE" by (simp add: g_def SIZEOF_PFS_IMAGE_def)
  have blk: "take 512 (drop (k * 512) c) = disk k" if "k < 137" for k
    using take_drop_concat_map [OF len that] by (simp add: c_def)
  have "take (pfs_copy_len k) (disk k) = take (pfs_copy_len k) (drop (k * 512) g)" if "k < 137" for k
    unfolding blk [OF that, symmetric] g_def drop_take take_take pfs_copy_len_value by (simp add: min_def)
  then have "length img = SIZEOF_PFS_IMAGE \<and> take ((0 + 137) * 512) img = take ((0 + 137) * 512) g \<and> blocks_inv disk b'"
    by (intro pfs_read_loop_image [OF inv _ _ l _ _ _ rd]) simp_all
  then have img: "img = g" using l by (auto simp: SIZEOF_PFS_IMAGE_def)
  have "un_le32 g = un_le32 (take 512 (drop (0 * 512) c))" by (simp add: g_def SIZEOF_PFS_IMAGE_def)
  also have "\<dots> = un_le32 (disk 0)" using blk [of 0] by simp
  finally have "un_le32 img \<noteq> PFS_MAGIC" using no img by simp
  then show ?thesis using ok rd
    by (auto simp: nodefs_init_instance_def pfs_block_count_value BLOCKDEV_BLOCK_COUNT_def Let_def
        split: prod.splits if_splits)
qed

lemma tree_of_cong: "nodes fs = nodes fs' \<Longrightarrow> tree_of fs = tree_of fs'"
proof -
  assume n: "nodes fs = nodes fs'"
  have "nodefs_find_child fs = nodefs_find_child fs'" by (intro ext) (simp add: nodefs_find_child_def n)
  then have "walk fs i cs = walk fs' i cs" for i cs by (induction cs arbitrary: i) (auto split: option.splits)
  then show ?thesis by (auto simp: tree_of_def n)
qed

text \<open>A freshly formatted file system holds the root directory alone.\<close>

lemma nodefs_format_wf: "nodefs_wf (nodefs_format fs)"
proof -
  have l: "live (nodefs_format fs) i \<longleftrightarrow> i = 0" for i
    by (simp add: live_def nodefs_format_def zero_node_def)
  have "node_shape (nodes (nodefs_format fs) i)" for i
    using zero_node_shape
    by (auto simp: nodefs_format_def node_shape_def zero_node_def cstr_def numeral_eq_Suc)
  then show ?thesis
    by (auto simp: nodefs_wf_def root_ok_def links_ok_def names_unique_def acyclic_links_def l)
      (auto simp: nodefs_format_def)
qed

lemma nodefs_format_tree: "tree_of (nodefs_format fs) = [[] \<mapsto> Dir]"
proof
  fix cs
  have "nodefs_find_child (nodefs_format fs) p c = None" for p c
    using find_child_live [of "nodefs_format fs" p c]
    by (cases "nodefs_find_child (nodefs_format fs) p c")
      (auto simp: live_def nodefs_format_def zero_node_def split: if_splits)
  then show "tree_of (nodefs_format fs) cs = [[] \<mapsto> Dir] cs"
    by (cases cs) (auto simp: tree_of_def entry_of_def nodefs_format_def)
qed

section \<open>On the RAM disk nothing fails\<close>

definition ram_ok :: "blk_state \<Rightarrow> bool" where
  "ram_ok b \<longleftrightarrow> (\<exists>d. the_dev b = ram_disk d \<and> (\<forall>s. length (d s) = 512)) \<and> capacity_blocks b = 256 \<and>
     vq_used_idx b = vq_last_used_idx b"

lemma ram_disk_io:
  assumes "ram_ok b" "type = 0 \<or> type = 1" "length buf = 512"
  shows "fst (virtio_do_io type i buf b) = 0 \<and> length (fst (snd (virtio_do_io type i buf b))) = 512 \<and>
    ram_ok (snd (snd (virtio_do_io type i buf b)))"
proof -
  obtain d where d: "the_dev b = ram_disk d" "\<forall>s. length (d s) = 512" using assms(1) by (auto simp: ram_ok_def)
  show ?thesis using assms d
    by (auto simp: ram_ok_def virtio_do_io_def io_submit_def io_view_def ram_disk_done_def Let_def
        ram_disk_store_def intro!: exI)
qed

lemma ram_disk_never_fails:
  assumes "ram_ok b" "length buf = 512" "unat i < 256"
  shows "fst (blockdev_write i buf b) = 0 \<and> ram_ok (snd (blockdev_write i buf b))"
    and "fst (blockdev_read i buf b) = 0 \<and> length (fst (snd (blockdev_read i buf b))) = 512 \<and>
      ram_ok (snd (snd (blockdev_read i buf b)))"
  using ram_disk_io [OF assms(1) _ assms(2), of 0 i] ram_disk_io [OF assms(1) _ assms(2), of 1 i] assms(1,3)
  by (auto simp: blockdev_write_def blockdev_read_def blockdev_in_range_def BLOCKDEV_BLOCK_COUNT_def
      virtq_consts word_le_nat_alt ram_ok_def case_prod_beta Let_def)

lemma ram_disk_write_loop:
  assumes "ram_ok b" "i + n \<le> 256" "length img = SIZEOF_PFS_IMAGE"
  shows "fst (pfs_write_loop img n i b) = 0 \<and> ram_ok (snd (pfs_write_loop img n i b))"
  using assms
proof (induction n arbitrary: i b)
  case (Suc n)
  have "unat (of_nat i :: u32) < 256" using Suc.prems(2) by (simp add: unsigned_of_nat take_bit_nat_eq_self)
  then show ?case
    using ram_disk_never_fails(1) [OF Suc.prems(1) pfs_block_value(1) [OF Suc.prems(3)], of "of_nat i" i] Suc
    by (simp add: chain_def)
qed simp

lemma ram_disk_read_loop:
  assumes "ram_ok b" "i + n \<le> 256" "length block = 512"
  shows "\<exists>img' b'. pfs_read_loop n i block img b = Ok (img', b') \<and> ram_ok b'"
  using assms
proof (induction n arbitrary: i b block img)
  case (Suc n)
  have "unat (of_nat i :: u32) < 256" using Suc.prems(2) by (simp add: unsigned_of_nat take_bit_nat_eq_self)
  then show ?case
    using ram_disk_never_fails(2) [OF Suc.prems(1,3), of "of_nat i"] Suc by (simp add: case_prod_beta Let_def)
qed simp

lemma ram_disk_sync:
  assumes "ram_ok b" "nodefs_wf fs"
  shows "fst (pfs_sync fs b) = 0 \<and> ram_ok (snd (pfs_sync fs b))"
  using ram_disk_write_loop [OF assms(1), of 0 137] length_pfs_image [OF assms(2)] assms(1)
  by (simp add: pfs_sync_def pfs_block_count_value BLOCKDEV_BLOCK_COUNT_def)

lemma ram_disk_init:
  assumes "ram_ok b"
  obtains fs b' where "nodefs_init_instance True b = Ok (fs, b')" "ram_ok b'"
proof -
  obtain img b1 where "pfs_read_loop 137 0 (replicate 512 0) (replicate SIZEOF_PFS_IMAGE 0) b = Ok (img, b1)" "ram_ok b1"
    using ram_disk_read_loop [OF assms, of 0 137 "replicate 512 0" "replicate SIZEOF_PFS_IMAGE 0"] by auto
  then have "\<exists>fs b'. nodefs_init_instance True b = Ok (fs, b') \<and> ram_ok b'"
    using ram_disk_sync [OF _ nodefs_format_wf, of b1]
    by (simp add: nodefs_init_instance_def pfs_block_count_value BLOCKDEV_BLOCK_COUNT_def Let_def case_prod_beta)
  then show thesis using that by blast
qed

lemma ram_ok_inv:
  assumes "ram_ok b"
  obtains disk where "blocks_inv disk b"
proof -
  obtain d where d: "the_dev b = ram_disk d" "\<forall>s. length (d s) = 512" "vq_used_idx b = vq_last_used_idx b"
    using assms by (auto simp: ram_ok_def)
  then have "blk_inv d b" using ram_disk_honest [of d] by (simp add: blk_inv_def)
  then have "blocks_inv (\<lambda>i. d (of_nat i)) b" by (auto simp: blocks_inv_def)
  then show thesis by (rule that)
qed

lemma ram_disk_boot_ok:
  obtains b where "blockdev_init (blk_boot (ram_disk (\<lambda>_. replicate 512 0))) = Ok b" "ram_ok b"
  by (rule ram_disk_boots [of "\<lambda>_. replicate 512 0"]) (auto simp: ram_ok_def intro!: that exI)

end
