(* ===== verification/Vfs.thy ===== *)
theory Vfs
  imports NodeContents PfsImage
begin

text \<open>
  The virtual file system layer of src/kernel/fs/fs.c: the mount table, the descriptor table of every
  process, path dispatch by the longest matching mount, and the entry points \<open>fs_*\<close> that the system calls
  use.

  The three file systems are the static variables \<open>rootfs\<close>, \<open>tmpfs\<close>, \<open>procfs\<close>; a mount's \<open>ctx\<close> pointer is
  their name, and its \<open>ops\<close> table is always \<open>nodefs_ops\<close>, so that a call through it is a call of the
  \<open>nodefs_\<close> function. A path is \<open>None\<close> when the pointer is NULL. A read of an unopened descriptor 0 is a
  console read, which blocks: \<open>fs_read\<close> reports it as \<open>Console_read\<close>, for the caller to perform.
\<close>

section \<open>State\<close>

definition VFS_MOUNT_MAX :: nat where "VFS_MOUNT_MAX = 4"

datatype fs_id = Rootfs | Tmpfs | Procfs

record vfs_mnt =
  m_used :: bool
  m_path :: "char list"
  m_path_len :: nat
  m_ctx :: fs_id

record fs_state =
  fd_table :: fd_tab
  mounts :: "nat \<Rightarrow> vfs_mnt"
  rootfs :: nodefs
  tmpfs :: nodefs
  procfs :: nodefs
  blk :: blk_state
  con_out :: "u8 list"

fun get_fs :: "fs_id \<Rightarrow> fs_state \<Rightarrow> nodefs" where
  "get_fs Rootfs s = rootfs s"
| "get_fs Tmpfs s = tmpfs s"
| "get_fs Procfs s = procfs s"

fun put_fs :: "fs_id \<Rightarrow> nodefs \<Rightarrow> fs_state \<Rightarrow> fs_state" where
  "put_fs Rootfs fs s = s\<lparr>rootfs := fs\<rparr>"
| "put_fs Tmpfs fs s = s\<lparr>tmpfs := fs\<rparr>"
| "put_fs Procfs fs s = s\<lparr>procfs := fs\<rparr>"

lemma get_put_fs: "get_fs i (put_fs j fs s) = (if i = j then fs else get_fs i s)"
  by (cases i; cases j) auto

lemma put_fs_frame [simp]:
  "fd_table (put_fs i fs s) = fd_table s" "mounts (put_fs i fs s) = mounts s" "blk (put_fs i fs s) = blk s"
  "con_out (put_fs i fs s) = con_out s"
  by (cases i; simp)+

lemma get_fs_frame [simp]:
  "get_fs i (s\<lparr>fd_table := t\<rparr>) = get_fs i s" "get_fs i (s\<lparr>mounts := m\<rparr>) = get_fs i s"
  "get_fs i (s\<lparr>blk := b\<rparr>) = get_fs i s" "get_fs i (s\<lparr>con_out := c\<rparr>) = get_fs i s"
  by (cases i; simp)+

definition zero_fd :: vfs_fd where
  "zero_fd = \<lparr>f_used = False, f_mount_idx = 0, f_node_index = 0, f_offset = 0, f_flags = 0\<rparr>"

definition closed_fd :: vfs_fd where
  "closed_fd = \<lparr>f_used = False, f_mount_idx = -1, f_node_index = -1, f_offset = 0, f_flags = 0\<rparr>"

definition zero_mnt :: vfs_mnt where
  "zero_mnt = \<lparr>m_used = False, m_path = replicate 64 NUL, m_path_len = 0, m_ctx = Rootfs\<rparr>"

definition set_fd :: "nat \<Rightarrow> nat \<Rightarrow> vfs_fd \<Rightarrow> fs_state \<Rightarrow> fs_state" where
  "set_fd pid fd f s = s\<lparr>fd_table := (fd_table s)(pid := (fd_table s pid)(fd := f))\<rparr>"

lemma set_fd_frame [simp]:
  "mounts (set_fd p d f s) = mounts s" "blk (set_fd p d f s) = blk s" "get_fs i (set_fd p d f s) = get_fs i s"
  "con_out (set_fd p d f s) = con_out s"
  "fd_table (set_fd p d f s) q e = (if q = p \<and> e = d then f else fd_table s q e)"
  by (simp_all add: set_fd_def)

text \<open>Range checks of the arguments \<open>pid\<close> and \<open>fd\<close>.\<close>

definition bad_pid :: "int \<Rightarrow> bool" where
  "bad_pid pid \<longleftrightarrow> pid < 0 \<or> int PROCS_MAX \<le> pid"

definition bad_fd :: "int \<Rightarrow> bool" where
  "bad_fd fd \<longleftrightarrow> fd < 0 \<or> int FS_FD_MAX \<le> fd"

section \<open>Mounts\<close>

definition vfs_mount :: "string \<Rightarrow> fs_id \<Rightarrow> fs_state \<Rightarrow> int \<times> fs_state" where
  "vfs_mount path ctx s =
     (let path_len = str_len path
      in if path_len = 0 \<or> FS_PATH_MAX \<le> path_len \<or> char_at path 0 \<noteq> CHR ''/'' then (-1, s)
         else case scan_from (\<lambda>i. \<not> m_used (mounts s i)) 0 VFS_MOUNT_MAX of
           None \<Rightarrow> (-1, s)
         | Some i \<Rightarrow>
             (0, put_fs ctx ((get_fs ctx s)\<lparr>mount_idx := int i\<rparr>)
               (s\<lparr>mounts := (mounts s)(i := \<lparr>m_used = True, m_path = overwrite (replicate 64 NUL) 0 path,
                   m_path_len = path_len, m_ctx = ctx\<rparr>)\<rparr>)))"

definition vfs_match_mount :: "vfs_mnt \<Rightarrow> string \<Rightarrow> bool" where
  "vfs_match_mount m path =
     (if m_path_len m = 1 \<and> m_path m ! 0 = CHR ''/'' then True
      else if list_ex (\<lambda>i. char_at path i \<noteq> m_path m ! i) [0 ..< m_path_len m] then False
      else char_at path (m_path_len m) = NUL \<or> char_at path (m_path_len m) = CHR ''/'')"

fun best_mount :: "(nat \<Rightarrow> vfs_mnt) \<Rightarrow> string \<Rightarrow> nat \<Rightarrow> nat \<Rightarrow> nat option \<times> int \<Rightarrow> nat option \<times> int" where
  "best_mount ms path i 0 acc = acc"
| "best_mount ms path i (Suc k) acc =
     best_mount ms path (Suc i) k
       (if m_used (ms i) \<and> vfs_match_mount (ms i) path \<and> snd acc < int (m_path_len (ms i))
        then (Some i, int (m_path_len (ms i))) else acc)"

definition vfs_resolve_mount :: "string \<Rightarrow> fs_state \<Rightarrow> (nat \<times> string) option" where
  "vfs_resolve_mount path s =
     (if char_at path 0 \<noteq> CHR ''/'' then None
      else case best_mount (mounts s) path 0 VFS_MOUNT_MAX (None, -1) of
        (None, _) \<Rightarrow> None
      | (Some best, best_len) \<Rightarrow>
          let subpath = (if best_len = 1 then path
                         else let sub = drop (nat best_len) path in if sub = [] then ''/'' else sub)
          in if char_at subpath 0 \<noteq> CHR ''/'' then None else Some (best, subpath))"

section \<open>Descriptors and the file operations\<close>

definition vfs_alloc_fd :: "int \<Rightarrow> int \<Rightarrow> int \<Rightarrow> u32 \<Rightarrow> int \<Rightarrow> fs_state \<Rightarrow> int \<times> fs_state" where
  "vfs_alloc_fd pid mnt node_index offset flags s =
     (if bad_pid pid then (-1, s)
      else case scan_from (\<lambda>fd. \<not> f_used (fd_table s (nat pid) fd)) 0 FS_FD_MAX of
        None \<Rightarrow> (-1, s)
      | Some fd \<Rightarrow> (int fd, set_fd (nat pid) fd \<lparr>f_used = True, f_mount_idx = mnt,
          f_node_index = node_index, f_offset = offset, f_flags = flags\<rparr> s))"

definition fs_fork_copy_fds :: "int \<Rightarrow> int \<Rightarrow> fs_state \<Rightarrow> int \<times> fs_state" where
  "fs_fork_copy_fds parent_pid child_pid s =
     (if bad_pid parent_pid then (-1, s)
      else if bad_pid child_pid then (-1, s)
      else (0, s\<lparr>fd_table := (fd_table s)(nat child_pid := \<lambda>fd. if fd < FS_FD_MAX
          then fd_table s (nat parent_pid) fd else fd_table s (nat child_pid) fd)\<rparr>))"

definition fs_open :: "int \<Rightarrow> string option \<Rightarrow> int \<Rightarrow> fs_state \<Rightarrow> int \<times> fs_state" where
  "fs_open pid path flags s =
     (if bad_pid pid then (-1, s)
      else case path of
        None \<Rightarrow> (-1, s)
      | Some path \<Rightarrow>
          (case vfs_resolve_mount path s of
             None \<Rightarrow> (-1, s)
           | Some (m, subpath) \<Rightarrow>
               let ctx = m_ctx (mounts s m);
                   (node, fs, b) = nodefs_open subpath flags (get_fs ctx s) (blk s);
                   s = put_fs ctx fs (s\<lparr>blk := b\<rparr>)
               in case node of
                    None \<Rightarrow> (-1, s)
                  | Some node \<Rightarrow> vfs_alloc_fd pid (int m) (int node) 0 flags s))"

definition fs_close :: "int \<Rightarrow> int \<Rightarrow> fs_state \<Rightarrow> int \<times> fs_state" where
  "fs_close pid fd s =
     (if bad_pid pid then (-1, s)
      else if bad_fd fd \<or> \<not> f_used (fd_table s (nat pid) (nat fd)) then (-1, s)
      else (0, set_fd (nat pid) (nat fd) closed_fd s))"

datatype read_result = Read_done int "u8 list" | Console_read u32

text \<open>\<open>console_read_fallback\<close> for a size of 0, and the console write.\<close>

definition console_read_fallback :: "u32 \<Rightarrow> read_result" where
  "console_read_fallback sz = (if sz = 0 then Read_done 0 [] else Console_read sz)"

definition console_write_fallback :: "u8 list \<Rightarrow> u32 \<Rightarrow> fs_state \<Rightarrow> int \<times> fs_state" where
  "console_write_fallback buf sz s =
     (if sz = 0 then (0, s) else (sint sz, s\<lparr>con_out := con_out s @ take (unat sz) buf\<rparr>))"

definition bad_mount :: "fs_state \<Rightarrow> int \<Rightarrow> bool" where
  "bad_mount s m \<longleftrightarrow> m < 0 \<or> int VFS_MOUNT_MAX \<le> m \<or> \<not> m_used (mounts s (nat m))"

definition fs_read :: "int \<Rightarrow> int \<Rightarrow> bool \<Rightarrow> u32 \<Rightarrow> fs_state \<Rightarrow> read_result \<times> fs_state" where
  "fs_read pid fd has_buf sz s =
     (if bad_pid pid \<or> \<not> has_buf then (Read_done (-1) [], s)
      else if bad_fd fd then (Read_done (-1) [], s)
      else
        let f = fd_table s (nat pid) (nat fd)
        in if \<not> f_used f then (if fd = 0 then (console_read_fallback sz, s) else (Read_done (-1) [], s))
           else if f_flags f AND O_RDONLY = 0 then (Read_done (-1) [], s)
           else if bad_mount s (f_mount_idx f) then (Read_done (-1) [], s)
           else let (r, x, off) = nodefs_read (f_node_index f) (f_offset f) sz
                      (get_fs (m_ctx (mounts s (nat (f_mount_idx f)))) s)
             in (Read_done r x, set_fd (nat pid) (nat fd) (f\<lparr>f_offset := off\<rparr>) s))"

definition fs_write :: "int \<Rightarrow> int \<Rightarrow> u8 list option \<Rightarrow> u32 \<Rightarrow> fs_state \<Rightarrow> int \<times> fs_state" where
  "fs_write pid fd buf sz s =
     (if bad_pid pid \<or> buf = None then (-1, s)
      else if bad_fd fd then (-1, s)
      else
        let f = fd_table s (nat pid) (nat fd)
        in if \<not> f_used f then (if fd = 1 then console_write_fallback (the buf) sz s else (-1, s))
           else if f_flags f AND O_WRONLY = 0 then (-1, s)
           else if bad_mount s (f_mount_idx f) then (-1, s)
           else let ctx = m_ctx (mounts s (nat (f_mount_idx f)));
                    (r, off, fs, b) = nodefs_write (f_node_index f) (f_offset f) (the buf) sz (get_fs ctx s) (blk s)
             in (r, set_fd (nat pid) (nat fd) (f\<lparr>f_offset := off\<rparr>) (put_fs ctx fs (s\<lparr>blk := b\<rparr>))))"

text \<open>The three operations that change one file system by path.\<close>

definition on_path :: "(string \<Rightarrow> nodefs \<Rightarrow> blk_state \<Rightarrow> int \<times> nodefs \<times> blk_state) \<Rightarrow>
    string option \<Rightarrow> fs_state \<Rightarrow> int \<times> fs_state" where
  "on_path oper path s =
     (case path of
        None \<Rightarrow> (-1, s)
      | Some path \<Rightarrow>
          (case vfs_resolve_mount path s of
             None \<Rightarrow> (-1, s)
           | Some (m, subpath) \<Rightarrow>
               let ctx = m_ctx (mounts s m);
                   (r, fs, b) = oper subpath (get_fs ctx s) (blk s)
               in (r, put_fs ctx fs (s\<lparr>blk := b\<rparr>))))"

definition fs_mkdir :: "string option \<Rightarrow> fs_state \<Rightarrow> int \<times> fs_state" where
  "fs_mkdir path s = on_path nodefs_mkdir path s"

definition fs_readdir :: "string option \<Rightarrow> int \<Rightarrow> bool \<Rightarrow> fs_state \<Rightarrow> fs_dirent option" where
  "fs_readdir path index has_out s =
     (if path = None \<or> \<not> has_out \<or> index < 0 then None
      else case vfs_resolve_mount (the path) s of
        None \<Rightarrow> None
      | Some (m, subpath) \<Rightarrow> nodefs_readdir subpath index (get_fs (m_ctx (mounts s m)) s))"

definition fs_unlink :: "string option \<Rightarrow> fs_state \<Rightarrow> int \<times> fs_state" where
  "fs_unlink path s = on_path (nodefs_unlink (fd_table s)) path s"

definition fs_rmdir :: "string option \<Rightarrow> fs_state \<Rightarrow> int \<times> fs_state" where
  "fs_rmdir path s = on_path nodefs_rmdir path s"

definition fs_dup2 :: "int \<Rightarrow> int \<Rightarrow> int \<Rightarrow> fs_state \<Rightarrow> int \<times> fs_state" where
  "fs_dup2 pid old_fd new_fd s =
     (if bad_pid pid then (-1, s)
      else if bad_fd old_fd \<or> \<not> f_used (fd_table s (nat pid) (nat old_fd)) then (-1, s)
      else if bad_fd new_fd then (-1, s)
      else if old_fd = new_fd then (new_fd, s)
      else
        chain (if f_used (fd_table s (nat pid) (nat new_fd)) then fs_close pid new_fd s else (0, s))
          (\<lambda>s. (new_fd, set_fd (nat pid) (nat new_fd)
             ((fd_table s (nat pid) (nat old_fd))\<lparr>f_used := True\<rparr>) s)))"

definition fs_on_process_recycle :: "int \<Rightarrow> fs_state \<Rightarrow> fs_state" where
  "fs_on_process_recycle pid s =
     (if bad_pid pid then s
      else s\<lparr>fd_table := (fd_table s)(nat pid := \<lambda>fd. if fd < FS_FD_MAX
          then closed_fd else fd_table s (nat pid) fd)\<rparr>)"

definition fs_get_pfs_image_blocks :: u32 where
  "fs_get_pfs_image_blocks = of_nat pfs_block_count"

definition fs_get_path_entry :: "string option \<Rightarrow> fs_state \<Rightarrow> (int \<times> int) option" where
  "fs_get_path_entry path s =
     (if path = None then None
      else case vfs_resolve_mount (the path) s of
        None \<Rightarrow> None
      | Some (m, subpath) \<Rightarrow>
          let fs = get_fs (m_ctx (mounts s m)) s
          in case nodefs_resolve_path fs subpath of
               None \<Rightarrow> None
             | Some node \<Rightarrow> if n_type (nodes fs node) \<noteq> FS_TYPE_DIR then None else Some (mount_idx fs, int node))"

definition fs_get_root_entry :: "fs_state \<Rightarrow> (int \<times> int) option" where
  "fs_get_root_entry s =
     (case vfs_resolve_mount ''/'' s of
        None \<Rightarrow> None
      | Some (m, subpath) \<Rightarrow>
          let fs = get_fs (m_ctx (mounts s m)) s
          in case nodefs_resolve_path fs ''/'' of
               None \<Rightarrow> None
             | Some node \<Rightarrow> if n_type (nodes fs node) \<noteq> FS_TYPE_DIR then None else Some (mount_idx fs, int node))"

section \<open>Initialisation\<close>

definition ensure_mountpoint :: "string \<Rightarrow> fs_state \<Rightarrow> fs_state" where
  "ensure_mountpoint path s =
     (if nodefs_resolve_path (rootfs s) path = None
      then let (r, fs, b) = nodefs_mkdir path (rootfs s) (blk s) in s\<lparr>rootfs := fs, blk := b\<rparr>
      else s)"

definition mount_or_panic :: "string \<Rightarrow> fs_id \<Rightarrow> string \<Rightarrow> fs_state \<Rightarrow> fs_state kres" where
  "mount_or_panic path ctx msg s = (let (r, s) = vfs_mount path ctx s in if r < 0 then PANIC msg else Ok s)"

definition fs_init :: "fs_state \<Rightarrow> fs_state kres" where
  "fs_init s =
     (let s = s\<lparr>fd_table := \<lambda>_ _. zero_fd, mounts := \<lambda>_. zero_mnt\<rparr>
      in kbind (blockdev_init (blk s)) (\<lambda>b.
         kbind (nodefs_init_instance True b) (\<lambda>(root, b).
         kbind (nodefs_init_instance False b) (\<lambda>(tmp, b).
         kbind (nodefs_init_instance False b) (\<lambda>(pr, b).
         kbind (mount_or_panic ''/'' Rootfs ''failed to mount root fs''
                  (s\<lparr>rootfs := root, tmpfs := tmp, procfs := pr, blk := b\<rparr>)) (\<lambda>s.
         kbind (mount_or_panic ''/tmp'' Tmpfs ''failed to mount tmpfs'' (ensure_mountpoint ''/tmp'' s)) (\<lambda>s.
         mount_or_panic ''/proc'' Procfs ''failed to mount procfs'' (ensure_mountpoint ''/proc'' s))))))))"

end
