(* ===== verification/VfsInv.thy ===== *)
theory VfsInv
  imports Vfs
begin

text \<open>
  Correctness of the virtual file system layer: a path is served by the longest mount that covers it, and
  in every reachable state each open descriptor refers to an allocated regular file of a mounted file
  system. The invariant holds after \<open>fs_init\<close> and every entry point keeps it.
\<close>

section \<open>The longest mount wins\<close>

definition mount_path :: "vfs_mnt \<Rightarrow> string" where
  "mount_path m = take (m_path_len m) (m_path m)"

definition mnt_ok :: "vfs_mnt \<Rightarrow> bool" where
  "mnt_ok m \<longleftrightarrow> length (m_path m) = 64 \<and> 0 < m_path_len m \<and> m_path_len m < 64 \<and>
     nul_free (mount_path m) \<and> hd (mount_path m) = CHR ''/''"

text \<open>A mount covers a path when it is the root or when the path continues it at a component boundary.\<close>

definition covers :: "string \<Rightarrow> string \<Rightarrow> bool" where
  "covers mp path \<longleftrightarrow> mp = ''/'' \<or> (\<exists>rest. path = mp @ rest \<and> (rest = [] \<or> hd rest = CHR ''/''))"

lemma char_at_prefix:
  assumes "nul_free mp" "\<forall>i < length mp. char_at path i = mp ! i"
  shows "path = mp @ drop (length mp) path"
proof -
  have l: "length mp \<le> length path"
  proof (rule ccontr)
    assume "\<not> length mp \<le> length path"
    then have "char_at path (length path) = mp ! length path" "length path < length mp" using assms(2) by auto
    then have "NUL \<in> set mp" by (auto simp: char_at_def)
    with assms(1) show False by (simp add: nul_free_def)
  qed
  then have "take (length mp) path = mp" using assms(2)
    by (intro nth_equalityI) (auto simp: char_at_def)
  then show ?thesis by (metis append_take_drop_id)
qed

lemma vfs_match_mount_covers:
  assumes "mnt_ok m" "nul_free path"
  shows "vfs_match_mount m path \<longleftrightarrow> covers (mount_path m) path"
proof -
  let ?mp = "mount_path m"
  have l: "length ?mp = m_path_len m" using assms(1) by (simp add: mount_path_def mnt_ok_def)
  have nth: "i < m_path_len m \<Longrightarrow> m_path m ! i = ?mp ! i" for i by (simp add: mount_path_def)
  have root: "m_path_len m = 1 \<and> m_path m ! 0 = CHR ''/'' \<longleftrightarrow> ?mp = ''/''"
    using l nth [of 0] by (cases ?mp) auto
  have nf: "nul_free ?mp" using assms(1) by (simp add: mnt_ok_def)
  have pre: "\<not> list_ex (\<lambda>i. char_at path i \<noteq> m_path m ! i) [0 ..< m_path_len m] \<longleftrightarrow> (\<exists>rest. path = ?mp @ rest)"
  proof
    assume "\<not> list_ex (\<lambda>i. char_at path i \<noteq> m_path m ! i) [0 ..< m_path_len m]"
    then have "\<forall>i < length ?mp. char_at path i = ?mp ! i" using nth l by (auto simp: list_ex_iff)
    then show "\<exists>rest. path = ?mp @ rest" using char_at_prefix [OF nf] by blast
  next
    assume "\<exists>rest. path = ?mp @ rest"
    then show "\<not> list_ex (\<lambda>i. char_at path i \<noteq> m_path m ! i) [0 ..< m_path_len m]"
      using nth l by (auto simp: list_ex_iff char_at_def nth_append)
  qed
  have next_char: "char_at (?mp @ rest) (m_path_len m) = char_at rest 0" for rest
    using l by (auto simp: char_at_def nth_append)
  have end_iff: "char_at rest 0 = NUL \<or> char_at rest 0 = CHR ''/'' \<longleftrightarrow> rest = [] \<or> hd rest = CHR ''/''"
    if "path = ?mp @ rest" for rest
    using that assms(2) by (cases rest) auto
  show ?thesis
  proof (cases "\<exists>rest. path = ?mp @ rest")
    case True
    then obtain rest where r: "path = ?mp @ rest" by blast
    have "char_at path (m_path_len m) = char_at rest 0" using next_char [of rest] r by simp
    moreover have "(\<exists>r. path = ?mp @ r \<and> (r = [] \<or> hd r = CHR ''/'')) \<longleftrightarrow> rest = [] \<or> hd rest = CHR ''/''"
      using r by (metis same_append_eq)
    ultimately show ?thesis
      unfolding vfs_match_mount_def root covers_def using pre end_iff [OF r] True by auto
  next
    case False
    then show ?thesis unfolding vfs_match_mount_def root covers_def using pre by auto
  qed
qed

text \<open>The scan keeps the best of the mounts seen so far.\<close>

definition best_upto :: "(nat \<Rightarrow> vfs_mnt) \<Rightarrow> string \<Rightarrow> nat \<Rightarrow> nat option \<times> int \<Rightarrow> bool" where
  "best_upto ms path n acc = (case fst acc of
      None \<Rightarrow> snd acc = -1 \<and> (\<forall>j < n. m_used (ms j) \<longrightarrow> \<not> vfs_match_mount (ms j) path)
    | Some m \<Rightarrow> m < n \<and> m_used (ms m) \<and> vfs_match_mount (ms m) path \<and> snd acc = int (m_path_len (ms m)) \<and>
        (\<forall>j < n. m_used (ms j) \<longrightarrow> vfs_match_mount (ms j) path \<longrightarrow> m_path_len (ms j) \<le> m_path_len (ms m)))"

lemma best_upto_step:
  assumes "best_upto ms path i acc"
  shows "best_upto ms path (Suc i)
    (if m_used (ms i) \<and> vfs_match_mount (ms i) path \<and> snd acc < int (m_path_len (ms i))
     then (Some i, int (m_path_len (ms i))) else acc)"
proof (cases "fst acc")
  case None
  then show ?thesis using assms by (auto simp: best_upto_def less_Suc_eq)
next
  case (Some m)
  then have "m < i" "snd acc = int (m_path_len (ms m))"
    "\<forall>j < i. m_used (ms j) \<longrightarrow> vfs_match_mount (ms j) path \<longrightarrow> m_path_len (ms j) \<le> m_path_len (ms m)"
    using assms by (auto simp: best_upto_def)
  then show ?thesis using Some assms
    by (cases "m_used (ms i) \<and> vfs_match_mount (ms i) path \<and> snd acc < int (m_path_len (ms i))")
      (auto simp: best_upto_def less_Suc_eq intro: order_trans less_imp_le)
qed

lemma best_mount_upto: "best_upto ms path i acc \<Longrightarrow> best_upto ms path (i + k) (best_mount ms path i k acc)"
  using best_upto_step by (induction k arbitrary: i acc) fastforce+

lemma best_mount_root:
  assumes "best_mount ms path 0 n (None, -1) = (res, len)"
  shows "case res of
      None \<Rightarrow> \<forall>j < n. m_used (ms j) \<longrightarrow> \<not> vfs_match_mount (ms j) path
    | Some m \<Rightarrow> m < n \<and> m_used (ms m) \<and> vfs_match_mount (ms m) path \<and> len = int (m_path_len (ms m)) \<and>
        (\<forall>j < n. m_used (ms j) \<longrightarrow> vfs_match_mount (ms j) path \<longrightarrow> m_path_len (ms j) \<le> m_path_len (ms m))"
  using best_mount_upto [of ms path 0 "(None, -1)" n] assms by (auto simp: best_upto_def split: option.splits)

text \<open>The part of a path behind its mount.\<close>

definition below_mount :: "string \<Rightarrow> string \<Rightarrow> string" where
  "below_mount mp path = (if mp = ''/'' then path else if path = mp then ''/'' else drop (length mp) path)"

definition mounts_ok :: "fs_state \<Rightarrow> bool" where
  "mounts_ok s \<longleftrightarrow> (\<forall>j < 4. m_used (mounts s j) \<longrightarrow> mnt_ok (mounts s j))"

lemma vfs_resolve_mount_longest:
  assumes ok: "mounts_ok s" and nf: "nul_free path" and sl: "char_at path 0 = CHR ''/''"
  shows "case vfs_resolve_mount path s of
      None \<Rightarrow> \<forall>j < 4. m_used (mounts s j) \<longrightarrow> \<not> covers (mount_path (mounts s j)) path
    | Some (m, sub) \<Rightarrow> m < 4 \<and> m_used (mounts s m) \<and> covers (mount_path (mounts s m)) path \<and>
        sub = below_mount (mount_path (mounts s m)) path \<and>
        (\<forall>j < 4. m_used (mounts s j) \<longrightarrow> covers (mount_path (mounts s j)) path \<longrightarrow>
           length (mount_path (mounts s j)) \<le> length (mount_path (mounts s m)))"
proof -
  obtain res len where best: "best_mount (mounts s) path 0 4 (None, -1) = (res, len)" by force
  note bm = best_mount_root [OF best]
  have cov: "vfs_match_mount (mounts s j) path \<longleftrightarrow> covers (mount_path (mounts s j)) path"
    "length (mount_path (mounts s j)) = m_path_len (mounts s j)" if "j < 4" "m_used (mounts s j)" for j
    using ok that vfs_match_mount_covers [OF _ nf] by (auto simp: mounts_ok_def mnt_ok_def mount_path_def)
  show ?thesis
  proof (cases res)
    case None
    then show ?thesis using bm best sl cov by (simp add: vfs_resolve_mount_def VFS_MOUNT_MAX_def del: best_mount.simps)
  next
    case (Some m)
    let ?mp = "mount_path (mounts s m)"
    have m: "m < 4" "m_used (mounts s m)" "covers ?mp path" "len = int (length ?mp)"
      using bm Some cov [of m] by auto
    have mx: "\<forall>j < 4. m_used (mounts s j) \<longrightarrow> covers (mount_path (mounts s j)) path \<longrightarrow>
           length (mount_path (mounts s j)) \<le> length ?mp"
      using bm Some cov m by auto
    have mk: "mnt_ok (mounts s m)" using ok m by (simp add: mounts_ok_def)
    then have one: "len = 1 \<longleftrightarrow> ?mp = ''/''" using m(4) by (cases ?mp) (auto simp: mnt_ok_def)
    let ?sub = "if len = 1 then path else let sub = drop (nat len) path in if sub = [] then ''/'' else sub"
    have sub: "?sub = below_mount ?mp path \<and> char_at ?sub 0 = CHR ''/''"
    proof (cases "?mp = ''/''")
      case True
      then show ?thesis using one sl by (simp add: below_mount_def)
    next
      case False
      then obtain rest where r: "path = ?mp @ rest" "rest = [] \<or> hd rest = CHR ''/''"
        using m(3) by (auto simp: covers_def)
      have d: "drop (length ?mp) path = rest" by (subst r(1)) simp
      have e: "path = ?mp \<longleftrightarrow> rest = []" by (subst r(1)) simp
      show ?thesis using False one m(4) d e r(2) by (cases rest) (auto simp: below_mount_def Let_def)
    qed
    have "vfs_resolve_mount path s = (if char_at ?sub 0 \<noteq> CHR ''/'' then None else Some (m, ?sub))"
      using best Some sl by (simp add: vfs_resolve_mount_def VFS_MOUNT_MAX_def Let_def del: best_mount.simps)
    also have "\<dots> = Some (m, below_mount ?mp path)"
      unfolding conjunct1 [OF sub] using conjunct2 [OF sub, unfolded conjunct1 [OF sub]] by simp
    finally show ?thesis using m mx by simp
  qed
qed

section \<open>The invariant of the layer\<close>

fun mount_no :: "fs_id \<Rightarrow> nat" where
  "mount_no Rootfs = 0"
| "mount_no Tmpfs = 1"
| "mount_no Procfs = 2"

definition mnt :: "string \<Rightarrow> fs_id \<Rightarrow> vfs_mnt" where
  "mnt path ctx = \<lparr>m_used = True, m_path = overwrite (replicate 64 NUL) 0 path, m_path_len = length path, m_ctx = ctx\<rparr>"

definition boot_mounts :: "nat \<Rightarrow> vfs_mnt" where
  "boot_mounts = (\<lambda>_. zero_mnt)(0 := mnt ''/'' Rootfs, 1 := mnt ''/tmp'' Tmpfs, 2 := mnt ''/proc'' Procfs)"

text \<open>An open descriptor: its mount is in use, its node is an allocated regular file there, its offset is
  within the size limit.\<close>

definition fd_ok :: "fs_state \<Rightarrow> vfs_fd \<Rightarrow> bool" where
  "fd_ok s f \<longleftrightarrow> (f_used f \<longrightarrow> (\<exists>ctx i. f_mount_idx f = int (mount_no ctx) \<and> f_node_index f = int i \<and>
     live_file (get_fs ctx s) i \<and> unat (f_offset f) \<le> 512))"

definition vfs_wf :: "fs_state \<Rightarrow> bool" where
  "vfs_wf s \<longleftrightarrow> mounts s = boot_mounts \<and>
     (\<forall>ctx. nodefs_wf (get_fs ctx s) \<and> mount_idx (get_fs ctx s) = int (mount_no ctx)) \<and>
     (\<forall>p < 64. \<forall>d < 16. fd_ok s (fd_table s p d))"

lemma vfs_wfD:
  assumes "vfs_wf s"
  shows "mounts s = boot_mounts" "nodefs_wf (get_fs ctx s)" "mount_idx (get_fs ctx s) = int (mount_no ctx)"
    "p < 64 \<Longrightarrow> d < 16 \<Longrightarrow> fd_ok s (fd_table s p d)"
  using assms by (auto simp: vfs_wf_def)

lemma mount_no_inj: "mount_no c = mount_no d \<longleftrightarrow> c = d"
  by (cases c; cases d) auto

lemma mount_no_lt: "mount_no c < 4"
  by (cases c) auto

lemma boot_mounts_ctx: "m_used (boot_mounts m) \<longleftrightarrow> (\<exists>ctx. m = mount_no ctx)"
  "m_ctx (boot_mounts (mount_no ctx)) = ctx" "m_used (boot_mounts (mount_no ctx))"
proof -
  show "m_used (boot_mounts m) \<longleftrightarrow> (\<exists>ctx. m = mount_no ctx)"
  proof
    assume "m_used (boot_mounts m)"
    then have "m = 0 \<or> m = 1 \<or> m = 2" by (auto simp: boot_mounts_def zero_mnt_def split: if_splits)
    then show "\<exists>ctx. m = mount_no ctx" by (metis mount_no.simps)
  next
    assume "\<exists>ctx. m = mount_no ctx"
    then obtain ctx where "m = mount_no ctx" ..
    then show "m_used (boot_mounts m)" by (cases ctx) (auto simp: boot_mounts_def mnt_def)
  qed
  show "m_used (boot_mounts (mount_no ctx))" by (cases ctx) (auto simp: boot_mounts_def mnt_def)
  show "m_ctx (boot_mounts (mount_no ctx)) = ctx" by (cases ctx) (auto simp: boot_mounts_def mnt_def)
qed

lemma mnt_ok_mnt:
  assumes "nul_free p" "p \<noteq> []" "hd p = CHR ''/''" "length p < 64"
  shows "mnt_ok (mnt p c)" "mount_path (mnt p c) = p"
  using assms by (simp_all add: mnt_ok_def mnt_def mount_path_def overwrite_def)

lemma boot_mounts_ok: "mounts s = boot_mounts \<Longrightarrow> mounts_ok s"
  using mnt_ok_mnt [of "''/''"] mnt_ok_mnt [of "''/tmp''"] mnt_ok_mnt [of "''/proc''"]
  by (auto simp: mounts_ok_def boot_mounts_def zero_mnt_def)

lemma resolve_ctx:
  assumes "vfs_wf s" "nul_free path" "vfs_resolve_mount path s = Some (m, sub)"
  obtains ctx where "m = mount_no ctx" "m_ctx (mounts s m) = ctx" "nul_free sub"
proof -
  have sl: "char_at path 0 = CHR ''/''" using assms(3) by (auto simp: vfs_resolve_mount_def split: if_splits)
  have "m_used (mounts s m)" "sub = below_mount (mount_path (mounts s m)) path"
    using vfs_resolve_mount_longest [OF boot_mounts_ok [OF vfs_wfD(1) [OF assms(1)]] assms(2) sl] assms(3) by auto
  then show thesis
    using that boot_mounts_ctx vfs_wfD(1) [OF assms(1)] assms(2) by (auto simp: below_mount_def)
qed

text \<open>Replacing one file system by one that keeps its allocated files keeps the invariant.\<close>

definition files_kept :: "fd_tab \<Rightarrow> nodefs \<Rightarrow> nodefs \<Rightarrow> bool" where
  "files_kept fds fs fs' \<longleftrightarrow> nodefs_wf fs' \<and> same_mount fs fs' \<and>
     (\<forall>i. live_file fs i \<longrightarrow> live_file fs' i \<or> \<not> nodefs_is_node_open fds fs i)"

lemma vfs_wf_put:
  assumes wf: "vfs_wf s" and k: "files_kept (fd_table s) (get_fs ctx s) fs'"
  shows "vfs_wf (put_fs ctx fs' (s\<lparr>blk := b\<rparr>))"
proof -
  let ?s = "put_fs ctx fs' (s\<lparr>blk := b\<rparr>)"
  have "fd_ok ?s (fd_table ?s p d)" if pd: "p < 64" "d < 16" for p d
    unfolding fd_ok_def
  proof
    let ?f = "fd_table ?s p d"
    assume u: "f_used ?f"
    then obtain c i where c: "f_mount_idx ?f = int (mount_no c)" "f_node_index ?f = int i"
        "live_file (get_fs c s) i" "unat (f_offset ?f) \<le> 512"
      using vfs_wfD(4) [OF wf pd] by (auto simp: fd_ok_def)
    have "live_file (get_fs c ?s) i"
    proof (cases "c = ctx")
      case True
      then have "nodefs_is_node_open (fd_table s) (get_fs ctx s) i"
        using c u pd vfs_wfD(3) [OF wf, of ctx]
        by (simp add: nodefs_is_node_open_def PROCS_MAX_def FS_FD_MAX_def atLeast0LessThan) blast
      then show ?thesis using k c(3) True by (auto simp: files_kept_def get_put_fs)
    next
      case False
      then show ?thesis using c(3) by (simp add: get_put_fs)
    qed
    with c show "\<exists>ctx i. f_mount_idx ?f = int (mount_no ctx) \<and> f_node_index ?f = int i \<and>
        live_file (get_fs ctx ?s) i \<and> unat (f_offset ?f) \<le> 512" by blast
  qed
  moreover have "nodefs_wf (get_fs c ?s) \<and> mount_idx (get_fs c ?s) = int (mount_no c)" for c
    using vfs_wfD(2,3) [OF wf] k by (auto simp: get_put_fs files_kept_def same_mount_def)
  ultimately show ?thesis using vfs_wfD(1) [OF wf] by (simp add: vfs_wf_def)
qed

lemma vfs_wf_set_fd:
  assumes "vfs_wf s" "fd_ok s f"
  shows "vfs_wf (set_fd p d f s)"
proof -
  have "fd_ok (set_fd p d f s) g = fd_ok s g" for g by (simp add: fd_ok_def)
  then show ?thesis using assms by (auto simp: vfs_wf_def)
qed

section \<open>Every entry point keeps the invariant\<close>

lemma files_kept_synced:
  "nodefs_wf fs' \<Longrightarrow> same_mount fs fs' \<Longrightarrow> (\<And>i. live_file fs i \<Longrightarrow> live_file fs' i) \<Longrightarrow> files_kept fds fs fs'"
  by (simp add: files_kept_def)

lemma files_kept_refl: "nodefs_wf fs \<Longrightarrow> files_kept fds fs fs"
  by (simp add: files_kept_def)

lemma mkdir_keeps:
  assumes "nodefs_wf fs" "nul_free path" "nodefs_mkdir path fs b = (r, fs', b')"
  shows "files_kept fds fs fs'"
  using nodefs_mkdir_cases [OF assms(1,2), of b] assms(3) files_kept_refl [OF assms(1)]
  by (auto simp: synced_def files_kept_def split: option.splits)

lemma unlink_keeps:
  assumes wf: "nodefs_wf fs" and nf: "nul_free path" and u: "nodefs_unlink fds path fs b = (r, fs', b')"
  shows "files_kept fds fs fs'"
proof (cases "fs' = fs")
  case True
  then show ?thesis using files_kept_refl [OF wf] by simp
next
  case False
  then obtain i where "fs' = set_node i zero_node fs" "\<not> nodefs_is_node_open fds fs i"
      "nodefs_wf (set_node i zero_node fs)"
    using nodefs_unlink_cases [OF wf nf, of fds b] u by (auto simp: synced_def split: option.splits if_splits)
  then show ?thesis using live_file_cleared [of fs _ i] by (auto simp: files_kept_def)
qed

lemma rmdir_keeps:
  assumes wf: "nodefs_wf fs" and nf: "nul_free path" and u: "nodefs_rmdir path fs b = (r, fs', b')"
  shows "files_kept fds fs fs'"
proof (cases "fs' = fs")
  case True
  then show ?thesis using files_kept_refl [OF wf] by simp
next
  case False
  then obtain i where "fs' = set_node i zero_node fs" "\<not> live_file fs i" "nodefs_wf (set_node i zero_node fs)"
    using nodefs_rmdir_cases [OF wf nf, of b] u by (auto simp: synced_def split: option.splits if_splits)
  then show ?thesis using live_file_cleared [of fs _ i] by (auto simp: files_kept_def)
qed

lemma open_keeps:
  assumes "nodefs_wf fs" "nul_free path" "nodefs_open path flags fs b = (res, fs', b')"
  shows "files_kept fds fs fs'" "res = Some i \<Longrightarrow> live_file fs' i"
proof -
  have "open_result path flags fs (res, fs', b')"
    using open_existing(1) [OF assms(1,2), of _ flags b] open_missing(1) [OF assms(1,2), of flags b] assms(3)
    by (cases "nodefs_resolve_path fs path") auto
  then show "files_kept fds fs fs'" "res = Some i \<Longrightarrow> live_file fs' i"
    by (auto simp: open_result_def files_kept_def)
qed

text \<open>A path argument is a C string when it is not NULL.\<close>

definition cpath :: "string option \<Rightarrow> bool" where
  "cpath path \<longleftrightarrow> (\<forall>p. path = Some p \<longrightarrow> nul_free p)"

lemma on_path_wf:
  assumes wf: "vfs_wf s" and path: "cpath path"
    and keep: "\<And>p fs b r fs' b'. nodefs_wf fs \<Longrightarrow> nul_free p \<Longrightarrow> oper p fs b = (r, fs', b') \<Longrightarrow>
      files_kept (fd_table s) fs fs'"
  shows "vfs_wf (snd (on_path oper path s))"
proof (cases "path = None \<or> vfs_resolve_mount (the path) s = None")
  case True
  then show ?thesis using wf by (auto simp: on_path_def split: option.splits)
next
  case False
  then obtain p m sub where p: "path = Some p" "vfs_resolve_mount p s = Some (m, sub)" by auto
  obtain ctx where ctx: "m_ctx (mounts s m) = ctx" "nul_free sub"
    using resolve_ctx [OF wf _ p(2)] path p(1) by (auto simp: cpath_def)
  obtain r fs' b' where o: "oper sub (get_fs ctx s) (blk s) = (r, fs', b')" by (metis prod_cases3)
  then show ?thesis
    using vfs_wf_put [OF wf keep [OF vfs_wfD(2) [OF wf] ctx(2) o]] p ctx by (simp add: on_path_def)
qed

lemma fs_mkdir_wf: "vfs_wf s \<Longrightarrow> cpath path \<Longrightarrow> vfs_wf (snd (fs_mkdir path s))"
  unfolding fs_mkdir_def by (rule on_path_wf) (auto intro: mkdir_keeps)

lemma fs_unlink_wf: "vfs_wf s \<Longrightarrow> cpath path \<Longrightarrow> vfs_wf (snd (fs_unlink path s))"
  unfolding fs_unlink_def by (rule on_path_wf) (auto intro: unlink_keeps)

lemma fs_rmdir_wf: "vfs_wf s \<Longrightarrow> cpath path \<Longrightarrow> vfs_wf (snd (fs_rmdir path s))"
  unfolding fs_rmdir_def by (rule on_path_wf) (auto intro: rmdir_keeps)

lemma alloc_fd_wf:
  assumes "vfs_wf s" "live_file (get_fs ctx s) i"
  shows "vfs_wf (snd (vfs_alloc_fd pid (int (mount_no ctx)) (int i) 0 flags s))"
  using assms by (auto simp: vfs_alloc_fd_def fd_ok_def simp del: scan_from_numeral split: option.splits
      intro!: vfs_wf_set_fd)

lemma fs_open_wf:
  assumes wf: "vfs_wf s" and path: "cpath path"
  shows "vfs_wf (snd (fs_open pid path flags s))"
proof (cases "bad_pid pid \<or> path = None \<or> vfs_resolve_mount (the path) s = None")
  case True
  then show ?thesis using wf by (auto simp: fs_open_def split: option.splits)
next
  case False
  then obtain p m sub where p: "path = Some p" "vfs_resolve_mount p s = Some (m, sub)" by auto
  obtain ctx where ctx: "m = mount_no ctx" "m_ctx (mounts s m) = ctx" "nul_free sub"
    using resolve_ctx [OF wf _ p(2)] path p(1) by (auto simp: cpath_def)
  obtain r fs' b' where o: "nodefs_open sub flags (get_fs ctx s) (blk s) = (r, fs', b')" by (metis prod_cases3)
  note k = open_keeps [OF vfs_wfD(2) [OF wf] ctx(3) o]
  have w: "vfs_wf (put_fs ctx fs' (s\<lparr>blk := b'\<rparr>))" by (rule vfs_wf_put [OF wf k(1)])
  show ?thesis
  proof (cases r)
    case None
    then show ?thesis using w False p ctx o by (simp add: fs_open_def)
  next
    case (Some i)
    then have "live_file (get_fs ctx (put_fs ctx fs' (s\<lparr>blk := b'\<rparr>))) i" using k(2) by (simp add: get_put_fs)
    then show ?thesis using alloc_fd_wf [OF w] False p ctx o Some by (simp add: fs_open_def)
  qed
qed

lemma closed_fd_ok [simp]: "fd_ok s closed_fd"
  by (simp add: fd_ok_def closed_fd_def)

lemma fs_close_wf: "vfs_wf s \<Longrightarrow> vfs_wf (snd (fs_close pid fd s))"
  by (simp add: fs_close_def vfs_wf_set_fd)

lemma not_bad: "\<not> bad_pid pid \<Longrightarrow> nat pid < 64" "\<not> bad_fd fd \<Longrightarrow> nat fd < 16"
  by (auto simp: bad_pid_def bad_fd_def PROCS_MAX_def FS_FD_MAX_def)

lemma fs_dup2_wf:
  assumes "vfs_wf s"
  shows "vfs_wf (snd (fs_dup2 pid old_fd new_fd s))"
proof -
  have "vfs_wf (snd (chain (if f_used (fd_table s (nat pid) (nat new_fd)) then fs_close pid new_fd s else (0, s))
          (\<lambda>s. (new_fd, set_fd (nat pid) (nat new_fd)
             ((fd_table s (nat pid) (nat old_fd))\<lparr>f_used := True\<rparr>) s))))"
    if ok: "\<not> bad_pid pid" "\<not> bad_fd old_fd" "f_used (fd_table s (nat pid) (nat old_fd))" "\<not> bad_fd new_fd"
      "old_fd \<noteq> new_fd"
  proof -
    let ?f = "fd_table s (nat pid) (nat old_fd)"
    have f: "fd_ok s (?f\<lparr>f_used := True\<rparr>)"
      using vfs_wfD(4) [OF assms not_bad(1) [OF ok(1)] not_bad(2) [OF ok(2)]] ok(3)
      by (simp add: fd_ok_def)
    have ne: "nat old_fd \<noteq> nat new_fd" using ok by (auto simp: bad_fd_def)
    have w: "vfs_wf (set_fd (nat pid) (nat new_fd) closed_fd s)" by (rule vfs_wf_set_fd [OF assms closed_fd_ok])
    have "fd_ok (set_fd (nat pid) (nat new_fd) closed_fd s) (?f\<lparr>f_used := True\<rparr>)" using f by (simp add: fd_ok_def)
    then show ?thesis using assms f ok ne w
      by (auto simp: fs_close_def chain_def intro!: vfs_wf_set_fd)
  qed
  then show ?thesis using assms by (auto simp: fs_dup2_def)
qed

lemma fs_recycle_wf:
  assumes "vfs_wf s"
  shows "vfs_wf (fs_on_process_recycle pid s)"
proof -
  have "fd_ok (s\<lparr>fd_table := t\<rparr>) f = fd_ok s f" for t f by (simp add: fd_ok_def)
  then show ?thesis using assms by (auto simp: fs_on_process_recycle_def vfs_wf_def)
qed

lemma fs_fork_wf:
  assumes "vfs_wf s"
  shows "vfs_wf (snd (fs_fork_copy_fds p c s))"
proof -
  have "fd_ok (s\<lparr>fd_table := t\<rparr>) f = fd_ok s f" for t f by (simp add: fd_ok_def)
  then show ?thesis using assms not_bad(1) [of p] by (auto simp: fs_fork_copy_fds_def vfs_wf_def)
qed

lemma ctx_of_fd:
  assumes "vfs_wf s" "\<not> bad_pid pid" "\<not> bad_fd fd" "f_used (fd_table s (nat pid) (nat fd))"
  obtains ctx i where "f_mount_idx (fd_table s (nat pid) (nat fd)) = int (mount_no ctx)"
    "f_node_index (fd_table s (nat pid) (nat fd)) = int i" "live_file (get_fs ctx s) i"
    "unat (f_offset (fd_table s (nat pid) (nat fd))) \<le> 512"
    "m_ctx (mounts s (mount_no ctx)) = ctx" "\<not> bad_mount s (int (mount_no ctx))"
proof -
  obtain ctx i where c: "f_mount_idx (fd_table s (nat pid) (nat fd)) = int (mount_no ctx)"
    "f_node_index (fd_table s (nat pid) (nat fd)) = int i" "live_file (get_fs ctx s) i"
    "unat (f_offset (fd_table s (nat pid) (nat fd))) \<le> 512"
    using vfs_wfD(4) [OF assms(1) not_bad(1) [OF assms(2)] not_bad(2) [OF assms(3)]] assms(4)
    by (auto simp: fd_ok_def)
  have "m_ctx (mounts s (mount_no ctx)) = ctx" "\<not> bad_mount s (int (mount_no ctx))"
    using boot_mounts_ctx(2,3) [of ctx] vfs_wfD(1) [OF assms(1)] mount_no_lt [of ctx]
    by (simp_all add: bad_mount_def VFS_MOUNT_MAX_def)
  with c show thesis by (rule that)
qed

lemma fs_read_wf:
  assumes wf: "vfs_wf s"
  shows "vfs_wf (snd (fs_read pid fd hb sz s))"
proof (cases "bad_pid pid \<or> \<not> hb \<or> bad_fd fd \<or> \<not> f_used (fd_table s (nat pid) (nat fd)) \<or>
    f_flags (fd_table s (nat pid) (nat fd)) AND O_RDONLY = 0")
  case True
  then show ?thesis using wf by (auto simp: fs_read_def Let_def)
next
  case False
  let ?f = "fd_table s (nat pid) (nat fd)"
  obtain ctx i where c: "f_mount_idx ?f = int (mount_no ctx)" "f_node_index ?f = int i" "live_file (get_fs ctx s) i"
    "unat (f_offset ?f) \<le> 512" "m_ctx (mounts s (mount_no ctx)) = ctx" "\<not> bad_mount s (int (mount_no ctx))"
    using ctx_of_fd [OF wf] False by (metis (no_types))
  define x where "x = take (unat sz) (drop (unat (f_offset ?f)) (contents (get_fs ctx s) i))"
  have rd: "nodefs_read (int i) (f_offset ?f) sz (get_fs ctx s) = (int (length x), x, f_offset ?f + of_nat (length x))"
    unfolding x_def using nodefs_read_contents [OF vfs_wfD(2) [OF wf] c(3)] by (simp add: Let_def)
  have "length (contents (get_fs ctx s) i) \<le> 512"
    using length_contents [OF vfs_wfD(2) [OF wf]] nodefs_wfD(1) [OF vfs_wfD(2) [OF wf], of ctx i]
    by (simp add: node_shape_def)
  then have "length x \<le> 512 - unat (f_offset ?f)" by (simp add: x_def le_diff_conv min.coboundedI1 diff_le_mono)
  then have "unat (f_offset ?f) + length x \<le> 512" using c(4) by linarith
  then have "unat (f_offset ?f + of_nat (length x)) \<le> 512"
    by (simp add: unat_word_ariths unsigned_of_nat take_bit_nat_eq_self)
  then have "fd_ok s (?f\<lparr>f_offset := f_offset ?f + of_nat (length x)\<rparr>)"
    using c False by (auto simp: fd_ok_def)
  then show ?thesis using False c rd wf by (simp add: fs_read_def Let_def vfs_wf_set_fd)
qed

lemma fs_write_wf:
  assumes wf: "vfs_wf s" and len: "\<And>x. buf = Some x \<Longrightarrow> unat sz \<le> length x"
  shows "vfs_wf (snd (fs_write pid fd buf sz s))"
proof -
  have con: "vfs_wf (s\<lparr>con_out := c\<rparr>)" for c using wf by (simp add: vfs_wf_def fd_ok_def)
  show ?thesis
  proof (cases "bad_pid pid \<or> buf = None \<or> bad_fd fd \<or> \<not> f_used (fd_table s (nat pid) (nat fd)) \<or>
      f_flags (fd_table s (nat pid) (nat fd)) AND O_WRONLY = 0")
    case True
    then show ?thesis using wf con by (auto simp: fs_write_def Let_def console_write_fallback_def)
  next
    case False
    let ?f = "fd_table s (nat pid) (nat fd)"
    obtain x where x: "buf = Some x" "unat sz \<le> length x" using False len by auto
    obtain ctx i where c: "f_mount_idx ?f = int (mount_no ctx)" "f_node_index ?f = int i" "live_file (get_fs ctx s) i"
      "unat (f_offset ?f) \<le> 512" "m_ctx (mounts s (mount_no ctx)) = ctx" "\<not> bad_mount s (int (mount_no ctx))"
      using ctx_of_fd [OF wf] False by (metis (no_types))
    have w: "nodefs_wf (get_fs ctx s)" by (rule vfs_wfD(2) [OF wf])
    obtain cs where cs: "walk (get_fs ctx s) 0 cs = Some i" "list_all nul_free cs"
      using live_has_path [OF w] c(3) by (auto simp: live_file_def)
    define y where "y = take (min (unat sz) (512 - unat (f_offset ?f))) x"
    obtain fs' where fs': "nodefs_write (int i) (f_offset ?f) x sz (get_fs ctx s) (blk s) =
         (if unat (f_offset ?f) = 512 then (0, f_offset ?f, get_fs ctx s, blk s)
          else (if fst (pfs_sync fs' (blk s)) < 0 then -1 else int (length y), f_offset ?f + of_nat (length y), fs',
                snd (pfs_sync fs' (blk s))))"
      "nodefs_wf fs'" "same_mount (get_fs ctx s) fs'" "\<And>j. live_file fs' j = live_file (get_fs ctx s) j"
      unfolding y_def using nodefs_write_contents [OF w c(3) cs c(4) x(2)] by metis
    obtain r off f2 b2 where o: "nodefs_write (int i) (f_offset ?f) x sz (get_fs ctx s) (blk s) = (r, off, f2, b2)"
      by (metis prod_cases4)
    have "length y \<le> 512 - unat (f_offset ?f)" by (simp add: y_def min.coboundedI2)
    then have "unat (f_offset ?f) + length y \<le> 512" using c(4) by linarith
    then have "unat (f_offset ?f + of_nat (length y)) \<le> 512"
      by (simp add: unat_word_ariths unsigned_of_nat take_bit_nat_eq_self)
    then have k: "files_kept (fd_table s) (get_fs ctx s) f2" "unat off \<le> 512" "live_file f2 i"
      using o fs' c(3,4) w by (auto simp: files_kept_def split: if_splits)
    have w2: "vfs_wf (put_fs ctx f2 (s\<lparr>blk := b2\<rparr>))" by (rule vfs_wf_put [OF wf k(1)])
    have "fd_ok (put_fs ctx f2 (s\<lparr>blk := b2\<rparr>)) (?f\<lparr>f_offset := off\<rparr>)"
      using c(1,2) k(2,3) by (auto simp: fd_ok_def get_put_fs intro!: exI [of _ ctx])
    then show ?thesis using False c o x vfs_wf_set_fd [OF w2] by (simp add: fs_write_def Let_def)
  qed
qed

section \<open>Booting\<close>

text \<open>The disk is either unformatted or holds the image of a well-formed file system.\<close>

definition bootable :: "(nat \<Rightarrow> u8 list) \<Rightarrow> bool" where
  "bootable disk \<longleftrightarrow> un_le32 (disk 0) \<noteq> PFS_MAGIC \<or> (\<exists>fs. nodefs_wf fs \<and> image_on_disk fs disk)"

lemma blk_inv_blocks: "blk_inv d b \<Longrightarrow> blocks_inv (\<lambda>i. d (of_nat i)) b"
  by (auto simp: blocks_inv_def)

lemma nodefs_wf_cong: "nodes fs = nodes fs' \<Longrightarrow> nodefs_wf fs = nodefs_wf fs'"
  by (simp add: nodefs_wf_def root_ok_def links_ok_def names_unique_def acyclic_links_def live_def)

lemma init_root_wf:
  assumes "blk_inv d b" "bootable (\<lambda>i. d (of_nat i))" "nodefs_init_instance True b = Ok (fs, b')"
  shows "nodefs_wf fs"
proof -
  note inv = blk_inv_blocks [OF assms(1)]
  have len: "length (d (of_nat k)) = 512" for k using assms(1) honest_disk_length by (auto simp: blk_inv_def)
  show ?thesis
  proof (cases "un_le32 (d (of_nat 0)) \<noteq> PFS_MAGIC")
    case True
    then show ?thesis using init_formats [OF inv len _ assms(3)] nodefs_format_wf by simp
  next
    case False
    then obtain g where g: "nodefs_wf g" "image_on_disk g (\<lambda>i. d (of_nat i))"
      using assms(2) by (auto simp: bootable_def)
    then show ?thesis
      using init_loads_image(1) [OF g(1) inv g(2) assms(3)] nodefs_wf_cong [of fs g] by simp
  qed
qed

lemma init_volatile: "nodefs_init_instance False b = Ok (fs, b') \<Longrightarrow>
    fs = nodefs_format \<lparr>mount_idx = -1, persistent = False, nodes = \<lambda>_. zero_node\<rparr> \<and> b' = b"
  by (simp add: nodefs_init_instance_def)

lemma ensure_mountpoint_frame:
  assumes "nodefs_wf (rootfs s)" "nul_free p"
  shows "nodefs_wf (rootfs (ensure_mountpoint p s))" "same_mount (rootfs s) (rootfs (ensure_mountpoint p s))"
    "tmpfs (ensure_mountpoint p s) = tmpfs s" "procfs (ensure_mountpoint p s) = procfs s"
    "mounts (ensure_mountpoint p s) = mounts s" "fd_table (ensure_mountpoint p s) = fd_table s"
  using mkdir_keeps [OF assms, of "blk s"] assms(1)
  by (auto simp: ensure_mountpoint_def files_kept_def split: prod.splits)

lemma nodefs_wf_mount_idx [simp]: "nodefs_wf (fs\<lparr>mount_idx := i\<rparr>) = nodefs_wf fs"
  by (rule nodefs_wf_cong) simp

text \<open>One mount of the boot sequence: the next slot of the table.\<close>

lemma mount_slot:
  assumes "mounts s = ms" "\<not> m_used (ms i)" "i < 4" "\<forall>j < i. m_used (ms j)"
    and "path \<noteq> []" "length path < 64" "hd path = CHR ''/''"
  shows "mount_or_panic path ctx msg s = Ok (put_fs ctx ((get_fs ctx s)\<lparr>mount_idx := int i\<rparr>)
    (s\<lparr>mounts := ms(i := mnt path ctx)\<rparr>))"
proof -
  have "scan_from (\<lambda>k. \<not> m_used (mounts s k)) 0 4 = Some i"
    by (rule scan_from_SomeI) (use assms in auto)
  moreover have "char_at path 0 = CHR ''/''" using assms(5,7) by (cases path) auto
  ultimately show ?thesis using assms
    by (simp add: mount_or_panic_def vfs_mount_def VFS_MOUNT_MAX_def FS_PATH_MAX_def mnt_def Let_def
        del: scan_from_numeral)
qed

definition volatile_fs :: "int \<Rightarrow> nodefs" where
  "volatile_fs i = (nodefs_format \<lparr>mount_idx = -1, persistent = False, nodes = \<lambda>_. zero_node\<rparr>)\<lparr>mount_idx := i\<rparr>"

lemma fs_init_result:
  assumes b: "blockdev_init (blk s) = Ok b" "nodefs_init_instance True b = Ok (root, b1)" and wf: "nodefs_wf root"
  shows "\<exists>s'. fs_init s = Ok s' \<and> vfs_wf s' \<and> tmpfs s' = volatile_fs 1 \<and> fd_table s' = (\<lambda>_ _. zero_fd)"
proof -
  let ?s0 = "s\<lparr>fd_table := \<lambda>_ _. zero_fd, mounts := \<lambda>_. zero_mnt\<rparr>"
  let ?v = "nodefs_format \<lparr>mount_idx = -1, persistent = False, nodes = \<lambda>_. zero_node\<rparr>"
  define s1 where "s1 = ?s0\<lparr>rootfs := root\<lparr>mount_idx := 0\<rparr>, tmpfs := ?v, procfs := ?v, blk := b1,
      mounts := (\<lambda>_. zero_mnt)(0 := mnt ''/'' Rootfs)\<rparr>"
  define e1 where "e1 = ensure_mountpoint ''/tmp'' s1"
  have w1: "nodefs_wf (rootfs s1)" using wf by (simp add: s1_def)
  note f1 = ensure_mountpoint_frame [OF w1, of "''/tmp''", folded e1_def, simplified]
  define s2 where "s2 = e1\<lparr>tmpfs := ?v\<lparr>mount_idx := 1\<rparr>,
      mounts := (\<lambda>_. zero_mnt)(0 := mnt ''/'' Rootfs, 1 := mnt ''/tmp'' Tmpfs)\<rparr>"
  define e2 where "e2 = ensure_mountpoint ''/proc'' s2"
  have w2: "nodefs_wf (rootfs s2)" using f1(1) by (simp add: s2_def)
  note f2 = ensure_mountpoint_frame [OF w2, of "''/proc''", folded e2_def, simplified]
  define s3 where "s3 = e2\<lparr>procfs := ?v\<lparr>mount_idx := 2\<rparr>, mounts := boot_mounts\<rparr>"
  have u: "m_used (mnt p c)" "\<not> m_used zero_mnt" for p c by (simp_all add: mnt_def zero_mnt_def)
  have m1: "mount_or_panic ''/'' Rootfs msg (?s0\<lparr>rootfs := root, tmpfs := ?v, procfs := ?v, blk := b1\<rparr>) = Ok s1" for msg
    by (subst mount_slot [where ms = "\<lambda>_. zero_mnt" and i = 0]) (simp_all add: u s1_def)
  have m2: "mount_or_panic ''/tmp'' Tmpfs msg e1 = Ok s2" for msg
    by (subst mount_slot [where ms = "(\<lambda>_. zero_mnt)(0 := mnt ''/'' Rootfs)" and i = 1])
      (use f1 in \<open>simp_all add: u s1_def s2_def\<close>)
  have m3: "mount_or_panic ''/proc'' Procfs msg e2 = Ok s3" for msg
    by (subst mount_slot [where ms = "(\<lambda>_. zero_mnt)(0 := mnt ''/'' Rootfs, 1 := mnt ''/tmp'' Tmpfs)" and i = 2])
      (use f1 f2 in \<open>auto simp: u s1_def s2_def s3_def boot_mounts_def less_2_cases_iff\<close>)
  have "fs_init s = Ok s3" using b m1 m2 m3
    by (simp add: fs_init_def nodefs_init_instance_def [of False] e1_def [symmetric] e2_def [symmetric])
  moreover have "nodefs_wf (get_fs c s3) \<and> mount_idx (get_fs c s3) = int (mount_no c)" for c
    using f1 f2 nodefs_format_wf by (cases c) (auto simp: s3_def s2_def s1_def same_mount_def)
  moreover have "fd_table s3 = (\<lambda>_ _. zero_fd)" using f1 f2 by (simp add: s3_def s2_def s1_def)
  moreover have "tmpfs s3 = volatile_fs 1" using f2 by (simp add: s3_def s2_def volatile_fs_def)
  ultimately show ?thesis by (simp add: vfs_wf_def s3_def fd_ok_def zero_fd_def)
qed

lemma fs_init_wf:
  assumes h: "honest_disk d (the_dev (blk s))" and disk: "bootable (\<lambda>i. d (of_nat i))" and ok: "fs_init s = Ok s'"
  shows "vfs_wf s'"
proof -
  obtain b root b1 where b: "blockdev_init (blk s) = Ok b" "nodefs_init_instance True b = Ok (root, b1)"
    using ok by (auto simp: fs_init_def kbind_Ok_iff Let_def)
  have "nodefs_wf root" by (rule init_root_wf [OF blockdev_init_honest [OF h b(1)] disk b(2)])
  then show ?thesis using fs_init_result [OF b] ok by auto
qed

section \<open>All sequences of calls\<close>

text \<open>The states that any sequence of file-system calls reaches, by any process, errors included.\<close>

inductive fs_reach :: "fs_state \<Rightarrow> fs_state \<Rightarrow> bool" for s0 where
  start: "fs_reach s0 s0"
| openc: "fs_reach s0 s \<Longrightarrow> cpath path \<Longrightarrow> fs_reach s0 (snd (fs_open pid path flags s))"
| closec: "fs_reach s0 s \<Longrightarrow> fs_reach s0 (snd (fs_close pid fd s))"
| readc: "fs_reach s0 s \<Longrightarrow> fs_reach s0 (snd (fs_read pid fd hb sz s))"
| writec: "fs_reach s0 s \<Longrightarrow> (\<And>x. buf = Some x \<Longrightarrow> unat sz \<le> length x) \<Longrightarrow>
    fs_reach s0 (snd (fs_write pid fd buf sz s))"
| mkdirc: "fs_reach s0 s \<Longrightarrow> cpath path \<Longrightarrow> fs_reach s0 (snd (fs_mkdir path s))"
| unlinkc: "fs_reach s0 s \<Longrightarrow> cpath path \<Longrightarrow> fs_reach s0 (snd (fs_unlink path s))"
| rmdirc: "fs_reach s0 s \<Longrightarrow> cpath path \<Longrightarrow> fs_reach s0 (snd (fs_rmdir path s))"
| dup2c: "fs_reach s0 s \<Longrightarrow> fs_reach s0 (snd (fs_dup2 pid old_fd new_fd s))"
| forkc: "fs_reach s0 s \<Longrightarrow> fs_reach s0 (snd (fs_fork_copy_fds parent child s))"
| recyclec: "fs_reach s0 s \<Longrightarrow> fs_reach s0 (fs_on_process_recycle pid s)"

lemma fs_reach_wf: "fs_reach s0 s \<Longrightarrow> vfs_wf s0 \<Longrightarrow> vfs_wf s"
  by (induction rule: fs_reach.induct)
    (auto intro: fs_open_wf fs_close_wf fs_read_wf fs_write_wf fs_mkdir_wf fs_unlink_wf fs_rmdir_wf
      fs_dup2_wf fs_fork_wf fs_recycle_wf)

end
