(* ===== verification/Process.thy ===== *)
theory Process
  imports ProcMem VfsInv
begin

text \<open>
  Processes (src/kernel/proc/process.c, src/include/process.h): the process table, the status files under
  /proc, creation, fork, exec and teardown with their page tables, the scheduler, wait, kill and the
  one-slot mailbox.

  A slot of \<open>procs\<close> is named by its index; a \<open>struct process *\<close> that may be NULL is a \<open>nat option\<close>. The kernel
  stack of a slot is represented by the saved context at its top. A call that may block is split where it calls
  \<open>yield\<close>: the part before is one definition, which tells whether the caller goes on or blocks. The user
  programs (\<open>image\<close>) are byte lists. Log output is not modelled.
\<close>

section \<open>Data\<close>

definition PROC_NAME_MAX :: nat where [hdr_consts]: "PROC_NAME_MAX = 16"
definition PROC_EXEC_ARGV_MAX :: nat where "PROC_EXEC_ARGV_MAX = 8"
definition PROC_EXEC_ARG_LEN :: nat where "PROC_EXEC_ARG_LEN = 32"
definition SCHED_TIME_SLICE_TICKS :: u32 where "SCHED_TIME_SLICE_TICKS = 3"
datatype pstate = PROC_UNUSED | PROC_RUNNABLE | PROC_WAITTING | PROC_EXITED

datatype wait_reason = PROC_WAIT_NONE | PROC_WAIT_CONSOLE_INPUT | PROC_WAIT_CHILD_EXIT | PROC_WAIT_IPC_RECV

fun state_id :: "pstate \<Rightarrow> u32" where
  "state_id PROC_UNUSED = 0"
| "state_id PROC_RUNNABLE = 1"
| "state_id PROC_WAITTING = 2"
| "state_id PROC_EXITED = 3"

fun wait_reason_id :: "wait_reason \<Rightarrow> u32" where
  "wait_reason_id PROC_WAIT_NONE = 0"
| "wait_reason_id PROC_WAIT_CONSOLE_INPUT = 1"
| "wait_reason_id PROC_WAIT_CHILD_EXIT = 2"
| "wait_reason_id PROC_WAIT_IPC_RECV = 3"

text \<open>The registers of a trap.\<close>

record trap_frame =
  tf_ra :: u32
  tf_gp :: u32
  tf_tp :: u32
  tf_t0 :: u32
  tf_t1 :: u32
  tf_t2 :: u32
  tf_t3 :: u32
  tf_t4 :: u32
  tf_t5 :: u32
  tf_t6 :: u32
  tf_a0 :: u32
  tf_a1 :: u32
  tf_a2 :: u32
  tf_a3 :: u32
  tf_a4 :: u32
  tf_a5 :: u32
  tf_a6 :: u32
  tf_a7 :: u32
  tf_s0 :: u32
  tf_s1 :: u32
  tf_s2 :: u32
  tf_s3 :: u32
  tf_s4 :: u32
  tf_s5 :: u32
  tf_s6 :: u32
  tf_s7 :: u32
  tf_s8 :: u32
  tf_s9 :: u32
  tf_s10 :: u32
  tf_s11 :: u32
  tf_sp :: u32

text \<open>
  What \<open>p->sp\<close> points to: nothing, the frame of \<open>switch_context\<close> that enters user mode, the one built by fork
  (the copied trap frame, the saved \<open>s11\<close> and \<open>sstatus\<close>), or the one of a process that called \<open>yield\<close>.
\<close>

datatype kcontext =
    Ctx_none
  | Ctx_user_entry
  | Ctx_fork_return trap_frame u32 u32
  | Ctx_in_kernel u32

record process =
  p_pid :: int
  p_state :: pstate
  p_name :: "char list"
  p_wait_reason :: wait_reason
  p_wait_pid :: int
  p_parent_pid :: int
  p_user_pages :: u32
  p_ctx :: kcontext
  p_page_table :: u32
  p_time_slice :: u32
  p_run_ticks :: u32
  p_schedule_count :: u32
  p_ipc_has_message :: bool
  p_ipc_from_pid :: int
  p_ipc_message :: u32
  p_exec_argc :: int
  p_exec_argv :: "char list list"
  p_root_mount_idx :: int
  p_root_node_idx :: int
  p_root_path :: "char list"
  p_cwd_mount_idx :: int
  p_cwd_node_idx :: int
  p_cwd_path :: "char list"

record kstate =
  procs :: "nat \<Rightarrow> process"
  current_proc :: "nat option"
  idle_proc :: "nat option"
  init_proc :: "nat option"
  need_resched :: bool
  kernel_base :: u32
  free_ram_end :: u32
  csr_sepc :: u32
  csr_sstatus :: u32
  csr_satp :: u32
  csr_sscratch :: "nat option"
  procs_addr :: u32
  kmem :: mem_state
  kfs :: fs_state

definition upd :: "nat \<Rightarrow> (process \<Rightarrow> process) \<Rightarrow> kstate \<Rightarrow> kstate" where
  "upd i f s = s\<lparr>procs := (procs s)(i := f (procs s i))\<rparr>"

lemma upd_simps [simp]:
  "procs (upd i f s) j = (if j = i then f (procs s i) else procs s j)"
  "current_proc (upd i f s) = current_proc s" "init_proc (upd i f s) = init_proc s" "idle_proc (upd i f s) = idle_proc s"
  "kmem (upd i f s) = kmem s" "kfs (upd i f s) = kfs s" "need_resched (upd i f s) = need_resched s"
  "csr_satp (upd i f s) = csr_satp s" "csr_sepc (upd i f s) = csr_sepc s" "csr_sstatus (upd i f s) = csr_sstatus s"
  "csr_sscratch (upd i f s) = csr_sscratch s" "procs_addr (upd i f s) = procs_addr s" "kernel_base (upd i f s) = kernel_base s" "free_ram_end (upd i f s) = free_ram_end s"
  by (simp_all add: upd_def)

section \<open>Names and arguments\<close>

definition set_process_name :: "string option \<Rightarrow> process \<Rightarrow> process" where
  "set_process_name name p = p\<lparr>p_name :=
     (case name of None \<Rightarrow> replicate 16 NUL
      | Some n \<Rightarrow> overwrite (replicate 16 NUL) 0 (take (PROC_NAME_MAX - 1) n))\<rparr>"

definition clear_exec_args :: "process \<Rightarrow> process" where
  "clear_exec_args p = p\<lparr>p_exec_argc := 0,
     p_exec_argv := replicate PROC_EXEC_ARGV_MAX (replicate PROC_EXEC_ARG_LEN NUL)\<rparr>"

text \<open>The copy of one argument: up to and including its terminator, at most 31 characters.\<close>

definition copy_arg :: "char list \<Rightarrow> char list" where
  "copy_arg a = overwrite (replicate PROC_EXEC_ARG_LEN NUL) 0 (take (PROC_EXEC_ARG_LEN - 1) (cstr a))"

definition set_exec_args :: "int \<Rightarrow> char list list option \<Rightarrow> process \<Rightarrow> process" where
  "set_exec_args argc argv p0 =
     (let p = clear_exec_args p0
      in case argv of
           None \<Rightarrow> p
         | Some args \<Rightarrow>
             if argc \<le> 0 then p
             else let n = (if int PROC_EXEC_ARGV_MAX < argc then int PROC_EXEC_ARGV_MAX else argc)
               in p\<lparr>p_exec_argc := n,
                    p_exec_argv := overwrite (p_exec_argv p) 0 (map copy_arg (take (nat n) args))\<rparr>)"

definition find_process_by_pid :: "int \<Rightarrow> kstate \<Rightarrow> nat option" where
  "find_process_by_pid pid s =
     (if pid \<le> 0 then None
      else scan_from (\<lambda>i. p_pid (procs s i) = pid \<and> p_state (procs s i) \<noteq> PROC_UNUSED) 0 PROCS_MAX)"

section \<open>The status files\<close>

fun proc_state_str :: "pstate \<Rightarrow> string" where
  "proc_state_str PROC_UNUSED = ''UNUSED''"
| "proc_state_str PROC_RUNNABLE = ''RUN''"
| "proc_state_str PROC_WAITTING = ''WAIT''"
| "proc_state_str PROC_EXITED = ''EXIT''"

fun proc_wait_reason_str :: "wait_reason \<Rightarrow> string" where
  "proc_wait_reason_str PROC_WAIT_NONE = ''NONE''"
| "proc_wait_reason_str PROC_WAIT_CONSOLE_INPUT = ''CONSOLE_INPUT''"
| "proc_wait_reason_str PROC_WAIT_CHILD_EXIT = ''CHILD_EXIT''"
| "proc_wait_reason_str PROC_WAIT_IPC_RECV = ''IPC_RECV''"

definition str_len_k :: "char list \<Rightarrow> nat" where
  "str_len_k s = length (cstr s)"

definition append_char_k :: "nat \<Rightarrow> char \<Rightarrow> outbuf \<Rightarrow> int \<times> outbuf" where
  "append_char_k out_size c = (\<lambda>(out, pos).
     if out_size \<le> pos + 1 then (-1, (out, pos))
     else (0, (buf_set (buf_set out pos c) (pos + 1) NUL, pos + 1)))"

fun append_str_k :: "nat \<Rightarrow> string \<Rightarrow> outbuf \<Rightarrow> int \<times> outbuf" where
  "append_str_k out_size [] b = (0, b)"
| "append_str_k out_size (c # cs) b = chain (append_char_k out_size c b) (append_str_k out_size cs)"

definition append_u32_k :: "nat \<Rightarrow> u32 \<Rightarrow> outbuf \<Rightarrow> int \<times> outbuf" where
  "append_u32_k out_size v b =
     (if v = 0 then append_char_k out_size (digit_char 0) b
      else append_str_k out_size (rev (low_digits 10 (unat v))) b)"

definition append_key_val_u32 :: "nat \<Rightarrow> string \<Rightarrow> u32 \<Rightarrow> outbuf \<Rightarrow> int \<times> outbuf" where
  "append_key_val_u32 out_size key v = chain_all
     [append_str_k out_size key, append_str_k out_size [CHR '':'', CHR 0x09], append_u32_k out_size v,
      append_char_k out_size (CHR 0x0A)]"

definition append_key_val_str :: "nat \<Rightarrow> string \<Rightarrow> string \<Rightarrow> outbuf \<Rightarrow> int \<times> outbuf" where
  "append_key_val_str out_size key v = chain_all
     [append_str_k out_size key, append_str_k out_size [CHR '':'', CHR 0x09], append_str_k out_size v,
      append_char_k out_size (CHR 0x0A)]"

text \<open>The paths \<open>/proc/<pid>\<close> and \<open>/proc/<pid>/status\<close>, built in buffers of \<open>FS_PATH_MAX\<close> characters.\<close>

definition proc_dir_path :: "int \<Rightarrow> int \<times> outbuf" where
  "proc_dir_path pid =
     (let dir_path = strcat_s (replicate FS_PATH_MAX NUL) FS_PATH_MAX ''/proc/''
      in append_u32_k FS_PATH_MAX (of_int pid) (dir_path, str_len_k dir_path))"

definition proc_status_path :: "char list \<Rightarrow> char list" where
  "proc_status_path dir_path =
     strcat_s (strcpy_s (replicate FS_PATH_MAX NUL) FS_PATH_MAX (cstr dir_path)) FS_PATH_MAX ''/status''"

definition status_text :: "process \<Rightarrow> int \<times> outbuf" where
  "status_text p = chain_all
     [append_key_val_u32 256 ''pid'' (of_int (p_pid p)),
      append_key_val_u32 256 ''ppid'' (of_int (p_parent_pid p)),
      append_key_val_str 256 ''name'' (cstr (p_name p)),
      append_key_val_u32 256 ''state_id'' (state_id (p_state p)),
      append_key_val_str 256 ''state'' (proc_state_str (p_state p)),
      append_key_val_u32 256 ''wait_reason_id'' (wait_reason_id (p_wait_reason p)),
      append_key_val_str 256 ''wait_reason'' (proc_wait_reason_str (p_wait_reason p)),
      append_key_val_str 256 ''cwd'' (cstr (p_cwd_path p))] (replicate 256 NUL, 0)"

definition procfs_sync_process :: "process \<Rightarrow> fs_state \<Rightarrow> int \<times> fs_state" where
  "procfs_sync_process p fs =
     (if p_pid p \<le> 0 \<or> int PROCS_MAX \<le> p_pid p then (-1, fs)
      else
        let (r, dir_path, _) = proc_dir_path (p_pid p)
        in if r < 0 then (-1, fs)
           else
             let fs = snd (fs_mkdir (Some (cstr dir_path)) fs);
                 status_path = proc_status_path dir_path;
                 (r, content, _) = status_text p
             in if r < 0 then (-1, fs)
                else
                  let (fd, fs) = fs_open (p_pid p) (Some (cstr status_path)) (O_CREAT OR O_WRONLY OR O_TRUNC) fs
                  in if fd < 0 then (-1, fs)
                     else
                       let len = str_len_k content;
                           (written, fs) = fs_write (p_pid p) fd (Some (map of_char content)) (of_nat len) fs;
                           fs = snd (fs_close (p_pid p) fd fs)
                       in (if written = int len then 0 else -1, fs))"

definition procfs_sync_best_effort :: "process \<Rightarrow> fs_state \<Rightarrow> fs_state" where
  "procfs_sync_best_effort p fs = (if p_pid p \<le> 0 then fs else snd (procfs_sync_process p fs))"

definition procfs_cleanup :: "process \<Rightarrow> fs_state \<Rightarrow> int \<times> fs_state" where
  "procfs_cleanup p fs =
     (if p_pid p \<le> 0 \<or> int PROCS_MAX \<le> p_pid p then (-1, fs)
      else
        let (r, dir_path, _) = proc_dir_path (p_pid p)
        in if r < 0 then (-1, fs)
           else
             let fs = snd (fs_unlink (Some (cstr (proc_status_path dir_path))) fs);
                 fs = snd (fs_rmdir (Some (cstr dir_path)) fs)
             in (0, fs))"

abbreviation sync :: "nat \<Rightarrow> kstate \<Rightarrow> kstate" where
  "sync i s \<equiv> s\<lparr>kfs := procfs_sync_best_effort (procs s i) (kfs s)\<rparr>"

section \<open>Slots\<close>

definition free_process_memory :: "nat \<Rightarrow> kstate \<Rightarrow> kstate kres" where
  "free_process_memory i s =
     (let p = procs s i
      in if p_page_table p = 0 then Ok s
         else kbind (free_space (p_page_table p) (p_user_pages p) (kmem s)) (\<lambda>m.
           Ok (upd i (\<lambda>p. p\<lparr>p_page_table := 0, p_user_pages := 0\<rparr>) (s\<lparr>kmem := m\<rparr>))))"

definition reset_slot :: "process \<Rightarrow> process" where
  "reset_slot p = clear_exec_args ((set_process_name None (p\<lparr>p_state := PROC_UNUSED\<rparr>))
     \<lparr>p_wait_reason := PROC_WAIT_NONE, p_wait_pid := -1, p_parent_pid := 0, p_pid := 0, p_ctx := Ctx_none,
      p_time_slice := SCHED_TIME_SLICE_TICKS, p_run_ticks := 0, p_schedule_count := 0,
      p_ipc_has_message := False, p_ipc_from_pid := 0, p_ipc_message := 0\<rparr>)"

definition recycle_process_slot :: "nat \<Rightarrow> kstate \<Rightarrow> kstate kres" where
  "recycle_process_slot i s =
     (let fs = snd (procfs_cleanup (procs s i) (kfs s));
          fs = fs_on_process_recycle (p_pid (procs s i)) fs
      in kbind (free_process_memory i (s\<lparr>kfs := fs\<rparr>)) (\<lambda>s. Ok (upd i reset_slot s)))"

fun reap_loop :: "nat \<Rightarrow> nat \<Rightarrow> kstate \<Rightarrow> kstate kres" where
  "reap_loop i 0 s = Ok s"
| "reap_loop i (Suc n) s =
     (if p_state (procs s i) \<noteq> PROC_EXITED then reap_loop (Suc i) n s
      else if p_parent_pid (procs s i) = 0 then kbind (recycle_process_slot i s) (reap_loop (Suc i) n)
      else reap_loop (Suc i) n s)"

definition reap_exited_processes :: "kstate \<Rightarrow> kstate kres" where
  "reap_exited_processes s = reap_loop 0 PROCS_MAX s"

definition unused_slot :: "kstate \<Rightarrow> nat option" where
  "unused_slot s = scan_from (\<lambda>i. p_state (procs s i) = PROC_UNUSED) 0 PROCS_MAX"

text \<open>The assignments to the new slot at the end of \<open>create_process\<close>.\<close>

definition new_process :: "nat \<Rightarrow> string \<Rightarrow> u32 \<Rightarrow> u32 \<Rightarrow> int \<times> int \<Rightarrow> process \<Rightarrow> process" where
  "new_process i name user_pages page_table root p =
     (clear_exec_args ((set_process_name (Some name) (p\<lparr>p_pid := int i, p_state := PROC_RUNNABLE\<rparr>))
        \<lparr>p_wait_reason := PROC_WAIT_NONE, p_wait_pid := -1, p_parent_pid := 0, p_user_pages := user_pages,
         p_ctx := Ctx_user_entry, p_page_table := page_table, p_time_slice := SCHED_TIME_SLICE_TICKS,
         p_run_ticks := 0, p_schedule_count := 0, p_ipc_has_message := False, p_ipc_from_pid := 0,
         p_ipc_message := 0\<rparr>))
        \<lparr>p_root_mount_idx := fst root, p_root_node_idx := snd root,
         p_root_path := strcpy_s (p_root_path p) FS_PATH_MAX ''/'',
         p_cwd_mount_idx := fst root, p_cwd_node_idx := snd root,
         p_cwd_path := strcpy_s (p_cwd_path p) FS_PATH_MAX ''/''\<rparr>"

definition create_process :: "u8 list \<Rightarrow> string \<Rightarrow> kstate \<Rightarrow> (nat option \<times> kstate) kres" where
  "create_process img name s =
     kbind (reap_exited_processes s) (\<lambda>s.
     case unused_slot s of
       None \<Rightarrow> Ok (None, s)
     | Some i \<Rightarrow>
         kbind (alloc_pages 1 (kmem s)) (\<lambda>(page_table, m).
         kbind (map_kernel page_table (kernel_base s) (free_ram_end s) m) (\<lambda>m.
         kbind (load_image page_table USER_BASE img m) (\<lambda>m.
         let s = s\<lparr>kmem := m\<rparr>
         in case fs_get_root_entry (kfs s) of
              None \<Rightarrow> kbind (recycle_process_slot i s) (\<lambda>s. Ok (None, s))
            | Some root \<Rightarrow>
                Ok (Some i, sync i (upd i (new_process i name (image_pages img) page_table root) s))))))"

definition alloc_proc_slot :: "kstate \<Rightarrow> (nat option \<times> kstate) kres" where
  "alloc_proc_slot s =
     kbind (reap_exited_processes s) (\<lambda>s.
     case unused_slot s of
       None \<Rightarrow> Ok (None, s)
     | Some i \<Rightarrow> Ok (Some i, upd i (\<lambda>p. clear_exec_args (p\<lparr>p_pid := int i, p_state := PROC_UNUSED,
         p_wait_reason := PROC_WAIT_NONE, p_wait_pid := -1, p_parent_pid := 0\<rparr>)) s))"

text \<open>What the child takes over from its parent before its memory is built.\<close>

definition inherit :: "process \<Rightarrow> process \<Rightarrow> process" where
  "inherit parent p = p\<lparr>p_parent_pid := p_pid parent,
     p_name := strcpy_s (p_name p) PROC_NAME_MAX (cstr (p_name parent)),
     p_ipc_has_message := False, p_ipc_from_pid := 0, p_ipc_message := 0,
     p_exec_argc := p_exec_argc parent, p_exec_argv := p_exec_argv parent,
     p_root_mount_idx := p_root_mount_idx parent, p_root_node_idx := p_root_node_idx parent,
     p_root_path := strcpy_s (p_root_path p) FS_PATH_MAX (cstr (p_root_path parent)),
     p_cwd_mount_idx := p_cwd_mount_idx parent, p_cwd_node_idx := p_cwd_node_idx parent,
     p_cwd_path := strcpy_s (p_cwd_path p) FS_PATH_MAX (cstr (p_cwd_path parent))\<rparr>"

definition fork_fail :: "nat \<Rightarrow> kstate \<Rightarrow> (int \<times> kstate) kres" where
  "fork_fail child s = kbind (recycle_process_slot child s) (\<lambda>s. Ok (-1, s))"

definition fork_finish :: "nat \<Rightarrow> nat \<Rightarrow> trap_frame \<Rightarrow> kstate \<Rightarrow> (int \<times> kstate) kres" where
  "fork_finish cur child parent_tf s =
     (let s = upd child (\<lambda>p. p\<lparr>p_ctx := Ctx_fork_return (parent_tf\<lparr>tf_a0 := 0\<rparr>) (csr_sepc s + 4) (csr_sstatus s)\<rparr>) s;
          (r, fs) = fs_fork_copy_fds (p_pid (procs s cur)) (p_pid (procs s child)) (kfs s);
          s = s\<lparr>kfs := fs\<rparr>
      in if r < 0 then fork_fail child s
         else
           let s = upd child (\<lambda>p. p\<lparr>p_state := PROC_RUNNABLE, p_time_slice := SCHED_TIME_SLICE_TICKS,
                     p_run_ticks := 0, p_schedule_count := 0\<rparr>) s
           in Ok (p_pid (procs s child), sync child s))"

definition fork_memory :: "nat \<Rightarrow> nat \<Rightarrow> trap_frame \<Rightarrow> kstate \<Rightarrow> (int \<times> kstate) kres" where
  "fork_memory cur child parent_tf s =
     kbind (alloc_pages 1 (kmem s)) (\<lambda>(page_table, m).
     if page_table = 0 then fork_fail child (s\<lparr>kmem := m\<rparr>)
     else
       kbind (map_kernel page_table (kernel_base s) (free_ram_end s) m) (\<lambda>m.
       let s = upd child (\<lambda>p. p\<lparr>p_page_table := page_table,
                 p_user_pages := p_user_pages (procs s cur)\<rparr>) (s\<lparr>kmem := m\<rparr>)
       in kbind (copy_pages (p_page_table (procs s cur)) page_table 0
                   (unat (p_user_pages (procs s child))) (kmem s)) (\<lambda>(ok, m).
            if \<not> ok then fork_fail child (s\<lparr>kmem := m\<rparr>)
            else fork_finish cur child parent_tf (s\<lparr>kmem := m\<rparr>))))"

definition process_fork :: "trap_frame \<Rightarrow> kstate \<Rightarrow> (int \<times> kstate) kres" where
  "process_fork parent_tf s =
     kbind (alloc_proc_slot s) (\<lambda>(child, s).
     case child of
       None \<Rightarrow> Ok (-1, s)
     | Some child \<Rightarrow>
         (case current_proc s of
            None \<Rightarrow> fork_fail child s
          | Some cur \<Rightarrow>
              if p_state (procs s cur) \<noteq> PROC_RUNNABLE \<and> p_state (procs s cur) \<noteq> PROC_WAITTING
              then fork_fail child s
              else fork_memory cur child parent_tf (upd child (inherit (procs s cur)) s)))"

text \<open>The naked return path of a forked child: the resumed registers are those of the frame.\<close>

definition fork_child_trap_return :: "trap_frame \<Rightarrow> u32 \<Rightarrow> kstate \<Rightarrow> trap_frame \<times> kstate" where
  "fork_child_trap_return child_tf s11 s = (child_tf, s\<lparr>csr_sepc := s11\<rparr>)"

definition free_user_pages_only :: "nat \<Rightarrow> kstate \<Rightarrow> kstate kres" where
  "free_user_pages_only i s =
     (let p = procs s i
      in if p_page_table p = 0 then Ok s
         else kbind (free_user_pages (p_page_table p) 0 (unat (p_user_pages p)) (kmem s)) (\<lambda>m.
           Ok (upd i (\<lambda>p. p\<lparr>p_user_pages := 0\<rparr>) (s\<lparr>kmem := m\<rparr>))))"

definition process_exec :: "u8 list \<Rightarrow> string \<Rightarrow> int \<Rightarrow> char list list option \<Rightarrow> kstate \<Rightarrow> (int \<times> kstate) kres" where
  "process_exec img name argc argv s =
     (case current_proc s of
        None \<Rightarrow> Ok (-1, s)
      | Some cur \<Rightarrow>
          if img = [] then Ok (-1, s)
          else
            kbind (free_user_pages_only cur s) (\<lambda>s.
            kbind (exec_load_image (p_page_table (procs s cur)) USER_BASE img (kmem s)) (\<lambda>(ok, m).
            let s = s\<lparr>kmem := m\<rparr>
            in if \<not> ok then Ok (-1, s)
               else
                 let s = upd cur (\<lambda>p. set_exec_args argc argv ((set_process_name (Some name)
                           (p\<lparr>p_user_pages := image_pages img\<rparr>))
                           \<lparr>p_wait_reason := PROC_WAIT_NONE, p_wait_pid := -1,
                            p_time_slice := SCHED_TIME_SLICE_TICKS, p_run_ticks := 0\<rparr>)) s
                 in Ok (0, (sync cur s)\<lparr>csr_sepc := USER_BASE\<rparr>))))"

text \<open>
  The kernel stack of slot \<open>i\<close>: \<open>struct process\<close> has 8668 bytes (the fields above packed at word alignment), the
  last 8192 of which are the stack.
\<close>

definition stack_base :: "u32 \<Rightarrow> nat \<Rightarrow> u32" where
  "stack_base base i = base + of_nat i * 8668 + 476"

definition process_from_trap_frame :: "u32 \<Rightarrow> kstate \<Rightarrow> nat option" where
  "process_from_trap_frame addr s =
     (if addr = 0 then None
      else scan_from (\<lambda>i. stack_base (procs_addr s) i \<le> addr \<and> addr < stack_base (procs_addr s) i + 8192) 0 PROCS_MAX)"

end
