(* ===== verification/Sched.thy ===== *)
theory Sched
  imports Process
begin

text \<open>
  The scheduler and the calls that block or wake processes (src/kernel/proc/process.c): the timer tick, \<open>yield\<close>
  with the context switch, waiting for a child, the one-slot mailbox, and \<open>kill\<close>.

  A call that blocks sets the state of the caller and calls \<open>yield\<close> inside a loop. It is modelled by one turn of
  that loop: \<open>Done r\<close> when the call returns \<open>r\<close>, and \<open>Blocked\<close> when the caller has been set to wait and calls
  \<open>yield\<close>; it makes another turn when it is scheduled again. \<open>No_return\<close> is a caller
  that has exited and yielded for good. \<open>yield\<close> itself is one turn of its scan: it goes on
  with the same process, switches to another one, or waits for an interrupt because nothing can run.
\<close>

datatype 'a call = Done 'a | Blocked | No_return

section \<open>Scheduling\<close>

definition scheduler_on_timer_tick :: "kstate \<Rightarrow> kstate" where
  "scheduler_on_timer_tick s =
     (case current_proc s of
        None \<Rightarrow> s
      | Some c \<Rightarrow>
          if p_state (procs s c) \<noteq> PROC_RUNNABLE \<or> p_pid (procs s c) \<le> 0 then s
          else
            let s = upd c (\<lambda>p. p\<lparr>p_run_ticks := p_run_ticks p + 1\<rparr>) s;
                s = (if 0 < p_time_slice (procs s c) then upd c (\<lambda>p. p\<lparr>p_time_slice := p_time_slice p - 1\<rparr>) s else s)
            in if p_time_slice (procs s c) = 0 then s\<lparr>need_resched := True\<rparr> else s)"

definition scheduler_should_yield :: "kstate \<Rightarrow> bool" where
  "scheduler_should_yield s = need_resched s"

definition SATP_SV32 :: u32 where "SATP_SV32 = push_bit 31 1"

text \<open>The \<open>sstatus\<close> value in the frame that \<open>switch_context\<close> restores.\<close>

fun ctx_sstatus :: "kcontext \<Rightarrow> u32 \<Rightarrow> u32" where
  "ctx_sstatus Ctx_none x = x"
| "ctx_sstatus Ctx_user_entry x = 0"
| "ctx_sstatus (Ctx_fork_return tf s11 sst) x = sst"
| "ctx_sstatus (Ctx_in_kernel sst) x = sst"

definition switch_context :: "nat \<Rightarrow> nat \<Rightarrow> kstate \<Rightarrow> kstate" where
  "switch_context prev next s =
     (let s' = upd prev (\<lambda>p. p\<lparr>p_ctx := Ctx_in_kernel (csr_sstatus s)\<rparr>) s
      in s'\<lparr>csr_sstatus := ctx_sstatus (p_ctx (procs s' next)) (csr_sstatus s)\<rparr>)"

text \<open>The slot that the scan looks at in step \<open>i\<close>, and the process it finds.\<close>

definition scan_slot :: "kstate \<Rightarrow> nat \<Rightarrow> nat" where
  "scan_slot s i = nat ((p_pid (procs s (the (current_proc s))) + int i) mod int PROCS_MAX)"

definition schedulable :: "process \<Rightarrow> bool" where
  "schedulable p \<longleftrightarrow> p_state p = PROC_RUNNABLE \<and> 0 < p_pid p"

definition pick_next :: "kstate \<Rightarrow> nat option" where
  "pick_next s = map_option (scan_slot s) (scan_from (\<lambda>i. schedulable (procs s (scan_slot s i))) 0 PROCS_MAX)"

datatype turn = Wait_interrupt | Continue | Switched

definition yield_turn :: "kstate \<Rightarrow> turn \<times> kstate" where
  "yield_turn s =
     (let cur = the (current_proc s)
      in case pick_next s of
           None \<Rightarrow> (Wait_interrupt, s\<lparr>csr_sscratch := Some cur\<rparr>)
         | Some next \<Rightarrow>
             if next = cur
             then (Continue, (upd cur (\<lambda>p. if p_time_slice p = 0 then p\<lparr>p_time_slice := SCHED_TIME_SLICE_TICKS\<rparr> else p) s)
                     \<lparr>csr_sscratch := Some cur, need_resched := False\<rparr>)
             else
               let s = upd next (\<lambda>p. p\<lparr>p_time_slice := SCHED_TIME_SLICE_TICKS,
                         p_schedule_count := p_schedule_count p + 1\<rparr>) s;
                   s = s\<lparr>need_resched := False, csr_satp := SATP_SV32 OR p_page_table (procs s next) div 4096,
                         csr_sscratch := Some next, current_proc := Some next\<rparr>
               in (Switched, switch_context cur next s))"

definition yield :: "kstate \<Rightarrow> (turn \<times> kstate) kres" where
  "yield s = kbind (reap_exited_processes s) (\<lambda>s. Ok (yield_turn s))"

section \<open>Waking\<close>

definition wake :: "nat \<Rightarrow> kstate \<Rightarrow> kstate" where
  "wake i s = sync i (upd i (\<lambda>p. p\<lparr>p_state := PROC_RUNNABLE, p_wait_reason := PROC_WAIT_NONE, p_wait_pid := -1\<rparr>) s)"

definition wakeup_input_waiters :: "kstate \<Rightarrow> kstate" where
  "wakeup_input_waiters s = fold (\<lambda>i s.
     if p_state (procs s i) = PROC_WAITTING \<and> p_wait_reason (procs s i) = PROC_WAIT_CONSOLE_INPUT
     then wake i s else s) [0 ..< PROCS_MAX] s"

definition notify_child_exit :: "nat \<Rightarrow> kstate \<Rightarrow> kstate" where
  "notify_child_exit child s =
     (let parent_pid = p_parent_pid (procs s child)
      in if parent_pid \<le> 0 then s
         else fold (\<lambda>i s.
           let p = procs s i
           in if p_pid p \<noteq> parent_pid \<or> p_state p \<noteq> PROC_WAITTING then s
              else if p_wait_reason p \<noteq> PROC_WAIT_CHILD_EXIT then s
              else if p_wait_pid p = -1 \<or> p_wait_pid p = p_pid (procs s child) then wake i s
              else s) [0 ..< PROCS_MAX] s)"

definition orphan_children :: "int \<Rightarrow> kstate \<Rightarrow> kstate" where
  "orphan_children parent_pid s =
     (if parent_pid \<le> 0 then s
      else fold (\<lambda>i s. if p_parent_pid (procs s i) = parent_pid then upd i (\<lambda>p. p\<lparr>p_parent_pid := 0\<rparr>) s else s)
        [0 ..< PROCS_MAX] s)"

section \<open>Waiting, messages, kill\<close>

definition is_child :: "int \<Rightarrow> int \<Rightarrow> process \<Rightarrow> bool" where
  "is_child parent_pid target_pid p \<longleftrightarrow>
     p_state p \<noteq> PROC_UNUSED \<and> p_parent_pid p = parent_pid \<and> (target_pid = -1 \<or> p_pid p = target_pid)"

definition block :: "wait_reason \<Rightarrow> int \<Rightarrow> nat \<Rightarrow> kstate \<Rightarrow> kstate" where
  "block reason pid i s = sync i (upd i (\<lambda>p. p\<lparr>p_wait_reason := reason, p_wait_pid := pid, p_state := PROC_WAITTING\<rparr>) s)"

definition wait_for_child_exit :: "int \<Rightarrow> int \<Rightarrow> kstate \<Rightarrow> (int call \<times> kstate) kres" where
  "wait_for_child_exit parent_pid target_pid s =
     (if parent_pid \<le> 0 then Ok (Done (-1), s)
      else
        case scan_from (\<lambda>i. is_child parent_pid target_pid (procs s i) \<and> p_state (procs s i) = PROC_EXITED) 0 PROCS_MAX of
          Some i \<Rightarrow> kbind (recycle_process_slot i s) (\<lambda>s'. Ok (Done (p_pid (procs s i)), s'))
        | None \<Rightarrow>
            (if scan_from (\<lambda>i. is_child parent_pid target_pid (procs s i)) 0 PROCS_MAX = None then Ok (Done (-1), s)
             else Ok (Blocked, block PROC_WAIT_CHILD_EXIT target_pid (the (current_proc s)) s)))"

definition process_ipc_send :: "int \<Rightarrow> int \<Rightarrow> u32 \<Rightarrow> kstate \<Rightarrow> int \<times> kstate" where
  "process_ipc_send src_pid dst_pid message s =
     (case find_process_by_pid dst_pid s of
        None \<Rightarrow> (-1, s)
      | Some dst \<Rightarrow>
          if p_state (procs s dst) = PROC_EXITED then (-1, s)
          else if p_ipc_has_message (procs s dst) then (-2, s)
          else
            let s = upd dst (\<lambda>p. p\<lparr>p_ipc_has_message := True, p_ipc_from_pid := src_pid, p_ipc_message := message\<rparr>) s
            in (0, if p_state (procs s dst) = PROC_WAITTING \<and> p_wait_reason (procs s dst) = PROC_WAIT_IPC_RECV
                   then wake dst s else s))"

text \<open>The result of a receive: the sender and the message, \<open>None\<close> for the return value -1.\<close>

definition process_ipc_recv :: "int \<Rightarrow> kstate \<Rightarrow> (int \<times> u32) option call \<times> kstate" where
  "process_ipc_recv self_pid s =
     (case find_process_by_pid self_pid s of
        None \<Rightarrow> (Done None, s)
      | Some self \<Rightarrow>
          if \<not> p_ipc_has_message (procs s self)
          then (Blocked, block PROC_WAIT_IPC_RECV (-1) self s)
          else (Done (Some (p_ipc_from_pid (procs s self), p_ipc_message (procs s self))),
                upd self (\<lambda>p. p\<lparr>p_ipc_has_message := False, p_ipc_from_pid := 0, p_ipc_message := 0\<rparr>) s))"

definition mark_exited :: "nat \<Rightarrow> kstate \<Rightarrow> kstate" where
  "mark_exited i s =
     upd i (\<lambda>p. p\<lparr>p_state := PROC_EXITED, p_wait_reason := PROC_WAIT_NONE, p_wait_pid := -1\<rparr>) s"

text \<open>A process that kills itself yields for good: it is an error if it is resumed.\<close>

definition process_kill :: "int \<Rightarrow> kstate \<Rightarrow> (int call \<times> kstate) kres" where
  "process_kill target_pid s =
     (if target_pid \<le> 0 then Ok (Done (-1), s)
      else
        case find_process_by_pid target_pid s of
          None \<Rightarrow> Ok (Done (-2), s)
        | Some target \<Rightarrow>
            if p_state (procs s target) = PROC_EXITED then Ok (Done (-2), s)
            else if init_proc s = Some target then Ok (Done (-3), s)
            else
              let killed_pid = p_pid (procs s target);
                  s = notify_child_exit target (sync target (mark_exited target (orphan_children killed_pid s)));
                  s = upd target (\<lambda>p. p\<lparr>p_parent_pid := 0\<rparr>) s
              in if current_proc s = Some target
                 then kbind (yield s) (\<lambda>(t, s).
                   if t = Continue then PANIC ''killed process resumed unexpectedly'' else Ok (No_return, s))
                 else kbind (recycle_process_slot target s) (\<lambda>s. Ok (Done killed_pid, s)))"

end
