(* ===== verification/Console.thy ===== *)
theory Console
  imports Prelude
begin

text \<open>
  The console input buffer of src/kernel/trap/syscall_console.c: a ring of 64 characters between the polling of
  the SBI console and \<open>getchar\<close>. The characters that the firmware has ready are a list; \<open>getchar()\<close> takes the
  first one and returns a negative number when there is none. The locale \<open>bounded_queue\<close> is the contract of the
  buffer that its clients rely on: a queue of bounded size.
\<close>

section \<open>The ring buffer\<close>

record console =
  input_buf :: "u8 list"
  input_head :: u32
  input_tail :: u32
  input_count :: u32

definition input_pop :: "console \<Rightarrow> (u8 \<times> console) option" where
  "input_pop c =
     (if input_count c = 0 then None
      else Some (input_buf c ! unat (input_head c),
             c\<lparr>input_head := (input_head c + 1) mod 64, input_count := input_count c - 1\<rparr>))"

definition input_push :: "u8 \<Rightarrow> console \<Rightarrow> console" where
  "input_push ch c =
     c\<lparr>input_buf := buf_set (input_buf c) (unat (input_tail c)) ch,
       input_tail := (input_tail c + 1) mod 64, input_count := input_count c + 1\<rparr>"

text \<open>The loop of \<open>poll_console_input\<close>: what is left in the firmware, and the buffer.\<close>

fun poll_loop :: "u8 list \<Rightarrow> console \<Rightarrow> u8 list \<times> console" where
  "poll_loop [] c = ([], c)"
| "poll_loop (ch # chs) c = (if input_count c < 64 then poll_loop chs (input_push ch c) else (ch # chs, c))"

definition empty_console :: console where
  "empty_console = \<lparr>input_buf = replicate 64 0, input_head = 0, input_tail = 0, input_count = 0\<rparr>"

section \<open>The contract\<close>

text \<open>A first-in first-out queue that holds at most \<open>cap\<close> elements; \<open>queue\<close> is the abstract state.\<close>

locale bounded_queue =
  fixes queue :: "'s \<Rightarrow> 'a list" and inv :: "'s \<Rightarrow> bool" and cap :: nat
    and push :: "'a \<Rightarrow> 's \<Rightarrow> 's" and pop :: "'s \<Rightarrow> ('a \<times> 's) option" and full :: "'s \<Rightarrow> bool"
  assumes push_inv: "inv s \<Longrightarrow> \<not> full s \<Longrightarrow> inv (push x s)"
    and push_queue: "inv s \<Longrightarrow> \<not> full s \<Longrightarrow> queue (push x s) = queue s @ [x]"
    and full_iff: "inv s \<Longrightarrow> full s \<longleftrightarrow> length (queue s) = cap"
    and bounded: "inv s \<Longrightarrow> length (queue s) \<le> cap"
    and pop_None: "inv s \<Longrightarrow> pop s = None \<longleftrightarrow> queue s = []"
    and pop_Some: "inv s \<Longrightarrow> pop s = Some (x, s') \<Longrightarrow> queue s = x # queue s' \<and> inv s'"
begin

fun push_all :: "'a list \<Rightarrow> 's \<Rightarrow> 'a list \<times> 's" where
  "push_all [] s = ([], s)"
| "push_all (x # xs) s = (if full s then (x # xs, s) else push_all xs (push x s))"

lemma push_all_queue:
  assumes "inv s"
  shows "inv (snd (push_all xs s)) \<and>
    queue (snd (push_all xs s)) = queue s @ take (cap - length (queue s)) xs \<and>
    fst (push_all xs s) = drop (cap - length (queue s)) xs"
  using assms
proof (induction xs arbitrary: s)
  case Nil
  then show ?case by simp
next
  case (Cons x xs)
  show ?case
  proof (cases "full s")
    case True
    then show ?thesis using Cons.prems by (simp add: full_iff)
  next
    case False
    then have "length (queue s) < cap"
      using Cons.prems bounded [of s] by (simp add: full_iff)
    then obtain k where k: "cap - length (queue s) = Suc k" by (metis Suc_diff_Suc)
    then have k': "cap - length (queue s @ [x]) = k" by simp
    show ?thesis
      using Cons.IH [OF push_inv [OF Cons.prems False]] False Cons.prems k k'
      by (simp add: push_queue)
  qed
qed

text \<open>Popping until the queue is empty returns the elements in the order they were pushed.\<close>

fun pop_n :: "nat \<Rightarrow> 's \<Rightarrow> 'a list \<times> 's" where
  "pop_n 0 s = ([], s)"
| "pop_n (Suc n) s = (case pop s of None \<Rightarrow> ([], s)
     | Some (x, s') \<Rightarrow> (let (xs, s'') = pop_n n s' in (x # xs, s'')))"

lemma pop_n_queue:
  "inv s \<Longrightarrow> fst (pop_n n s) = take n (queue s) \<and> queue (snd (pop_n n s)) = drop n (queue s) \<and> inv (snd (pop_n n s))"
proof (induction n arbitrary: s)
  case 0
  then show ?case by simp
next
  case (Suc n)
  show ?case
  proof (cases "pop s")
    case None
    moreover from this have "queue s = []" using Suc.prems by (simp add: pop_None)
    ultimately show ?thesis using Suc.prems by simp
  next
    case (Some p)
    obtain x s' where p: "p = (x, s')" by (cases p)
    have q: "queue s = x # queue s'" "inv s'"
      using pop_Some [OF Suc.prems, of x s'] Some p by auto
    show ?thesis using Suc.IH [OF q(2)] Some p q(1) by (simp add: case_prod_beta Let_def)
  qed
qed

end

section \<open>The ring implements the queue\<close>

definition con_queue :: "console \<Rightarrow> u8 list" where
  "con_queue c = map (\<lambda>k. input_buf c ! ((unat (input_head c) + k) mod 64)) [0 ..< unat (input_count c)]"

definition con_inv :: "console \<Rightarrow> bool" where
  "con_inv c \<longleftrightarrow> length (input_buf c) = 64 \<and> input_head c < 64 \<and> input_count c \<le> 64 \<and>
     unat (input_tail c) = (unat (input_head c) + unat (input_count c)) mod 64"

lemma unat_mod_64 [simp]: "unat (x mod 64 :: u32) = unat x mod 64"
  by (simp add: unat_mod_numeral)

lemma con_invD:
  assumes "con_inv c"
  shows "unat (input_head c) < 64" "unat (input_count c) \<le> 64" "length (input_buf c) = 64" "unat (input_tail c) < 64"
  using assms by (auto simp: con_inv_def word_less_nat_alt word_le_nat_alt)

lemma unat_inc_small: "unat (x :: u32) \<le> 64 \<Longrightarrow> unat (x + 1) = unat x + 1"
  by (simp add: unat_word_ariths)

lemma ring_slot_free:
  fixes h n k :: nat
  assumes "h < 64" "k < n" "n < 64"
  shows "(h + k) mod 64 \<noteq> (h + n) mod 64"
proof
  assume e: "(h + k) mod 64 = (h + n) mod 64"
  have "(h + n - (h + k)) mod 64 = 0" using assms e by (metis mod_eq_dvd_iff_nat add_le_cancel_left dvd_imp_mod_0 less_imp_le)
  then show False using assms by simp
qed

lemma input_push_queue:
  assumes "con_inv c" "input_count c < 64"
  shows "con_inv (input_push ch c)" "con_queue (input_push ch c) = con_queue c @ [ch]"
proof -
  note d = con_invD [OF assms(1)]
  let ?h = "unat (input_head c)" and ?n = "unat (input_count c)"
  have n: "?n < 64" using assms(2) by (simp add: word_less_nat_alt)
  have u: "unat (input_count c + 1) = Suc ?n" "unat (input_tail c + 1) = unat (input_tail c) + 1"
    using unat_inc_small [of "input_count c"] unat_inc_small [of "input_tail c"] n d(4) by auto
  have t: "unat (input_tail c) = (?h + ?n) mod 64" using assms(1) by (simp add: con_inv_def)
  have "(unat (input_tail c) + 1) mod 64 = (?h + Suc ?n) mod 64" by (simp add: t mod_Suc_eq)
  then show "con_inv (input_push ch c)"
    using assms d n u by (simp add: con_inv_def input_push_def word_less_nat_alt word_le_nat_alt)
  have "(input_buf c)[unat (input_tail c) := ch] ! ((?h + k) mod 64) =
      (if k = ?n then ch else input_buf c ! ((?h + k) mod 64))" if "k \<le> ?n" for k
    using that d(3,4) t ring_slot_free [of ?h k ?n] n d(1) by (auto simp: nth_list_update)
  then show "con_queue (input_push ch c) = con_queue c @ [ch]"
    using d u(1) by (simp add: con_queue_def input_push_def)
qed

lemma input_pop_queue:
  assumes "con_inv c" "input_pop c = Some (ch, c')"
  shows "con_queue c = ch # con_queue c'" "con_inv c'"
proof -
  note d = con_invD [OF assms(1)]
  let ?h = "unat (input_head c)" and ?n = "unat (input_count c)"
  have nz: "input_count c \<noteq> 0" and ch: "ch = input_buf c ! ?h"
    and c': "c' = c\<lparr>input_head := (input_head c + 1) mod 64, input_count := input_count c - 1\<rparr>"
    using assms(2) by (auto simp: input_pop_def split: if_splits)
  obtain m where m: "?n = Suc m" using nz by (metis not0_implies_Suc unat_eq_zero)
  have u: "unat (input_count c - 1) = m" "unat (input_head c + 1) = ?h + 1"
    using m unat_inc_small [of "input_head c"] d(1) nz by (auto simp: unat_sub word_le_nat_alt)
  have idx: "(Suc ?h mod 64 + k) mod 64 = Suc (?h + k) mod 64" for k
    by (simp add: mod_add_left_eq)
  have "[0 ..< Suc m] = 0 # map Suc [0 ..< m]"
    by (simp add: upt_conv_Cons map_Suc_upt del: upt_Suc)
  then show "con_queue c = ch # con_queue c'"
    using d(1) by (simp add: con_queue_def c' m u idx ch del: upt_Suc)
  show "con_inv c'"
    using assms(1) d m u by (simp add: con_inv_def c' word_less_nat_alt word_le_nat_alt mod_Suc_eq mod_add_left_eq)
qed

interpretation con: bounded_queue con_queue con_inv 64 input_push input_pop "\<lambda>c. \<not> input_count c < 64"
proof
  fix c :: console and x assume "con_inv c" "\<not> \<not> input_count c < 64"
  then show "con_inv (input_push x c)" "con_queue (input_push x c) = con_queue c @ [x]"
    by (auto intro: input_push_queue)
next
  fix c :: console assume c: "con_inv c"
  have l: "length (con_queue c) = unat (input_count c)" by (simp add: con_queue_def)
  show "\<not> input_count c < 64 \<longleftrightarrow> length (con_queue c) = 64" "length (con_queue c) \<le> 64"
    using con_invD [OF c] by (auto simp: l word_less_nat_alt)
  show "input_pop c = None \<longleftrightarrow> con_queue c = []"
    by (simp add: input_pop_def con_queue_def unat_eq_zero)
next
  fix c c' :: console and x assume "con_inv c" "input_pop c = Some (x, c')"
  then show "con_queue c = x # con_queue c' \<and> con_inv c'" by (auto dest: input_pop_queue)
qed

lemma poll_loop_push_all: "poll_loop chs c = con.push_all chs c"
  by (induction chs c rule: poll_loop.induct) simp_all

lemma empty_console_inv: "con_inv empty_console" "con_queue empty_console = []"
  by (simp_all add: con_inv_def con_queue_def empty_console_def)

section \<open>Properties\<close>

text \<open>C38: Polling moves characters from the firmware to the buffer in order until the buffer holds 64 of them, leaves the
  rest in the firmware, and popping returns the buffered characters in the order they arrived.\<close>

theorem console_is_fifo:
  assumes "con_inv c" "poll_loop chs c = (rest, c')"
  shows "con_inv c' \<and> con_queue c @ chs = con_queue c' @ rest \<and>
    (rest \<noteq> [] \<longrightarrow> length (con_queue c') = 64) \<and>
    (\<forall>n. fst (con.pop_n n c') = take n (con_queue c'))"
proof -
  have "con_inv c'" "con_queue c' = con_queue c @ take (64 - length (con_queue c)) chs"
    "rest = drop (64 - length (con_queue c)) chs"
    using con.push_all_queue [OF assms(1), of chs] assms(2) by (auto simp: poll_loop_push_all)
  moreover have "length (con_queue c) \<le> 64" by (rule con.bounded [OF assms(1)])
  ultimately show ?thesis using con.pop_n_queue [of c'] by auto
qed

theorem console_is_fifo_witness:
  "con_inv (snd (poll_loop [104, 105] empty_console)) \<and>
   con_queue empty_console @ [104, 105] = con_queue (snd (poll_loop [104, 105] empty_console)) @ []"
proof -
  have "poll_loop [104, 105] empty_console = ([], snd (poll_loop [104, 105] empty_console))"
    by (simp add: empty_console_def input_push_def)
  from console_is_fifo [OF empty_console_inv(1) this] show ?thesis by blast
qed

end
