(* ===== verification/Rtc.thy ===== *)
theory Rtc
  imports CommonLibs
begin

text \<open>
  The real-time clock (src/kernel/rtc/rtc.c) and its system call's division (src/kernel/trap/syscall_time.c).
  The device is a clock: \<open>clk n\<close> is its time in nanoseconds when register read number \<open>n\<close> happens, and a read
  returns one half of it. The read loop of \<open>rtc_now_ns\<close> is a partial function: \<open>None\<close> is a loop that never ends.
\<close>

definition RTC_TIME_LOW :: u32 where "RTC_TIME_LOW = 0"
definition RTC_TIME_HIGH :: u32 where "RTC_TIME_HIGH = 4"

type_synonym rtc_clock = "nat \<Rightarrow> u64"

definition rtc_read32 :: "rtc_clock \<Rightarrow> nat \<Rightarrow> u32 \<Rightarrow> u32" where
  "rtc_read32 clk n off = (if off = RTC_TIME_HIGH then ucast (drop_bit 32 (clk n)) else ucast (clk n))"

text \<open>\<open>rtc_init\<close> makes two reads and always succeeds.\<close>

definition rtc_init :: "nat \<Rightarrow> int \<times> nat" where
  "rtc_init n = (0, n + 2)"

partial_function (option) rtc_now_ns :: "rtc_clock \<Rightarrow> nat \<Rightarrow> (u64 \<times> nat) option" where
  "rtc_now_ns clk n =
     (let hi1 = rtc_read32 clk n RTC_TIME_HIGH;
          lo = rtc_read32 clk (n + 1) RTC_TIME_LOW;
          hi2 = rtc_read32 clk (n + 2) RTC_TIME_HIGH
      in if hi1 \<noteq> hi2 then rtc_now_ns clk (n + 3)
         else Some (push_bit 32 (ucast hi1) OR ucast lo, n + 3))"

declare rtc_now_ns.simps [code]

definition udiv64_32 :: "u64 \<Rightarrow> u32 \<Rightarrow> u32" where
  "udiv64_32 n d = (case udiv64_loop 64 n (ucast d) 0 0 of (q, rem) \<Rightarrow> ucast q)"

definition rtc_now_sec :: "rtc_clock \<Rightarrow> nat \<Rightarrow> (u32 \<times> nat) option" where
  "rtc_now_sec clk n = map_option (\<lambda>(t, n). (udiv64_32 t 1000000000, n)) (rtc_now_ns clk n)"

section \<open>The two halves make a time\<close>

definition hi32 :: "u64 \<Rightarrow> u32" where "hi32 t = ucast (drop_bit 32 t)"

lemma unat_hi32: "unat (hi32 t) = unat t div 2 ^ 32"
proof -
  have "unat t < 2 ^ 64" using unat_lt [of t] by simp
  then have "unat t div 2 ^ 32 < 2 ^ 32" by (simp add: less_mult_imp_div_less)
  then show ?thesis
    unfolding hi32_def unsigned_ucast_eq unsigned_drop_bit_eq drop_bit_eq_div by (simp add: take_bit_eq_mod unat_div_numeral)
qed

lemma unat_lo32: "unat (ucast (t :: u64) :: u32) = unat t mod 2 ^ 32"
  by (simp add: unsigned_ucast_eq take_bit_eq_mod)

lemma join_halves: "unat (push_bit 32 (ucast (h :: u32)) OR ucast (l :: u32) :: u64) = unat h * 2 ^ 32 + unat l"
proof -
  have b: "unat h < 2 ^ 32" "unat l < 2 ^ 32" using unat_lt [of h] unat_lt [of l] by simp_all
  have "unat (push_bit 32 (ucast h :: u64)) = unat h * 2 ^ 32"
    using b by (simp add: push_bit_eq_mult unat_word_ariths unat_ucast_up)
  moreover have "push_bit 32 (ucast h :: u64) AND ucast l = 0"
  proof (rule bit_word_eqI)
    fix k assume "k < LENGTH(64)"
    have "\<not> bit l k" if "32 \<le> k" using that bit_imp_le_length [of l k] by auto
    then show "bit (push_bit 32 (ucast h :: u64) AND ucast l) k = bit (0 :: u64) k"
      by (auto simp: bit_and_iff bit_push_bit_iff bit_ucast_iff)
  qed
  then have "push_bit 32 (ucast h :: u64) OR ucast l = push_bit 32 (ucast h) + ucast l"
    by (rule disjunctive_add_eq_or [symmetric])
  moreover have "unat h * 2 ^ 32 + unat l < 2 ^ 64" using b by auto
  ultimately show ?thesis using b by (simp add: unat_word_ariths unat_ucast_up)
qed

lemma rtc_unfold:
  "rtc_now_ns clk n =
     (if hi32 (clk n) \<noteq> hi32 (clk (n + 2)) then rtc_now_ns clk (n + 3)
      else Some (push_bit 32 (ucast (hi32 (clk n))) OR ucast (ucast (clk (n + 1)) :: u32), n + 3))"
  by (subst rtc_now_ns.simps) (simp add: rtc_read32_def RTC_TIME_LOW_def RTC_TIME_HIGH_def hi32_def Let_def)

lemma consistent_read:
  fixes a b c :: u64
  assumes "a \<le> b" "b \<le> c" "hi32 a = hi32 c"
  shows "push_bit 32 (ucast (hi32 a)) OR ucast (ucast b :: u32) = b"
proof -
  have "unat a div 2 ^ 32 \<le> unat b div 2 ^ 32" "unat b div 2 ^ 32 \<le> unat c div 2 ^ 32"
    using assms(1,2) by (auto simp: word_le_nat_alt intro: div_le_mono)
  moreover have "unat a div 2 ^ 32 = unat c div 2 ^ 32" using assms(3) unat_hi32 by metis
  ultimately have "unat (hi32 a) = unat b div 2 ^ 32" by (simp add: unat_hi32)
  then have "unat (push_bit 32 (ucast (hi32 a)) OR ucast (ucast b :: u32) :: u64) = unat b"
    unfolding join_halves unat_lo32 by simp
  then show ?thesis by (simp add: word_unat_eq_iff)
qed

text \<open>The loop leaves with the exact time of one of its reads, and it leaves as soon as the upper half is
  stable over one round.\<close>

lemma rtc_now_ns_sound:
  assumes mono: "\<And>i j. i \<le> j \<Longrightarrow> clk i \<le> clk j" and r: "rtc_now_ns clk n = Some (t, n')"
  shows "\<exists>k. n \<le> k \<and> k < n' \<and> t = clk k"
proof -
  have "c = clk \<longrightarrow> (\<exists>k. n \<le> k \<and> k < snd r \<and> fst r = clk k)" if "rtc_now_ns c n = Some r" for c n r
  proof (rule rtc_now_ns.raw_induct [OF _ that])
    fix rec c n r
    assume IH: "\<And>c n r. rec c n = Some r \<Longrightarrow> c = clk \<longrightarrow> (\<exists>k. n \<le> k \<and> k < snd r \<and> fst r = clk k)"
      and a: "(let hi1 = rtc_read32 c n RTC_TIME_HIGH; lo = rtc_read32 c (n + 1) RTC_TIME_LOW;
          hi2 = rtc_read32 c (n + 2) RTC_TIME_HIGH
        in if hi1 \<noteq> hi2 then rec c (n + 3) else Some (push_bit 32 (ucast hi1) OR ucast lo, n + 3)) = Some r"
    show "c = clk \<longrightarrow> (\<exists>k. n \<le> k \<and> k < snd r \<and> fst r = clk k)"
    proof
      assume c: "c = clk"
      show "\<exists>k. n \<le> k \<and> k < snd r \<and> fst r = clk k"
      proof (cases "hi32 (clk n) = hi32 (clk (n + 2))")
        case True
        then have "r = (clk (n + 1), n + 3)"
          using a c consistent_read [of "clk n" "clk (n + 1)" "clk (n + 2)"] mono
          by (simp add: rtc_read32_def RTC_TIME_LOW_def RTC_TIME_HIGH_def hi32_def Let_def)
        then show ?thesis by (intro exI [of _ "n + 1"]) simp
      next
        case False
        then have "rec c (n + 3) = Some r"
          using a c by (simp add: rtc_read32_def RTC_TIME_LOW_def RTC_TIME_HIGH_def hi32_def Let_def)
        then show ?thesis using IH c by (metis add_leD1)
      qed
    qed
  qed
  then show ?thesis using r by force
qed

lemma rtc_now_ns_returns:
  assumes "hi32 (clk (n + 3 * k)) = hi32 (clk (n + 3 * k + 2))"
  shows "\<exists>t n'. rtc_now_ns clk n = Some (t, n')"
  using assms
proof (induction k arbitrary: n)
  case 0
  then show ?case by (simp add: rtc_unfold [of clk n])
next
  case (Suc k)
  then have "\<exists>t n'. rtc_now_ns clk (n + 3) = Some (t, n')" by (intro Suc.IH) (simp add: algebra_simps)
  then show ?case by (auto simp: rtc_unfold [of clk n])
qed

lemma udiv64_32_full_quot: "udiv64_32 n d = ucast (fst (udiv64_32_full n d))"
  by (simp add: udiv64_32_def udiv64_32_full_def split: prod.splits)

section \<open>Properties\<close>

text \<open>C39: Whatever the clock does between the three register reads, as long as it does not run backwards the value
  that \<open>rtc_now_ns\<close> returns is the exact time at one of its own reads, never a mix of two times; and it returns
  when the upper half is stable over some round.\<close>

theorem rtc_read_is_consistent:
  assumes "\<And>i j. i \<le> j \<Longrightarrow> clk i \<le> clk j"
    and "hi32 (clk (n + 3 * k)) = hi32 (clk (n + 3 * k + 2))"
  shows "\<exists>t n'. rtc_now_ns clk n = Some (t, n') \<and> (\<exists>j. n \<le> j \<and> j < n' \<and> t = clk j)"
proof -
  obtain t n' where r: "rtc_now_ns clk n = Some (t, n')" using rtc_now_ns_returns [OF assms(2)] by blast
  with rtc_now_ns_sound [of clk, OF assms(1) r] show ?thesis by blast
qed

theorem rtc_read_is_consistent_witness:
  "\<exists>t n'. rtc_now_ns (\<lambda>n. if n = 0 then 0xFFFFFFFF else 0x100000005) 0 = Some (t, n') \<and>
     (\<exists>j. 0 \<le> j \<and> j < n' \<and> t = (if j = 0 then 0xFFFFFFFF else 0x100000005))"
proof -
  let ?clk = "\<lambda>n :: nat. if n = 0 then 0xFFFFFFFF else 0x100000005 :: u64"
  have "?clk i \<le> ?clk j" if "i \<le> j" for i j using that by simp
  moreover have "hi32 (?clk (0 + 3 * 1)) = hi32 (?clk (0 + 3 * 1 + 2))" by simp
  ultimately show ?thesis by (rule rtc_read_is_consistent)
qed

end
