(* ===== verification/UtcTime.thy ===== *)
theory UtcTime
  imports CommonLibs
begin

text \<open>
  \<open>unix_time_to_utc_str\<close> (src/lib/commonlibs.c): seconds since the epoch to a UTC date string. The
  year and month loops are related to the civil calendar in closed form, and the bounded formatting
  steps to the text they append. The year counter is a C \<open>int\<close>; it is a \<open>nat\<close> here, which differs only
  for times beyond the year 2147483647.
\<close>

section \<open>Unix time to a UTC date string\<close>

definition is_leap_year :: "nat \<Rightarrow> bool" where
  "is_leap_year y = (if y mod 400 = 0 then True else if y mod 100 = 0 then False else y mod 4 = 0)"

definition wday_name :: "string list" where
  "wday_name = [''Sun'', ''Mon'', ''Tue'', ''Wed'', ''Thu'', ''Fri'', ''Sat'']"

definition mon_name :: "string list" where
  "mon_name = [''Jan'', ''Feb'', ''Mar'', ''Apr'', ''May'', ''Jun'',
               ''Jul'', ''Aug'', ''Sep'', ''Oct'', ''Nov'', ''Dec'']"

definition mon_days :: "nat list" where
  "mon_days = [31, 28, 31, 30, 31, 30, 31, 31, 30, 31, 30, 31]"

text \<open>The two loops that strip whole years and whole months off the day count \<open>d\<close>.\<close>

function utc_year :: "nat \<Rightarrow> nat \<Rightarrow> nat \<times> nat" where
  "utc_year year d =
     (let diy = (if is_leap_year year then 366 else 365)
      in if d < diy then (year, d) else utc_year (Suc year) (d - diy))"
  by pat_completeness auto
termination
  by (relation "measure (\<lambda>(year, d). d)") (auto split: if_splits)

declare utc_year.simps [simp del]

definition month_dim :: "nat \<Rightarrow> nat \<Rightarrow> nat" where
  "month_dim year month = (if month = 1 \<and> is_leap_year year then 29 else mon_days ! month)"

function utc_month :: "nat \<Rightarrow> nat \<Rightarrow> nat \<Rightarrow> nat \<times> nat" where
  "utc_month year month d =
     (if month < 12
      then (if d < month_dim year month then (month, d)
            else utc_month year (Suc month) (d - month_dim year month))
      else (month, d))"
  by pat_completeness auto
termination
  by (relation "measure (\<lambda>(year, month, d). 12 - month)") auto

declare utc_month.simps [simp del]

definition unix_time_to_utc_str :: "u64 \<Rightarrow> char list \<Rightarrow> nat \<Rightarrow> int \<times> char list" where
  "unix_time_to_utc_str unix_sec out out_size =
     (if out_size = 0 then (-1, out)
      else
        let out = buf_set out 0 NUL;
            (days, sod) = udiv64_32_full unix_sec 86400;
            hour = sod div 3600;
            min = (sod mod 3600) div 60;
            sec = sod mod 60;
            wday = snd (udiv64_32_full (days + 4) 7);
            (year, d) = utc_year 1970 (unat days);
            (month, d) = utc_month year 0 d;
            mday = of_nat (d + 1);
            (ret, b) = chain_all
              [append_str out_size (wday_name ! unat wday),
               append_char out_size (CHR '' ''),
               append_str out_size (mon_name ! month),
               append_char out_size (CHR '' ''),
               append_u32 out_size mday,
               append_char out_size (CHR '' ''),
               append_2d out_size hour,
               append_char out_size (CHR '':''),
               append_2d out_size min,
               append_char out_size (CHR '':''),
               append_2d out_size sec,
               append_str out_size '' UTC '',
               append_u32 out_size (of_nat year)] (out, 0)
        in (ret, fst b))"

text \<open>
  The civil calendar in closed form: days from 1 January 1970 to the first of January of a year,
  and from there to the first of a month (counted from 0).
\<close>

definition leap_years_before :: "nat \<Rightarrow> nat" where
  "leap_years_before y = (y - 1) div 4 - (y - 1) div 100 + (y - 1) div 400"

definition days_before_year :: "nat \<Rightarrow> nat" where
  "days_before_year y = 365 * (y - 1970) + (leap_years_before y - leap_years_before 1970)"

definition days_before_month :: "nat \<Rightarrow> nat \<Rightarrow> nat" where
  "days_before_month y m =
     [0, 31, 59, 90, 120, 151, 181, 212, 243, 273, 304, 334, 365] ! m
     + (if 2 \<le> m \<and> is_leap_year y then 1 else 0)"

lemma leap_years_before_Suc:
  assumes "0 < y"
  shows "leap_years_before (Suc y) = leap_years_before y + of_bool (is_leap_year y)"
proof -
  obtain z where z: "y = Suc z" using assms by (cases y) auto
  have "z div 100 \<le> z div 4" "z div 400 \<le> z div 100" by (simp_all add: div_le_mono2)
  moreover have "Suc z mod 400 = 0 \<Longrightarrow> Suc z mod 100 = 0" "Suc z mod 100 = 0 \<Longrightarrow> Suc z mod 4 = 0"
    by presburger+
  ultimately show ?thesis
    by (auto simp: leap_years_before_def z is_leap_year_def div_Suc)
qed

lemma leap_years_before_mono: "1970 \<le> y \<Longrightarrow> leap_years_before 1970 \<le> leap_years_before y"
proof (induction y rule: nat_induct_at_least)
  case base
  then show ?case by simp
next
  case (Suc n)
  then show ?case using leap_years_before_Suc [of n] by simp
qed

lemma days_before_year_Suc:
  assumes "1970 \<le> y"
  shows "days_before_year (Suc y) = days_before_year y + (if is_leap_year y then 366 else 365)"
  using assms leap_years_before_mono [OF assms] leap_years_before_Suc [of y]
  by (auto simp: days_before_year_def Suc_diff_le)

lemma utc_year_correct:
  assumes "1970 \<le> year" "utc_year year d = (y, d')"
  shows "1970 \<le> y \<and> days_before_year year + d = days_before_year y + d' \<and>
    d' < (if is_leap_year y then 366 else 365)"
  using assms
proof (induction year d rule: utc_year.induct)
  case (1 year d)
  let ?diy = "if is_leap_year year then 366 else 365 :: nat"
  show ?case
  proof (cases "d < ?diy")
    case True
    with 1(3) have "y = year" "d' = d" by (auto simp: utc_year.simps [of year d] Let_def)
    with True 1(2) show ?thesis by simp
  next
    case False
    with 1(3) have rec: "utc_year (Suc year) (d - ?diy) = (y, d')"
      by (simp add: utc_year.simps [of year d] Let_def)
    from 1(1) [OF refl False _ rec] 1(2)
    show ?thesis using False days_before_year_Suc [OF 1(2)] by (auto split: if_splits)
  qed
qed

lemma month_lt_12_cases: "m < 12 \<Longrightarrow> m \<in> {0, 1, 2, 3, 4, 5, 6, 7, 8, 9, 10, 11 :: nat}"
  by simp presburger

lemma days_before_month_Suc:
  "m < 12 \<Longrightarrow> days_before_month y (Suc m) = days_before_month y m + month_dim y m"
  by (drule month_lt_12_cases) (auto simp: days_before_month_def month_dim_def mon_days_def)

lemma utc_month_correct:
  assumes "m \<le> 12" "days_before_month y m + d < days_before_month y 12"
  shows "\<exists>m' d'. utc_month y m d = (m', d') \<and> m' < 12 \<and> d' < month_dim y m' \<and>
           days_before_month y m + d = days_before_month y m' + d'"
  using assms
proof (induction y m d rule: utc_month.induct)
  case (1 y m d)
  have "m < 12" using 1(2,3) by (cases "m = 12") auto
  show ?case
  proof (cases "d < month_dim y m")
    case True
    with \<open>m < 12\<close> show ?thesis by (simp add: utc_month.simps [of y m d])
  next
    case False
    moreover have "days_before_month y (Suc m) + (d - month_dim y m) = days_before_month y m + d"
      using False days_before_month_Suc [OF \<open>m < 12\<close>, of y] by simp
    ultimately show ?thesis
      using 1(1) [OF \<open>m < 12\<close> False] 1(3) \<open>m < 12\<close> by (simp add: utc_month.simps [of y m d])
  qed
qed

lemma utc_date_correct:
  assumes "utc_year 1970 n = (y, d)"
  shows "\<exists>m d'. utc_month y 0 d = (m, d') \<and> 1970 \<le> y \<and> m < 12 \<and> d' < month_dim y m \<and>
           n = days_before_year y + days_before_month y m + d'"
proof -
  have zero: "days_before_year 1970 = 0" by (simp add: days_before_year_def)
  from utc_year_correct [OF _ assms]
  have y: "1970 \<le> y" "n = days_before_year y + d" "d < (if is_leap_year y then 366 else 365)"
    using zero by auto
  moreover have "days_before_month y 12 = (if is_leap_year y then 366 else 365)"
    by (simp add: days_before_month_def)
  ultimately show ?thesis
    using utc_month_correct [of 0 y d] by (auto simp: days_before_month_def)
qed

definition utc_text :: "nat \<Rightarrow> nat \<Rightarrow> nat \<Rightarrow> nat \<Rightarrow> nat \<Rightarrow> string" where
  "utc_text sec y m d wd = wday_name ! wd @ '' '' @ mon_name ! m @ '' '' @ dec_string (d + 1) @ '' ''
     @ [digit_char (sec div 3600 div 10 mod 10), digit_char (sec div 3600 mod 10)] @ '':''
     @ [digit_char (sec mod 3600 div 60 div 10 mod 10), digit_char (sec mod 3600 div 60 mod 10)] @ '':''
     @ [digit_char (sec mod 60 div 10 mod 10), digit_char (sec mod 60 mod 10)] @ '' UTC ''
     @ dec_string y"

lemma wday_name_nth: "w < 7 \<Longrightarrow> nul_free (wday_name ! w) \<and> length (wday_name ! w) = 3"
  by (auto simp: wday_name_def less_Suc_eq numeral_eq_Suc)

lemma mon_name_nth: "m < 12 \<Longrightarrow> nul_free (mon_name ! m) \<and> length (mon_name ! m) = 3"
  by (auto simp: mon_name_def less_Suc_eq numeral_eq_Suc)

lemma days_before_year_ge: "1970 \<le> y \<Longrightarrow> 365 * (y - 1970) \<le> days_before_year y"
  by (simp add: days_before_year_def)

text \<open>C32: For every time before 2106 the date string is that of the proleptic Gregorian calendar: weekday, month,
  day, time of day and year of the given second, in a terminated string inside the 40-byte buffer.\<close>

theorem unix_time_to_utc_str_correct:
  assumes sec: "unat unix_sec < 2 ^ 32" and out: "40 \<le> length out"
  shows "\<exists>out' y m d. unix_time_to_utc_str unix_sec out 40 = (0, out') \<and> length out' = length out \<and>
     1970 \<le> y \<and> m < 12 \<and> d < month_dim y m \<and>
     unat unix_sec div 86400 = days_before_year y + days_before_month y m + d \<and>
     cstr out' = utc_text (unat unix_sec mod 86400) y m d ((unat unix_sec div 86400 + 4) mod 7)"
proof -
  let ?n = "unat unix_sec div 86400" and ?s = "unat unix_sec mod 86400"
  obtain days sod where dv: "udiv64_32_full unix_sec 86400 = (days, sod)" by fastforce
  have days: "unat days = ?n" and sod: "unat sod = ?s"
    using udiv64_32_full_correct(2,3) [of 86400 unix_sec] dv by simp_all
  have n: "?n < 49711" using sec by simp
  have "unat (days + 4) = ?n + 4"
    using days n by (simp add: unat_word_ariths)
  then have wd: "unat (snd (udiv64_32_full (days + 4) 7)) = (?n + 4) mod 7"
    using udiv64_32_full_correct(3) [of 7 "days + 4"] by simp
  obtain y d1 where y: "utc_year 1970 (unat days) = (y, d1)" by fastforce
  from utc_date_correct [OF y] obtain m d where md: "utc_month y 0 d1 = (m, d)" "1970 \<le> y" "m < 12"
      "d < month_dim y m" "?n = days_before_year y + days_before_month y m + d"
    by (auto simp: days)
  have dlt: "d < 31" using month_lt_12_cases [OF md(3)] md(4)
    by (auto simp: month_dim_def mon_days_def split: if_splits)
  have ylt: "y < 2107" using days_before_year_ge [OF md(2)] md(5) n by linarith
  let ?y = "of_nat y :: u32" and ?md = "of_nat (Suc d) :: u32"
  have yv: "unat ?y = y" and mdv: "unat ?md = d + 1"
    using ylt dlt by (simp_all add: unsigned_of_nat take_bit_nat_eq_self del: of_nat_add of_nat_Suc)
  let ?fs = "[append_str 40 (wday_name ! ((?n + 4) mod 7)), append_char 40 (CHR '' ''),
     append_str 40 (mon_name ! m), append_char 40 (CHR '' ''), append_u32 40 ?md, append_char 40 (CHR '' ''),
     append_2d 40 (sod div 3600), append_char 40 (CHR '':''), append_2d 40 (sod mod 3600 div 60),
     append_char 40 (CHR '':''), append_2d 40 (sod mod 60), append_str 40 '' UTC '', append_u32 40 ?y]"
  let ?txt = "utc_text ?s y m d ((?n + 4) mod 7)"
  have hms: "unat (sod div 3600) = ?s div 3600" "unat (sod mod 3600 div 60) = ?s mod 3600 div 60"
      "unat (sod mod 60) = ?s mod 60"
    by (simp_all add: unat_div unat_mod sod)
  have "appends 40 (chain_all ?fs) (concat [wday_name ! ((?n + 4) mod 7), '' '', mon_name ! m, '' '',
      dec_string (d + 1), '' '', [digit_char (?s div 3600 div 10 mod 10), digit_char (?s div 3600 mod 10)],
      '':'', [digit_char (?s mod 3600 div 60 div 10 mod 10), digit_char (?s mod 3600 div 60 mod 10)],
      '':'', [digit_char (?s mod 60 div 10 mod 10), digit_char (?s mod 60 mod 10)], '' UTC '', dec_string y])"
    by (intro appends_chain_all list.rel_intros appends_intros hms yv mdv)
      (simp_all add: wday_name_nth mon_name_nth md(3))
  then have ap: "appends 40 (chain_all ?fs) ?txt"
    by (simp add: utc_text_def)
  have "length (dec_string (d + 1)) \<le> 2" "length (dec_string y) \<le> 4"
    using dlt ylt by (auto intro!: length_dec_string_le)
  then have lt: "length ?txt < 40"
    using wday_name_nth [of "(?n + 4) mod 7"] mon_name_nth [OF md(3)] by (simp add: utc_text_def)
  have ht: "holds_text 40 [] (buf_set out 0 NUL, 0)"
    using out by (cases out) (auto simp: holds_text_def)
  have len: "length (buf_set out 0 NUL) = length out"
    using out by (cases out) auto
  obtain b where b: "chain_all ?fs (buf_set out 0 NUL, 0) = (0, b)" "holds_text 40 ?txt b"
      "length (fst b) = length out"
    using appendsD [OF ap ht] lt len by (metis append_Nil add_0 fst_conv list.size(3))
  have "unix_time_to_utc_str unix_sec out 40 = (0, fst b)"
    by (simp add: unix_time_to_utc_str_def dv y md(1) wd b(1)
        del: chain_all.simps append_str.simps of_nat_Suc)
  moreover have "cstr (fst b) = ?txt"
    using b(2) holds_text_cstr [of 40 ?txt "fst b" "snd b"] by simp
  ultimately show ?thesis using md b(3) by blast
qed

theorem unix_time_to_utc_str_correct_witness:
  "\<exists>out' y m d. unix_time_to_utc_str 1000000000 (replicate 40 NUL) 40 = (0, out') \<and>
     11574 = days_before_year y + days_before_month y m + d \<and> cstr out' = utc_text 6400 y m d 0"
  using unix_time_to_utc_str_correct [of 1000000000 "replicate 40 NUL"] by simp metis

end
