(* ===== verification/Syscalls.thy ===== *)
theory Syscalls
  imports Sched Console Rtc UtcTime
begin

text \<open>
  The system calls and the trap handler (src/kernel/trap/*.c, src/kernel/kernel.c): the handlers of every system
  call over the trap frame of the caller, the dispatcher \<open>handle_syscall\<close>, and \<open>handle_trap\<close>.

  User pointers are dereferenced through the page table that \<open>satp\<close> selects; an access to an unmapped page is a
  page fault in the kernel, which panics. The bytes that an argument names (a string up to its terminator, a buffer
  of the given size) are read before the call is made, so that a fault is also reported for bytes that the call
  would not have looked at. The program
  images that the linker embeds are a parameter of the state (\<open>app_image\<close>), and so are the real-time clock and
  the characters that the firmware has ready. \<open>kernel_shutdown\<close> never returns, like a panic. The kernel's own
  data are not part of the modelled RAM.
\<close>

section \<open>State and user memory\<close>

record sys_state =
  kern :: kstate
  con :: console
  pending :: "u8 list"
  app_image :: "string \<Rightarrow> u8 list"
  rtc_time :: rtc_clock
  rtc_reads :: nat
  kernel_total_pages :: u32

abbreviation cur_slot :: "sys_state \<Rightarrow> nat" where
  "cur_slot s \<equiv> the (current_proc (kern s))"

abbreviation cur_pid :: "sys_state \<Rightarrow> int" where
  "cur_pid s \<equiv> p_pid (procs (kern s) (cur_slot s))"

type_synonym outcome = "(trap_frame call \<times> sys_state) kres"

definition ret :: "trap_frame \<Rightarrow> int \<Rightarrow> trap_frame" where
  "ret f v = f\<lparr>tf_a0 := of_int v\<rparr>"

abbreviation returning :: "trap_frame \<Rightarrow> int \<Rightarrow> sys_state \<Rightarrow> outcome" where
  "returning f v s \<equiv> Ok (Done (ret f v), s)"

definition satp_root :: "kstate \<Rightarrow> u32" where
  "satp_root k = (csr_satp k AND 0x3fffff) * 4096"

definition translate :: "u32 \<Rightarrow> u32 \<Rightarrow> kstate \<Rightarrow> u32 option" where
  "translate perm a k =
     (case sv32_walk (ram (kmem k)) (satp_root k) a of
        None \<Rightarrow> None
      | Some (frame, flags) \<Rightarrow> if flags AND perm = 0 then None else Some (frame + a mod 4096))"

definition user_byte :: "u32 \<Rightarrow> kstate \<Rightarrow> u8 kres" where
  "user_byte a k = (case translate PAGE_R a k of None \<Rightarrow> PANIC ''Load page fault'' | Some p \<Rightarrow> Ok (ram (kmem k) p))"

fun user_load :: "u32 \<Rightarrow> nat \<Rightarrow> kstate \<Rightarrow> u8 list kres" where
  "user_load a 0 k = Ok []"
| "user_load a (Suc n) k = kbind (user_byte a k) (\<lambda>b. kbind (user_load (a + 1) n k) (\<lambda>bs. Ok (b # bs)))"

fun user_store :: "u32 \<Rightarrow> u8 list \<Rightarrow> kstate \<Rightarrow> kstate kres" where
  "user_store a [] k = Ok k"
| "user_store a (b # bs) k =
     (case translate PAGE_W a k of
        None \<Rightarrow> PANIC ''Store/AMO page fault''
      | Some p \<Rightarrow> user_store (a + 1) bs (k\<lparr>kmem := (kmem k)\<lparr>ram := (ram (kmem k))(p := b)\<rparr>\<rparr>))"

text \<open>A string in user memory; \<open>None\<close> for a fault before its terminator.\<close>

partial_function (option) user_str :: "kstate \<Rightarrow> u32 \<Rightarrow> string option" where
  "user_str k a =
     (case translate PAGE_R a k of
        None \<Rightarrow> None
      | Some p \<Rightarrow> if ram (kmem k) p = 0 then Some []
          else Option.bind (user_str k (a + 1)) (\<lambda>cs. Some (char_of (unat (ram (kmem k) p)) # cs)))"

definition with_str :: "kstate \<Rightarrow> u32 \<Rightarrow> (string \<Rightarrow> 'a kres) \<Rightarrow> 'a kres" where
  "with_str k a f = (case user_str k a of None \<Rightarrow> PANIC ''Load page fault'' | Some cs \<Rightarrow> f cs)"

text \<open>At most \<open>n\<close> characters of a string, as the bounded copies read it.\<close>

fun user_strn :: "u32 \<Rightarrow> nat \<Rightarrow> kstate \<Rightarrow> string kres" where
  "user_strn a 0 k = Ok []"
| "user_strn a (Suc n) k = kbind (user_byte a k) (\<lambda>b.
     if b = 0 then Ok [] else kbind (user_strn (a + 1) n k) (\<lambda>cs. Ok (char_of (unat b) # cs)))"

definition storing :: "u32 \<Rightarrow> u8 list \<Rightarrow> sys_state \<Rightarrow> (sys_state \<Rightarrow> 'a kres) \<Rightarrow> 'a kres" where
  "storing a bs s f = kbind (user_store a bs (kern s)) (\<lambda>k. f (s\<lparr>kern := k\<rparr>))"

definition int_bytes :: "int \<Rightarrow> u8 list" where
  "int_bytes i = le32 (of_int i)"

definition on_fs :: "fs_state \<Rightarrow> sys_state \<Rightarrow> sys_state" where
  "on_fs fs s = s\<lparr>kern := (kern s)\<lparr>kfs := fs\<rparr>\<rparr>"

section \<open>Console\<close>

definition poll_console_input :: "sys_state \<Rightarrow> sys_state" where
  "poll_console_input s =
     (let (rest, c) = poll_loop (pending s) (con s);
          s = s\<lparr>con := c, pending := rest\<rparr>
      in if 0 < input_count c then s\<lparr>kern := wakeup_input_waiters (kern s)\<rparr> else s)"

definition syscall_handle_putchar :: "trap_frame \<Rightarrow> sys_state \<Rightarrow> outcome" where
  "syscall_handle_putchar f s =
     Ok (Done f, on_fs ((kfs (kern s))\<lparr>con_out := con_out (kfs (kern s)) @ [ucast (tf_a0 f)]\<rparr>) s)"

text \<open>One turn of the loop of \<open>syscall_handle_getchar\<close>.\<close>

definition got_char :: "u8 \<Rightarrow> console \<Rightarrow> sys_state \<Rightarrow> u8 call \<times> sys_state" where
  "got_char ch c s =
     (Done ch, s\<lparr>con := c, kern := upd (cur_slot s) (\<lambda>p. p\<lparr>p_wait_reason := PROC_WAIT_NONE\<rparr>) (kern s)\<rparr>)"

definition getchar_turn :: "sys_state \<Rightarrow> u8 call \<times> sys_state" where
  "getchar_turn s =
     (case input_pop (con s) of
        Some (ch, c) \<Rightarrow> got_char ch c s
      | None \<Rightarrow>
          let s = poll_console_input s
          in case input_pop (con s) of
               Some (ch, c) \<Rightarrow> got_char ch c s
             | None \<Rightarrow> (Blocked, s\<lparr>kern := upd (cur_slot s)
                 (\<lambda>p. p\<lparr>p_wait_reason := PROC_WAIT_CONSOLE_INPUT, p_state := PROC_WAITTING\<rparr>) (kern s)\<rparr>))"

definition syscall_handle_getchar :: "trap_frame \<Rightarrow> sys_state \<Rightarrow> outcome" where
  "syscall_handle_getchar f s =
     (case getchar_turn s of
        (Done ch, s) \<Rightarrow> returning f (int (unat ch)) s
      | (_, s) \<Rightarrow> Ok (Blocked, s))"

text \<open>\<open>console_read_fallback\<close> from character \<open>i\<close> on, with \<open>n\<close> characters to go.\<close>

fun console_read_loop :: "trap_frame \<Rightarrow> u32 \<Rightarrow> nat \<Rightarrow> nat \<Rightarrow> sys_state \<Rightarrow> outcome" where
  "console_read_loop f buf i 0 s = returning f (int i) s"
| "console_read_loop f buf i (Suc n) s =
     (case getchar_turn s of
        (Done ch, s) \<Rightarrow> storing (buf + of_nat i) [ch] s (console_read_loop f buf (Suc i) n)
      | (_, s) \<Rightarrow> Ok (Blocked, s))"

section \<open>Files\<close>

definition syscall_handle_open :: "trap_frame \<Rightarrow> sys_state \<Rightarrow> outcome" where
  "syscall_handle_open f s =
     (if current_proc (kern s) = None then returning f (-1) s
      else if tf_a0 f = 0 then returning f (-1) s
      else with_str (kern s) (tf_a0 f) (\<lambda>path.
        let (r, fs) = fs_open (cur_pid s) (Some path) (sint (tf_a1 f)) (kfs (kern s))
        in returning f r (on_fs fs s)))"

definition syscall_handle_close :: "trap_frame \<Rightarrow> sys_state \<Rightarrow> outcome" where
  "syscall_handle_close f s =
     (if current_proc (kern s) = None then returning f (-1) s
      else let (r, fs) = fs_close (cur_pid s) (sint (tf_a0 f)) (kfs (kern s)) in returning f r (on_fs fs s))"

definition syscall_handle_read :: "trap_frame \<Rightarrow> sys_state \<Rightarrow> outcome" where
  "syscall_handle_read f s =
     (if current_proc (kern s) = None then returning f (-1) s
      else if tf_a1 f = 0 \<and> 0 < tf_a2 f then returning f (-1) s
      else
        let (r, fs) = fs_read (cur_pid s) (sint (tf_a0 f)) (tf_a1 f \<noteq> 0) (tf_a2 f) (kfs (kern s));
            s = on_fs fs s
        in case r of
             Read_done v bytes \<Rightarrow> storing (tf_a1 f) bytes s (returning f v)
           | Console_read sz \<Rightarrow> console_read_loop f (tf_a1 f) 0 (unat sz) s)"

definition syscall_handle_write :: "trap_frame \<Rightarrow> sys_state \<Rightarrow> outcome" where
  "syscall_handle_write f s =
     (if current_proc (kern s) = None then returning f (-1) s
      else if tf_a1 f = 0 \<and> 0 < tf_a2 f then returning f (-1) s
      else kbind (if tf_a1 f = 0 then Ok None else kbind (user_load (tf_a1 f) (unat (tf_a2 f)) (kern s)) (\<lambda>bs. Ok (Some bs)))
        (\<lambda>buf. let (r, fs) = fs_write (cur_pid s) (sint (tf_a0 f)) buf (tf_a2 f) (kfs (kern s))
           in returning f r (on_fs fs s)))"

text \<open>The calls that take one path.\<close>

definition path_call :: "(string option \<Rightarrow> fs_state \<Rightarrow> int \<times> fs_state) \<Rightarrow> trap_frame \<Rightarrow> sys_state \<Rightarrow> outcome" where
  "path_call oper f s =
     (if tf_a0 f = 0 then returning f (-1) s
      else with_str (kern s) (tf_a0 f) (\<lambda>path.
        let (r, fs) = oper (Some path) (kfs (kern s)) in returning f r (on_fs fs s)))"

definition syscall_handle_mkdir :: "trap_frame \<Rightarrow> sys_state \<Rightarrow> outcome" where
  "syscall_handle_mkdir = path_call fs_mkdir"

definition syscall_handle_unlink :: "trap_frame \<Rightarrow> sys_state \<Rightarrow> outcome" where
  "syscall_handle_unlink = path_call fs_unlink"

definition syscall_handle_rmdir :: "trap_frame \<Rightarrow> sys_state \<Rightarrow> outcome" where
  "syscall_handle_rmdir = path_call fs_rmdir"

definition dirent_bytes :: "fs_dirent \<Rightarrow> u8 list" where
  "dirent_bytes d = map of_char (de_name d) @ int_bytes (de_type d) @ le32 (de_size d)"

definition syscall_handle_readdir :: "trap_frame \<Rightarrow> sys_state \<Rightarrow> outcome" where
  "syscall_handle_readdir f s =
     (if tf_a0 f = 0 \<or> tf_a2 f = 0 then returning f (-1) s
      else with_str (kern s) (tf_a0 f) (\<lambda>path.
        case fs_readdir (Some path) (sint (tf_a1 f)) True (kfs (kern s)) of
          None \<Rightarrow> returning f (-1) s
        | Some d \<Rightarrow> storing (tf_a2 f) (dirent_bytes d) s (returning f 0)))"

definition syscall_handle_dup2 :: "trap_frame \<Rightarrow> sys_state \<Rightarrow> outcome" where
  "syscall_handle_dup2 f s =
     (let (r, fs) = fs_dup2 (cur_pid s) (sint (tf_a0 f)) (sint (tf_a1 f)) (kfs (kern s));
          s = on_fs fs s
      in if r < 0 then returning f (-1) s else returning f r s)"

text \<open>\<open>strcpy_s\<close> into user memory stores the characters and the terminator.\<close>

definition syscall_handle_getcwd :: "trap_frame \<Rightarrow> sys_state \<Rightarrow> outcome" where
  "syscall_handle_getcwd f s =
     (if current_proc (kern s) = None then returning f (-1) s
      else if tf_a0 f = 0 then returning f (-1) s
      else storing (tf_a0 f)
        (map of_char (take (FS_PATH_MAX - 1) (cstr (p_cwd_path (procs (kern s) (cur_slot s)))) @ [NUL])) s (returning f 0))"

definition syscall_handle_chdir :: "trap_frame \<Rightarrow> sys_state \<Rightarrow> outcome" where
  "syscall_handle_chdir f s =
     (if current_proc (kern s) = None then returning f (-1) s
      else if tf_a0 f = 0 then returning f (-1) s
      else kbind (user_strn (tf_a0 f) (FS_PATH_MAX - 1) (kern s)) (\<lambda>path.
        case fs_get_path_entry (Some path) (kfs (kern s)) of
          None \<Rightarrow> returning f (-1) s
        | Some (mnt_idx, node_idx) \<Rightarrow>
            let i = cur_slot s;
                k = upd i (\<lambda>p. p\<lparr>p_cwd_mount_idx := mnt_idx, p_cwd_node_idx := node_idx,
                      p_cwd_path := strcpy_s (p_cwd_path p) FS_PATH_MAX path\<rparr>) (kern s);
                k = k\<lparr>kfs := snd (procfs_sync_process (procs k i) (kfs k))\<rparr>
            in returning f 0 (s\<lparr>kern := k\<rparr>)))"

section \<open>Processes\<close>

definition app_name :: "int \<Rightarrow> string option" where
  "app_name app_id =
     (if app_id = 1 then Some ''shell'' else if app_id = 2 then Some ''ipc_rx'' else if app_id = 3 then Some ''ps''
      else if app_id = 4 then Some ''date'' else if app_id = 5 then Some ''ls'' else if app_id = 6 then Some ''mkdir''
      else if app_id = 7 then Some ''rmdir'' else if app_id = 8 then Some ''touch'' else if app_id = 9 then Some ''rm''
      else if app_id = 10 then Some ''write'' else if app_id = 11 then Some ''cat'' else if app_id = 12 then Some ''kill''
      else if app_id = 14 then Some ''kernel_info'' else if app_id = 15 then Some ''bitmap'' else None)"

definition resolve_app_image :: "int \<Rightarrow> sys_state \<Rightarrow> (u8 list \<times> string) option" where
  "resolve_app_image app_id s = map_option (\<lambda>name. (app_image s name, name)) (app_name app_id)"

text \<open>The argument vector of a program: up to eight strings of up to 31 characters.\<close>

fun copy_user_argv :: "u32 \<Rightarrow> nat \<Rightarrow> kstate \<Rightarrow> char list list kres" where
  "copy_user_argv uargv 0 k = Ok []"
| "copy_user_argv uargv (Suc n) k =
     kbind (user_load uargv 4 k) (\<lambda>w.
     if un_le32 w = 0 then Ok []
     else kbind (user_strn (un_le32 w) (PROC_EXEC_ARG_LEN - 1) k) (\<lambda>arg.
          kbind (copy_user_argv (uargv + 4) n k) (\<lambda>args.
          Ok (overwrite (replicate PROC_EXEC_ARG_LEN NUL) 0 arg # args))))"

definition ps_info_bytes :: "process \<Rightarrow> u8 list" where
  "ps_info_bytes p = int_bytes (p_pid p) @ int_bytes (p_parent_pid p) @ le32 (state_id (p_state p)) @
     le32 (wait_reason_id (p_wait_reason p)) @ map of_char (p_name p)"

definition write_user_ps_info :: "u32 \<Rightarrow> process \<Rightarrow> sys_state \<Rightarrow> (sys_state \<Rightarrow> outcome) \<Rightarrow> outcome" where
  "write_user_ps_info ptr p s f = (if ptr = 0 then f s else storing ptr (ps_info_bytes p) s f)"

definition on_kern :: "sys_state \<Rightarrow> kstate \<Rightarrow> sys_state" where
  "on_kern s k = s\<lparr>kern := k\<rparr>"

definition syscall_handle_exit :: "trap_frame \<Rightarrow> sys_state \<Rightarrow> outcome" where
  "syscall_handle_exit f s =
     (if current_proc (kern s) \<noteq> None \<and> current_proc (kern s) = init_proc (kern s)
      then PANIC ''kernel shutdown requested''
      else
        let i = cur_slot s;
            k = mark_exited i (orphan_children (cur_pid s) (kern s));
            k = k\<lparr>kfs := snd (procfs_sync_process (procs k i) (kfs k))\<rparr>
        in kbind (yield (notify_child_exit i k)) (\<lambda>(t, k). Ok (No_return, on_kern s k)))"

definition syscall_handle_ps :: "trap_frame \<Rightarrow> sys_state \<Rightarrow> outcome" where
  "syscall_handle_ps f s =
     (let index = sint (tf_a0 f)
      in if index < 0 \<or> int PROCS_MAX \<le> index then returning f (-1) s
         else write_user_ps_info (tf_a1 f) (procs (kern s) (nat index)) s (returning f 0))"

definition syscall_handle_clone :: "trap_frame \<Rightarrow> sys_state \<Rightarrow> outcome" where
  "syscall_handle_clone f s =
     (case resolve_app_image (sint (tf_a0 f)) s of
        None \<Rightarrow> returning f (-1) s
      | Some (img, name) \<Rightarrow>
          kbind (create_process img name (kern s)) (\<lambda>(p, k).
          case p of
            None \<Rightarrow> returning f (-1) (on_kern s k)
          | Some i \<Rightarrow>
              let k = upd i (\<lambda>p. p\<lparr>p_parent_pid :=
                        (case current_proc k of None \<Rightarrow> 0 | Some c \<Rightarrow> p_pid (procs k c))\<rparr>) k
              in returning f (p_pid (procs k i)) (on_kern s k)))"

definition syscall_handle_waitpid :: "trap_frame \<Rightarrow> sys_state \<Rightarrow> outcome" where
  "syscall_handle_waitpid f s =
     (let target_pid = sint (tf_a0 f)
      in if target_pid \<le> 0 \<and> target_pid \<noteq> -1 then returning f (-1) s
         else kbind (wait_for_child_exit (cur_pid s) target_pid (kern s)) (\<lambda>(r, k).
           case r of Done v \<Rightarrow> returning f v (on_kern s k) | _ \<Rightarrow> Ok (Blocked, on_kern s k)))"

definition syscall_handle_kill :: "trap_frame \<Rightarrow> sys_state \<Rightarrow> outcome" where
  "syscall_handle_kill f s =
     kbind (process_kill (sint (tf_a0 f)) (kern s)) (\<lambda>(r, k).
     case r of Done v \<Rightarrow> returning f v (on_kern s k) | _ \<Rightarrow> Ok (No_return, on_kern s k))"

definition syscall_handle_fork :: "trap_frame \<Rightarrow> sys_state \<Rightarrow> outcome" where
  "syscall_handle_fork f s =
     kbind (process_fork f (kern s)) (\<lambda>(child_pid, k).
     returning f (if child_pid < 0 then -1 else child_pid) (on_kern s k))"

definition syscall_handle_exec :: "trap_frame \<Rightarrow> sys_state \<Rightarrow> outcome" where
  "syscall_handle_exec f s =
     (case resolve_app_image (sint (tf_a0 f)) s of
        None \<Rightarrow> returning f (-1) s
      | Some (img, name) \<Rightarrow>
          kbind (process_exec img name 0 None (kern s)) (\<lambda>(r, k).
          returning f (if r < 0 then -1 else 0) (on_kern s k)))"

text \<open>The copied vector is an array of eight rows, the unused ones empty.\<close>

definition argv_array :: "char list list \<Rightarrow> char list list" where
  "argv_array args = args @ replicate (PROC_EXEC_ARGV_MAX - length args) (replicate PROC_EXEC_ARG_LEN NUL)"

definition syscall_handle_execv :: "trap_frame \<Rightarrow> sys_state \<Rightarrow> outcome" where
  "syscall_handle_execv f s =
     (case resolve_app_image (sint (tf_a0 f)) s of
        None \<Rightarrow> returning f (-1) s
      | Some (img, name) \<Rightarrow>
          kbind (if tf_a1 f = 0 then Ok [] else copy_user_argv (tf_a1 f) PROC_EXEC_ARGV_MAX (kern s)) (\<lambda>args.
          kbind (process_exec img name (int (length args)) (Some (argv_array args)) (kern s)) (\<lambda>(r, k).
          returning f (if r < 0 then -1 else 0) (on_kern s k))))"

definition syscall_handle_getargs :: "trap_frame \<Rightarrow> sys_state \<Rightarrow> outcome" where
  "syscall_handle_getargs f s =
     (if tf_a0 f = 0 \<or> current_proc (kern s) = None then returning f (-1) s
      else let p = procs (kern s) (cur_slot s)
        in storing (tf_a0 f) (int_bytes (p_exec_argc p) @ map of_char (concat (p_exec_argv p))) s (returning f 0))"

section \<open>Messages, time, information\<close>

definition syscall_handle_ipc_send :: "trap_frame \<Rightarrow> sys_state \<Rightarrow> outcome" where
  "syscall_handle_ipc_send f s =
     (if current_proc (kern s) = None \<or> cur_pid s \<le> 0 then returning f (-1) s
      else let (r, k) = process_ipc_send (cur_pid s) (sint (tf_a0 f)) (tf_a1 f) (kern s)
        in returning f r (on_kern s k))"

definition syscall_handle_ipc_recv :: "trap_frame \<Rightarrow> sys_state \<Rightarrow> outcome" where
  "syscall_handle_ipc_recv f s =
     (if current_proc (kern s) = None \<or> cur_pid s \<le> 0 then returning f (-1) s
      else
        case process_ipc_recv (cur_pid s) (kern s) of
          (Done None, k) \<Rightarrow> returning f (-1) (on_kern s k)
        | (Done (Some (from_pid, message)), k) \<Rightarrow>
            (if tf_a0 f = 0 then returning f (uint message) (on_kern s k)
             else storing (tf_a0 f) (int_bytes from_pid) (on_kern s k) (returning f (uint message)))
        | (_, k) \<Rightarrow> Ok (Blocked, on_kern s k))"

definition syscall_handle_bitmap :: "trap_frame \<Rightarrow> sys_state \<Rightarrow> outcome" where
  "syscall_handle_bitmap f s =
     kbind (bitmap_page_state (sint (tf_a0 f)) (kmem (kern s))) (\<lambda>r. returning f r s)"

text \<open>A clock whose upper half never settles keeps the kernel in the read loop forever.\<close>

definition syscall_handle_gettime :: "trap_frame \<Rightarrow> sys_state \<Rightarrow> outcome" where
  "syscall_handle_gettime f s =
     (case rtc_now_ns (rtc_time s) (rtc_reads s) of
        None \<Rightarrow> PANIC ''rtc''
      | Some (now, n) \<Rightarrow>
          let (sec, nsec) = udiv64_32_full now 1000000000;
              s = s\<lparr>rtc_reads := n\<rparr>
          in if tf_a0 f = 0 then returning f 0 s
             else storing (tf_a0 f) (le32 (ucast sec) @ le32 (ucast (drop_bit 32 sec)) @ le32 nsec) s (returning f 0))"

definition KERNEL_VERSION :: string where "KERNEL_VERSION = ''v0.1.0''"

text \<open>The structure of \<open>kernel_get_info\<close>, in memory order. The buffer for the time string is not initialised:
  \<open>junk\<close> is what it held before.\<close>

definition kernel_get_info :: "char list \<Rightarrow> u32 \<Rightarrow> u32 \<Rightarrow> u8 list" where
  "kernel_get_info junk now total_pages =
     map of_char (overwrite (replicate 16 NUL) 0 KERNEL_VERSION) @
     map of_char (strcpy_s junk 40 (cstr (snd (unix_time_to_utc_str (ucast now) (replicate 40 NUL) 40)))) @
     concat (map le32 [total_pages, 4096, 0x80200000, USER_BASE, of_nat PROCS_MAX, 8192, SCHED_TIME_SLICE_TICKS, 20,
       of_nat FS_MAX_NODES, of_nat FS_FILE_MAX_SIZE, of_nat BLOCKDEV_BLOCK_SIZE, of_nat BLOCKDEV_BLOCK_COUNT,
       fs_get_pfs_image_blocks, fs_get_pfs_image_blocks * of_nat BLOCKDEV_BLOCK_SIZE])"

definition syscall_handle_kernel_info :: "char list \<Rightarrow> trap_frame \<Rightarrow> sys_state \<Rightarrow> outcome" where
  "syscall_handle_kernel_info junk f s =
     (if tf_a0 f = 0 then returning f (-1) s
      else case rtc_now_sec (rtc_time s) (rtc_reads s) of
        None \<Rightarrow> PANIC ''rtc''
      | Some (now, n) \<Rightarrow>
          storing (tf_a0 f) (kernel_get_info junk now (kernel_total_pages s)) (s\<lparr>rtc_reads := n\<rparr>) (returning f 0))"

section \<open>The dispatcher and the trap handler\<close>

definition handle_syscall :: "char list \<Rightarrow> trap_frame \<Rightarrow> sys_state \<Rightarrow> outcome" where
  "handle_syscall junk f s =
     (let n = tf_a3 f
      in if n = 1 then syscall_handle_putchar f s
         else if n = 2 then syscall_handle_getchar f s
         else if n = 3 then syscall_handle_exit f s
         else if n = 4 then syscall_handle_ps f s
         else if n = 5 then syscall_handle_clone f s
         else if n = 7 then syscall_handle_waitpid f s
         else if n = 8 then syscall_handle_ipc_send f s
         else if n = 9 then syscall_handle_ipc_recv f s
         else if n = 6 then syscall_handle_bitmap f s
         else if n = 10 then syscall_handle_kill f s
         else if n = 11 then syscall_handle_kernel_info junk f s
         else if n = 12 then syscall_handle_open f s
         else if n = 13 then syscall_handle_close f s
         else if n = 14 then syscall_handle_read f s
         else if n = 15 then syscall_handle_write f s
         else if n = 16 then syscall_handle_mkdir f s
         else if n = 17 then syscall_handle_readdir f s
         else if n = 18 then syscall_handle_unlink f s
         else if n = 19 then syscall_handle_rmdir f s
         else if n = 20 then syscall_handle_gettime f s
         else if n = 21 then syscall_handle_fork f s
         else if n = 22 then syscall_handle_exec f s
         else if n = 23 then syscall_handle_dup2 f s
         else if n = 24 then syscall_handle_execv f s
         else if n = 25 then syscall_handle_getargs f s
         else if n = 27 then syscall_handle_getcwd f s
         else if n = 28 then syscall_handle_chdir f s
         else PANIC ''undefined system call'')"

definition SYSCALL_EXEC :: u32 where "SYSCALL_EXEC = 22"
definition SYSCALL_EXECV :: u32 where "SYSCALL_EXECV = 24"
definition SCAUSE_ENVIRONMENT_CALL_FROM_U_MODE :: u32 where "SCAUSE_ENVIRONMENT_CALL_FROM_U_MODE = 8"
definition SCAUSE_SUPERVISOR_TIMER :: u32 where "SCAUSE_SUPERVISOR_TIMER = 0x80000005"

text \<open>The stack that the next trap from user mode will use.\<close>

definition set_trap_stack :: "nat option \<Rightarrow> kstate \<Rightarrow> kstate" where
  "set_trap_stack owner k =
     (case current_proc k of
        Some c \<Rightarrow> if 0 < p_pid (procs k c) then k\<lparr>csr_sscratch := Some c\<rparr>
                  else (case owner of None \<Rightarrow> k | Some w \<Rightarrow> k\<lparr>csr_sscratch := Some w\<rparr>)
      | None \<Rightarrow> (case owner of None \<Rightarrow> k | Some w \<Rightarrow> k\<lparr>csr_sscratch := Some w\<rparr>))"

text \<open>
  A system call of the current process that trapped at \<open>user_pc\<close>. When the handler blocks, the process yields and
  makes another turn of the same call after it has been resumed; a console read goes on with the characters that
  are left to read.
\<close>

definition ecall_finish :: "u32 \<Rightarrow> nat option \<Rightarrow> trap_frame \<Rightarrow> trap_frame call \<Rightarrow> sys_state \<Rightarrow> outcome" where
  "ecall_finish user_pc owner f r s =
     (case r of
       Done f' \<Rightarrow>
         let pc = (if (tf_a3 f = SYSCALL_EXEC \<or> tf_a3 f = SYSCALL_EXECV) \<and> tf_a0 f' = 0 then USER_BASE else user_pc + 4)
         in Ok (Done f', on_kern s ((set_trap_stack owner (kern s))\<lparr>csr_sepc := pc\<rparr>))
     | Blocked \<Rightarrow> kbind (yield (kern s)) (\<lambda>(t, k). Ok (Blocked, on_kern s k))
     | No_return \<Rightarrow> Ok (No_return, s))"

definition ecall_turn :: "char list \<Rightarrow> u32 \<Rightarrow> nat option \<Rightarrow> trap_frame \<Rightarrow> sys_state \<Rightarrow> outcome" where
  "ecall_turn junk user_pc owner f s =
     kbind (handle_syscall junk f s) (\<lambda>(r, s). ecall_finish user_pc owner f r s)"

definition console_read_turn :: "u32 \<Rightarrow> nat option \<Rightarrow> trap_frame \<Rightarrow> nat \<Rightarrow> nat \<Rightarrow> sys_state \<Rightarrow> outcome" where
  "console_read_turn user_pc owner f i n s =
     kbind (console_read_loop f (tf_a1 f) i n s) (\<lambda>(r, s). ecall_finish user_pc owner f r s)"

text \<open>The timer interrupt; it does not write \<open>sepc\<close>.\<close>

definition timer_turn :: "nat option \<Rightarrow> trap_frame \<Rightarrow> sys_state \<Rightarrow> outcome" where
  "timer_turn owner f s =
     (let s = poll_console_input s;
          k = scheduler_on_timer_tick (kern s)
      in kbind (if scheduler_should_yield k then yield k else Ok (Continue, k)) (\<lambda>(t, k).
         Ok (Done f, on_kern s (set_trap_stack owner k))))"

definition trap_message :: "u32 \<Rightarrow> string" where
  "trap_message scause =
     (if scause = 0 then ''Instruction address misaligned.'' else if scause = 1 then ''Instruction access fault.''
      else if scause = 2 then ''Illegal Instruction.'' else if scause = 3 then ''Breakpoint.''
      else if scause = 4 then ''Load address misaligned.'' else if scause = 5 then ''Load access fault.''
      else if scause = 6 then ''Store/AMO address misaligned.'' else if scause = 7 then ''Store/AMO access fault.''
      else if scause = 9 then ''Environment call from S-Mode.'' else if scause = 0xc then ''Instruction page fault.''
      else if scause = 0xd then ''Load page fault.'' else if scause = 0xf then ''Store/AMO page fault.''
      else ''unexpected trap'')"

definition handle_trap :: "char list \<Rightarrow> u32 \<Rightarrow> u32 \<Rightarrow> trap_frame \<Rightarrow> sys_state \<Rightarrow> outcome" where
  "handle_trap junk scause addr f s =
     (let user_pc = csr_sepc (kern s);
          from_user = (csr_sstatus (kern s) AND 0x100 = 0);
          owner = (if from_user then process_from_trap_frame addr (kern s) else None);
          s = (if owner = None then s else on_kern s ((kern s)\<lparr>current_proc := owner\<rparr>))
      in if scause = SCAUSE_ENVIRONMENT_CALL_FROM_U_MODE then ecall_turn junk user_pc owner f s
         else if scause = SCAUSE_SUPERVISOR_TIMER then timer_turn owner f s
         else PANIC (trap_message scause))"

text \<open>
  The assembly around the handler (\<open>kernel_entry\<close> in src/kernel/kernel.c): the frame that it saves for the
  interrupted registers, the address of the frame and the new \<open>sscratch\<close>; and the registers that it restores, which
  are the fields of the frame.
\<close>

definition kernel_entry_save :: "u32 \<Rightarrow> u32 \<Rightarrow> trap_frame \<Rightarrow> trap_frame \<times> u32 \<times> u32" where
  "kernel_entry_save sstatus sscratch regs =
     (let t0 = sstatus AND 0x100;
          (sp, sscratch) = (if t0 \<noteq> 0 then (tf_sp regs, tf_sp regs) else (sscratch, tf_sp regs));
          addr = sp - 4 * 31
      in (regs\<lparr>tf_t0 := t0, tf_sp := sscratch\<rparr>, addr, addr + 4 * 31))"

definition kernel_entry_restore :: "trap_frame \<Rightarrow> trap_frame" where
  "kernel_entry_restore f = f"

section \<open>Boot\<close>

definition zero_process :: process where
  "zero_process = \<lparr>p_pid = 0, p_state = PROC_UNUSED, p_name = replicate 16 NUL, p_wait_reason = PROC_WAIT_NONE,
     p_wait_pid = 0, p_parent_pid = 0, p_user_pages = 0, p_ctx = Ctx_none, p_page_table = 0, p_time_slice = 0,
     p_run_ticks = 0, p_schedule_count = 0, p_ipc_has_message = False, p_ipc_from_pid = 0, p_ipc_message = 0,
     p_exec_argc = 0, p_exec_argv = replicate 8 (replicate 32 NUL), p_root_mount_idx = 0, p_root_node_idx = 0,
     p_root_path = replicate 64 NUL, p_cwd_mount_idx = 0, p_cwd_node_idx = 0, p_cwd_path = replicate 64 NUL\<rparr>"

text \<open>The static variables of the kernel after the bss has been cleared.\<close>

definition bss_clear :: "sys_state \<Rightarrow> sys_state" where
  "bss_clear s = s\<lparr>con := empty_console, kern := (kern s)\<lparr>procs := \<lambda>_. zero_process, current_proc := None,
     idle_proc := None, init_proc := None, need_resched := False\<rparr>\<rparr>"

text \<open>\<open>kernel_bootstrap\<close> up to the idle process, and \<open>kernel_main\<close> up to its first \<open>yield\<close>; a process that cannot be
  created would be a NULL pointer.\<close>

definition kernel_bootstrap :: "u32 \<Rightarrow> u32 \<Rightarrow> sys_state \<Rightarrow> sys_state kres" where
  "kernel_bootstrap free_ram free_end s0 =
     (let s = bss_clear s0; k = kern s
      in kbind (memory_init free_ram free_end (kmem k)) (\<lambda>(pages, m).
         kbind (fs_init (kfs k)) (\<lambda>fs.
         kbind (case rtc_now_sec (rtc_time s) (snd (rtc_init (rtc_reads s))) of
                  None \<Rightarrow> PANIC ''rtc'' | Some (now, n) \<Rightarrow> Ok n) (\<lambda>n.
         kbind (create_process [] ''idle'' (k\<lparr>kmem := m, kfs := fs\<rparr>)) (\<lambda>(p, k).
         let i = the p;
             k = upd i (\<lambda>p. p\<lparr>p_pid := 0\<rparr>) k
         in Ok (s\<lparr>kern := k\<lparr>idle_proc := p, current_proc := p\<rparr>, kernel_total_pages := pages,
                  rtc_reads := n\<rparr>))))))"

definition kernel_main :: "u32 \<Rightarrow> u32 \<Rightarrow> sys_state \<Rightarrow> (turn \<times> sys_state) kres" where
  "kernel_main free_ram free_end s0 =
     kbind (kernel_bootstrap free_ram free_end s0) (\<lambda>s.
     kbind (create_process (app_image s ''shell'') ''shell'' (kern s)) (\<lambda>(p, k).
     kbind (yield (k\<lparr>init_proc := p\<rparr>)) (\<lambda>(t, k). Ok (t, on_kern s k))))"

end
