(* ===== verification/ProcInv.thy ===== *)
theory ProcInv
  imports Sched
begin

text \<open>
  The invariant of the process table, and that every operation of Process and Sched keeps it together with the
  invariant of the file system. The table invariant says that the slot of a process is its pid, that a process
  waits exactly when it has a reason to wait, that a parent pid names a process that has not exited, and that no
  wakeup has been lost: a process that waits for a child has a child that has not exited and that it waits for,
  and a process that waits for a message has an empty mailbox.
\<close>

section \<open>The invariant\<close>

definition alive :: "process \<Rightarrow> bool" where
  "alive p \<longleftrightarrow> p_state p = PROC_RUNNABLE \<or> p_state p = PROC_WAITTING"

definition child_waiter :: "process \<Rightarrow> bool" where
  "child_waiter p \<longleftrightarrow> p_state p = PROC_WAITTING \<and> p_wait_reason p = PROC_WAIT_CHILD_EXIT"

definition ipc_waiter :: "process \<Rightarrow> bool" where
  "ipc_waiter p \<longleftrightarrow> p_state p = PROC_WAITTING \<and> p_wait_reason p = PROC_WAIT_IPC_RECV"

definition console_waiter :: "process \<Rightarrow> bool" where
  "console_waiter p \<longleftrightarrow> p_state p = PROC_WAITTING \<and> p_wait_reason p = PROC_WAIT_CONSOLE_INPUT"

definition awaited :: "int \<Rightarrow> int \<Rightarrow> process \<Rightarrow> bool" where
  "awaited parent target p \<longleftrightarrow> is_child parent target p \<and> p_state p \<noteq> PROC_EXITED"

definition slot_ok :: "(nat \<Rightarrow> process) \<Rightarrow> nat \<Rightarrow> bool" where
  "slot_ok P i \<longleftrightarrow> (p_state (P i) \<noteq> PROC_UNUSED \<longrightarrow> p_pid (P i) = int i) \<and>
     (p_state (P i) = PROC_WAITTING \<longleftrightarrow> p_wait_reason (P i) \<noteq> PROC_WAIT_NONE)"

definition parent_ok :: "(nat \<Rightarrow> process) \<Rightarrow> nat \<Rightarrow> bool" where
  "parent_ok P i \<longleftrightarrow> p_parent_pid (P i) = 0 \<or>
     (\<exists>j. 0 < j \<and> j < 64 \<and> p_parent_pid (P i) = int j \<and> alive (P j))"

definition wakeup_ok :: "(nat \<Rightarrow> process) \<Rightarrow> nat \<Rightarrow> bool" where
  "wakeup_ok P i \<longleftrightarrow> (child_waiter (P i) \<longrightarrow> 0 < i \<and> (\<exists>c < 64. awaited (int i) (p_wait_pid (P i)) (P c))) \<and>
     (ipc_waiter (P i) \<longrightarrow> \<not> p_ipc_has_message (P i))"

definition table_ok :: "(nat \<Rightarrow> process) \<Rightarrow> bool" where
  "table_ok P \<longleftrightarrow> (\<forall>i < 64. slot_ok P i \<and> parent_ok P i \<and> wakeup_ok P i)"

lemma table_okD:
  assumes "table_ok P" "i < 64"
  shows "slot_ok P i" "parent_ok P i" "wakeup_ok P i"
  using assms by (auto simp: table_ok_def)

text \<open>The fields of a process that the invariant reads.\<close>

definition view :: "process \<Rightarrow> int \<times> pstate \<times> wait_reason \<times> int \<times> int \<times> bool" where
  "view p = (p_pid p, p_state p, p_wait_reason p, p_wait_pid p, p_parent_pid p, p_ipc_has_message p)"

lemma view_eqD:
  assumes "view p = view q"
  shows "p_pid p = p_pid q" "p_state p = p_state q" "p_wait_reason p = p_wait_reason q"
    "p_wait_pid p = p_wait_pid q" "p_parent_pid p = p_parent_pid q" "p_ipc_has_message p = p_ipc_has_message q"
  using assms by (auto simp: view_def)

lemma table_ok_cong:
  assumes "\<And>i. i < 64 \<Longrightarrow> view (P i) = view (Q i)"
  shows "table_ok P = table_ok Q"
proof -
  have "table_ok Q" if t: "table_ok P" and e: "\<And>i. i < 64 \<Longrightarrow> view (P i) = view (Q i)" for P Q
    unfolding table_ok_def
  proof (intro allI impI)
    fix i :: nat assume i: "i < 64"
    note v = view_eqD [OF e [OF i]]
    note ok = table_okD [OF t i]
    have aw: "awaited w x (Q c) = awaited w x (P c)" if "c < 64" for w x c
      using view_eqD [OF e [OF that]] by (simp add: awaited_def is_child_def)
    have "slot_ok Q i" using ok(1) v by (simp add: slot_ok_def)
    moreover have "alive (Q j) = alive (P j)" if "j < 64" for j
      using view_eqD [OF e [OF that]] by (simp add: alive_def)
    then have "parent_ok Q i" using ok(2) v unfolding parent_ok_def by metis
    moreover have "wakeup_ok Q i"
      using ok(3) v aw unfolding wakeup_ok_def child_waiter_def ipc_waiter_def by metis
    ultimately show "slot_ok Q i \<and> parent_ok Q i \<and> wakeup_ok Q i" by blast
  qed
  then show ?thesis using assms by metis
qed

text \<open>Replacing one slot: what a process that others depend on must keep.\<close>

lemma table_ok_upd:
  assumes ok: "table_ok P" and i: "i < 64"
    and slot: "p_state q \<noteq> PROC_UNUSED \<Longrightarrow> p_pid q = int i"
      "p_state q = PROC_WAITTING \<longleftrightarrow> p_wait_reason q \<noteq> PROC_WAIT_NONE"
    and par: "p_parent_pid q = 0 \<or> p_parent_pid q = p_parent_pid (P i) \<or>
      (\<exists>j. 0 < j \<and> j < 64 \<and> j \<noteq> i \<and> p_parent_pid q = int j \<and> alive (P j))"
    and keep: "alive (P i) \<Longrightarrow> alive q"
      "alive (P i) \<Longrightarrow> (p_parent_pid q = p_parent_pid (P i) \<or> p_parent_pid (P i) = 0) \<and> p_pid q = p_pid (P i)"
    and child: "child_waiter q \<Longrightarrow> 0 < i \<and> (\<exists>c < 64. awaited (int i) (p_wait_pid q) ((P(i := q)) c))"
    and msg: "ipc_waiter q \<Longrightarrow> \<not> p_ipc_has_message q"
  shows "table_ok (P(i := q))"
  unfolding table_ok_def
proof (intro allI impI)
  fix k :: nat assume k: "k < 64"
  let ?Q = "P(i := q)"
  note kk = table_okD [OF ok k]
  have al: "alive (?Q j)" if "alive (P j)" for j using that keep(1) by auto
  have aw: "awaited (int w) t (?Q c)" if a: "awaited (int w) t (P c)" "0 < w" for w t c
  proof (cases "c = i")
    case True
    then have "alive (P i)" using a by (cases "p_state (P i)") (auto simp: awaited_def is_child_def alive_def)
    moreover have "p_parent_pid (P i) \<noteq> 0" using a True by (auto simp: awaited_def is_child_def)
    ultimately have "alive q" "p_parent_pid q = p_parent_pid (P i)" "p_pid q = p_pid (P i)" using keep by auto
    then show ?thesis using a True by (auto simp: awaited_def is_child_def alive_def)
  qed (use a in simp)
  show "slot_ok ?Q k \<and> parent_ok ?Q k \<and> wakeup_ok ?Q k"
  proof (cases "k = i")
    case False
    have "slot_ok ?Q k" using kk(1) False by (simp add: slot_ok_def)
    moreover have same: "?Q k = P k" using False by simp
    then have "parent_ok ?Q k" using kk(2) al unfolding parent_ok_def by metis
    moreover have "wakeup_ok ?Q k" using kk(3) same aw unfolding wakeup_ok_def by metis
    ultimately show ?thesis by blast
  next
    case True
    have "slot_ok ?Q i" using slot by (simp add: slot_ok_def)
    moreover have "parent_ok ?Q i"
      using par table_okD(2) [OF ok i] al unfolding parent_ok_def by fastforce
    moreover have "wakeup_ok ?Q i" using child msg unfolding wakeup_ok_def by auto
    ultimately show ?thesis using True by blast
  qed
qed

text \<open>A slot that is dead is reset, a free one is filled.\<close>

definition cleared :: "process \<Rightarrow> bool" where
  "cleared p \<longleftrightarrow> p_state p = PROC_UNUSED \<and> p_parent_pid p = 0 \<and> p_wait_reason p = PROC_WAIT_NONE \<and> p_pid p = 0 \<and>
     \<not> p_ipc_has_message p"

lemma table_ok_clear:
  assumes "table_ok P" "i < 64" "\<not> alive (P i)" "cleared q"
  shows "table_ok (P(i := q))"
  by (rule table_ok_upd [OF assms(1,2)])
    (use assms(3,4) in \<open>auto simp: cleared_def child_waiter_def ipc_waiter_def\<close>)

lemma table_ok_wake:
  assumes "table_ok P" "i < 64" "p_state (P i) = PROC_WAITTING"
    "view q = (p_pid (P i), PROC_RUNNABLE, PROC_WAIT_NONE, -1, p_parent_pid (P i), m)"
  shows "table_ok (P(i := q))"
  by (rule table_ok_upd [OF assms(1,2)])
    (use assms(3,4) table_okD(1) [OF assms(1,2)] in
      \<open>auto simp: view_def alive_def slot_ok_def child_waiter_def ipc_waiter_def\<close>)

text \<open>
  Exit: the children of slot \<open>i\<close> lose their parent, the slot is marked, and the parent is woken if it waits for it.
\<close>

definition orphaned :: "int \<Rightarrow> process \<Rightarrow> process" where
  "orphaned pid p = (if p_parent_pid p = pid then p\<lparr>p_parent_pid := 0\<rparr> else p)"

definition exited :: "process \<Rightarrow> process" where
  "exited p = p\<lparr>p_state := PROC_EXITED, p_wait_reason := PROC_WAIT_NONE, p_wait_pid := -1\<rparr>"

definition awake :: "process \<Rightarrow> process" where
  "awake p = p\<lparr>p_state := PROC_RUNNABLE, p_wait_reason := PROC_WAIT_NONE, p_wait_pid := -1\<rparr>"

definition notified :: "int \<Rightarrow> int \<Rightarrow> process \<Rightarrow> process" where
  "notified parent pid p =
     (if 0 < parent \<and> p_pid p = parent \<and> child_waiter p \<and> (p_wait_pid p = -1 \<or> p_wait_pid p = pid) then awake p else p)"

lemma exit_fields [simp]:
  "p_pid (orphaned x p) = p_pid p" "p_state (orphaned x p) = p_state p" "p_wait_reason (orphaned x p) = p_wait_reason p"
  "p_wait_pid (orphaned x p) = p_wait_pid p" "p_ipc_has_message (orphaned x p) = p_ipc_has_message p"
  "p_pid (exited p) = p_pid p" "p_state (exited p) = PROC_EXITED" "p_wait_reason (exited p) = PROC_WAIT_NONE"
  "p_parent_pid (exited p) = p_parent_pid p"
  "p_pid (awake p) = p_pid p" "p_parent_pid (awake p) = p_parent_pid p" "p_state (awake p) = PROC_RUNNABLE"
  "p_wait_reason (awake p) = PROC_WAIT_NONE" "p_wait_pid (awake p) = -1" "p_ipc_has_message (awake p) = p_ipc_has_message p"
  by (simp_all add: orphaned_def exited_def awake_def)

definition exit_table :: "nat \<Rightarrow> (nat \<Rightarrow> process) \<Rightarrow> nat \<Rightarrow> process" where
  "exit_table i P j =
     notified (p_parent_pid (orphaned (int i) (P i))) (int i)
       (if j = i then exited (orphaned (int i) (P i)) else orphaned (int i) (P j))"

lemma exit_table_ok:
  assumes ok: "table_ok P" and i: "i < 64" "0 < i" and al: "alive (P i)"
  shows "table_ok (exit_table i P)"
  unfolding table_ok_def
proof (intro allI impI)
  fix k :: nat assume k: "k < 64"
  let ?Q = "exit_table i P" and ?pp = "p_parent_pid (orphaned (int i) (P i))"
  note kk = table_okD [OF ok k]
  have pid: "p_pid (P j) = int j" if "j < 64" "alive (P j)" for j
    using table_okD(1) [OF ok that(1)] that(2) by (auto simp: slot_ok_def alive_def)
  have par: "p_parent_pid (?Q j) = (if p_parent_pid (P j) = int i then 0 else p_parent_pid (P j))" for j
    by (auto simp: exit_table_def notified_def orphaned_def exited_def awake_def)
  have al': "alive (?Q j)" if "alive (P j)" "j \<noteq> i" for j
    using that by (auto simp: exit_table_def notified_def alive_def)
  have "parent_ok ?Q k"
    using kk(2) al' unfolding parent_ok_def par by (metis of_nat_eq_iff)
  moreover have "slot_ok ?Q k"
    using kk(1) pid [OF i(1) al] by (auto simp: slot_ok_def exit_table_def notified_def child_waiter_def)
  moreover have "wakeup_ok ?Q k"
  proof (cases "k = i")
    case True
    then show ?thesis
      by (auto simp: wakeup_ok_def exit_table_def notified_def child_waiter_def ipc_waiter_def)
  next
    case False
    have "ipc_waiter (?Q k) \<Longrightarrow> \<not> p_ipc_has_message (?Q k)"
      using kk(3) False by (auto simp: exit_table_def notified_def ipc_waiter_def wakeup_ok_def split: if_splits)
    moreover have "0 < k \<and> (\<exists>c < 64. awaited (int k) (p_wait_pid (?Q k)) (?Q c))" if cw: "child_waiter (?Q k)"
    proof -
      have q: "?Q k = orphaned (int i) (P k)"
        using cw False by (auto simp: exit_table_def notified_def child_waiter_def split: if_splits)
      have "child_waiter (P k)" using cw unfolding q by (simp add: child_waiter_def)
      then obtain c where c: "c < 64" "awaited (int k) (p_wait_pid (P k)) (P c)"
        using kk(3) by (auto simp: wakeup_ok_def)
      have pk: "p_pid (P k) = int k" using pid [OF k] \<open>child_waiter (P k)\<close> by (simp add: child_waiter_def alive_def)
      have "c \<noteq> i"
      proof
        assume "c = i"
        then have w: "p_parent_pid (P i) = int k" "p_wait_pid (P k) = -1 \<or> p_wait_pid (P k) = int i"
          using c(2) pid [OF i(1) al] by (auto simp: awaited_def is_child_def)
        then have "?pp = int k" using False by (simp add: orphaned_def)
        moreover have "0 < k" using kk(3) \<open>child_waiter (P k)\<close> by (simp add: wakeup_ok_def)
        ultimately have "?Q k = awake (orphaned (int i) (P k))"
          using False w(2) \<open>child_waiter (P k)\<close> pk by (simp add: exit_table_def notified_def child_waiter_def)
        then show False using cw by (simp add: child_waiter_def)
      qed
      moreover have "p_parent_pid (P c) \<noteq> int i" using c(2) False by (auto simp: awaited_def is_child_def)
      ultimately have "?Q c = P c \<or> ?Q c = awake (P c)" by (auto simp: exit_table_def notified_def orphaned_def)
      then have "awaited (int k) (p_wait_pid (P k)) (?Q c)"
        using c(2) by (auto simp: awaited_def is_child_def)
      then show ?thesis using c(1) q kk(3) \<open>child_waiter (P k)\<close> by (auto simp: wakeup_ok_def)
    qed
    ultimately show ?thesis by (auto simp: wakeup_ok_def)
  qed
  ultimately show "slot_ok ?Q k \<and> parent_ok ?Q k \<and> wakeup_ok ?Q k" by blast
qed

section \<open>What the operations leave alone\<close>

definition frame :: "kstate \<Rightarrow> kstate \<Rightarrow> bool" where
  "frame k k' \<longleftrightarrow> current_proc k' = current_proc k \<and> init_proc k' = init_proc k \<and> csr_satp k' = csr_satp k \<and>
     (vfs_wf (kfs k) \<longrightarrow> vfs_wf (kfs k'))"

lemma frame_refl [simp]: "frame k k" by (simp add: frame_def)

lemma frame_trans [trans]: "frame a b \<Longrightarrow> frame b c \<Longrightarrow> frame a c" by (auto simp: frame_def)

lemma frame_upd [simp]: "frame k (upd i f k') = frame k k'" by (simp add: frame_def)

lemma frame_kmem [simp]: "frame k (k'\<lparr>kmem := m\<rparr>) = frame k k'" by (simp add: frame_def)

lemma str_len_k_le: "unat (of_nat (str_len_k c) :: u32) \<le> length c"
  using length_cstr_le [of c] by (simp add: str_len_k_def unsigned_of_nat) (metis le_trans take_bit_nat_less_eq_self)

lemma procfs_sync_wf:
  assumes "vfs_wf fs"
  shows "vfs_wf (snd (procfs_sync_process p fs))"
proof -
  have "vfs_wf (snd (fs_mkdir (Some (cstr d)) fs))" for d
    by (rule fs_mkdir_wf [OF assms]) (simp add: cpath_def)
  moreover have "vfs_wf (snd (fs_open pid (Some (cstr d)) fl fs))" if "vfs_wf fs" for pid d fl fs
    by (rule fs_open_wf [OF that]) (simp add: cpath_def)
  moreover have "vfs_wf (snd (fs_write pid fd (Some (map of_char c)) (of_nat (str_len_k c)) fs))" if "vfs_wf fs"
    for pid fd c fs by (rule fs_write_wf [OF that]) (use str_len_k_le in auto)
  ultimately show ?thesis
    using assms fs_close_wf by (simp add: procfs_sync_process_def case_prod_beta Let_def)
qed

lemma procfs_sync_best_effort_wf: "vfs_wf fs \<Longrightarrow> vfs_wf (procfs_sync_best_effort p fs)"
  by (simp add: procfs_sync_best_effort_def procfs_sync_wf)

lemma procfs_cleanup_wf:
  assumes "vfs_wf fs"
  shows "vfs_wf (snd (procfs_cleanup p fs))"
proof -
  have "vfs_wf (snd (fs_unlink (Some (cstr d)) fs))" for d
    by (rule fs_unlink_wf [OF assms]) (simp add: cpath_def)
  moreover have "vfs_wf (snd (fs_rmdir (Some (cstr d)) fs))" if "vfs_wf fs" for d fs
    by (rule fs_rmdir_wf [OF that]) (simp add: cpath_def)
  ultimately show ?thesis
    using assms by (simp add: procfs_cleanup_def case_prod_beta Let_def)
qed

lemma frame_syncI: "frame k k' \<Longrightarrow> frame k (sync i k')"
  by (auto simp: frame_def procfs_sync_best_effort_wf)

section \<open>Loops over the table\<close>

lemma fold_slots:
  assumes "\<And>i s. Q s \<Longrightarrow> i < n \<Longrightarrow> procs (f i s) = (procs s)(i := g (procs s i)) \<and> Q (f i s)" "Q s"
  shows "procs (fold f [0 ..< n] s) = (\<lambda>i. if i < n then g (procs s i) else procs s i) \<and> Q (fold f [0 ..< n] s)"
  using assms
proof (induction n)
  case 0
  then show ?case by simp
next
  case (Suc n)
  let ?s = "fold f [0 ..< n] s"
  have IH: "procs ?s = (\<lambda>i. if i < n then g (procs s i) else procs s i)" "Q ?s"
    using Suc.IH Suc.prems by auto
  have st: "procs (f n ?s) = (procs ?s)(n := g (procs ?s n))" "Q (f n ?s)"
    using Suc.prems(1) [OF IH(2), of n] by blast+
  have "procs (f n ?s) i = (if i < Suc n then g (procs s i) else procs s i)" for i
    unfolding st(1) by (simp add: IH(1) less_Suc_eq)
  then show ?case using st(2) by (simp add: fun_eq_iff)
qed

lemma procs_wake: "procs (wake i s) = (procs s)(i := awake (procs s i))"
  by (auto simp: wake_def awake_def fun_eq_iff)

lemma frame_wake: "frame k k' \<Longrightarrow> frame k (wake i k')"
  unfolding wake_def by (intro frame_syncI) simp

lemma PROCS_64 [simp]: "PROCS_MAX = 64" by (simp add: PROCS_MAX_def)

lemma wakeup_input_procs:
  "procs (wakeup_input_waiters s) = (\<lambda>i. if i < 64 then (if console_waiter (procs s i) then awake (procs s i) else procs s i)
     else procs s i) \<and> frame s (wakeup_input_waiters s)"
  unfolding wakeup_input_waiters_def PROCS_64
  by (rule fold_slots) (auto simp: console_waiter_def procs_wake frame_wake)

lemma orphan_procs:
  assumes "0 < pid"
  shows "procs (orphan_children pid s) = (\<lambda>i. if i < 64 then orphaned pid (procs s i) else procs s i) \<and>
    frame s (orphan_children pid s)"
proof -
  have "orphan_children pid s =
      fold (\<lambda>i s. if p_parent_pid (procs s i) = pid then upd i (\<lambda>p. p\<lparr>p_parent_pid := 0\<rparr>) s else s) [0 ..< 64] s"
    using assms by (simp add: orphan_children_def)
  also have "procs \<dots> = (\<lambda>i. if i < 64 then orphaned pid (procs s i) else procs s i) \<and> frame s \<dots>"
    by (rule fold_slots) (auto simp: orphaned_def)
  finally show ?thesis .
qed

lemma notify_procs:
  "procs (notify_child_exit c s) = (\<lambda>i. if i < 64
       then notified (p_parent_pid (procs s c)) (p_pid (procs s c)) (procs s i) else procs s i) \<and>
   frame s (notify_child_exit c s)"
proof (cases "p_parent_pid (procs s c) \<le> 0")
  case True
  then show ?thesis by (auto simp: notify_child_exit_def notified_def fun_eq_iff)
next
  case False
  let ?pp = "p_parent_pid (procs s c)" and ?pid = "p_pid (procs s c)"
  let ?f = "\<lambda>i s. let p = procs s i
           in if p_pid p \<noteq> ?pp \<or> p_state p \<noteq> PROC_WAITTING then s
              else if p_wait_reason p \<noteq> PROC_WAIT_CHILD_EXIT then s
              else if p_wait_pid p = -1 \<or> p_wait_pid p = p_pid (procs s c) then wake i s
              else s"
  have "notify_child_exit c s = fold ?f [0 ..< 64] s"
    using False by (simp add: notify_child_exit_def)
  also have "procs \<dots> = (\<lambda>i. if i < 64 then notified ?pp ?pid (procs s i) else procs s i) \<and>
      (frame s \<dots> \<and> p_pid (procs \<dots> c) = ?pid)"
  proof (rule fold_slots)
    fix i t assume q: "frame s t \<and> p_pid (procs t c) = ?pid"
    then have pc: "p_pid (procs t c) = ?pid" by simp
    let ?c = "p_pid (procs t i) = ?pp \<and> child_waiter (procs t i) \<and>
      (p_wait_pid (procs t i) = -1 \<or> p_wait_pid (procs t i) = ?pid)"
    have f: "?f i t = (if ?c then wake i t else t)"
      by (simp add: Let_def pc child_waiter_def)
    have n: "notified ?pp ?pid (procs t i) = (if ?c then awake (procs t i) else procs t i)"
      using False by (simp add: notified_def)
    show "procs (?f i t) = (procs t)(i := notified ?pp ?pid (procs t i)) \<and> (frame s (?f i t) \<and> p_pid (procs (?f i t) c) = ?pid)"
    proof (cases ?c)
      case True
      have "p_pid (procs (wake i t) c) = ?pid" using pc by (auto simp: procs_wake)
      then show ?thesis unfolding f n if_P [OF True] using q frame_wake procs_wake by blast
    next
      case c: False
      show ?thesis unfolding f n if_not_P [OF c] using q by (simp only: fun_upd_triv)
    qed
  qed auto
  finally show ?thesis by blast
qed

lemma exit_procs:
  assumes "i < 64" "0 < i" "p_pid (procs s i) = int i"
  shows "frame s (notify_child_exit i (sync i (mark_exited i (orphan_children (int i) s))))"
    and "j < 64 \<Longrightarrow> procs (notify_child_exit i (sync i (mark_exited i (orphan_children (int i) s)))) j = exit_table i (procs s) j"
proof -
  let ?s1 = "orphan_children (int i) s"
  let ?s2 = "sync i (mark_exited i ?s1)"
  have o: "procs ?s1 = (\<lambda>i'. if i' < 64 then orphaned (int i) (procs s i') else procs s i')" "frame s ?s1"
    using orphan_procs [of "int i" s] assms(2) by auto
  have m: "procs ?s2 = (procs ?s1)(i := exited (procs ?s1 i))"
    unfolding mark_exited_def by (rule ext) (simp add: exited_def)
  have "frame s ?s2" by (rule frame_syncI) (simp add: mark_exited_def o(2))
  then show "frame s (notify_child_exit i ?s2)" using notify_procs [of i ?s2] frame_trans by blast
  assume "j < 64"
  then have "procs (notify_child_exit i ?s2) j =
      notified (p_parent_pid (procs ?s2 i)) (p_pid (procs ?s2 i)) (procs ?s2 j)"
    by (simp only: conjunct1 [OF notify_procs [of i ?s2]] if_P)
  then show "procs (notify_child_exit i ?s2) j = exit_table i (procs s) j"
    using assms \<open>j < 64\<close> by (simp add: m o(1) exit_table_def)
qed

section \<open>Slots\<close>

lemma recycle_result:
  assumes "recycle_process_slot i k = Ok k'"
  obtains q where "procs k' = (procs k)(i := q)" "cleared q" "frame k k'"
proof -
  let ?fs = "fs_on_process_recycle (p_pid (procs k i)) (snd (procfs_cleanup (procs k i) (kfs k)))"
  obtain k1 where k1: "free_process_memory i (k\<lparr>kfs := ?fs\<rparr>) = Ok k1" and k': "k' = upd i reset_slot k1"
    using assms by (auto simp: recycle_process_slot_def kbind_Ok_iff Let_def)
  have "frame k (k\<lparr>kfs := ?fs\<rparr>)" by (simp add: frame_def fs_recycle_wf procfs_cleanup_wf)
  moreover have "(\<exists>q. procs k1 = (procs k)(i := q)) \<and> frame (k\<lparr>kfs := ?fs\<rparr>) k1"
  proof (cases "p_page_table (procs k i) = 0")
    case True
    then have "k1 = k\<lparr>kfs := ?fs\<rparr>" using k1 by (simp add: free_process_memory_def Let_def)
    then show ?thesis by (auto intro: exI [of _ "procs k i"])
  next
    case False
    then obtain m where "k1 = upd i (\<lambda>p. p\<lparr>p_page_table := 0, p_user_pages := 0\<rparr>) (k\<lparr>kfs := ?fs, kmem := m\<rparr>)"
      using k1 by (auto simp: free_process_memory_def kbind_Ok_iff Let_def)
    then show ?thesis by (auto simp: upd_def frame_def)
  qed
  then obtain q where q: "procs k1 = (procs k)(i := q)" "frame (k\<lparr>kfs := ?fs\<rparr>) k1" by blast
  ultimately have "frame k k'" unfolding k' using frame_trans by simp
  moreover have "procs k' = (procs k)(i := reset_slot q)" by (simp add: k' upd_def q(1))
  moreover have "cleared (reset_slot q)"
    by (simp add: cleared_def reset_slot_def clear_exec_args_def set_process_name_def)
  ultimately show thesis using that by blast
qed

definition kept :: "kstate \<Rightarrow> kstate \<Rightarrow> bool" where
  "kept k k' \<longleftrightarrow> (\<forall>j. procs k' j = procs k j \<or> (\<not> alive (procs k j) \<and> cleared (procs k' j)))"

lemma kept_refl [simp]: "kept k k" by (simp add: kept_def)

lemma kept_trans: "kept a b \<Longrightarrow> kept b c \<Longrightarrow> kept a c"
  unfolding kept_def by (metis cleared_def)

lemma kept_alive: "kept k k' \<Longrightarrow> alive (procs k j) \<Longrightarrow> procs k' j = procs k j"
  by (auto simp: kept_def)

text \<open>No process has started to wait for console input.\<close>

definition quiet :: "kstate \<Rightarrow> kstate \<Rightarrow> bool" where
  "quiet k k' \<longleftrightarrow> (\<forall>j < 64. console_waiter (procs k' j) \<longrightarrow> console_waiter (procs k j))"

lemma quiet_refl [simp]: "quiet k k" by (simp add: quiet_def)

lemma quiet_trans: "quiet a b \<Longrightarrow> quiet b c \<Longrightarrow> quiet a c" by (simp add: quiet_def)

lemma quiet_kept: "kept k k' \<Longrightarrow> quiet k k'"
  unfolding quiet_def kept_def by (metis cleared_def console_waiter_def pstate.distinct(3))

lemma quiet_one:
  assumes "procs k' = (procs k)(i := q)" "console_waiter q \<Longrightarrow> console_waiter (procs k i)"
  shows "quiet k k'"
  using assms by (simp add: quiet_def)

lemma cleared_not_waiter: "cleared q \<Longrightarrow> \<not> console_waiter q"
  by (simp add: cleared_def console_waiter_def)

lemma not_alive_exited: "p_state p = PROC_EXITED \<Longrightarrow> \<not> alive p" "p_state p = PROC_UNUSED \<Longrightarrow> \<not> alive p"
  by (simp_all add: alive_def)

lemma reap_loop_result:
  assumes "reap_loop i n k = Ok k'" "i + n \<le> 64" "table_ok (procs k)"
  shows "frame k k' \<and> kept k k' \<and> table_ok (procs k')"
  using assms
proof (induction i n k rule: reap_loop.induct)
  case (1 i k)
  then show ?case by simp
next
  case (2 i n k)
  show ?case
  proof (cases "p_state (procs k i) = PROC_EXITED \<and> p_parent_pid (procs k i) = 0")
    case False
    then show ?thesis using 2 by (auto split: if_splits)
  next
    case True
    then obtain k1 where k1: "recycle_process_slot i k = Ok k1" and r: "reap_loop (Suc i) n k1 = Ok k'"
      using 2(4) by (auto simp: kbind_Ok_iff)
    obtain q where q: "procs k1 = (procs k)(i := q)" "cleared q" "frame k k1" by (rule recycle_result [OF k1])
    have na: "\<not> alive (procs k i)" using True by (simp add: not_alive_exited)
    have "table_ok (procs k1)" unfolding q(1) by (rule table_ok_clear) (use 2 na q(2) in auto)
    then have "frame k1 k' \<and> kept k1 k' \<and> table_ok (procs k')" using True r 2(5) by (intro 2(2)) auto
    moreover have "kept k k1" using q(1,2) na by (simp add: kept_def)
    ultimately show ?thesis using q(3) frame_trans kept_trans by blast
  qed
qed

lemma reap_result:
  assumes "reap_exited_processes k = Ok k'" "table_ok (procs k)"
  shows "frame k k'" "kept k k'" "table_ok (procs k')"
  using reap_loop_result [of 0 64 k k'] assms by (auto simp: reap_exited_processes_def)

lemma unused_slot_Some:
  assumes "unused_slot k = Some i"
  shows "i < 64" "p_state (procs k i) = PROC_UNUSED"
  using scan_from_SomeD [OF assms [unfolded unused_slot_def]] by auto

lemma strcpy_name_view [simp]:
  "view (new_process i name n t root p) = (int i, PROC_RUNNABLE, PROC_WAIT_NONE, -1, 0, False)"
  by (simp add: view_def new_process_def clear_exec_args_def set_process_name_def)

lemma table_ok_new:
  assumes "table_ok P" "i < 64" "p_state (P i) = PROC_UNUSED"
    and "view q = (int i, PROC_RUNNABLE, PROC_WAIT_NONE, w, par, m)"
    and "par = 0 \<or> (\<exists>j. 0 < j \<and> j < 64 \<and> j \<noteq> i \<and> par = int j \<and> alive (P j))"
  shows "table_ok (P(i := q))"
  by (rule table_ok_upd [OF assms(1,2)])
    (use assms(3-5) in \<open>auto simp: view_def alive_def child_waiter_def ipc_waiter_def\<close>)

lemma create_result:
  assumes "create_process img name k = Ok (p, k')" "table_ok (procs k)"
  obtains "frame k k'" "table_ok (procs k')" "quiet k k'" "\<And>j. alive (procs k j) \<Longrightarrow> procs k' j = procs k j"
    "\<And>i. p = Some i \<Longrightarrow> i < 64 \<and> \<not> alive (procs k i) \<and>
       view (procs k' i) = (int i, PROC_RUNNABLE, PROC_WAIT_NONE, -1, 0, False)"
proof -
  obtain k1 where k1: "reap_exited_processes k = Ok k1" using assms(1) by (auto simp: create_process_def kbind_Ok_iff)
  note r = reap_result [OF k1 assms(2)]
  show thesis
  proof (cases "unused_slot k1")
    case None
    then have "p = None" "k' = k1" using assms(1) k1 by (auto simp: create_process_def kbind_Ok_iff)
    then show thesis using that r kept_alive [OF r(2)] quiet_kept [OF r(2)] by auto
  next
    case (Some i)
    note u = unused_slot_Some [OF Some]
    have na: "\<not> alive (procs k i)" using kept_alive [OF r(2), of i] u(2) by (auto simp: alive_def)
    obtain t m where km: "(case fs_get_root_entry (kfs k1) of
              None \<Rightarrow> kbind (recycle_process_slot i (k1\<lparr>kmem := m\<rparr>)) (\<lambda>s. Ok (None, s))
            | Some root \<Rightarrow> Ok (Some i, sync i (upd i (new_process i name (image_pages img) t root) (k1\<lparr>kmem := m\<rparr>)))) = Ok (p, k')"
      using assms(1) k1 Some by (auto simp: create_process_def kbind_Ok_iff Let_def)
    show thesis
    proof (cases "fs_get_root_entry (kfs k1)")
      case None
      then have n: "p = None" and rc: "recycle_process_slot i (k1\<lparr>kmem := m\<rparr>) = Ok k'"
        using km by (auto simp: kbind_Ok_iff)
      obtain q where q: "procs k' = (procs (k1\<lparr>kmem := m\<rparr>))(i := q)" "cleared q" "frame (k1\<lparr>kmem := m\<rparr>) k'"
        by (rule recycle_result [OF rc])
      have "frame k k'" using r(1) q(3) by (auto simp: frame_def)
      moreover have "quiet k1 k'" by (rule quiet_one [of _ _ i q]) (use q cleared_not_waiter in auto)
      then have "quiet k k'" by (rule quiet_trans [OF quiet_kept [OF r(2)]])
      moreover have "table_ok (procs k')"
        unfolding q(1) by (rule table_ok_clear) (use r(3) u q(2) not_alive_exited in auto)
      moreover have "procs k' j = procs k j" if "alive (procs k j)" for j
        using that kept_alive [OF r(2) that] na q(1) by auto
      ultimately show thesis using that n by simp
    next
      case (Some root)
      let ?q = "new_process i name (image_pages img) t root (procs k1 i)"
      have pi: "p = Some i" and k': "k' = sync i (upd i (new_process i name (image_pages img) t root) (k1\<lparr>kmem := m\<rparr>))"
        using km Some by auto
      have pr: "procs k' = (procs k1)(i := ?q)" by (simp add: k' upd_def)
      have "frame k k'" unfolding k' by (rule frame_syncI) (simp add: r(1))
      moreover have "\<not> console_waiter ?q"
        using strcpy_name_view [of i name "image_pages img" t root "procs k1 i"] by (simp add: view_def console_waiter_def)
      then have "quiet k1 k'" by (intro quiet_one [OF pr]) simp
      then have "quiet k k'" by (rule quiet_trans [OF quiet_kept [OF r(2)]])
      moreover have "table_ok (procs k')"
        unfolding pr by (rule table_ok_new [where w = "-1" and par = 0 and m = False]) (use r(3) u in auto)
      moreover have "procs k' j = procs k j" if "alive (procs k j)" for j
        using that kept_alive [OF r(2) that] na pr by auto
      ultimately show thesis using that pi u na pr by simp
    qed
  qed
qed

section \<open>Fork and exec\<close>

definition kinv :: "kstate \<Rightarrow> bool" where
  "kinv k \<longleftrightarrow> table_ok (procs k) \<and> vfs_wf (kfs k) \<and> (\<exists>c < 64. current_proc k = Some c)"

lemma kinv_frame: "kinv k \<Longrightarrow> frame k k' \<Longrightarrow> table_ok (procs k') \<Longrightarrow> kinv k'"
  by (auto simp: kinv_def frame_def)

text \<open>Only slot \<open>c\<close> has changed.\<close>

definition only_slot :: "nat \<Rightarrow> kstate \<Rightarrow> kstate \<Rightarrow> bool" where
  "only_slot c k k' \<longleftrightarrow> (\<exists>q. procs k' = (procs k)(c := q)) \<and> frame k k'"

lemma only_slot_upd: "only_slot c k k' \<Longrightarrow> only_slot c k (upd c f k')"
  by (auto simp: only_slot_def upd_def frame_def)

lemma only_slot_kmem: "only_slot c k k' \<Longrightarrow> only_slot c k (k'\<lparr>kmem := m\<rparr>)"
  by (simp add: only_slot_def)

lemma only_slot_refl: "only_slot c k k"
  by (auto simp: only_slot_def intro: exI [of _ "procs k c"])

lemmas only_slot_intros = only_slot_upd only_slot_kmem only_slot_refl

lemma fork_fail_result:
  assumes "fork_fail c k1 = Ok (r, k')" "only_slot c k k1"
  shows "r = -1" "\<exists>q. procs k' = (procs k)(c := q) \<and> cleared q" "frame k k'"
proof -
  obtain rr: "recycle_process_slot c k1 = Ok k'" "r = -1"
    using assms(1) by (auto simp: fork_fail_def kbind_Ok_iff)
  obtain q where "procs k' = (procs k1)(c := q)" "cleared q" "frame k1 k'" by (rule recycle_result [OF rr(1)])
  then show "r = -1" "\<exists>q. procs k' = (procs k)(c := q) \<and> cleared q" "frame k k'"
    using assms(2) rr(2) frame_trans unfolding only_slot_def by auto
qed

lemma fork_finish_result:
  assumes ok: "fork_finish cur c tf k1 = Ok (r, k')" and o: "only_slot c k k1"
    and v: "view (procs k1 c) = (int c, PROC_UNUSED, PROC_WAIT_NONE, -1, par, False)"
  shows "frame k k'" and "\<exists>q. procs k' = (procs k)(c := q) \<and>
    (r = -1 \<and> cleared q \<or> r = int c \<and> view q = (int c, PROC_RUNNABLE, PROC_WAIT_NONE, -1, par, False))"
proof -
  let ?g = "\<lambda>p. p\<lparr>p_ctx := Ctx_fork_return (tf\<lparr>tf_a0 := 0\<rparr>) (csr_sepc k1 + 4) (csr_sstatus k1)\<rparr>"
  let ?h = "\<lambda>p. p\<lparr>p_state := PROC_RUNNABLE, p_time_slice := SCHED_TIME_SLICE_TICKS, p_run_ticks := 0, p_schedule_count := 0\<rparr>"
  obtain x fs where c: "fs_fork_copy_fds (p_pid (procs (upd c ?g k1) cur)) (p_pid (procs (upd c ?g k1) c)) (kfs k1) = (x, fs)"
    by (cases "fs_fork_copy_fds (p_pid (procs (upd c ?g k1) cur)) (p_pid (procs (upd c ?g k1) c)) (kfs k1)")
  let ?k2 = "(upd c ?g k1)\<lparr>kfs := fs\<rparr>"
  have "vfs_wf (kfs k1) \<longrightarrow> vfs_wf fs" using fs_fork_wf [of "kfs k1"] c by (metis snd_conv)
  then have o2: "only_slot c k ?k2" using only_slot_upd [OF o, of ?g] by (auto simp: only_slot_def frame_def)
  have F: "fork_finish cur c tf k1 = (if x < 0 then fork_fail c ?k2
      else Ok (p_pid (procs (upd c ?h ?k2) c), sync c (upd c ?h ?k2)))"
    unfolding fork_finish_def Let_def using c by simp
  have "frame k k' \<and> (\<exists>q. procs k' = (procs k)(c := q) \<and>
    (r = -1 \<and> cleared q \<or> r = int c \<and> view q = (int c, PROC_RUNNABLE, PROC_WAIT_NONE, -1, par, False)))"
  proof (cases "x < 0")
    case True
    then have "fork_fail c ?k2 = Ok (r, k')" using F ok by simp
    from fork_fail_result [OF this o2] show ?thesis by blast
  next
    case False
    then have k': "k' = sync c (upd c ?h ?k2)" and r: "r = p_pid (procs k1 c)" using F ok by auto
    obtain q where f: "frame k (upd c ?h ?k2)" and q: "procs (upd c ?h ?k2) = (procs k)(c := q)"
      using only_slot_upd [OF o2, of ?h] by (auto simp: only_slot_def)
    have "view (procs (upd c ?h ?k2) c) = (int c, PROC_RUNNABLE, PROC_WAIT_NONE, -1, par, False)"
      using v by (simp add: view_def)
    then have "view q = (int c, PROC_RUNNABLE, PROC_WAIT_NONE, -1, par, False)" unfolding q by simp
    moreover have "procs k' = (procs k)(c := q)" unfolding k' using q by simp
    moreover have "r = int c" using r v by (simp add: view_def)
    moreover have "frame k k'" unfolding k' by (rule frame_syncI [OF f])
    ultimately show ?thesis by blast
  qed
  then show "frame k k'" and "\<exists>q. procs k' = (procs k)(c := q) \<and>
    (r = -1 \<and> cleared q \<or> r = int c \<and> view q = (int c, PROC_RUNNABLE, PROC_WAIT_NONE, -1, par, False))" by auto
qed

text \<open>The outcomes of the later part of fork: the child slot is cleared or filled.\<close>

definition fork_outcome :: "kstate \<Rightarrow> nat \<Rightarrow> int \<Rightarrow> int \<Rightarrow> kstate \<Rightarrow> bool" where
  "fork_outcome k c par r k' \<longleftrightarrow> frame k k' \<and> (\<exists>q. procs k' = (procs k)(c := q) \<and>
    (r = -1 \<and> cleared q \<or> r = int c \<and> view q = (int c, PROC_RUNNABLE, PROC_WAIT_NONE, -1, par, False)))"

lemma fork_outcome_fail: "fork_fail c k1 = Ok (r, k') \<Longrightarrow> only_slot c k k1 \<Longrightarrow> fork_outcome k c par r k'"
  using fork_fail_result [of c k1 r k' k] unfolding fork_outcome_def by blast

lemma fork_memory_result:
  assumes ok: "fork_memory cur c tf k1 = Ok (r, k')" and o: "only_slot c k k1"
    and v: "view (procs k1 c) = (int c, PROC_UNUSED, PROC_WAIT_NONE, -1, par, False)"
  shows "fork_outcome k c par r k'"
proof -
  obtain pt m where a: "alloc_pages 1 (kmem k1) = Ok (pt, m)"
    using ok by (auto simp: fork_memory_def kbind_Ok_iff)
  show ?thesis
  proof (cases "pt = 0")
    case True
    then have "fork_fail c (k1\<lparr>kmem := m\<rparr>) = Ok (r, k')" using ok a by (simp add: fork_memory_def)
    then show ?thesis using fork_outcome_fail only_slot_kmem [OF o] by blast
  next
    case False
    let ?f = "\<lambda>p. p\<lparr>p_page_table := pt, p_user_pages := p_user_pages (procs k1 cur)\<rparr>"
    obtain m1 ok2 m2 where n: "(if \<not> ok2 then fork_fail c ((upd c ?f (k1\<lparr>kmem := m1\<rparr>))\<lparr>kmem := m2\<rparr>)
        else fork_finish cur c tf ((upd c ?f (k1\<lparr>kmem := m1\<rparr>))\<lparr>kmem := m2\<rparr>)) = Ok (r, k')"
      using ok a False by (auto simp: fork_memory_def kbind_Ok_iff Let_def simp del: upd_simps(1))
    have o3: "only_slot c k ((upd c ?f (k1\<lparr>kmem := m1\<rparr>))\<lparr>kmem := m2\<rparr>)" by (intro only_slot_upd only_slot_kmem o)
    have v3: "view (procs ((upd c ?f (k1\<lparr>kmem := m1\<rparr>))\<lparr>kmem := m2\<rparr>) c) = (int c, PROC_UNUSED, PROC_WAIT_NONE, -1, par, False)"
      using v by (simp add: view_def)
    show ?thesis
    proof (cases ok2)
      case False
      then show ?thesis using n fork_outcome_fail [OF _ o3] by simp
    next
      case True
      then show ?thesis using n fork_finish_result [OF _ o3 v3] unfolding fork_outcome_def by simp
    qed
  qed
qed

lemma fork_result:
  assumes ok: "process_fork tf k = Ok (r, k')" and t: "table_ok (procs k)"
    and cur: "current_proc k = Some cur" "cur < 64"
  shows "frame k k'" "table_ok (procs k')" "quiet k k'" "\<And>j. alive (procs k j) \<Longrightarrow> procs k' j = procs k j"
proof -
  obtain k0 where k0: "reap_exited_processes k = Ok k0"
    using ok by (auto simp: process_fork_def alloc_proc_slot_def kbind_Ok_iff)
  note rp = reap_result [OF k0 t]
  have cur0: "current_proc k0 = Some cur" using rp(1) cur(1) by (simp add: frame_def)
  have "frame k k' \<and> table_ok (procs k') \<and> quiet k k' \<and> (\<forall>j. alive (procs k j) \<longrightarrow> procs k' j = procs k j)"
  proof (cases "unused_slot k0")
    case None
    then have "k' = k0" using ok k0 by (auto simp: process_fork_def alloc_proc_slot_def kbind_Ok_iff)
    then show ?thesis using rp kept_alive quiet_kept by blast
  next
    case (Some c)
    note u = unused_slot_Some [OF Some]
    let ?g1 = "\<lambda>p. clear_exec_args (p\<lparr>p_pid := int c, p_state := PROC_UNUSED,
         p_wait_reason := PROC_WAIT_NONE, p_wait_pid := -1, p_parent_pid := 0\<rparr>)"
    let ?k1 = "upd c ?g1 k0"
    have al: "alloc_proc_slot k = Ok (Some c, ?k1)" using k0 Some by (simp add: alloc_proc_slot_def)
    have nc: "\<not> alive (procs k0 c)" using u(2) by (simp add: alive_def)
    have nc': "\<not> alive (procs k c)" using nc kept_alive [OF rp(2), of c] by auto
    have "\<exists>par. fork_outcome k0 c par r k' \<and> (par = 0 \<or> (\<exists>j. 0 < j \<and> j < 64 \<and> j \<noteq> c \<and> par = int j \<and> alive (procs k0 j)))"
    proof (cases "alive (procs ?k1 cur)")
      case False
      then have "fork_fail c ?k1 = Ok (r, k')"
        using ok al cur0 by (auto simp: process_fork_def alive_def)
      from fork_outcome_fail [OF this only_slot_upd [OF only_slot_refl]] show ?thesis by blast
    next
      case True
      have ne: "cur \<noteq> c" using True by (auto simp: alive_def clear_exec_args_def)
      then have live: "alive (procs k0 cur)" using True by auto
      have pid: "p_pid (procs k0 cur) = int cur"
        using table_okD(1) [OF rp(3) cur(2)] live by (auto simp: slot_ok_def alive_def)
      have fm: "fork_memory cur c tf (upd c (inherit (procs ?k1 cur)) ?k1) = Ok (r, k')"
        using ok al cur0 True by (auto simp: process_fork_def alive_def simp del: upd_simps(1))
      have "fork_outcome k0 c (int cur) r k'"
        by (rule fork_memory_result [OF fm])
          (use ne pid in \<open>auto intro!: only_slot_intros simp: view_def inherit_def clear_exec_args_def\<close>)
      then show ?thesis using live ne cur(2) by (cases "cur = 0") auto
    qed
    then obtain par q where par: "par = 0 \<or> (\<exists>j. 0 < j \<and> j < 64 \<and> j \<noteq> c \<and> par = int j \<and> alive (procs k0 j))"
      and q: "procs k' = (procs k0)(c := q)" "frame k0 k'"
        "cleared q \<or> view q = (int c, PROC_RUNNABLE, PROC_WAIT_NONE, -1, par, False)"
      unfolding fork_outcome_def by blast
    have "table_ok ((procs k0)(c := q))"
      using q(3) table_ok_clear [OF rp(3) u(1) nc, of q] table_ok_new [OF rp(3) u _ par, of q "-1" False] by blast
    moreover have "\<not> console_waiter q" using q(3) cleared_not_waiter by (auto simp: view_def console_waiter_def)
    then have "quiet k0 k'" by (intro quiet_one [OF q(1)]) simp
    then have "quiet k k'" by (rule quiet_trans [OF quiet_kept [OF rp(2)]])
    ultimately show ?thesis using q(1,2) rp(1) nc' frame_trans kept_alive [OF rp(2)] by auto
  qed
  then show "frame k k'" "table_ok (procs k')" "quiet k k'" "\<And>j. alive (procs k j) \<Longrightarrow> procs k' j = procs k j" by auto
qed

lemma one_slot_result:
  assumes t: "table_ok (procs k)" and c: "c < 64" "p_state (procs k c) = PROC_RUNNABLE"
    and q: "procs k' = (procs k)(c := q)" "view q = (p_pid (procs k c), PROC_RUNNABLE, PROC_WAIT_NONE, w, p_parent_pid (procs k c), m)"
  shows "table_ok (procs k')" "quiet k k'"
proof -
  show "table_ok (procs k')"
    unfolding q(1) by (rule table_ok_upd [OF t c(1)])
      (use c(2) q(2) table_okD(1) [OF t c(1)] in \<open>auto simp: view_def alive_def slot_ok_def child_waiter_def ipc_waiter_def\<close>)
  show "quiet k k'" by (rule quiet_one [OF q(1)]) (use q(2) in \<open>simp add: view_def console_waiter_def\<close>)
qed

lemma exec_args_view [simp]: "view (set_exec_args argc argv p) = view p" "view (set_process_name nm p) = view p"
  by (auto simp: view_def set_exec_args_def clear_exec_args_def set_process_name_def Let_def split: option.splits)

lemma runnable_reason:
  assumes "table_ok P" "c < 64" "p_state (P c) = PROC_RUNNABLE"
  shows "p_wait_reason (P c) = PROC_WAIT_NONE" "p_pid (P c) = int c"
  using table_okD(1) [OF assms(1,2)] assms(3) by (auto simp: slot_ok_def)

lemma view_runnable:
  assumes "table_ok P" "c < 64" "p_state (P c) = PROC_RUNNABLE"
  shows "view (P c) = (p_pid (P c), PROC_RUNNABLE, PROC_WAIT_NONE, p_wait_pid (P c), p_parent_pid (P c), p_ipc_has_message (P c))"
  using assms runnable_reason by (simp add: view_def)

lemma exec_result:
  assumes ok: "process_exec img name argc argv k = Ok (r, k')" and t: "table_ok (procs k)"
    and c: "current_proc k = Some c" "c < 64" "p_state (procs k c) = PROC_RUNNABLE"
  shows "frame k k'" "table_ok (procs k')" "quiet k k'"
proof -
  note v = view_runnable [OF t c(2,3)]
  have "frame k k' \<and> table_ok (procs k') \<and> quiet k k'"
  proof (cases "img = []")
    case True
    then have "k' = k" using ok c(1) by (simp add: process_exec_def)
    then show ?thesis using t by simp
  next
    case False
    then obtain k1 ok2 m where k1: "free_user_pages_only c k = Ok k1"
      and rest: "(if \<not> ok2 then Ok (-1, k1\<lparr>kmem := m\<rparr>)
         else let s = upd c (\<lambda>p. set_exec_args argc argv ((set_process_name (Some name)
                           (p\<lparr>p_user_pages := image_pages img\<rparr>))
                           \<lparr>p_wait_reason := PROC_WAIT_NONE, p_wait_pid := -1,
                            p_time_slice := SCHED_TIME_SLICE_TICKS, p_run_ticks := 0\<rparr>)) (k1\<lparr>kmem := m\<rparr>)
                 in Ok (0, (sync c s)\<lparr>csr_sepc := USER_BASE\<rparr>)) = Ok (r, k')"
      using ok c(1) by (auto simp: process_exec_def kbind_Ok_iff Let_def)
    have o: "only_slot c k k1 \<and> view (procs k1 c) = view (procs k c)"
      using k1 by (auto simp: free_user_pages_only_def kbind_Ok_iff Let_def view_def intro!: only_slot_intros split: if_splits)
    then obtain q1 where q1: "procs k1 = (procs k)(c := q1)" "frame k k1" "view q1 = view (procs k c)"
      by (auto simp: only_slot_def)
    show ?thesis
    proof (cases ok2)
      case False
      then have k': "k' = k1\<lparr>kmem := m\<rparr>" using rest by simp
      have "procs k' = (procs k)(c := q1)" by (simp add: k' q1(1))
      from one_slot_result [OF t c(2,3) this q1(3) [unfolded v]] show ?thesis using q1(2) by (simp add: k')
    next
      case True
      let ?g = "\<lambda>p. set_exec_args argc argv ((set_process_name (Some name) (p\<lparr>p_user_pages := image_pages img\<rparr>))
         \<lparr>p_wait_reason := PROC_WAIT_NONE, p_wait_pid := -1, p_time_slice := SCHED_TIME_SLICE_TICKS, p_run_ticks := 0\<rparr>)"
      have k': "k' = (sync c (upd c ?g (k1\<lparr>kmem := m\<rparr>)))\<lparr>csr_sepc := USER_BASE\<rparr>"
        using True rest by (simp add: Let_def)
      have p: "procs k' = (procs k)(c := ?g q1)" by (simp add: k' upd_def q1(1))
      have f: "frame k k'"
        using frame_syncI [of k "upd c ?g (k1\<lparr>kmem := m\<rparr>)" c] q1(2) unfolding k' by (simp add: frame_def)
      have "view (?g q1) = (p_pid (procs k c), PROC_RUNNABLE, PROC_WAIT_NONE, -1, p_parent_pid (procs k c), p_ipc_has_message (procs k c))"
        using q1(3) c(3) unfolding exec_args_view by (auto simp: view_def set_process_name_def split: option.splits)
      from one_slot_result [OF t c(2,3) p this] f show ?thesis by blast
    qed
  qed
  then show "frame k k'" "table_ok (procs k')" "quiet k k'" by auto
qed

section \<open>Scheduling and waiting\<close>

lemma same_view_result:
  assumes "\<And>j. j < 64 \<Longrightarrow> view (procs k' j) = view (procs k j)"
  shows "table_ok (procs k') = table_ok (procs k)" "quiet k k'"
proof -
  show "table_ok (procs k') = table_ok (procs k)" by (rule table_ok_cong [OF assms])
  show "quiet k k'" unfolding quiet_def console_waiter_def using view_eqD(2,3) [OF assms] by simp
qed

lemma tick_result: "frame k (scheduler_on_timer_tick k)" "view (procs (scheduler_on_timer_tick k) j) = view (procs k j)"
  by (auto simp: scheduler_on_timer_tick_def frame_def view_def Let_def split: option.splits)

lemma scan_slot_lt: "scan_slot k i < 64"
  by (simp add: scan_slot_def nat_less_iff)

lemma pick_next_Some: "pick_next k = Some n \<Longrightarrow> n < 64 \<and> schedulable (procs k n)"
  by (auto simp: pick_next_def scan_slot_lt simp del: scan_from_numeral dest: scan_from_SomeD)

lemma yield_turn_result:
  assumes "\<exists>c < 64. current_proc k = Some c" "yield_turn k = (t, k')"
  shows "\<exists>c < 64. current_proc k' = Some c" "kfs k' = kfs k" "init_proc k' = init_proc k"
    "view (procs k' j) = view (procs k j)"
  using assms
  by (auto simp: yield_turn_def switch_context_def view_def Let_def split: option.splits if_splits dest: pick_next_Some)

lemma kinv_yield_turn: "kinv k \<Longrightarrow> yield_turn k = (t, k') \<Longrightarrow> kinv k' \<and> quiet k k'"
  using yield_turn_result [of k t k'] same_view_result [of k' k] by (simp add: kinv_def)

lemma kinv_yield:
  assumes "kinv k" "yield k = Ok (t, k')"
  shows "kinv k'" "quiet k k'"
proof -
  obtain k1 where r: "reap_exited_processes k = Ok k1" "yield_turn k1 = (t, k')"
    using assms(2) by (auto simp: yield_def kbind_Ok_iff)
  have "table_ok (procs k)" using assms(1) by (simp add: kinv_def)
  note k1 = reap_result [OF r(1) this]
  have "kinv k1" using kinv_frame [OF assms(1) k1(1,3)] .
  then show "kinv k'" "quiet k k'" using kinv_yield_turn [OF _ r(2)] quiet_trans [OF quiet_kept [OF k1(2)]] by auto
qed

lemma find_process_Some:
  assumes "find_process_by_pid pid k = Some i"
  shows "i < 64" "p_pid (procs k i) = pid" "p_state (procs k i) \<noteq> PROC_UNUSED" "0 < pid"
  using scan_from_SomeD [of "\<lambda>i. p_pid (procs k i) = pid \<and> p_state (procs k i) \<noteq> PROC_UNUSED" 0 64 i] assms
  by (auto simp: find_process_by_pid_def simp del: scan_from_numeral split: if_splits)

lemma block_result:
  assumes t: "table_ok (procs k)" and c: "c < 64" "p_state (procs k c) = PROC_RUNNABLE"
    and why: "reason = PROC_WAIT_CHILD_EXIT \<and> 0 < c \<and> (\<exists>i < 64. awaited (int c) w (procs k i)) \<or>
      reason = PROC_WAIT_IPC_RECV \<and> \<not> p_ipc_has_message (procs k c)"
  shows "table_ok (procs (block reason w c k))" "frame k (block reason w c k)" "quiet k (block reason w c k)"
proof -
  let ?q = "(procs k c)\<lparr>p_wait_reason := reason, p_wait_pid := w, p_state := PROC_WAITTING\<rparr>"
  have p: "procs (block reason w c k) = (procs k)(c := ?q)" by (simp add: block_def upd_def)
  have aw: "awaited (int c) w (((procs k)(c := ?q)) i)" if "awaited (int c) w (procs k i)" for i
    using that by (auto simp: awaited_def is_child_def)
  show "table_ok (procs (block reason w c k))"
    unfolding p
  proof (rule table_ok_upd [OF t c(1)])
    assume "child_waiter ?q"
    then obtain i where i: "0 < c" "i < 64" "awaited (int c) w (procs k i)" using why by (auto simp: child_waiter_def)
    have "p_wait_pid ?q = w" by simp
    then show "0 < c \<and> (\<exists>i < 64. awaited (int c) (p_wait_pid ?q) (((procs k)(c := ?q)) i))"
      using i(1,2) aw [OF i(3)] by metis
  qed (use c(2) table_okD(1) [OF t c(1)] why in \<open>auto simp: alive_def slot_ok_def ipc_waiter_def\<close>)
  show "frame k (block reason w c k)" unfolding block_def by (rule frame_syncI) simp
  show "quiet k (block reason w c k)" by (rule quiet_one [OF p]) (use why in \<open>auto simp: console_waiter_def\<close>)
qed

lemma wait_result:
  assumes ok: "wait_for_child_exit (p_pid (procs k c)) target k = Ok (r, k')" and t: "table_ok (procs k)"
    and c: "current_proc k = Some c" "c < 64" "p_state (procs k c) = PROC_RUNNABLE"
  shows "frame k k'" "table_ok (procs k')" "quiet k k'"
proof -
  let ?ch = "\<lambda>i. is_child (p_pid (procs k c)) target (procs k i)"
  have "frame k k' \<and> table_ok (procs k') \<and> quiet k k'"
  proof (cases "p_pid (procs k c) \<le> 0")
    case True
    then show ?thesis using ok t by (auto simp: wait_for_child_exit_def)
  next
    case pos: False
    have pid: "p_pid (procs k c) = int c" by (rule runnable_reason(2) [OF t c(2,3)])
    show ?thesis
    proof (cases "scan_from (\<lambda>i. ?ch i \<and> p_state (procs k i) = PROC_EXITED) 0 64")
      case (Some i)
      then have e: "i < 64" "p_state (procs k i) = PROC_EXITED" using scan_from_SomeD [OF Some] by auto
      have "recycle_process_slot i k = Ok k'"
        using ok pos Some by (auto simp: wait_for_child_exit_def kbind_Ok_iff simp del: scan_from_numeral)
      then obtain q where q: "procs k' = (procs k)(i := q)" "cleared q" "frame k k'" by (rule recycle_result)
      then show ?thesis
        using table_ok_clear [OF t e(1) _ q(2)] e(2) not_alive_exited(1) quiet_one [OF q(1)] cleared_not_waiter by auto
    next
      case None
      show ?thesis
      proof (cases "scan_from ?ch 0 64 = None")
        case True
        then show ?thesis using ok pos None t by (auto simp: wait_for_child_exit_def simp del: scan_from_numeral)
      next
        case False
        then obtain i where "scan_from ?ch 0 64 = Some i" by blast
        from scan_from_SomeD [OF this] have "i < 64" "?ch i" by simp_all
        moreover from this have "p_state (procs k i) \<noteq> PROC_EXITED" using None by (auto simp: scan_from_None simp del: scan_from_numeral)
        ultimately have "\<exists>i < 64. awaited (int c) target (procs k i)" using pid by (auto simp: awaited_def)
        moreover have "k' = block PROC_WAIT_CHILD_EXIT target c k"
          using ok pos None False c(1) by (auto simp: wait_for_child_exit_def simp del: scan_from_numeral)
        ultimately show ?thesis using block_result [OF t c(2,3)] pos pid by auto
      qed
    qed
  qed
  then show "frame k k'" "table_ok (procs k')" "quiet k k'" by auto
qed

lemma ipc_send_result:
  assumes ok: "process_ipc_send src dst msg k = (r, k')" and t: "table_ok (procs k)"
  shows "frame k k'" "table_ok (procs k')" "quiet k k'"
proof -
  have "frame k k' \<and> table_ok (procs k') \<and> quiet k k'"
  proof (cases "\<exists>d. find_process_by_pid dst k = Some d \<and> p_state (procs k d) \<noteq> PROC_EXITED \<and> \<not> p_ipc_has_message (procs k d)")
    case False
    then have "k' = k" using ok by (auto simp: process_ipc_send_def split: option.splits if_splits)
    then show ?thesis using t by simp
  next
    case True
    then obtain d where d: "find_process_by_pid dst k = Some d" "p_state (procs k d) \<noteq> PROC_EXITED"
      "\<not> p_ipc_has_message (procs k d)" by blast
    note f = find_process_Some [OF d(1)]
    let ?q = "(procs k d)\<lparr>p_ipc_has_message := True, p_ipc_from_pid := src, p_ipc_message := msg\<rparr>"
    let ?k1 = "upd d (\<lambda>p. p\<lparr>p_ipc_has_message := True, p_ipc_from_pid := src, p_ipc_message := msg\<rparr>) k"
    note so = table_okD [OF t f(1)]
    show ?thesis
    proof (cases "ipc_waiter (procs k d)")
      case True
      then have k': "k' = wake d ?k1" using ok d by (simp add: process_ipc_send_def ipc_waiter_def)
      have p: "procs k' = (procs k)(d := awake ?q)" by (simp add: k' procs_wake upd_def)
      have "table_ok (procs k')"
        unfolding p by (rule table_ok_wake [OF t f(1), where m = True]) (use True in \<open>auto simp: ipc_waiter_def view_def\<close>)
      moreover have "quiet k k'" by (rule quiet_one [OF p]) (simp add: console_waiter_def)
      ultimately show ?thesis unfolding k' by (auto intro: frame_wake)
    next
      case False
      then have k': "k' = ?k1" using ok d by (auto simp: process_ipc_send_def ipc_waiter_def)
      have p: "procs k' = (procs k)(d := ?q)" by (simp add: k' upd_def)
      have "table_ok (procs k')"
        unfolding p
      proof (rule table_ok_upd [OF t f(1)])
        assume "child_waiter ?q"
        then obtain c where "0 < d" "c < 64" "awaited (int d) (p_wait_pid (procs k d)) (procs k c)"
          using so(3) by (auto simp: wakeup_ok_def child_waiter_def)
        then show "0 < d \<and> (\<exists>c < 64. awaited (int d) (p_wait_pid ?q) (((procs k)(d := ?q)) c))"
          by (auto simp: awaited_def is_child_def intro!: exI [of _ c])
      qed (use so(1) False in \<open>auto simp: slot_ok_def alive_def ipc_waiter_def\<close>)
      moreover have "quiet k k'" by (rule quiet_one [OF p]) (simp add: console_waiter_def)
      ultimately show ?thesis by (simp add: k')
    qed
  qed
  then show "frame k k'" "table_ok (procs k')" "quiet k k'" by auto
qed

lemma ipc_recv_result:
  assumes ok: "process_ipc_recv (p_pid (procs k c)) k = (r, k')" and t: "table_ok (procs k)"
    and c: "c < 64" "p_state (procs k c) = PROC_RUNNABLE" "0 < p_pid (procs k c)"
  shows "frame k k'" "table_ok (procs k')" "quiet k k'"
proof -
  have pid: "p_pid (procs k c) = int c" by (rule runnable_reason(2) [OF t c(1,2)])
  have self: "i = c" if "find_process_by_pid (p_pid (procs k c)) k = Some i" for i
    using find_process_Some [OF that] table_okD(1) [OF t, of i] pid by (auto simp: slot_ok_def)
  consider "k' = k" | "\<not> p_ipc_has_message (procs k c)" "k' = block PROC_WAIT_IPC_RECV (-1) c k"
    | "k' = upd c (\<lambda>p. p\<lparr>p_ipc_has_message := False, p_ipc_from_pid := 0, p_ipc_message := 0\<rparr>) k"
  proof (cases "find_process_by_pid (p_pid (procs k c)) k")
    case None
    then show thesis using ok that(1) by (simp add: process_ipc_recv_def)
  next
    case (Some i)
    then have "find_process_by_pid (p_pid (procs k c)) k = Some c" using self by blast
    then show thesis using ok that by (simp add: process_ipc_recv_def split: if_splits)
  qed
  then have "frame k k' \<and> table_ok (procs k') \<and> quiet k k'"
  proof cases
    case 1
    then show ?thesis using t by simp
  next
    case 2
    then show ?thesis using block_result [OF t c(1,2), of PROC_WAIT_IPC_RECV "-1"] by auto
  next
    case 3
    have "procs k' = (procs k)(c := (procs k c)\<lparr>p_ipc_has_message := False, p_ipc_from_pid := 0, p_ipc_message := 0\<rparr>)"
      by (simp add: 3 upd_def)
    from one_slot_result [OF t c(1,2) this, where w = "p_wait_pid (procs k c)" and m = False]
    show ?thesis using c(2) runnable_reason [OF t c(1,2)] by (simp add: 3 view_def)
  qed
  then show "frame k k'" "table_ok (procs k')" "quiet k k'" by auto
qed

section \<open>Exit and kill\<close>

text \<open>The common part of exit and kill.\<close>

abbreviation end_process :: "nat \<Rightarrow> kstate \<Rightarrow> kstate" where
  "end_process i k \<equiv> notify_child_exit i (sync i (mark_exited i (orphan_children (int i) k)))"

lemma exit_table_fields:
  "p_state (exit_table i P i) = PROC_EXITED" "p_wait_reason (exit_table i P i) = PROC_WAIT_NONE"
  "p_pid (exit_table i P j) = p_pid (P j)"
  "console_waiter (exit_table i P j) \<Longrightarrow> console_waiter (P j)"
  by (auto simp: exit_table_def notified_def child_waiter_def console_waiter_def split: if_splits)

lemma end_process_result:
  assumes t: "table_ok (procs k)" and i: "i < 64" "0 < i" "alive (procs k i)"
  shows "frame k (end_process i k)" "table_ok (procs (end_process i k))" "quiet k (end_process i k)"
    "p_state (procs (end_process i k) i) = PROC_EXITED" "p_pid (procs (end_process i k) i) = int i"
proof -
  have pid: "p_pid (procs k i) = int i" using table_okD(1) [OF t i(1)] i(3) by (auto simp: slot_ok_def alive_def)
  note e = exit_procs [OF i(1,2) pid]
  show "frame k (end_process i k)" by (rule e(1))
  have "table_ok (exit_table i (procs k))" by (rule exit_table_ok [OF t i])
  then show "table_ok (procs (end_process i k))"
    using table_ok_cong [of "procs (end_process i k)" "exit_table i (procs k)"] e(2) by simp
  show "quiet k (end_process i k)" unfolding quiet_def using e(2) exit_table_fields(4) by metis
  show "p_state (procs (end_process i k) i) = PROC_EXITED" "p_pid (procs (end_process i k) i) = int i"
    unfolding e(2) [OF i(1)] exit_table_fields by (simp_all add: pid)
qed

lemma disown_result:
  assumes "table_ok (procs k)" "i < 64" "p_state (procs k i) = PROC_EXITED"
  shows "table_ok (procs (upd i (\<lambda>p. p\<lparr>p_parent_pid := 0\<rparr>) k))" "quiet k (upd i (\<lambda>p. p\<lparr>p_parent_pid := 0\<rparr>) k)"
proof -
  have p: "procs (upd i (\<lambda>p. p\<lparr>p_parent_pid := 0\<rparr>) k) = (procs k)(i := (procs k i)\<lparr>p_parent_pid := 0\<rparr>)"
    by (simp add: upd_def)
  show "table_ok (procs (upd i (\<lambda>p. p\<lparr>p_parent_pid := 0\<rparr>) k))"
    unfolding p by (rule table_ok_upd [OF assms(1,2)])
      (use assms(3) table_okD(1) [OF assms(1,2)] in \<open>auto simp: slot_ok_def alive_def child_waiter_def ipc_waiter_def\<close>)
  show "quiet k (upd i (\<lambda>p. p\<lparr>p_parent_pid := 0\<rparr>) k)" by (rule quiet_one [OF p]) (simp add: console_waiter_def)
qed

lemma kill_result:
  assumes ok: "process_kill target k = Ok (r, k')" and inv: "kinv k"
  shows "kinv k'" "quiet k k'"
proof -
  have t: "table_ok (procs k)" using inv by (simp add: kinv_def)
  have "kinv k' \<and> quiet k k'"
  proof (cases "\<exists>i. find_process_by_pid target k = Some i \<and> p_state (procs k i) \<noteq> PROC_EXITED \<and> init_proc k \<noteq> Some i")
    case False
    then have "k' = k" using ok by (auto simp: process_kill_def split: option.splits if_splits)
    then show ?thesis using inv by simp
  next
    case True
    then obtain i where i: "find_process_by_pid target k = Some i" "p_state (procs k i) \<noteq> PROC_EXITED" "init_proc k \<noteq> Some i"
      by blast
    note f = find_process_Some [OF i(1)]
    have al: "alive (procs k i)" using i(2) f(3) by (cases "p_state (procs k i)") (auto simp: alive_def)
    have pid: "p_pid (procs k i) = int i" using table_okD(1) [OF t f(1)] f(3) by (simp add: slot_ok_def)
    have pos: "0 < i" using f(2,4) pid by simp
    note e = end_process_result [OF t f(1) pos al]
    let ?k1 = "end_process i k" and ?k2 = "upd i (\<lambda>p. p\<lparr>p_parent_pid := 0\<rparr>) (end_process i k)"
    note d = disown_result [OF e(2) f(1) e(4)]
    have k2: "kinv ?k2" by (rule kinv_frame [OF inv]) (use e(1) d(1) in auto)
    have q2: "quiet k ?k2" by (rule quiet_trans [OF e(3) d(2)])
    have K: "process_kill target k = (if current_proc ?k2 = Some i
        then kbind (yield ?k2) (\<lambda>(t, s). if t = Continue then PANIC ''killed process resumed unexpectedly'' else Ok (No_return, s))
        else kbind (recycle_process_slot i ?k2) (\<lambda>s. Ok (Done (int i), s)))"
      using i f(4) unfolding process_kill_def by (simp add: Let_def pid)
    show ?thesis
    proof (cases "current_proc ?k2 = Some i")
      case True
      then obtain t' where "yield ?k2 = Ok (t', k')"
        using ok unfolding K by (auto simp: kbind_Ok_iff split: if_splits)
      from kinv_yield [OF k2 this] show ?thesis using quiet_trans [OF q2] by blast
    next
      case False
      then have rc: "recycle_process_slot i ?k2 = Ok k'" using ok unfolding K by (auto simp: kbind_Ok_iff)
      obtain q where q: "procs k' = (procs ?k2)(i := q)" "cleared q" "frame ?k2 k'" by (rule recycle_result [OF rc])
      have "\<not> alive (procs ?k2 i)" using e(4) by (simp add: alive_def)
      from table_ok_clear [OF d(1) f(1) this q(2)] have "table_ok (procs k')" by (simp only: q(1))
      then have "kinv k'" by (rule kinv_frame [OF k2 q(3)])
      moreover have "quiet ?k2 k'" by (rule quiet_one [OF q(1)]) (use q(2) cleared_not_waiter in auto)
      ultimately show ?thesis using quiet_trans [OF q2] by blast
    qed
  qed
  then show "kinv k'" "quiet k k'" by auto
qed

end
