(* ===== verification/SysInv.thy ===== *)
theory SysInv
  imports Syscalls ProcInv
begin

text \<open>
  The invariant of the whole kernel and its preservation by every system call, by the timer interrupt and by the
  scheduler. To the invariants of the process table and of the file system it adds the console: the ring buffer
  is well formed, and no process waits for input while there is some. The locales \<open>outcome_logic\<close> and \<open>kernel_invariant\<close>
  are what a predicate on outcomes and an invariant have to offer so that the calls on files keep it. The relation \<open>sys_step\<close> lists what can
  happen between two moments in user mode or in the idle loop.
\<close>

section \<open>The invariant\<close>

definition no_console_waiter :: "kstate \<Rightarrow> bool" where
  "no_console_waiter k \<longleftrightarrow> (\<forall>j < 64. \<not> console_waiter (procs k j))"

definition sinv :: "sys_state \<Rightarrow> bool" where
  "sinv s \<longleftrightarrow> kinv (kern s) \<and> con_inv (con s) \<and> (input_count (con s) \<noteq> 0 \<longrightarrow> no_console_waiter (kern s))"

text \<open>The current process runs in user mode.\<close>

definition running :: "sys_state \<Rightarrow> bool" where
  "running s \<longleftrightarrow> (\<exists>c < 64. current_proc (kern s) = Some c \<and> schedulable (procs (kern s) c))"

lemma runningE:
  assumes "running s"
  obtains c where "current_proc (kern s) = Some c" "c < 64" "p_state (procs (kern s) c) = PROC_RUNNABLE"
    "0 < p_pid (procs (kern s) c)"
  using assms by (auto simp: running_def schedulable_def)

lemma kinv_kmem [simp]: "kinv (k\<lparr>kmem := m\<rparr>) = kinv k" by (simp add: kinv_def)

lemma kinv_kfs: "kinv k \<Longrightarrow> vfs_wf fs \<Longrightarrow> kinv (k\<lparr>kfs := fs\<rparr>)" by (simp add: kinv_def)

lemma kinv_csr [simp]:
  "kinv (k\<lparr>csr_sepc := x\<rparr>) = kinv k" "kinv (k\<lparr>csr_sscratch := y\<rparr>) = kinv k" "kinv (k\<lparr>csr_sstatus := z\<rparr>) = kinv k"
  by (simp_all add: kinv_def)

lemma quiet_procs: "procs k' = procs k \<Longrightarrow> quiet k k'" by (simp add: quiet_def)

lemma sinv_on_kern: "sinv s \<Longrightarrow> kinv k \<Longrightarrow> quiet (kern s) k \<Longrightarrow> sinv (on_kern s k)"
  by (auto simp: sinv_def on_kern_def no_console_waiter_def quiet_def)

lemma sinv_kern: "sinv s \<Longrightarrow> kinv k \<Longrightarrow> quiet (kern s) k \<Longrightarrow> sinv (s\<lparr>kern := k\<rparr>)"
  using sinv_on_kern by (simp add: on_kern_def)

lemma sinv_on_fs: "sinv s \<Longrightarrow> vfs_wf fs \<Longrightarrow> sinv (on_fs fs s)"
  unfolding on_fs_def by (rule sinv_kern) (auto simp: sinv_def kinv_kfs intro: quiet_procs)

lemma sinv_vfs: "sinv s \<Longrightarrow> vfs_wf (kfs (kern s))"
  by (simp add: sinv_def kinv_def)

lemma sinv_table: "sinv s \<Longrightarrow> table_ok (procs (kern s))"
  by (simp add: sinv_def kinv_def)

lemma sinv_frame:
  assumes "sinv s" "frame (kern s) k" "table_ok (procs k)" "quiet (kern s) k"
  shows "sinv (on_kern s k)"
  by (rule sinv_on_kern [OF assms(1) _ assms(4)]) (use assms(1) kinv_frame [OF _ assms(2,3)] in \<open>simp add: sinv_def\<close>)

lemma char_of_not_NUL: "(b :: u8) \<noteq> 0 \<Longrightarrow> char_of (unat b) \<noteq> NUL"
proof
  assume b: "b \<noteq> 0" and e: "char_of (unat b) = NUL"
  have "unat b < 256" using unat_lt [of b] by simp
  then have "of_char (char_of (unat b)) = unat b" by (simp add: of_char_of)
  with e have "unat b = 0" by simp
  with b show False by (simp add: unat_eq_zero)
qed

lemma user_str_nul_free:
  assumes "user_str k a = Some cs"
  shows "nul_free cs"
proof (rule user_str.raw_induct [OF _ assms])
  fix rec k a cs
  assume "\<And>k a cs. rec k a = Some cs \<Longrightarrow> nul_free cs"
    and "(case translate PAGE_R a k of None \<Rightarrow> None
      | Some p \<Rightarrow> if ram (kmem k) p = 0 then Some []
          else Option.bind (rec k (a + 1)) (\<lambda>cs. Some (char_of (unat (ram (kmem k) p)) # cs))) = Some cs"
  then show "nul_free cs"
    by (auto split: option.splits if_splits Option.bind_splits simp: char_of_not_NUL)
qed

lemma user_strn_nul_free: "user_strn a n k = Ok cs \<Longrightarrow> nul_free cs"
  by (induction a n k arbitrary: cs rule: user_strn.induct)
    (auto simp: kbind_Ok_iff char_of_not_NUL split: if_splits)

lemma user_load_length: "user_load a n k = Ok bs \<Longrightarrow> length bs = n"
  by (induction a n k arbitrary: bs rule: user_load.induct) (auto simp: kbind_Ok_iff)

section \<open>Predicates on outcomes\<close>

text \<open>What is proved of the handlers has one shape: a predicate on outcomes that a panic satisfies. It then holds of a
  sequence if it holds of the rest for every result of the first part.\<close>

locale outcome_logic =
  fixes good :: "outcome \<Rightarrow> bool"
  assumes panic [simp]: "good (PANIC m)"
begin

lemma bind: "(\<And>x. m = Ok x \<Longrightarrow> good (f x)) \<Longrightarrow> good (kbind m f)"
  by (cases m) auto

lemma string_argument: "(\<And>p. nul_free p \<Longrightarrow> good (f p)) \<Longrightarrow> good (with_str k a f)"
  by (auto simp: with_str_def split: option.splits dest: user_str_nul_free)

lemma store_result: "(\<And>k. user_store a bs (kern s) = Ok k \<Longrightarrow> good (f (s\<lparr>kern := k\<rparr>))) \<Longrightarrow> good (storing a bs s f)"
  unfolding storing_def by (rule bind)

end

text \<open>An invariant of the system that depends on the files only through their well-formedness: the calls that change nothing
  but the files keep it.\<close>

locale kernel_invariant =
  fixes inv :: "sys_state \<Rightarrow> bool" and good :: "outcome \<Rightarrow> bool"
  assumes good_iff: "good r \<longleftrightarrow> (\<forall>x s. r = Ok (x, s) \<longrightarrow> inv s)"
    and files_wf: "inv s \<Longrightarrow> vfs_wf (kfs (kern s))"
    and files_changed: "inv s \<Longrightarrow> vfs_wf fs \<Longrightarrow> inv (on_fs fs s)"

sublocale kernel_invariant < outcome_logic good
  by unfold_locales (simp add: good_iff)

context kernel_invariant
begin

lemma returns [simp]: "good (Ok (x, s)) = inv s"
  by (simp add: good_iff)

lemma fs_call: "inv s \<Longrightarrow> vfs_wf (snd r) \<Longrightarrow> good (case r of (v, fs) \<Rightarrow> returning f v (on_fs fs s))"
  by (cases r) (simp add: files_changed)

lemma on_path_call:
  assumes "inv s" "\<And>fs p. vfs_wf fs \<Longrightarrow> cpath p \<Longrightarrow> vfs_wf (snd (oper p fs))"
  shows "good (path_call oper f s)"
  unfolding path_call_def Let_def
  using assms by (auto intro!: string_argument fs_call files_wf simp: cpath_def)

lemma file_calls:
  assumes "inv s"
  shows "good (syscall_handle_open f s)" "good (syscall_handle_close f s)" "good (syscall_handle_write f s)"
    "good (syscall_handle_mkdir f s)" "good (syscall_handle_unlink f s)" "good (syscall_handle_rmdir f s)"
    "good (syscall_handle_dup2 f s)" "good (syscall_handle_putchar f s)"
proof -
  note wf = files_wf [OF assms]
  show "good (syscall_handle_open f s)"
    unfolding syscall_handle_open_def Let_def using assms by (auto intro!: string_argument fs_call fs_open_wf wf simp: cpath_def)
  show "good (syscall_handle_close f s)"
    unfolding syscall_handle_close_def Let_def using assms by (auto intro!: fs_call fs_close_wf wf)
  show "good (syscall_handle_write f s)"
    unfolding syscall_handle_write_def Let_def using assms
    by (auto intro!: bind fs_call fs_write_wf wf simp: kbind_Ok_iff dest!: user_load_length split: if_splits)
  show "good (syscall_handle_mkdir f s)" "good (syscall_handle_unlink f s)" "good (syscall_handle_rmdir f s)"
    unfolding syscall_handle_mkdir_def syscall_handle_unlink_def syscall_handle_rmdir_def
    using assms by (auto intro!: on_path_call fs_mkdir_wf fs_unlink_wf fs_rmdir_wf)
  show "good (syscall_handle_dup2 f s)"
    unfolding syscall_handle_dup2_def Let_def using assms
    by (auto simp: case_prod_beta intro!: files_changed fs_dup2_wf wf)
  have "vfs_wf ((kfs (kern s))\<lparr>con_out := x\<rparr>)" for x using wf by (auto simp: vfs_wf_def fd_ok_def)
  then show "good (syscall_handle_putchar f s)"
    unfolding syscall_handle_putchar_def using assms by (simp add: files_changed)
qed

end

section \<open>Outcomes that keep it\<close>

definition safe :: "outcome \<Rightarrow> bool" where
  "safe r \<longleftrightarrow> (\<forall>x s. r = Ok (x, s) \<longrightarrow> sinv s)"

lemma safe_Ok [simp]: "safe (Ok (x, s)) = sinv s" by (simp add: safe_def)

lemma safe_PANIC [simp]: "safe (PANIC m)" by (simp add: safe_def)

lemma user_store_kern:
  assumes "user_store a bs k = Ok k'"
  shows "\<exists>m. k' = k\<lparr>kmem := m\<rparr>"
  using assms
proof (induction a bs k rule: user_store.induct)
  case (1 a k)
  then have "k' = k\<lparr>kmem := kmem k\<rparr>" by simp
  then show ?case by blast
next
  case (2 a b bs k)
  then obtain p where p: "translate PAGE_W a k = Some p"
    and r: "user_store (a + 1) bs (k\<lparr>kmem := (kmem k)\<lparr>ram := (ram (kmem k))(p := b)\<rparr>\<rparr>) = Ok k'"
    by (auto split: option.splits)
  from 2(1) [OF p r] show ?case by force
qed

lemma sinv_kmem: "sinv s \<Longrightarrow> sinv (s\<lparr>kern := (kern s)\<lparr>kmem := m\<rparr>\<rparr>)"
  by (rule sinv_kern) (auto simp: sinv_def intro: quiet_procs)

lemma running_kmem: "running s \<Longrightarrow> running (s\<lparr>kern := (kern s)\<lparr>kmem := m\<rparr>\<rparr>)"
  by (simp add: running_def)

interpretation ki: kernel_invariant sinv safe
  by unfold_locales (auto simp: safe_def sinv_vfs sinv_on_fs)

lemmas safe_kbind = ki.bind and safe_with_str = ki.string_argument

lemma safe_storing:
  assumes "sinv s" "\<And>m. sinv (s\<lparr>kern := (kern s)\<lparr>kmem := m\<rparr>\<rparr>) \<Longrightarrow> safe (f (s\<lparr>kern := (kern s)\<lparr>kmem := m\<rparr>\<rparr>))"
  shows "safe (storing a bs s f)"
  unfolding storing_def
proof (rule safe_kbind)
  fix k assume "user_store a bs (kern s) = Ok k"
  then obtain m where "k = (kern s)\<lparr>kmem := m\<rparr>" using user_store_kern by blast
  then show "safe (f (s\<lparr>kern := k\<rparr>))" using assms sinv_kmem by simp
qed

lemma safe_storing_ret: "sinv s \<Longrightarrow> safe (storing a bs s (\<lambda>s. returning f v s))"
  by (rule safe_storing) simp_all

section \<open>File system calls\<close>

lemma safe_readdir: "sinv s \<Longrightarrow> safe (syscall_handle_readdir f s)"
  unfolding syscall_handle_readdir_def
  by (auto intro!: safe_with_str safe_storing_ret split: option.splits)

lemma safe_getcwd: "sinv s \<Longrightarrow> safe (syscall_handle_getcwd f s)"
  unfolding syscall_handle_getcwd_def by (auto intro!: safe_storing_ret)

lemma safe_chdir:
  assumes "sinv s"
  shows "safe (syscall_handle_chdir f s)"
proof -
  have "sinv (s\<lparr>kern := k\<lparr>kfs := snd (procfs_sync_process (procs k i) (kfs k))\<rparr>\<rparr>)"
    if k: "k = upd i (\<lambda>p. p\<lparr>p_cwd_mount_idx := mi, p_cwd_node_idx := ni, p_cwd_path := c p\<rparr>) (kern s)" for k i mi ni c
  proof (rule sinv_kern [OF assms])
    have v: "view (procs k j) = view (procs (kern s) j)" for j by (simp add: k view_def)
    have "table_ok (procs k)" using same_view_result(1) [of k "kern s"] v sinv_table [OF assms] by simp
    then show "kinv (k\<lparr>kfs := snd (procfs_sync_process (procs k i) (kfs k))\<rparr>)"
      using assms procfs_sync_wf [OF sinv_vfs [OF assms]] by (simp add: sinv_def kinv_def k)
    show "quiet (kern s) (k\<lparr>kfs := snd (procfs_sync_process (procs k i) (kfs k))\<rparr>)"
      by (rule same_view_result(2)) (simp add: v)
  qed
  note G = this [OF refl, where c = "\<lambda>p. strcpy_s (p_cwd_path p) FS_PATH_MAX x" for x]
  show ?thesis
    unfolding syscall_handle_chdir_def Let_def using assms
    by (auto intro!: safe_kbind G simp del: upd_simps split: option.splits)
qed

section \<open>The console\<close>

lemma table_ok_wake_some:
  assumes t: "table_ok P" and q: "\<And>i. i < 64 \<Longrightarrow> Q i = P i \<or> p_state (P i) = PROC_WAITTING \<and> Q i = awake (P i)"
  shows "table_ok Q"
  unfolding table_ok_def
proof (intro allI impI)
  fix k :: nat assume k: "k < 64"
  note ok = table_okD [OF t k]
  have al: "alive (P j) \<Longrightarrow> alive (Q j)" if "j < 64" for j using q [OF that] by (auto simp: alive_def)
  have aw: "awaited w x (P c) \<Longrightarrow> awaited w x (Q c)" if "c < 64" for w x c
    using q [OF that] by (auto simp: awaited_def is_child_def)
  have par: "p_parent_pid (Q k) = p_parent_pid (P k)" using q [OF k] by auto
  have "slot_ok Q k" using q [OF k] ok(1) by (auto simp: slot_ok_def)
  moreover have "parent_ok Q k" using ok(2) al unfolding parent_ok_def par by blast
  moreover have "wakeup_ok Q k"
    using q [OF k]
  proof
    assume "Q k = P k"
    then show ?thesis using ok(3) aw unfolding wakeup_ok_def by metis
  next
    assume "p_state (P k) = PROC_WAITTING \<and> Q k = awake (P k)"
    then show ?thesis by (simp add: wakeup_ok_def child_waiter_def ipc_waiter_def)
  qed
  ultimately show "slot_ok Q k \<and> parent_ok Q k \<and> wakeup_ok Q k" by blast
qed

lemma wakeup_input_result:
  assumes "kinv k"
  shows "kinv (wakeup_input_waiters k)" "no_console_waiter (wakeup_input_waiters k)" "quiet k (wakeup_input_waiters k)"
    "\<And>c. c < 64 \<Longrightarrow> p_state (procs k c) = PROC_RUNNABLE \<Longrightarrow> procs (wakeup_input_waiters k) c = procs k c"
    "current_proc (wakeup_input_waiters k) = current_proc k"
proof -
  note w = wakeup_input_procs [of k]
  have p: "procs (wakeup_input_waiters k) i = (if console_waiter (procs k i) then awake (procs k i) else procs k i)"
    if "i < 64" for i using w that by simp
  have "table_ok (procs (wakeup_input_waiters k))"
    by (rule table_ok_wake_some [of "procs k"]) (use assms p in \<open>auto simp: kinv_def console_waiter_def\<close>)
  then show "kinv (wakeup_input_waiters k)" using kinv_frame assms w by blast
  show n: "no_console_waiter (wakeup_input_waiters k)"
    unfolding no_console_waiter_def using p by (simp add: console_waiter_def)
  then show "quiet k (wakeup_input_waiters k)" by (simp add: quiet_def no_console_waiter_def)
  show "procs (wakeup_input_waiters k) c = procs k c" if "c < 64" "p_state (procs k c) = PROC_RUNNABLE" for c
    using p that by (simp add: console_waiter_def)
  show "current_proc (wakeup_input_waiters k) = current_proc k" using w by (simp add: frame_def)
qed

lemma poll_result:
  assumes "sinv s"
  shows "sinv (poll_console_input s)" "running s \<Longrightarrow> running (poll_console_input s)"
    "cur_slot (poll_console_input s) = cur_slot s"
proof -
  obtain rest c where pl: "poll_loop (pending s) (con s) = (rest, c)" by (cases "poll_loop (pending s) (con s)")
  have ci: "con_inv c"
    using con.push_all_queue [of "con s" "pending s"] pl assms by (simp add: poll_loop_push_all sinv_def)
  have k: "kinv (kern s)" using assms by (simp add: sinv_def)
  note w = wakeup_input_result [OF k]
  have P: "poll_console_input s = (if 0 < input_count c then s\<lparr>con := c, pending := rest, kern := wakeup_input_waiters (kern s)\<rparr>
      else s\<lparr>con := c, pending := rest\<rparr>)"
    by (simp add: poll_console_input_def pl Let_def)
  show "sinv (poll_console_input s)" using ci k w(1,2) unfolding P sinv_def by (auto simp: word_gt_0)
  show "running s \<Longrightarrow> running (poll_console_input s)"
    unfolding running_def P using w(4,5) by (auto simp: schedulable_def)
  show "cur_slot (poll_console_input s) = cur_slot s" using w(5) unfolding P by simp
qed

lemma got_char_result:
  assumes s: "sinv s" "running s" and pop: "input_pop (con s) = Some (ch, c)" and g: "got_char ch c s = (r, s')"
  shows "sinv s'" "running s'"
proof -
  obtain cur where cur: "current_proc (kern s) = Some cur" "cur < 64" "p_state (procs (kern s) cur) = PROC_RUNNABLE"
    "0 < p_pid (procs (kern s) cur)" by (rule runningE [OF s(2)])
  let ?k = "upd cur (\<lambda>p. p\<lparr>p_wait_reason := PROC_WAIT_NONE\<rparr>) (kern s)"
  have s': "s' = s\<lparr>con := c, kern := ?k\<rparr>" using g cur(1) by (simp add: got_char_def)
  have v: "view (procs ?k j) = view (procs (kern s) j)" for j
    using runnable_reason [OF sinv_table [OF s(1)] cur(2,3)] by (simp add: view_def)
  have "kinv ?k" using s(1) same_view_result(1) [of ?k "kern s"] v by (simp add: sinv_def kinv_def)
  moreover have "con_inv c" using input_pop_queue [OF _ pop] s(1) by (simp add: sinv_def)
  moreover have "no_console_waiter (kern s)" using s(1) pop by (simp add: sinv_def input_pop_def split: if_splits)
  then have "no_console_waiter ?k"
    using same_view_result(2) [of ?k "kern s", OF v] unfolding no_console_waiter_def quiet_def by blast
  ultimately show "sinv s'" by (simp add: s' sinv_def)
  show "running s'" using cur by (auto simp: s' running_def schedulable_def)
qed

lemma getchar_result:
  assumes s: "sinv s" "running s" and g: "getchar_turn s = (r, s')"
  shows "sinv s'" "(\<exists>ch. r = Done ch) \<Longrightarrow> running s'"
proof -
  have "sinv s' \<and> ((\<exists>ch. r = Done ch) \<longrightarrow> running s')"
  proof (cases "input_pop (con s)")
    case (Some p)
    obtain ch c where p: "p = (ch, c)" by (cases p)
    have "got_char ch c s = (r, s')" using g Some p by (simp add: getchar_turn_def)
    from got_char_result [OF s _ this] show ?thesis using Some p by simp
  next
    case None
    let ?t = "poll_console_input s"
    note t = poll_result(1) [OF s(1)] poll_result(2) [OF s(1) s(2)]
    show ?thesis
    proof (cases "input_pop (con ?t)")
      case (Some p)
      obtain ch c where p: "p = (ch, c)" by (cases p)
      have "got_char ch c ?t = (r, s')" using g None Some p by (simp add: getchar_turn_def Let_def)
      from got_char_result [OF t _ this] show ?thesis using Some p by simp
    next
      case n: None
      obtain cur where cur: "current_proc (kern ?t) = Some cur" "cur < 64" "p_state (procs (kern ?t) cur) = PROC_RUNNABLE"
        by (rule runningE [OF t(2)])
      let ?f = "\<lambda>p. p\<lparr>p_wait_reason := PROC_WAIT_CONSOLE_INPUT, p_state := PROC_WAITTING\<rparr>"
      have s': "s' = ?t\<lparr>kern := upd cur ?f (kern ?t)\<rparr>" and r: "r = Blocked"
        using g None n cur(1) by (auto simp: getchar_turn_def Let_def)
      have tb: "table_ok (procs (kern ?t))" by (rule sinv_table [OF t(1)])
      have "table_ok ((procs (kern ?t))(cur := ?f (procs (kern ?t) cur)))"
        by (rule table_ok_upd [OF tb cur(2)])
          (use cur(3) table_okD(1) [OF tb cur(2)] in \<open>auto simp: alive_def slot_ok_def child_waiter_def ipc_waiter_def\<close>)
      then have "kinv (upd cur ?f (kern ?t))" using t(1) by (auto simp: sinv_def kinv_def upd_def)
      moreover have "input_count (con ?t) = 0" using n by (simp add: input_pop_def split: if_splits)
      ultimately show ?thesis using t(1) r by (simp add: s' sinv_def)
    qed
  qed
  then show "sinv s'" "(\<exists>ch. r = Done ch) \<Longrightarrow> running s'" by auto
qed

lemma safe_getchar: "sinv s \<Longrightarrow> running s \<Longrightarrow> safe (syscall_handle_getchar f s)"
  using getchar_result [of s] by (auto simp: syscall_handle_getchar_def split: prod.splits call.splits)

lemma safe_console_read: "sinv s \<Longrightarrow> running s \<Longrightarrow> safe (console_read_loop f buf i n s)"
proof (induction n arbitrary: i s)
  case 0
  then show ?case by simp
next
  case (Suc n)
  obtain r s1 where g: "getchar_turn s = (r, s1)" by (cases "getchar_turn s")
  note s1 = getchar_result [OF Suc.prems g]
  show ?case
  proof (cases r)
    case (Done ch)
    then have "running s1" using s1(2) by simp
    then show ?thesis
      using g Done s1(1) by (auto intro!: safe_storing Suc.IH running_kmem)
  qed (use g s1(1) in simp_all)
qed

lemma safe_read:
  assumes "sinv s" "running s"
  shows "safe (syscall_handle_read f s)"
proof -
  obtain r fs where rd: "fs_read (cur_pid s) (sint (tf_a0 f)) (tf_a1 f \<noteq> 0) (tf_a2 f) (kfs (kern s)) = (r, fs)"
    by (cases "fs_read (cur_pid s) (sint (tf_a0 f)) (tf_a1 f \<noteq> 0) (tf_a2 f) (kfs (kern s))")
  have "vfs_wf fs" using fs_read_wf [OF sinv_vfs [OF assms(1)]] rd by (metis snd_conv)
  then have "sinv (on_fs fs s)" by (rule sinv_on_fs [OF assms(1)])
  moreover have "running (on_fs fs s)" using assms(2) by (simp add: running_def on_fs_def)
  ultimately show ?thesis
    unfolding syscall_handle_read_def rd
    using assms by (auto simp: Let_def intro!: safe_storing_ret safe_console_read split: read_result.splits)
qed

section \<open>Process calls\<close>

lemma safe_exit:
  assumes "sinv s" "running s"
  shows "safe (syscall_handle_exit f s)"
proof -
  obtain c where c: "current_proc (kern s) = Some c" "c < 64" "p_state (procs (kern s) c) = PROC_RUNNABLE"
    "0 < p_pid (procs (kern s) c)" by (rule runningE [OF assms(2)])
  note t = sinv_table [OF assms(1)]
  have pid: "p_pid (procs (kern s) c) = int c" by (rule runnable_reason(2) [OF t c(2,3)])
  have e: "sync c (mark_exited c (orphan_children (int c) (kern s))) =
      (mark_exited c (orphan_children (int c) (kern s)))\<lparr>kfs := snd (procfs_sync_process
        (procs (mark_exited c (orphan_children (int c) (kern s))) c) (kfs (mark_exited c (orphan_children (int c) (kern s)))))\<rparr>"
  proof -
    have "procs (orphan_children (int c) (kern s)) c = orphaned (int c) (procs (kern s) c)"
      using orphan_procs [of "int c" "kern s"] c(2,4) pid by simp
    then have "0 < p_pid (procs (mark_exited c (orphan_children (int c) (kern s))) c)"
      using c(4) by (simp add: mark_exited_def)
    then show ?thesis by (simp add: procfs_sync_best_effort_def)
  qed
  have E: "syscall_handle_exit f s = (if current_proc (kern s) = init_proc (kern s) then PANIC ''kernel shutdown requested''
     else kbind (yield (end_process c (kern s))) (\<lambda>(t, k). Ok (No_return, on_kern s k)))"
    unfolding syscall_handle_exit_def e by (simp add: c(1) pid Let_def)
  have "alive (procs (kern s) c)" using c(3) by (simp add: alive_def)
  note r = end_process_result [OF t c(2) _ this]
  have "kinv (end_process c (kern s))"
    using kinv_frame [OF _ r(1,2)] assms(1) c(4) pid by (simp add: sinv_def)
  then have "sinv (on_kern s k)" if "yield (end_process c (kern s)) = Ok (tt, k)" for tt k
    using kinv_yield [OF _ that] quiet_trans [OF r(3)] sinv_on_kern [OF assms(1)] c(4) pid by auto
  then show ?thesis unfolding E by (auto intro!: safe_kbind)
qed

lemma safe_ps: "sinv s \<Longrightarrow> safe (syscall_handle_ps f s)"
  by (auto simp: syscall_handle_ps_def write_user_ps_info_def Let_def intro!: safe_storing_ret)

lemma safe_clone:
  assumes "sinv s" "running s"
  shows "safe (syscall_handle_clone f s)"
proof -
  obtain c where c: "current_proc (kern s) = Some c" "c < 64" "p_state (procs (kern s) c) = PROC_RUNNABLE"
    "0 < p_pid (procs (kern s) c)" by (rule runningE [OF assms(2)])
  note t = sinv_table [OF assms(1)]
  have pid: "p_pid (procs (kern s) c) = int c" by (rule runnable_reason(2) [OF t c(2,3)])
  have al: "alive (procs (kern s) c)" using c(3) by (simp add: alive_def)
  have "safe (case p of None \<Rightarrow> returning f (-1) (on_kern s k)
      | Some i \<Rightarrow> let k = upd i (\<lambda>p. p\<lparr>p_parent_pid := (case current_proc k of None \<Rightarrow> 0 | Some c \<Rightarrow> p_pid (procs k c))\<rparr>) k
              in returning f (p_pid (procs k i)) (on_kern s k))"
    if cr: "create_process img name (kern s) = Ok (p, k)" for img name p k
  proof (rule create_result [OF cr t])
    assume r: "frame (kern s) k" "table_ok (procs k)" "quiet (kern s) k" "\<And>j. alive (procs (kern s) j) \<Longrightarrow> procs k j = procs (kern s) j"
      "\<And>i. p = Some i \<Longrightarrow> i < 64 \<and> \<not> alive (procs (kern s) i) \<and>
       view (procs k i) = (int i, PROC_RUNNABLE, PROC_WAIT_NONE, -1, 0, False)"
    show ?thesis
    proof (cases p)
      case None
      then show ?thesis using sinv_frame [OF assms(1) r(1-3)] by simp
    next
      case (Some i)
      note i = r(5) [OF Some]
      have ne: "i \<noteq> c" using i al by auto
      have kc: "current_proc k = Some c" "procs k c = procs (kern s) c" using r(1,4) c(1) al by (auto simp: frame_def)
      let ?k = "upd i (\<lambda>p. p\<lparr>p_parent_pid := int c\<rparr>) k"
      have pr: "procs ?k = (procs k)(i := (procs k i)\<lparr>p_parent_pid := int c\<rparr>)" by (simp add: upd_def)
      have "alive (procs k c)" using kc al by simp
      then have "table_ok (procs ?k)"
        unfolding pr
      proof (intro table_ok_upd [OF r(2)])
        show "p_parent_pid ((procs k i)\<lparr>p_parent_pid := int c\<rparr>) = 0 \<or>
           p_parent_pid ((procs k i)\<lparr>p_parent_pid := int c\<rparr>) = p_parent_pid (procs k i) \<or>
           (\<exists>j. 0 < j \<and> j < 64 \<and> j \<noteq> i \<and> p_parent_pid ((procs k i)\<lparr>p_parent_pid := int c\<rparr>) = int j \<and> alive (procs k j))"
          using ne c(2,4) pid \<open>alive (procs k c)\<close> by auto
      qed (use i in \<open>auto simp: view_def alive_def child_waiter_def ipc_waiter_def\<close>)
      moreover have "frame (kern s) ?k" using r(1) by simp
      moreover have "quiet (kern s) ?k"
        by (rule quiet_trans [OF r(3) quiet_one [OF pr]]) (simp add: console_waiter_def)
      ultimately have "sinv (on_kern s ?k)" using sinv_frame [OF assms(1)] by blast
      then show ?thesis using Some kc pid by (simp add: Let_def)
    qed
  qed
  then show ?thesis
    unfolding syscall_handle_clone_def using assms(1) by (auto intro!: safe_kbind split: option.splits)
qed

lemma safe_waitpid:
  assumes "sinv s" "running s"
  shows "safe (syscall_handle_waitpid f s)"
proof -
  obtain c where c: "current_proc (kern s) = Some c" "c < 64" "p_state (procs (kern s) c) = PROC_RUNNABLE"
    by (rule runningE [OF assms(2)])
  have "sinv (on_kern s k)" if "wait_for_child_exit (p_pid (procs (kern s) c)) t (kern s) = Ok (r, k)" for t r k
    using wait_result [OF that sinv_table [OF assms(1)] c] sinv_frame [OF assms(1)] by blast
  then show ?thesis
    unfolding syscall_handle_waitpid_def Let_def using assms(1) c(1)
    by (auto intro!: safe_kbind split: call.splits)
qed

lemma safe_kill:
  assumes "sinv s"
  shows "safe (syscall_handle_kill f s)"
proof -
  have "sinv (on_kern s k)" if "process_kill t (kern s) = Ok (r, k)" for t r k
    using kill_result [OF that] sinv_on_kern [OF assms] assms by (simp add: sinv_def)
  then show ?thesis
    unfolding syscall_handle_kill_def by (auto intro!: safe_kbind split: call.splits)
qed

lemma safe_fork:
  assumes "sinv s" "running s"
  shows "safe (syscall_handle_fork f s)"
proof -
  obtain c where c: "current_proc (kern s) = Some c" "c < 64" by (rule runningE [OF assms(2)])
  have "sinv (on_kern s k)" if "process_fork f (kern s) = Ok (r, k)" for r k
    using fork_result(1-3) [OF that sinv_table [OF assms(1)] c] sinv_frame [OF assms(1)] by blast
  then show ?thesis unfolding syscall_handle_fork_def by (auto intro!: safe_kbind)
qed

lemma sinv_exec:
  assumes "sinv s" "running s" "process_exec img name argc argv (kern s) = Ok (r, k)"
  shows "sinv (on_kern s k)"
proof -
  obtain c where c: "current_proc (kern s) = Some c" "c < 64" "p_state (procs (kern s) c) = PROC_RUNNABLE"
    by (rule runningE [OF assms(2)])
  show ?thesis using exec_result [OF assms(3) sinv_table [OF assms(1)] c] sinv_frame [OF assms(1)] by blast
qed

lemma safe_exec: "sinv s \<Longrightarrow> running s \<Longrightarrow> safe (syscall_handle_exec f s)"
  unfolding syscall_handle_exec_def by (auto intro!: safe_kbind dest: sinv_exec split: option.splits)

lemma safe_execv: "sinv s \<Longrightarrow> running s \<Longrightarrow> safe (syscall_handle_execv f s)"
  unfolding syscall_handle_execv_def by (auto intro!: safe_kbind dest: sinv_exec split: option.splits)

lemma safe_getargs: "sinv s \<Longrightarrow> safe (syscall_handle_getargs f s)"
  by (auto simp: syscall_handle_getargs_def Let_def intro!: safe_storing_ret)

lemma safe_ipc_send: "sinv s \<Longrightarrow> safe (syscall_handle_ipc_send f s)"
  unfolding syscall_handle_ipc_send_def Let_def
  using ipc_send_result [OF _ sinv_table] sinv_frame by (auto split: prod.splits)

lemma safe_ipc_recv:
  assumes "sinv s" "running s"
  shows "safe (syscall_handle_ipc_recv f s)"
proof -
  obtain c where c: "current_proc (kern s) = Some c" "c < 64" "p_state (procs (kern s) c) = PROC_RUNNABLE"
    "0 < p_pid (procs (kern s) c)" by (rule runningE [OF assms(2)])
  obtain r k where r: "process_ipc_recv (p_pid (procs (kern s) c)) (kern s) = (r, k)"
    by (cases "process_ipc_recv (p_pid (procs (kern s) c)) (kern s)")
  have "sinv (on_kern s k)"
    using ipc_recv_result [OF r sinv_table [OF assms(1)] c(2-4)] sinv_frame [OF assms(1)] by blast
  then show ?thesis
    unfolding syscall_handle_ipc_recv_def using c r
    by (auto intro!: safe_storing_ret split: call.splits option.splits)
qed

lemma sinv_rtc [simp]: "sinv (s\<lparr>rtc_reads := n\<rparr>) = sinv s" by (simp add: sinv_def)

lemma safe_info:
  "sinv s \<Longrightarrow> safe (syscall_handle_bitmap f s)" "sinv s \<Longrightarrow> safe (syscall_handle_gettime f s)"
  "sinv s \<Longrightarrow> safe (syscall_handle_kernel_info junk f s)"
  by (auto simp: syscall_handle_bitmap_def syscall_handle_gettime_def syscall_handle_kernel_info_def Let_def
      intro!: safe_kbind safe_storing_ret split: option.splits prod.splits)

lemma safe_syscall:
  assumes "sinv s" "running s"
  shows "safe (handle_syscall junk f s)"
  unfolding handle_syscall_def Let_def
  using assms by (simp add: ki.file_calls safe_getchar safe_exit safe_ps safe_clone safe_waitpid safe_ipc_send
      safe_ipc_recv safe_info safe_kill safe_read safe_readdir safe_fork safe_exec safe_execv safe_getargs safe_getcwd safe_chdir)

section \<open>Traps\<close>

lemma sinv_yield: "sinv s \<Longrightarrow> yield (kern s) = Ok (t, k) \<Longrightarrow> sinv (on_kern s k)"
  using kinv_yield [of "kern s" t k] sinv_on_kern [of s k] by (simp add: sinv_def)

lemma set_trap_stack_result:
  "procs (set_trap_stack w k) = procs k" "kinv (set_trap_stack w k) = kinv k"
  by (auto simp: set_trap_stack_def split: option.splits)

lemma safe_finish:
  assumes "sinv s"
  shows "safe (ecall_finish pc w f r s)"
proof (cases r)
  case (Done f')
  have "sinv (on_kern s ((set_trap_stack w (kern s))\<lparr>csr_sepc := x\<rparr>))" for x
    by (rule sinv_on_kern [OF assms])
      (use assms in \<open>auto simp: sinv_def set_trap_stack_result intro: quiet_procs\<close>)
  then show ?thesis by (simp add: ecall_finish_def Done Let_def)
next
  case Blocked
  then show ?thesis using sinv_yield [OF assms] by (auto simp: ecall_finish_def intro!: safe_kbind)
qed (use assms in \<open>simp add: ecall_finish_def\<close>)

lemma safe_then_finish:
  assumes "safe r"
  shows "safe (kbind r (\<lambda>(x, s). ecall_finish pc w f x s))"
proof (rule safe_kbind)
  fix p assume "r = Ok p"
  then show "safe (case p of (x, s) \<Rightarrow> ecall_finish pc w f x s)"
    using assms by (cases p) (simp add: safe_finish)
qed

lemma safe_timer:
  assumes "sinv s"
  shows "safe (timer_turn w f s)"
proof -
  let ?s = "poll_console_input s"
  let ?k = "scheduler_on_timer_tick (kern ?s)"
  have s: "sinv ?s" by (rule poll_result(1) [OF assms])
  have k: "sinv (on_kern ?s ?k)"
    by (rule sinv_frame [OF s tick_result(1)])
      (use same_view_result [of ?k "kern ?s", OF tick_result(2)] sinv_table [OF s] in auto)
  have fin: "sinv (on_kern ?s (set_trap_stack w k'))" if "sinv (on_kern ?s k')" for k'
    using that by (auto simp: sinv_def on_kern_def set_trap_stack_result no_console_waiter_def)
  have y: "sinv (on_kern ?s k')" if "yield ?k = Ok (t, k')" for t k'
    using sinv_yield [OF k] that by (simp add: on_kern_def)
  show ?thesis
    unfolding timer_turn_def Let_def by (rule safe_kbind) (use k y fin in \<open>auto split: if_splits\<close>)
qed

section \<open>Steps of the system\<close>

text \<open>
  Between two such moments: the running process traps (a system call, or the timer), a process that was resumed
  inside a blocking call makes its next turn, the timer interrupts the idle loop, the idle loop scans the table
  again, the firmware receives characters, and a user program changes memory and its own registers.
\<close>

inductive sys_step :: "sys_state \<Rightarrow> sys_state \<Rightarrow> bool" where
  trap: "running s \<Longrightarrow> process_from_trap_frame addr (kern s) = current_proc (kern s) \<Longrightarrow>
    handle_trap junk scause addr f s = Ok (r, s') \<Longrightarrow> sys_step s s'"
| resume: "running s \<Longrightarrow> ecall_turn junk pc w f s = Ok (r, s') \<Longrightarrow> sys_step s s'"
| resume_read: "running s \<Longrightarrow> console_read_turn pc w f i n s = Ok (r, s') \<Longrightarrow> sys_step s s'"
| idle_timer: "timer_turn None f s = Ok (r, s') \<Longrightarrow> sys_step s s'"
| idle: "yield_turn (kern s) = (t, k) \<Longrightarrow> sys_step s (on_kern s k)"
| input: "sys_step s (s\<lparr>pending := pending s @ chs\<rparr>)"
| user: "sys_step s (on_kern s ((kern s)\<lparr>kmem := (kmem (kern s))\<lparr>ram := m\<rparr>, csr_sepc := pc, csr_sstatus := st\<rparr>))"

inductive_cases sys_stepE: "sys_step s s'"

inductive sys_reach :: "sys_state \<Rightarrow> sys_state \<Rightarrow> bool" for s0 where
  start: "sys_reach s0 s0"
| step: "sys_reach s0 s \<Longrightarrow> sys_step s s' \<Longrightarrow> sys_reach s0 s'"

lemma safeD: "safe r \<Longrightarrow> r = Ok (x, s) \<Longrightarrow> sinv s" by (simp add: safe_def)

lemma safe_trap:
  assumes "sinv s" "running s" "process_from_trap_frame addr (kern s) = current_proc (kern s)"
  shows "safe (handle_trap junk scause addr f s)"
proof -
  have same: "on_kern s (kern s) = s" by (simp add: on_kern_def)
  show ?thesis
    unfolding handle_trap_def Let_def ecall_turn_def assms(3)
    using safe_then_finish [OF safe_syscall [OF assms(1,2)]] safe_timer [OF assms(1)] by (simp add: same)
qed

lemma sys_step_sinv: "sys_step s s' \<Longrightarrow> sinv s \<Longrightarrow> sinv s'"
proof (induction rule: sys_step.induct)
  case (trap s addr junk scause f r s')
  then show ?case using safeD [OF safe_trap] by blast
next
  case (resume s junk pc w f r s')
  then show ?case using safeD [OF safe_then_finish [OF safe_syscall]] by (auto simp: ecall_turn_def)
next
  case (resume_read s pc w f i n r s')
  then show ?case using safeD [OF safe_then_finish [OF safe_console_read]] by (auto simp: console_read_turn_def)
next
  case (idle_timer f s r s')
  then show ?case using safeD [OF safe_timer] by blast
next
  case (idle s t k)
  then show ?case using kinv_yield_turn [of "kern s" t k] sinv_on_kern [of s k] by (simp add: sinv_def)
next
  case (input s chs)
  then show ?case by (simp add: sinv_def)
next
  case (user s m pc st)
  show ?case by (rule sinv_on_kern [OF user]) (use user in \<open>auto simp: sinv_def intro: quiet_procs\<close>)
qed

lemma sys_reach_sinv: "sys_reach s0 s \<Longrightarrow> sinv s0 \<Longrightarrow> sinv s"
  by (induction rule: sys_reach.induct) (auto intro: sys_step_sinv)

section \<open>Boot\<close>

lemma root_entry:
  assumes "vfs_wf fs"
  shows "fs_get_root_entry fs = Some (0, 0)"
proof -
  have "best_mount boot_mounts ''/'' 0 VFS_MOUNT_MAX (None, -1) = (Some 0, 1)" by code_simp
  then have m: "vfs_resolve_mount ''/'' fs = Some (0, ''/'')"
    using vfs_wfD(1) [OF assms] by (simp add: vfs_resolve_mount_def)
  have r: "m_ctx (mounts fs 0) = Rootfs" using vfs_wfD(1) [OF assms] boot_mounts_ctx(2) [of Rootfs] by simp
  have p: "nodefs_resolve_path (get_fs Rootfs fs) ''/'' = Some 0"
    by (simp add: nodefs_resolve_path_def resolve_loop.simps next_component_def)
  have "n_type (nodes (get_fs Rootfs fs) 0) = FS_TYPE_DIR"
    using nodefs_wfD(2) [OF vfs_wfD(2) [OF assms, of Rootfs]] by (simp add: root_ok_def)
  then show ?thesis
    using m r p vfs_wfD(3) [OF assms, of Rootfs] by (simp add: fs_get_root_entry_def Let_def)
qed

lemma reap_nothing:
  assumes "\<And>j. p_state (procs k j) \<noteq> PROC_EXITED"
  shows "reap_loop i n k = Ok k"
  by (induction n arbitrary: i) (simp_all add: assms)

text \<open>A process is created unless the table is full.\<close>

lemma create_Some:
  assumes "create_process img name k = Ok (p, k')" "reap_exited_processes k = Ok k1" "vfs_wf (kfs k1)"
  shows "p = unused_slot k1"
  using assms root_entry by (auto simp: create_process_def kbind_Ok_iff Let_def split: option.splits)

lemma zero_table: "table_ok (\<lambda>_. zero_process)"
  by (simp add: table_ok_def slot_ok_def parent_ok_def wakeup_ok_def child_waiter_def ipc_waiter_def zero_process_def)

lemma idle_result:
  assumes ok: "create_process img name k = Ok (p, k')" and z: "procs k = (\<lambda>_. zero_process)" and wf: "vfs_wf (kfs k)"
  shows "p = Some 0" "table_ok (procs k')" "vfs_wf (kfs k')" "p_pid (procs k' 0) = 0" "no_console_waiter k'"
proof -
  have r: "reap_exited_processes k = Ok k"
    unfolding reap_exited_processes_def by (rule reap_nothing) (simp add: z zero_process_def)
  have "unused_slot k = Some 0" by (simp add: unused_slot_def z zero_process_def)
  then show p: "p = Some 0" using create_Some [OF ok r wf] by simp
  have t: "table_ok (procs k)" using zero_table z by simp
  show "table_ok (procs k')" "vfs_wf (kfs k')" "p_pid (procs k' 0) = 0" "no_console_waiter k'"
    by (rule create_result [OF ok t];
        use p wf z in \<open>force simp: frame_def view_def quiet_def no_console_waiter_def console_waiter_def zero_process_def\<close>)+
qed

lemma bootstrap_sinv:
  assumes ok: "kernel_bootstrap fr fe s0 = Ok s"
    and h: "honest_disk d (the_dev (blk (kfs (kern s0))))" and disk: "bootable (\<lambda>i. d (of_nat i))"
  shows "sinv s"
proof -
  let ?k0 = "kern (bss_clear s0)"
  obtain pages m fs n p k where fs: "fs_init (kfs ?k0) = Ok fs"
    and cr: "create_process [] ''idle'' (?k0\<lparr>kmem := m, kfs := fs\<rparr>) = Ok (p, k)"
    and s: "s = (bss_clear s0)\<lparr>kern := (upd (the p) (\<lambda>p. p\<lparr>p_pid := 0\<rparr>) k)\<lparr>idle_proc := p, current_proc := p\<rparr>,
       kernel_total_pages := pages, rtc_reads := n\<rparr>"
    using ok by (auto simp: kernel_bootstrap_def kbind_Ok_iff Let_def)
  have wf: "vfs_wf fs" by (rule fs_init_wf [OF _ disk fs]) (use h in \<open>simp add: bss_clear_def\<close>)
  note i = idle_result [OF cr]
  have r: "p = Some 0" "table_ok (procs k)" "vfs_wf (kfs k)" "p_pid (procs k 0) = 0" "no_console_waiter k"
    using i wf by (auto simp: bss_clear_def)
  have "table_ok (procs (upd 0 (\<lambda>p. p\<lparr>p_pid := 0\<rparr>) k)) = table_ok (procs k)"
    by (rule same_view_result(1)) (use r(4) in \<open>simp add: view_def\<close>)
  then show ?thesis
    using r empty_console_inv by (auto simp: s sinv_def kinv_def bss_clear_def no_console_waiter_def console_waiter_def)
qed

lemma kernel_main_sinv:
  assumes ok: "kernel_main fr fe s0 = Ok (t, s)"
    and h: "honest_disk d (the_dev (blk (kfs (kern s0))))" and disk: "bootable (\<lambda>i. d (of_nat i))"
  shows "sinv s"
proof -
  obtain s1 p k k2 where s1: "kernel_bootstrap fr fe s0 = Ok s1"
    and cr: "create_process (app_image s1 ''shell'') ''shell'' (kern s1) = Ok (p, k)"
    and y: "yield (k\<lparr>init_proc := p\<rparr>) = Ok (t, k2)" and s: "s = on_kern s1 k2"
    using ok by (auto simp: kernel_main_def kbind_Ok_iff)
  have i: "sinv s1" by (rule bootstrap_sinv [OF s1 h disk])
  show ?thesis
  proof (rule create_result [OF cr sinv_table [OF i]])
    assume r: "frame (kern s1) k" "table_ok (procs k)" "quiet (kern s1) k"
    have "sinv (on_kern s1 k)" by (rule sinv_frame [OF i r])
    then have "sinv (on_kern s1 (k\<lparr>init_proc := p\<rparr>))" by (simp add: sinv_def kinv_def on_kern_def no_console_waiter_def)
    from sinv_yield [OF this] y show ?thesis by (simp add: s on_kern_def)
  qed
qed

end
