(* ===== verification/VfsProps.thy ===== *)
theory VfsProps
  imports VfsInv
begin

text \<open>
  The properties of the virtual file system layer that span calls: reading back what was written, and the
  theorems of the development about files, mounts and descriptors with their concrete instances.
\<close>

section \<open>Reading back\<close>

text \<open>What a successful write through one descriptor shows to another descriptor of the same file.\<close>

lemma read_spec_write: "take (length x) (drop off (spec_write off x d)) = x"
proof -
  have "length (take off (d @ replicate (off - length d) 0)) = off" by simp
  then show ?thesis unfolding spec_write_def by (metis append_eq_conv_conj)
qed

lemma write_read_contents:
  assumes wf: "vfs_wf s" and w: "fs_write pid fd (Some buf) sz s = (r, s1)" "0 \<le> r" "unat sz \<le> length buf"
    and f: "\<not> bad_fd fd" "f_used (fd_table s (nat pid) (nat fd))"
    and g: "\<not> bad_pid pid2" "\<not> bad_fd fd2" "f_used (fd_table s (nat pid2) (nat fd2))"
      "f_flags (fd_table s (nat pid2) (nat fd2)) AND O_RDONLY \<noteq> 0"
    and other: "(nat pid2, nat fd2) \<noteq> (nat pid, nat fd)"
    and same: "f_mount_idx (fd_table s (nat pid2) (nat fd2)) = f_mount_idx (fd_table s (nat pid) (nat fd))"
      "f_node_index (fd_table s (nat pid2) (nat fd2)) = f_node_index (fd_table s (nat pid) (nat fd))"
      "f_offset (fd_table s (nat pid2) (nat fd2)) = f_offset (fd_table s (nat pid) (nat fd))"
  shows "fst (fs_read pid2 fd2 True (of_int r) s1) = Read_done r (take (nat r) buf)"
proof -
  let ?f = "fd_table s (nat pid) (nat fd)" and ?g = "fd_table s (nat pid2) (nat fd2)"
  have pid: "\<not> bad_pid pid" "f_flags ?f AND O_WRONLY \<noteq> 0" using w(1,2) f by (auto simp: fs_write_def Let_def split: if_splits)
  obtain ctx i where c: "f_mount_idx ?f = int (mount_no ctx)" "f_node_index ?f = int i" "live_file (get_fs ctx s) i"
      "unat (f_offset ?f) \<le> 512" "m_ctx (mounts s (mount_no ctx)) = ctx" "\<not> bad_mount s (int (mount_no ctx))"
    using ctx_of_fd [OF wf pid(1) f] by metis
  have wfn: "nodefs_wf (get_fs ctx s)" by (rule vfs_wfD(2) [OF wf])
  obtain cs where cs: "walk (get_fs ctx s) 0 cs = Some i" "list_all nul_free cs"
    using live_has_path [OF wfn] c(3) by (auto simp: live_file_def)
  define y where "y = take (min (unat sz) (512 - unat (f_offset ?f))) buf"
  obtain fs' where fs': "nodefs_write (int i) (f_offset ?f) buf sz (get_fs ctx s) (blk s) =
       (if unat (f_offset ?f) = 512 then (0, f_offset ?f, get_fs ctx s, blk s)
        else (if fst (pfs_sync fs' (blk s)) < 0 then -1 else int (length y), f_offset ?f + of_nat (length y), fs',
              snd (pfs_sync fs' (blk s))))"
    "nodefs_wf fs'" "\<And>j. live_file fs' j = live_file (get_fs ctx s) j"
    "contents fs' i = spec_write (unat (f_offset ?f)) y (contents (get_fs ctx s) i)"
    unfolding y_def using nodefs_write_contents [OF wfn c(3) cs c(4) w(3)] by metis
  have ly: "length y \<le> 512" by (simp add: y_def min.coboundedI2)
  obtain r2 off f2 b2 where o: "nodefs_write (int i) (f_offset ?f) buf sz (get_fs ctx s) (blk s) = (r2, off, f2, b2)"
    by (metis prod_cases4)
  have "r = r2" "s1 = set_fd (nat pid) (nat fd) (?f\<lparr>f_offset := off\<rparr>) (put_fs ctx f2 (s\<lparr>blk := b2\<rparr>))"
    using w(1) pid f c o by (simp_all add: fs_write_def Let_def)
  then have s1: "get_fs ctx s1 = f2" "mounts s1 = mounts s" "fd_table s1 (nat pid2) (nat fd2) = ?g"
    using other by (auto simp: get_put_fs)
  have "r = (if unat (f_offset ?f) = 512 then 0 else int (length y)) \<and>
      f2 = (if unat (f_offset ?f) = 512 then get_fs ctx s else fs')"
    using o fs'(1) \<open>r = r2\<close> w(2) by (simp split: if_splits)
  then have r: "r = (if unat (f_offset ?f) = 512 then 0 else int (length y))"
    and s1f: "get_fs ctx s1 = (if unat (f_offset ?f) = 512 then get_fs ctx s else fs')"
    using s1(1) by simp_all
  have y0: "unat (f_offset ?f) = 512 \<Longrightarrow> y = []" by (simp add: y_def)
  have rl: "r = int (length y)" using r y0 by auto
  have wf1: "nodefs_wf (get_fs ctx s1)" "live_file (get_fs ctx s1) i" using s1f wfn fs'(2,3) c(3) by auto
  have ct: "take (length y) (drop (unat (f_offset ?f)) (contents (get_fs ctx s1) i)) = y"
    using s1f fs'(4) y0 by (simp add: read_spec_write)
  have "unat (of_int r :: u32) = length y" using rl ly by (simp add: unsigned_of_nat take_bit_nat_eq_self)
  then have rd: "nodefs_read (int i) (f_offset ?f) (of_int r) (get_fs ctx s1) = (r, y, f_offset ?f + of_nat (length y))"
    using nodefs_read_contents [OF wf1, of "f_offset ?f" "of_int r"] ct rl by (simp only: Let_def)
  have "take (nat r) buf = y" by (simp add: rl y_def) (use w(3) in \<open>simp add: min_def\<close>)
  moreover have "\<not> bad_mount s1 (int (mount_no ctx))" using c(6) s1(2) by (simp add: bad_mount_def)
  ultimately show ?thesis using g same c s1 rd by (simp add: fs_read_def Let_def)
qed

section \<open>Concrete states\<close>

text \<open>A machine with an empty RAM disk before \<open>fs_init\<close>.\<close>

definition empty_disk :: "u64 \<Rightarrow> u8 list" where
  "empty_disk = (\<lambda>_. replicate 512 0)"

definition power_on :: fs_state where
  "power_on = \<lparr>fd_table = \<lambda>_ _. zero_fd, mounts = \<lambda>_. zero_mnt, rootfs = volatile_fs 0, tmpfs = volatile_fs 0,
     procfs = volatile_fs 0, blk = blk_boot (ram_disk empty_disk), con_out = []\<rparr>"

lemma power_on_disk: "honest_disk empty_disk (the_dev (blk power_on))" "bootable (\<lambda>i. empty_disk (of_nat i))"
proof -
  show "honest_disk empty_disk (the_dev (blk power_on))"
    using ram_disk_honest [of empty_disk] by (simp add: power_on_def blk_boot_def empty_disk_def)
  have "un_le32 (empty_disk 0) \<noteq> PFS_MAGIC" by (simp add: un_le32_def empty_disk_def PFS_MAGIC_def)
  then show "bootable (\<lambda>i. empty_disk (of_nat i))" by (simp add: bootable_def)
qed

lemma power_on_boots:
  obtains s0 where "fs_init power_on = Ok s0" "vfs_wf s0" "tmpfs s0 = volatile_fs 1" "fd_table s0 = (\<lambda>_ _. zero_fd)"
proof -
  obtain b where b: "blockdev_init (blk power_on) = Ok b" "ram_ok b"
    using ram_disk_boot_ok by (auto simp: power_on_def empty_disk_def)
  obtain root b1 where r: "nodefs_init_instance True b = Ok (root, b1)" using ram_disk_init [OF b(2)] by blast
  have "nodefs_wf root"
    by (rule init_root_wf [OF blockdev_init_honest [OF power_on_disk(1) b(1)] power_on_disk(2) r])
  then show thesis using fs_init_result [OF b(1) r] that by blast
qed

lemma volatile_fs_wf: "nodefs_wf (volatile_fs i)"
  by (simp add: volatile_fs_def nodefs_format_wf)

lemma volatile_fs_simps [simp]: "\<not> persistent (volatile_fs i)" "mount_idx (volatile_fs i) = i"
  "tree_of (volatile_fs i) = [[] \<mapsto> Dir]"
proof -
  have "tree_of (volatile_fs i) = tree_of (nodefs_format \<lparr>mount_idx = -1, persistent = False, nodes = \<lambda>_. zero_node\<rparr>)"
    by (rule tree_of_cong) (simp add: volatile_fs_def)
  then show "tree_of (volatile_fs i) = [[] \<mapsto> Dir]" by (simp add: nodefs_format_tree)
qed (simp_all add: volatile_fs_def nodefs_format_def)

lemma volatile_alloc: "\<exists>f. nodefs_alloc_node (volatile_fs i) = Some (1, f)"
  by (simp add: nodefs_alloc_node_def FS_MAX_NODES_def volatile_fs_def nodefs_format_def zero_node_def)

lemma resolve_tmp_a: "vfs_wf s \<Longrightarrow> vfs_resolve_mount ''/tmp/a'' s = Some (1, ''/a'')"
  using vfs_wfD(1) [of s]
  by (simp add: vfs_resolve_mount_def VFS_MOUNT_MAX_def boot_mounts_def mnt_def zero_mnt_def numeral_eq_Suc
      vfs_match_mount_def overwrite_def char_at_def)

lemma names_a: "names_of ''/a'' = Some [''a'']"
  by (simp add: names_of_def)

text \<open>Opening \<open>/tmp/a\<close> with \<open>O_RDWR | O_CREAT\<close> right after booting.\<close>

lemma open_tmp_a:
  assumes "vfs_wf s0" "tmpfs s0 = volatile_fs 1" "fd_table s0 = (\<lambda>_ _. zero_fd)"
  shows "fst (fs_open 1 (Some ''/tmp/a'') 0x13 s0) = 0" 
proof -
  have r: "nodefs_resolve_path (volatile_fs 1) ''/a'' = None"
    using names_a tree_of_None_iff [of "[''a'']" "volatile_fs 1"] by (simp add: resolve_path_walk)
  have "open_spec ''/a'' 0x13 (volatile_fs 1) \<noteq> None"
    by (simp add: open_spec_def names_a spec_open_def spec_create_def O_CREAT_def)
  then have "fst (nodefs_open ''/a'' 0x13 (volatile_fs 1) (blk s0)) = Some 1"
    using open_missing(4) [OF volatile_fs_wf _ r] volatile_alloc [of 1] by fastforce
  then show ?thesis
    using resolve_tmp_a [OF assms(1)] assms boot_mounts_ctx(2) [of Tmpfs] vfs_wfD(1) [OF assms(1)]
    by (simp add: fs_open_def bad_pid_def PROCS_MAX_def case_prod_beta vfs_alloc_fd_def FS_FD_MAX_def zero_fd_def)
qed

text \<open>A state in which process 1 has \<open>/tmp/a\<close> open twice: for reading and writing on 0, for reading on 1.\<close>

definition tmp_with_a :: nodefs where
  "tmp_with_a = set_node 1 (created_node FS_TYPE_FILE 0 ''a'') (volatile_fs 1)"

definition fd_a :: "int \<Rightarrow> vfs_fd" where
  "fd_a flags = \<lparr>f_used = True, f_mount_idx = 1, f_node_index = 1, f_offset = 0, f_flags = flags\<rparr>"

definition a_open :: fs_state where
  "a_open = \<lparr>fd_table = (\<lambda>_ _. closed_fd)(1 := (\<lambda>_. closed_fd)(0 := fd_a 3, 1 := fd_a 1)), mounts = boot_mounts,
     rootfs = volatile_fs 0, tmpfs = tmp_with_a, procfs = volatile_fs 2, blk = blk_boot (ram_disk empty_disk),
     con_out = []\<rparr>"

lemma volatile_no_child: "nodefs_find_child (volatile_fs i) p c = None"
  using find_child_live [of "volatile_fs i" p c]
  by (cases "nodefs_find_child (volatile_fs i) p c")
    (auto simp: live_def volatile_fs_def nodefs_format_def zero_node_def split: if_splits)

lemma a_added: "adds_node (volatile_fs 1) 1 (created_node FS_TYPE_FILE 0 ''a'') 0 ''a''"
proof -
  obtain f where f: "nodefs_alloc_node (volatile_fs 1) = Some (1, f)" using volatile_alloc by blast
  have d: "n_type (nodes (volatile_fs 1) 0) = FS_TYPE_DIR" by (simp add: volatile_fs_def nodefs_format_def)
  show ?thesis
    unfolding created_node_def
    by (rule fresh_child_adds [OF volatile_fs_wf f live_root [OF volatile_fs_wf] d volatile_no_child])
      (simp_all add: name_ok_def)
qed

lemma tmp_with_a_wf: "nodefs_wf tmp_with_a" "live_file tmp_with_a 1" "walk tmp_with_a 0 [''a''] = Some 1"
  "\<not> persistent tmp_with_a" "mount_idx tmp_with_a = 1" "contents tmp_with_a 1 = []"
proof -
  show "nodefs_wf tmp_with_a" unfolding tmp_with_a_def by (rule added_wf [OF a_added])
  show "live_file tmp_with_a 1"
    by (simp add: tmp_with_a_def live_file_def live_def created_node_def fresh_node_def)
  show "walk tmp_with_a 0 [''a''] = Some 1"
    unfolding tmp_with_a_def using added_walk [OF a_added, of "[]" "[''a'']"] by simp
qed (simp_all add: tmp_with_a_def contents_def created_node_def fresh_node_def)

lemma a_open_wf: "vfs_wf a_open"
proof -
  have "nodefs_wf (get_fs c a_open) \<and> mount_idx (get_fs c a_open) = int (mount_no c)" for c
    using tmp_with_a_wf volatile_fs_wf by (cases c) (simp_all add: a_open_def)
  moreover have "live_file (get_fs Tmpfs a_open) 1" using tmp_with_a_wf(2) by (simp add: a_open_def)
  then have "fd_ok a_open (fd_a f)" for f
    unfolding fd_ok_def by (intro impI exI [of _ Tmpfs] exI [of _ 1]) (simp add: fd_a_def)
  then have "fd_ok a_open (fd_table a_open p q)" for p q
    using closed_fd_ok [of a_open] by (simp add: a_open_def)
  ultimately show ?thesis by (simp add: vfs_wf_def a_open_def)
qed

section \<open>Properties: descriptors and mounts\<close>

text \<open>C1: In every state that any sequence of file-system calls reaches after booting from an honest disk,
  each open descriptor of each process refers to an allocated regular file of a mounted file system, with its
  offset inside the 512-byte limit, and all node tables are well-formed trees.\<close>

theorem fs_descriptors_safe:
  assumes "honest_disk d (the_dev (blk s))" "bootable (\<lambda>i. d (of_nat i))" "fs_init s = Ok s0" "fs_reach s0 s1"
    "p < PROCS_MAX" "fd < FS_FD_MAX" "f_used (fd_table s1 p fd)"
  shows "\<exists>ctx i. f_mount_idx (fd_table s1 p fd) = int (mount_no ctx) \<and> m_used (mounts s1 (mount_no ctx)) \<and>
      m_ctx (mounts s1 (mount_no ctx)) = ctx \<and> f_node_index (fd_table s1 p fd) = int i \<and>
      live_file (get_fs ctx s1) i \<and> nodefs_wf (get_fs ctx s1) \<and> unat (f_offset (fd_table s1 p fd)) \<le> 512"
proof -
  have wf: "vfs_wf s1" by (rule fs_reach_wf [OF assms(4) fs_init_wf [OF assms(1-3)]])
  have "p < 64" "fd < 16" using assms(5,6) by (simp_all add: PROCS_MAX_def FS_FD_MAX_def)
  then have "fd_ok s1 (fd_table s1 p fd)" by (rule vfs_wfD(4) [OF wf])
  then show ?thesis
    using assms(7) vfs_wfD(1,2) [OF wf] boot_mounts_ctx(2,3) by (auto simp: fd_ok_def)
qed

lemma open_used:
  assumes "fst (fs_open pid path flags s) = int fd"
  shows "f_used (fd_table (snd (fs_open pid path flags s)) (nat pid) fd)"
  using assms
  by (auto simp: fs_open_def vfs_alloc_fd_def Let_def simp del: scan_from_numeral
      split: option.splits if_splits prod.splits)

theorem fs_descriptors_safe_witness:
  "\<exists>s0 s1 ctx i. fs_init power_on = Ok s0 \<and> s1 = snd (fs_open 1 (Some ''/tmp/a'') 0x13 s0) \<and>
     f_used (fd_table s1 1 0) \<and> f_node_index (fd_table s1 1 0) = int i \<and> live_file (get_fs ctx s1) i"
proof -
  obtain s0 where s0: "fs_init power_on = Ok s0" "vfs_wf s0" "tmpfs s0 = volatile_fs 1" "fd_table s0 = (\<lambda>_ _. zero_fd)"
    by (rule power_on_boots)
  let ?s1 = "snd (fs_open 1 (Some ''/tmp/a'') 0x13 s0)"
  have u: "f_used (fd_table ?s1 1 0)" using open_used [of 1 _ _ s0 0] open_tmp_a [OF s0(2-4)] by simp
  have "fs_reach s0 ?s1" by (rule fs_reach.openc [OF fs_reach.start]) (simp add: cpath_def)
  from fs_descriptors_safe [OF power_on_disk s0(1) this, of 1 0] u
  show ?thesis using s0(1) by (auto simp: PROCS_MAX_def FS_FD_MAX_def)
qed

text \<open>C3: Bytes written through one descriptor are the bytes that another descriptor of the same file at the
  same offset reads next, for any file system, any offset and any length that the write accepted.\<close>

theorem fs_write_read_back:
  assumes "vfs_wf s" "fs_write pid fd (Some buf) sz s = (r, s1)" "0 \<le> r" "unat sz \<le> length buf"
    and "\<not> bad_fd fd" "f_used (fd_table s (nat pid) (nat fd))"
    and "\<not> bad_pid pid2" "\<not> bad_fd fd2" "f_used (fd_table s (nat pid2) (nat fd2))"
      "f_flags (fd_table s (nat pid2) (nat fd2)) AND O_RDONLY \<noteq> 0"
    and "(nat pid2, nat fd2) \<noteq> (nat pid, nat fd)"
    and "f_mount_idx (fd_table s (nat pid2) (nat fd2)) = f_mount_idx (fd_table s (nat pid) (nat fd))"
      "f_node_index (fd_table s (nat pid2) (nat fd2)) = f_node_index (fd_table s (nat pid) (nat fd))"
      "f_offset (fd_table s (nat pid2) (nat fd2)) = f_offset (fd_table s (nat pid) (nat fd))"
  shows "fst (fs_read pid2 fd2 True (of_int r) s1) = Read_done r (take (nat r) buf)"
  by (rule write_read_contents [OF assms])

theorem fs_write_read_back_witness:
  "\<exists>s1. fs_write 1 0 (Some [7, 8, 9]) 3 a_open = (3, s1) \<and>
     fst (fs_read 1 1 True 3 s1) = Read_done 3 [7, 8, 9]"
proof -
  have v: "valid_file_node tmp_with_a 1"
    using tmp_with_a_wf(1,2) valid_file_node_iff [of tmp_with_a 1] by auto
  have m: "m_used (boot_mounts (Suc 0))" "m_ctx (boot_mounts (Suc 0)) = Tmpfs"
    using boot_mounts_ctx(2,3) [of Tmpfs] by simp_all
  obtain s1 where w: "fs_write 1 0 (Some [7, 8, 9]) 3 a_open = (3, s1)"
    using v m tmp_with_a_wf(4)
    by (simp add: fs_write_def bad_pid_def bad_fd_def bad_mount_def hdr_consts VFS_MOUNT_MAX_def a_open_def fd_a_def
        nodefs_write_def pfs_sync_def case_prod_beta Let_def)
  then have "fst (fs_read 1 1 True (of_int 3) s1) = Read_done 3 (take (nat 3) [7, 8, 9])"
    by (intro fs_write_read_back [OF a_open_wf w])
      (simp_all add: bad_pid_def bad_fd_def hdr_consts a_open_def fd_a_def)
  then show ?thesis using w by simp
qed

text \<open>C30: A path is served by the longest mount that covers it at a component boundary, and the backend gets the
  rest of the path; the lookup fails only when no mount covers the path.\<close>

theorem vfs_resolve_longest_mount:
  assumes "mounts_ok s" "nul_free path" "char_at path 0 = CHR ''/''"
  shows "case vfs_resolve_mount path s of
      None \<Rightarrow> \<forall>j < 4. m_used (mounts s j) \<longrightarrow> \<not> covers (mount_path (mounts s j)) path
    | Some (m, sub) \<Rightarrow> m < 4 \<and> m_used (mounts s m) \<and> covers (mount_path (mounts s m)) path \<and>
        sub = below_mount (mount_path (mounts s m)) path \<and>
        (\<forall>j < 4. m_used (mounts s j) \<longrightarrow> covers (mount_path (mounts s j)) path \<longrightarrow>
           length (mount_path (mounts s j)) \<le> length (mount_path (mounts s m)))"
  by (rule vfs_resolve_mount_longest [OF assms])

theorem vfs_resolve_longest_mount_witness:
  "vfs_resolve_mount ''/tmp/a'' a_open = Some (1, ''/a'') \<and> below_mount (mount_path (mounts a_open 1)) ''/tmp/a'' = ''/a''"
  using vfs_resolve_longest_mount [OF boot_mounts_ok [OF vfs_wfD(1) [OF a_open_wf]], of "''/tmp/a''"]
    resolve_tmp_a [OF a_open_wf]
  by simp



text \<open>\<open>open\<close> without an access mode succeeds for reading, but the descriptor keeps the flags 0, so that every
  later read through it fails: the default that \<open>nodefs_open\<close> applies is lost.\<close>

theorem open_without_mode_cannot_read:
  assumes "fs_open pid path 0 s = (fd, s1)" "0 \<le> fd"
  shows "fst (fs_read pid fd True sz s1) = Read_done (-1) []"
proof -
  have "\<not> bad_pid pid" using assms by (auto simp: fs_open_def split: if_splits)
  moreover obtain f where "fd = int f" "f < 16" "f_used (fd_table s1 (nat pid) f)" "f_flags (fd_table s1 (nat pid) f) = 0"
    using assms
    by (auto simp: fs_open_def vfs_alloc_fd_def FS_FD_MAX_def Let_def simp del: scan_from_numeral
        split: option.splits if_splits prod.splits dest!: scan_from_SomeD)
  ultimately show ?thesis by (simp add: fs_read_def bad_fd_def FS_FD_MAX_def Let_def)
qed

theorem open_without_mode_cannot_read_witness:
  "\<exists>s1. fs_open 1 (Some ''/tmp/a'') 0 a_open = (2, s1) \<and> fst (fs_read 1 2 True 1 s1) = Read_done (-1) []"
proof -
  have r: "nodefs_resolve_path tmp_with_a ''/a'' = Some 1" using tmp_with_a_wf(3) names_a by (simp add: resolve_path_walk)
  have f: "n_type (nodes tmp_with_a 1) = FS_TYPE_FILE" using tmp_with_a_wf(2) by (simp add: live_file_def)
  have "m_ctx (boot_mounts (Suc 0)) = Tmpfs" using boot_mounts_ctx(2) [of Tmpfs] by simp
  moreover have "nodefs_open ''/a'' 0 tmp_with_a b = (Some 1, tmp_with_a, b)" for b
    using r f by (simp add: nodefs_open_unfold wants_trunc_def)
  ultimately obtain s1 where o: "fs_open 1 (Some ''/tmp/a'') 0 a_open = (2, s1)"
    using resolve_tmp_a [OF a_open_wf]
    by (simp add: fs_open_def bad_pid_def PROCS_MAX_def vfs_alloc_fd_def FS_FD_MAX_def a_open_def fd_a_def closed_fd_def)
  show ?thesis using o open_without_mode_cannot_read [OF o, of 1] by simp
qed

text \<open>A path with a doubled leading slash is not served by the mount of its first name: \<open>//tmp/a\<close> names the
  entry of the persistent root file system, \<open>/tmp/a\<close> that of the volatile one, although both resolve to the same
  list of names.\<close>

theorem doubled_slash_bypasses_mount:
  assumes "vfs_wf s"
  shows "vfs_resolve_mount ''//tmp/a'' s = Some (0, ''//tmp/a'') \<and> m_ctx (mounts s 0) = Rootfs \<and>
     vfs_resolve_mount ''/tmp/a'' s = Some (1, ''/a'') \<and> m_ctx (mounts s 1) = Tmpfs \<and>
     path_comps ''//tmp/a'' = path_comps ''/tmp/a''"
proof -
  have "vfs_resolve_mount ''//tmp/a'' s = Some (0, ''//tmp/a'')"
    using vfs_wfD(1) [OF assms]
    by (simp add: vfs_resolve_mount_def VFS_MOUNT_MAX_def boot_mounts_def mnt_def zero_mnt_def numeral_eq_Suc
        vfs_match_mount_def overwrite_def char_at_def)
  then show ?thesis
    using resolve_tmp_a [OF assms] vfs_wfD(1) [OF assms] boot_mounts_ctx(2) [of Rootfs] boot_mounts_ctx(2) [of Tmpfs]
    by simp
qed

theorem doubled_slash_bypasses_mount_witness: "vfs_resolve_mount ''//tmp/a'' a_open = Some (0, ''//tmp/a'')"
  using doubled_slash_bypasses_mount [OF a_open_wf] by simp

section \<open>Properties: the node file system\<close>

text \<open>C33: Path resolution is following the names between the slashes from the root, and fails when a name is
  longer than 15 characters or the path is not absolute.\<close>

theorem resolve_path_follows_names:
  "nodefs_resolve_path fs path =
     (if char_at path 0 = CHR ''/'' \<and> (\<forall>c \<in> set (path_comps path). length c \<le> 15)
      then walk fs 0 (path_comps path) else None)"
  by (simp add: resolve_path_walk names_of_def)

theorem resolve_path_follows_names_witness: "nodefs_resolve_path tmp_with_a ''//a/'' = Some 1"
  using resolve_path_follows_names [of tmp_with_a "''//a/''"] tmp_with_a_wf(3) by simp

lemma open_refines:
  assumes "nodefs_wf fs" "nul_free path" "nodefs_open path flags fs b = (res, fs', b')"
  shows "nodefs_wf fs'"
    and "res = Some i \<Longrightarrow> open_spec path flags fs = Some (tree_of fs') \<and> nodefs_resolve_path fs' path = Some i \<and>
      live_file fs' i"
    and "\<not> persistent fs \<Longrightarrow> res = None \<longleftrightarrow> open_spec path flags fs = None \<or>
      (nodefs_resolve_path fs path = None \<and> nodefs_alloc_node fs = None)"
    and "\<not> persistent fs \<Longrightarrow> res = None \<Longrightarrow> fs' = fs \<and> b' = b"
proof -
  note ex = open_existing [OF assms(1,2)] and ms = open_missing [OF assms(1,2)]
  have r: "open_result path flags fs (res, fs', b')"
    using ex(1) [of _ flags b] ms(1) [of flags b] assms(3) by (cases "nodefs_resolve_path fs path") auto
  then show "nodefs_wf fs'" "res = Some i \<Longrightarrow> open_spec path flags fs = Some (tree_of fs') \<and>
      nodefs_resolve_path fs' path = Some i \<and> live_file fs' i"
    by (auto simp: open_result_def)
  have c: "(res = None \<longleftrightarrow> open_spec path flags fs = None \<or>
      (nodefs_resolve_path fs path = None \<and> nodefs_alloc_node fs = None)) \<and> (res = None \<longrightarrow> fs' = fs \<and> b' = b)"
    if "\<not> persistent fs"
  proof (cases "nodefs_resolve_path fs path")
    case None
    show ?thesis
    proof (cases "open_spec path flags fs = None \<or> nodefs_alloc_node fs = None")
      case True
      then show ?thesis using ms(3) [OF None True, of b] assms(3) None by auto
    next
      case False
      then obtain idx f1 where "nodefs_alloc_node fs = Some (idx, f1)" by auto
      then show ?thesis using ms(4) [OF None _ _ that, of flags idx f1 b] False assms(3) by auto
    qed
  next
    case (Some j)
    then show ?thesis using ex(2) [OF Some, of flags b] ex(3) [OF Some _ that, of flags b] assms(3) r
      by (cases "n_type (nodes fs j) = FS_TYPE_FILE") (auto simp: open_result_def)
  qed
  then show "\<not> persistent fs \<Longrightarrow> res = None \<longleftrightarrow> open_spec path flags fs = None \<or>
      (nodefs_resolve_path fs path = None \<and> nodefs_alloc_node fs = None)"
    and "\<not> persistent fs \<Longrightarrow> res = None \<Longrightarrow> fs' = fs \<and> b' = b" by blast+
qed



text \<open>C34: \<open>mkdir\<close> refines its specification: when the parent is a directory, the name is new and a node is free, the
  tree gains exactly that directory and the result is that of the write-back; otherwise nothing changes.\<close>

theorem nodefs_mkdir_refines_spec:
  assumes "nodefs_wf fs" "nul_free path"
  shows "case (create_spec FS_TYPE_DIR path fs, nodefs_alloc_node fs) of
      (Some t, Some _) \<Rightarrow> (\<exists>fs'. nodefs_mkdir path fs b = synced 0 fs' b \<and> nodefs_wf fs' \<and> tree_of fs' = t)
    | _ \<Rightarrow> nodefs_mkdir path fs b = (-1, fs, b)"
  using nodefs_mkdir_cases [OF assms, of b] by (auto split: option.splits)

theorem nodefs_mkdir_refines_spec_witness:
  "\<exists>fs'. nodefs_mkdir ''/d'' (volatile_fs 1) (blk power_on) = synced 0 fs' (blk power_on) \<and> tree_of fs' = [[] \<mapsto> Dir, [''d''] \<mapsto> Dir]"
proof -
  obtain f where a: "nodefs_alloc_node (volatile_fs 1) = Some (1, f)" using volatile_alloc by blast
  have sp: "create_spec FS_TYPE_DIR ''/d'' (volatile_fs 1) = Some [[] \<mapsto> Dir, [''d''] \<mapsto> Dir]"
    by (simp add: create_spec_def names_of_def spec_create_def new_entry_def)
  show ?thesis using nodefs_mkdir_refines_spec [OF volatile_fs_wf, of "''/d''" 1 "blk power_on"] sp a by auto
qed





text \<open>\<open>read\<close> returns exactly the bytes of the file from the offset on, at most the requested number, and moves
  the offset behind them; at or behind the end it returns 0.\<close>

theorem nodefs_read_returns_contents:
  assumes "nodefs_wf fs" "live_file fs i"
  shows "nodefs_read (int i) off sz fs =
     (let x = take (unat sz) (drop (unat off) (contents fs i)) in (int (length x), x, off + of_nat (length x)))"
  by (rule nodefs_read_contents [OF assms])

theorem nodefs_read_returns_contents_witness: "nodefs_read (int 1) 0 10 tmp_with_a = (0, [], 0)"
  using nodefs_read_returns_contents [OF tmp_with_a_wf(1,2), of 0 10] tmp_with_a_wf(6) by (simp add: Let_def)

text \<open>\<open>write\<close> stores the accepted bytes at the offset, extends the file (with zeros when the offset lies behind
  the end), accepts at most the bytes up to the 512-byte limit, and changes no other file; its result is the number
  of bytes, or -1 when the write-back fails.\<close>

theorem nodefs_write_stores_contents:
  assumes "nodefs_wf fs" "live_file fs i" "walk fs 0 cs = Some i" "list_all nul_free cs" "unat off < 512"
    "unat sz \<le> length buf"
  shows "\<exists>fs' x. x = take (min (unat sz) (512 - unat off)) buf \<and>
     nodefs_write (int i) off buf sz fs b =
       (if fst (pfs_sync fs' b) < 0 then -1 else int (length x), off + of_nat (length x), fs', snd (pfs_sync fs' b)) \<and>
     nodefs_wf fs' \<and> tree_of fs' = (tree_of fs)(cs \<mapsto> File (spec_write (unat off) x (contents fs i)))"
proof -
  have off: "unat off \<le> 512" "unat off \<noteq> 512" using assms(5) by simp_all
  show ?thesis by (rule nodefs_write_contents [OF assms(1-4) off(1) assms(6), where b = b]) (use off(2) in auto)
qed

theorem nodefs_write_stores_contents_witness:
  "\<exists>fs'. nodefs_write (int 1) 2 [7, 8] 2 tmp_with_a (blk power_on) = (2, 4, fs', blk power_on) \<and>
     tree_of fs' [''a''] = Some (File [0, 0, 7, 8])"
proof -
  obtain fs' where f: "nodefs_write (int 1) 2 [7, 8] 2 tmp_with_a (blk power_on) =
       (if fst (pfs_sync fs' (blk power_on)) < 0 then -1 else 2, 4, fs', snd (pfs_sync fs' (blk power_on)))"
      "tree_of fs' = (tree_of tmp_with_a)([''a''] \<mapsto> File (spec_write 2 [7, 8] []))"
    using nodefs_write_stores_contents [OF tmp_with_a_wf(1-3), of 2 2 "[7, 8]" "blk power_on"] tmp_with_a_wf(6)
    by auto
  have "nodefs_write (int 1) 2 [7, 8] 2 tmp_with_a (blk power_on) =
      (int 2, 4, fst (snd (snd (nodefs_write (int 1) 2 [7, 8] 2 tmp_with_a (blk power_on)))), blk power_on)"
    using tmp_with_a_wf(1,2,4) valid_file_node_iff [of tmp_with_a 1]
    by (simp add: nodefs_write_def pfs_sync_def Let_def case_prod_beta live_file_def) 
  then show ?thesis using f by (auto simp: spec_write_def numeral_eq_Suc)
qed

text \<open>C36: \<open>readdir\<close> with the indices 0, 1, 2, ... lists the entries of a directory, each exactly once, and fails from
  the number of entries on.\<close>

theorem nodefs_readdir_lists_directory:
  assumes "nodefs_wf fs" "nul_free path" "names_of path = Some cs" "tree_of fs cs = Some Dir"
  shows "\<exists>ns. distinct ns \<and> set ns = {c. tree_of fs (cs @ [c]) \<noteq> None} \<and>
     (\<forall>k. map_option (\<lambda>e. cstr (de_name e)) (nodefs_readdir path (int k) fs) = (if k < length ns then Some (ns ! k) else None))"
proof -
  have nf: "list_all nul_free cs" by (rule names_nul_free [OF assms(3,2)])
  obtain d where d: "walk fs 0 cs = Some d" "n_type (nodes fs d) = FS_TYPE_DIR"
    using tree_of_Dir_iff [OF assms(1) nf] assms(4) by auto
  then have r: "nodefs_resolve_path fs path = Some d" using assms(3) by (simp add: resolve_path_walk)
  let ?ns = "map (\<lambda>i. cstr (n_name (nodes fs i))) (children fs d)"
  have "cstr (snd (copy_name (replicate 16 NUL) (cstr (n_name (nodes fs i))))) = cstr (n_name (nodes fs i))" for i
    using copy_name_fits(2) [of "replicate 16 NUL" "cstr (n_name (nodes fs i))"] nodefs_wfD(1) [OF assms(1), of i]
    by (simp add: node_shape_def)
  then have "map_option (\<lambda>e. cstr (de_name e)) (nodefs_readdir path (int k) fs) = (if k < length ?ns then Some (?ns ! k) else None)" for k
    using readdir_children [OF r d(2), of "int k"] by (simp add: Let_def)
  then show ?thesis using children_names [OF assms(1) d(1) nf] by blast
qed

theorem nodefs_readdir_lists_directory_witness:
  "\<exists>ns. set ns = {''a''} \<and> map_option (\<lambda>e. cstr (de_name e)) (nodefs_readdir ''/'' 0 tmp_with_a) = Some (ns ! 0)"
proof -
  have t: "tree_of tmp_with_a = [[] \<mapsto> Dir, [''a''] \<mapsto> File []]"
    unfolding tmp_with_a_def using tree_added [OF a_added, of "[]"]
    by (simp add: entry_of_def created_node_def fresh_node_def)
  have n: "names_of ''/'' = Some []" by (simp add: names_of_def)
  obtain ns where ns: "distinct ns" "set ns = {c. tree_of tmp_with_a ([] @ [c]) \<noteq> None}"
     "\<forall>k. map_option (\<lambda>e. cstr (de_name e)) (nodefs_readdir ''/'' (int k) tmp_with_a) = (if k < length ns then Some (ns ! k) else None)"
    using nodefs_readdir_lists_directory [OF tmp_with_a_wf(1) _ n] t by auto
  have s: "set ns = {''a''}" using ns(2) t by auto
  then have "0 < length ns" by (cases ns) auto
  then show ?thesis using s ns(3) [rule_format, of 0] by (intro exI [of _ ns]) simp
qed

text \<open>C4: What \<open>pfs_sync\<close> has written completely is what the next boot loads: over any honest block device, with
  failed and repeated requests in between, the node table and therefore the whole tree are the same.\<close>

theorem pfs_survives_reboot:
  assumes "nodefs_wf fs" "persistent fs" "blocks_inv disk b" "pfs_sync fs b = (r, b1)" "r \<ge> 0"
    "nodefs_init_instance True b1 = Ok (fs2, b2)"
  shows "nodes fs2 = nodes fs \<and> persistent fs2 \<and> tree_of fs2 = tree_of fs"
proof -
  obtain disk' where "blocks_inv disk' b1" "image_on_disk fs disk'" using pfs_sync_image [OF assms(1-5)] by blast
  then have "fs2 = \<lparr>mount_idx = -1, persistent = True, nodes = nodes fs\<rparr>" using init_loads_image(1) [OF assms(1) _ _ assms(6)] by blast
  then show ?thesis using tree_of_cong [of fs2 fs] by simp
qed

theorem pfs_survives_reboot_witness:
  "\<exists>b b1 fs2 b2. blockdev_init (blk power_on) = Ok b \<and> pfs_sync (tmp_with_a\<lparr>persistent := True\<rparr>) b = (0, b1) \<and>
     nodefs_init_instance True b1 = Ok (fs2, b2) \<and> nodes fs2 = nodes tmp_with_a"
proof -
  let ?fs = "tmp_with_a\<lparr>persistent := True\<rparr>"
  have wf: "nodefs_wf ?fs" using tmp_with_a_wf(1) nodefs_wf_cong [of ?fs tmp_with_a] by simp
  obtain b where b: "blockdev_init (blk power_on) = Ok b" "ram_ok b"
    using ram_disk_boot_ok by (auto simp: power_on_def empty_disk_def)
  obtain disk where d: "blocks_inv disk b" by (rule ram_ok_inv [OF b(2)])
  obtain b1 where s: "pfs_sync ?fs b = (0, b1)" "ram_ok b1" using ram_disk_sync [OF b(2) wf] by (metis prod.collapse)
  obtain fs2 b2 where i: "nodefs_init_instance True b1 = Ok (fs2, b2)" using ram_disk_init [OF s(2)] by blast
  have "nodes fs2 = nodes ?fs" using pfs_survives_reboot [OF wf _ d s(1) _ i] by simp
  then show ?thesis using b(1) s(1) i by auto
qed

end
