(* ===== verification/SchedProps.thy ===== *)
theory SchedProps
  imports SysInv VfsProps
begin

text \<open>
  Properties of scheduling, waiting, messages and traps: which process \<open>yield\<close> chooses, what the timer interrupt
  can change, the mailbox as a channel, the collection of exited children, what becomes of a process that kills
  itself, and the frame that the trap entry saves.
\<close>

section \<open>The choice of the scheduler\<close>

text \<open>The running process is the one that its slot says; the scan starts there.\<close>

definition at_slot :: "nat \<Rightarrow> kstate \<Rightarrow> bool" where
  "at_slot c s \<longleftrightarrow> c < 64 \<and> current_proc s = Some c \<and> p_pid (procs s c) = int c"

lemma scan_slot_at: "at_slot c s \<Longrightarrow> scan_slot s d = (c + d) mod 64"
  by (simp add: at_slot_def scan_slot_def nat_mod_distrib flip: of_nat_add)

lemma all_slots_mod:
  fixes c j :: nat
  assumes "c < 64" "\<And>d. d < 64 \<Longrightarrow> P ((c + d) mod 64)" "j < 64"
  shows "P j"
proof -
  have "(c + (j + 64 - c) mod 64) mod 64 = j"
    using assms(1,3) by (simp add: mod_add_right_eq)
  then show ?thesis using assms(2) [of "(j + 64 - c) mod 64"] by simp
qed

lemma pick_next_None:
  assumes "at_slot c s" "pick_next s = None"
  shows "\<forall>j < 64. \<not> schedulable (procs s j)"
proof (intro allI impI)
  fix j :: nat assume "j < 64"
  have "\<not> schedulable (procs s ((c + d) mod 64))" if "d < 64" for d
    using assms that by (auto simp: pick_next_def scan_slot_at scan_from_None simp del: scan_from_numeral)
  then show "\<not> schedulable (procs s j)"
    using all_slots_mod [of c "\<lambda>j. \<not> schedulable (procs s j)" j] assms(1) \<open>j < 64\<close> by (simp add: at_slot_def)
qed

lemma pick_next_first:
  assumes "at_slot c s" "pick_next s = Some n"
  obtains d where "d < 64" "n = (c + d) mod 64" "schedulable (procs s n)"
    "\<forall>e < d. \<not> schedulable (procs s ((c + e) mod 64))"
proof -
  from assms obtain d where "scan_from (\<lambda>i. schedulable (procs s (scan_slot s i))) 0 64 = Some d" "n = scan_slot s d"
    by (auto simp: pick_next_def simp del: scan_from_numeral)
  with scan_from_SomeD [OF this(1)] show thesis
    using that [of d] by (auto simp: scan_slot_at [OF assms(1)])
qed

lemma pick_next_self: "at_slot c s \<Longrightarrow> schedulable (procs s c) \<Longrightarrow> pick_next s = Some c"
  using scan_from_SomeI [of 0 0 64 "\<lambda>i. schedulable (procs s (scan_slot s i))"]
  by (auto simp: pick_next_def scan_slot_at at_slot_def simp del: scan_from_numeral)

lemma yield_turn_self:
  assumes "at_slot c s" "schedulable (procs s c)" "yield_turn s = (t, s')"
  shows "t = Continue" "at_slot c s'" "schedulable (procs s' c)" "csr_satp s' = csr_satp s"
  using assms(3) pick_next_self [OF assms(1,2)] assms(1,2)
  by (auto simp: yield_turn_def Let_def at_slot_def schedulable_def)



text \<open>A state with two processes, for examples: slot 1 runs, slot 2 is its child.\<close>

definition two_procs :: "pstate \<Rightarrow> kstate" where
  "two_procs st = \<lparr>procs = (\<lambda>_. zero_process)(1 := zero_process\<lparr>p_pid := 1, p_state := PROC_RUNNABLE\<rparr>,
       2 := zero_process\<lparr>p_pid := 2, p_state := st, p_parent_pid := 1\<rparr>),
     current_proc = Some 1, idle_proc = Some 0, init_proc = None, need_resched = False, kernel_base = 0x80200000,
     free_ram_end = 0x84400000, csr_sepc = USER_BASE, csr_sstatus = 0, csr_satp = 0x80080400, csr_sscratch = Some 1,
     procs_addr = 0x80300000,
     kmem = \<lparr>page_bitmap = \<lambda>_. 0, managed_base = 0x80401000, managed_pages = 0x3fff, memory_initialized = True,
       ram = \<lambda>_. 0\<rparr>,
     kfs = power_on\<rparr>"

lemma two_procs_ok:
  assumes "st \<noteq> PROC_WAITTING"
  shows "table_ok (procs (two_procs st))" "at_slot 1 (two_procs st)"
  using assms
  by (auto simp: table_ok_def slot_ok_def parent_ok_def wakeup_ok_def child_waiter_def ipc_waiter_def alive_def
      zero_process_def two_procs_def at_slot_def)


section \<open>The timer\<close>

lemma kept_self:
  assumes "kept k k'" "frame k k'" "at_slot c k" "schedulable (procs k c)"
  shows "at_slot c k'" "schedulable (procs k' c)"
  using assms kept_alive [OF assms(1), of c] by (auto simp: at_slot_def schedulable_def frame_def alive_def)

lemma view_self:
  assumes "frame k k'" "view (procs k' c) = view (procs k c)" "at_slot c k" "schedulable (procs k c)"
  shows "at_slot c k'" "schedulable (procs k' c)"
  using assms view_eqD [OF assms(2)] by (auto simp: at_slot_def schedulable_def frame_def)

lemma poll_self:
  assumes "at_slot c (kern s)" "schedulable (procs (kern s) c)"
  shows "frame (kern s) (kern (poll_console_input s))" "view (procs (kern (poll_console_input s)) c) = view (procs (kern s) c)"
proof -
  have "\<not> console_waiter (procs (kern s) c)" using assms(2) by (simp add: schedulable_def console_waiter_def)
  then show "frame (kern s) (kern (poll_console_input s))"
    "view (procs (kern (poll_console_input s)) c) = view (procs (kern s) c)"
    using wakeup_input_procs [of "kern s"] assms(1) by (auto simp: poll_console_input_def Let_def case_prod_beta at_slot_def)
qed

lemma poll_table:
  assumes "table_ok (procs (kern s))"
  shows "table_ok (procs (kern (poll_console_input s)))"
proof -
  have "table_ok (procs (wakeup_input_waiters (kern s)))"
    by (rule table_ok_wake_some [OF assms]) (use wakeup_input_procs [of "kern s"] in \<open>auto simp: console_waiter_def\<close>)
  then show ?thesis using assms by (simp add: poll_console_input_def Let_def case_prod_beta)
qed

text \<open>A process that can run keeps the processor over every timer interrupt, also when its time slice is used up:
  the scan of \<open>yield\<close> starts at the current slot, so no other process is ever chosen as long as the current one does
  not block or exit.\<close>

theorem timer_never_preempts:
  assumes "table_ok (procs (kern s))" "at_slot c (kern s)" "schedulable (procs (kern s) c)"
    and "timer_turn owner f s = Ok (r, s')"
  shows "r = Done f \<and> at_slot c (kern s') \<and> schedulable (procs (kern s') c) \<and> csr_satp (kern s') = csr_satp (kern s)"
proof -
  let ?s = "poll_console_input s"
  let ?k = "scheduler_on_timer_tick (kern ?s)"
  note p = poll_self [OF assms(2,3)]
  have ps: "at_slot c (kern ?s)" "schedulable (procs (kern ?s) c)" by (rule view_self [OF p assms(2,3)])+
  have ks: "at_slot c ?k" "schedulable (procs ?k c)" by (rule view_self [OF tick_result ps])+
  have fr: "frame (kern s) ?k" by (rule frame_trans [OF p(1) tick_result(1)])
  have tab: "table_ok (procs ?k)"
    using same_view_result(1) [of ?k "kern ?s", OF tick_result(2)] poll_table [OF assms(1)] by simp
  obtain t k' where y: "(if scheduler_should_yield ?k then yield ?k else Ok (Continue, ?k)) = Ok (t, k')"
    and r: "r = Done f" "s' = on_kern ?s (set_trap_stack owner k')"
    using assms(4) by (auto simp: timer_turn_def Let_def kbind_Ok_iff)
  have "at_slot c k' \<and> schedulable (procs k' c) \<and> csr_satp k' = csr_satp (kern s)"
  proof (cases "scheduler_should_yield ?k")
    case False
    then show ?thesis using y ks fr by (auto simp: frame_def)
  next
    case True
    then obtain k1 where k1: "reap_exited_processes ?k = Ok k1" "yield_turn k1 = (t, k')"
      using y by (auto simp: yield_def kbind_Ok_iff)
    note rp = reap_result [OF k1(1) tab]
    note yt = yield_turn_self [OF kept_self [OF rp(2,1) ks] k1(2)]
    then show ?thesis using rp(1) fr by (auto simp: frame_def)
  qed
  then show ?thesis using r by (auto simp: on_kern_def at_slot_def set_trap_stack_result set_trap_stack_def split: option.splits)
qed


definition zero_frame :: trap_frame where
  "zero_frame = \<lparr>
     tf_ra = 0, tf_gp = 0, tf_tp = 0, tf_t0 = 0, tf_t1 = 0, tf_t2 = 0, tf_t3 = 0, tf_t4 = 0, tf_t5 = 0,
     tf_t6 = 0, tf_a0 = 0, tf_a1 = 0, tf_a2 = 0, tf_a3 = 0, tf_a4 = 0, tf_a5 = 0, tf_a6 = 0, tf_a7 = 0,
     tf_s0 = 0, tf_s1 = 0, tf_s2 = 0, tf_s3 = 0, tf_s4 = 0, tf_s5 = 0, tf_s6 = 0, tf_s7 = 0, tf_s8 = 0,
     tf_s9 = 0, tf_s10 = 0, tf_s11 = 0, tf_sp = 0\<rparr>"

definition timer_demo :: sys_state where
  "timer_demo = \<lparr>kern = (two_procs PROC_RUNNABLE)\<lparr>need_resched := True\<rparr>, con = empty_console, pending = [],
     app_image = \<lambda>_. [], rtc_time = \<lambda>_. 0, rtc_reads = 0, kernel_total_pages = 0\<rparr>"

lemma reap_none:
  assumes "\<And>j. p_state (procs k j) = PROC_EXITED \<Longrightarrow> p_parent_pid (procs k j) \<noteq> 0"
  shows "reap_exited_processes k = Ok k"
proof -
  have "reap_loop i n k = Ok k" for i n by (induction n arbitrary: i) (simp_all add: assms)
  then show ?thesis by (simp add: reap_exited_processes_def)
qed

theorem timer_never_preempts_witness:
  "\<exists>r s'. timer_turn (Some 1) zero_frame timer_demo = Ok (r, s') \<and> current_proc (kern s') = Some 1"
proof -
  let ?k = "kern timer_demo"
  have p: "poll_console_input timer_demo = timer_demo"
    by (simp add: poll_console_input_def timer_demo_def empty_console_def)
  have "p_state (procs (scheduler_on_timer_tick ?k) j) \<noteq> PROC_EXITED" for j
    using view_eqD(2) [OF tick_result(2) [of ?k j]] by (auto simp: timer_demo_def two_procs_def zero_process_def)
  then have "reap_exited_processes (scheduler_on_timer_tick ?k) = Ok (scheduler_on_timer_tick ?k)"
    by (intro reap_none) simp
  then have y: "yield (scheduler_on_timer_tick ?k) = Ok (yield_turn (scheduler_on_timer_tick ?k))"
    by (simp add: yield_def)
  let ?tick = "scheduler_on_timer_tick ?k"
  have "\<exists>x. (if scheduler_should_yield ?tick then yield ?tick else Ok (Continue, ?tick)) = Ok x" by (simp add: y)
  then have "\<exists>x. timer_turn (Some 1) zero_frame timer_demo = Ok x" by (auto simp: timer_turn_def p Let_def case_prod_beta)
  then obtain r s' where t: "timer_turn (Some 1) zero_frame timer_demo = Ok (r, s')" by auto
  have ok: "table_ok (procs ?k)" "at_slot 1 ?k" "schedulable (procs ?k 1)"
    using two_procs_ok [of PROC_RUNNABLE] by (simp_all add: timer_demo_def at_slot_def schedulable_def two_procs_def)
  from timer_never_preempts [OF ok t] t show ?thesis by (auto simp: at_slot_def)
qed


section \<open>Messages\<close>

lemma find_process_slot:
  assumes "find_process_by_pid pid s = Some i" "\<And>j. p_pid (procs s' j) = p_pid (procs s j)"
    "\<And>j. p_state (procs s' j) = PROC_UNUSED \<longleftrightarrow> p_state (procs s j) = PROC_UNUSED"
  shows "find_process_by_pid pid s' = Some i"
  using assms(1) unfolding find_process_by_pid_def assms(2,3) .

text \<open>The one-slot mailbox as a channel: what a successful send leaves behind.\<close>

lemma ipc_send_Some:
  assumes "process_ipc_send src dst msg s = (0, s')"
  obtains d where "find_process_by_pid dst s = Some d" "d < 64" "find_process_by_pid dst s' = Some d"
    "p_ipc_has_message (procs s' d)" "p_ipc_from_pid (procs s' d) = src" "p_ipc_message (procs s' d) = msg"
    "\<not> ipc_waiter (procs s' d)" "\<And>j. j \<noteq> d \<Longrightarrow> procs s' j = procs s j" "p_state (procs s' d) \<noteq> PROC_EXITED"
proof -
  from assms obtain d where d: "find_process_by_pid dst s = Some d" "p_state (procs s d) \<noteq> PROC_EXITED"
    "\<not> p_ipc_has_message (procs s d)"
    by (auto simp: process_ipc_send_def split: option.splits if_splits)
  let ?k = "upd d (\<lambda>p. p\<lparr>p_ipc_has_message := True, p_ipc_from_pid := src, p_ipc_message := msg\<rparr>) s"
  have s': "s' = (if ipc_waiter (procs s d) then wake d ?k else ?k)"
    using assms d by (auto simp: process_ipc_send_def ipc_waiter_def)
  note f = find_process_Some [OF d(1)]
  have p: "procs s' j = (if j = d then (if ipc_waiter (procs s d) then awake (procs ?k d) else procs ?k d) else procs s j)" for j
    by (simp add: s' procs_wake)
  have "find_process_by_pid dst s' = Some d"
    by (rule find_process_slot [OF d(1)]) (use f(3) in \<open>auto simp: p ipc_waiter_def\<close>)
  with d f(1) show thesis by (intro that) (auto simp: p ipc_waiter_def awake_def)
qed

text \<open>C28: A message that was sent successfully is what the receiver gets next: it does not block, returns sender and
  message, and leaves its mailbox empty; a second send before that returns -2 and changes nothing; and a receiver that
  was waiting is runnable again.\<close>

theorem ipc_send_recv:
  assumes "process_ipc_send src dst msg s = (0, s')"
  shows "\<exists>d s''. find_process_by_pid dst s = Some d \<and>
    process_ipc_recv dst s' = (Done (Some (src, msg)), s'') \<and> \<not> p_ipc_has_message (procs s'' d) \<and>
    \<not> ipc_waiter (procs s' d) \<and> (\<forall>j. j \<noteq> d \<longrightarrow> procs s'' j = procs s j) \<and>
    (\<forall>src2 msg2. process_ipc_send src2 dst msg2 s' = (-2, s'))"
proof -
  obtain d where d: "find_process_by_pid dst s = Some d" "d < 64" "find_process_by_pid dst s' = Some d"
    "p_ipc_has_message (procs s' d)" "p_ipc_from_pid (procs s' d) = src" "p_ipc_message (procs s' d) = msg"
    "\<not> ipc_waiter (procs s' d)" "\<And>j. j \<noteq> d \<Longrightarrow> procs s' j = procs s j" "p_state (procs s' d) \<noteq> PROC_EXITED"
    by (rule ipc_send_Some [OF assms]) blast
  have "process_ipc_send src2 dst msg2 s' = (-2, s')" for src2 msg2
    using d by (simp add: process_ipc_send_def)
  then show ?thesis using d by (simp add: process_ipc_recv_def)
qed

theorem ipc_send_recv_witness:
  "\<exists>s' s''. process_ipc_send 1 2 42 (two_procs PROC_RUNNABLE) = (0, s') \<and>
     process_ipc_recv 2 s' = (Done (Some (1, 42)), s'')"
proof -
  have "find_process_by_pid 2 (two_procs PROC_RUNNABLE) = Some 2"
    by (simp add: find_process_by_pid_def two_procs_def zero_process_def PROCS_MAX_def)
  then obtain s' where s': "process_ipc_send 1 2 42 (two_procs PROC_RUNNABLE) = (0, s')"
    by (simp add: process_ipc_send_def two_procs_def zero_process_def)
  from ipc_send_recv [OF this] s' show ?thesis by blast
qed

section \<open>Waiting for children\<close>

text \<open>C27: Waiting for a child: it collects an exited child that matches the request and frees exactly its slot; it fails
  and changes nothing exactly when the caller has no such child; and it blocks exactly when there are such children but
  none has exited.\<close>

theorem wait_collects_child:
  assumes "0 < parent" "current_proc s = Some c" "wait_for_child_exit parent target s = Ok (r, s')"
  shows "(\<exists>i < 64. is_child parent target (procs s i) \<and> p_state (procs s i) = PROC_EXITED \<and> r = Done (p_pid (procs s i)) \<and>
      cleared (procs s' i) \<and> (\<forall>j. j \<noteq> i \<longrightarrow> procs s' j = procs s j)) \<or>
    (\<forall>i < 64. \<not> is_child parent target (procs s i)) \<and> r = Done (-1) \<and> s' = s \<or>
    (\<exists>i < 64. is_child parent target (procs s i)) \<and>
      (\<forall>i < 64. is_child parent target (procs s i) \<longrightarrow> p_state (procs s i) \<noteq> PROC_EXITED) \<and> r = Blocked \<and>
      child_waiter (procs s' c) \<and> p_wait_pid (procs s' c) = target \<and> (\<forall>j. j \<noteq> c \<longrightarrow> procs s' j = procs s j)"
proof (cases "scan_from (\<lambda>i. is_child parent target (procs s i) \<and> p_state (procs s i) = PROC_EXITED) 0 64")
  case (Some i)
  then have e: "i < 64" "is_child parent target (procs s i)" "p_state (procs s i) = PROC_EXITED"
    using scan_from_SomeD [OF Some] by auto
  have r: "r = Done (p_pid (procs s i))" "recycle_process_slot i s = Ok s'"
    using assms Some by (auto simp: wait_for_child_exit_def kbind_Ok_iff simp del: scan_from_numeral)
  obtain q where "procs s' = (procs s)(i := q)" "cleared q" by (rule recycle_result [OF r(2)])
  then have "cleared (procs s' i)" "\<forall>j. j \<noteq> i \<longrightarrow> procs s' j = procs s j" by auto
  then show ?thesis using e r(1) by blast
next
  case None
  then have no: "\<forall>i < 64. is_child parent target (procs s i) \<longrightarrow> p_state (procs s i) \<noteq> PROC_EXITED"
    by (auto simp: scan_from_None simp del: scan_from_numeral)
  show ?thesis
  proof (cases "scan_from (\<lambda>i. is_child parent target (procs s i)) 0 64 = None")
    case True
    then show ?thesis
      using assms None by (auto simp: wait_for_child_exit_def scan_from_None simp del: scan_from_numeral)
  next
    case False
    then have "\<exists>i < 64. is_child parent target (procs s i)" by (auto simp: scan_from_None simp del: scan_from_numeral)
    moreover have "r = Blocked" "s' = block PROC_WAIT_CHILD_EXIT target c s"
      using assms None False by (auto simp: wait_for_child_exit_def simp del: scan_from_numeral)
    ultimately show ?thesis using no by (auto simp: block_def child_waiter_def)
  qed
qed

theorem wait_collects_child_witness:
  "\<exists>s'. wait_for_child_exit 1 (-1) (two_procs PROC_EXITED) = Ok (Done 2, s') \<and> cleared (procs s' 2)"
proof -
  let ?s = "two_procs PROC_EXITED"
  have z: "procs ?s 2 = zero_process\<lparr>p_pid := 2, p_state := PROC_EXITED, p_parent_pid := 1\<rparr>" by (simp add: two_procs_def)
  have "scan_from (\<lambda>i. is_child 1 (-1) (procs ?s i) \<and> p_state (procs ?s i) = PROC_EXITED) 0 64 = Some 2"
    by (simp add: two_procs_def zero_process_def is_child_def)
  then have "wait_for_child_exit 1 (-1) ?s = kbind (recycle_process_slot 2 ?s) (\<lambda>s'. Ok (Done 2, s'))"
    by (simp add: wait_for_child_exit_def PROCS_MAX_def z)
  moreover obtain s' where "recycle_process_slot 2 ?s = Ok s'"
    by (simp add: recycle_process_slot_def free_process_memory_def z Let_def zero_process_def)
  ultimately have w: "wait_for_child_exit 1 (-1) ?s = Ok (Done 2, s')" by simp
  have "procs ?s i = procs ?s 2" if "i < 64" "p_state (procs ?s i) = PROC_EXITED" for i
    using that by (auto simp: two_procs_def zero_process_def split: if_splits)
  moreover have "current_proc ?s = Some 1" by (simp add: two_procs_def)
  ultimately have "\<exists>i < 64. p_state (procs ?s i) = PROC_EXITED \<and> cleared (procs s' i)"
    using wait_collects_child [OF _ _ w, of 1] by auto
  then show ?thesis using w by (auto simp: two_procs_def zero_process_def split: if_splits)
qed


section \<open>A process that kills itself\<close>

lemma find_slot:
  assumes "table_ok (procs k)" "c < 64" "0 < c" "p_state (procs k c) \<noteq> PROC_UNUSED"
  shows "find_process_by_pid (int c) k = Some c"
proof -
  have pid: "p_pid (procs k j) = int j" if "j < 64" "p_state (procs k j) \<noteq> PROC_UNUSED" for j
    using table_okD(1) [OF assms(1) that(1)] that(2) by (simp add: slot_ok_def)
  have "scan_from (\<lambda>i. p_pid (procs k i) = int c \<and> p_state (procs k i) \<noteq> PROC_UNUSED) 0 64 = Some c"
  proof (rule scan_from_SomeI)
    fix j assume "0 \<le> j" "j < c"
    then show "\<not> (p_pid (procs k j) = int c \<and> p_state (procs k j) \<noteq> PROC_UNUSED)"
      using pid [of j] assms(2) by (cases "p_state (procs k j) = PROC_UNUSED") auto
  qed (use assms pid in auto)
  then show ?thesis using assms(3) by (simp add: find_process_by_pid_def del: scan_from_numeral)
qed

lemma recycle_page_table:
  assumes "recycle_process_slot i k = Ok k'"
  shows "p_page_table (procs k' i) = 0"
  using assms
  by (auto simp: recycle_process_slot_def free_process_memory_def kbind_Ok_iff Let_def reset_slot_def
      clear_exec_args_def set_process_name_def split: if_splits)

definition recycled :: "process \<Rightarrow> bool" where
  "recycled p \<longleftrightarrow> cleared p \<and> p_page_table p = 0"

lemma reap_loop_other: "reap_loop i n k = Ok k' \<Longrightarrow> c < i \<Longrightarrow> procs k' c = procs k c"
proof (induction i n k rule: reap_loop.induct)
  case (2 i n k)
  show ?case
  proof (cases "p_state (procs k i) = PROC_EXITED \<and> p_parent_pid (procs k i) = 0")
    case True
    then obtain k1 where k1: "recycle_process_slot i k = Ok k1" "reap_loop (Suc i) n k1 = Ok k'"
      using 2(4) by (auto simp: kbind_Ok_iff)
    obtain q where "procs k1 = (procs k)(i := q)" by (rule recycle_result [OF k1(1)])
    then show ?thesis using 2(2) [of k1] True k1(2) 2(5) by simp
  qed (use 2 in \<open>auto split: if_splits\<close>)
qed simp

lemma reap_recycles:
  assumes "reap_loop i n k = Ok k'" "i \<le> c" "c < i + n" "p_state (procs k c) = PROC_EXITED" "p_parent_pid (procs k c) = 0"
  shows "recycled (procs k' c)"
  using assms
proof (induction i n k rule: reap_loop.induct)
  case (2 i n k)
  show ?case
  proof (cases "p_state (procs k i) = PROC_EXITED \<and> p_parent_pid (procs k i) = 0")
    case True
    then obtain k1 where k1: "recycle_process_slot i k = Ok k1" "reap_loop (Suc i) n k1 = Ok k'"
      using 2(4) by (auto simp: kbind_Ok_iff)
    obtain q where q: "procs k1 = (procs k)(i := q)" "cleared q" by (rule recycle_result [OF k1(1)])
    show ?thesis
    proof (cases "c = i")
      case True
      have "procs k' i = procs k1 i" by (rule reap_loop_other [OF k1(2)]) simp
      then show ?thesis using q recycle_page_table [OF k1(1)] True by (simp add: recycled_def)
    next
      case False
      then show ?thesis using 2(2) [of k1] True k1(2) 2(5-8) q(1) by simp
    qed
  next
    case False
    then have "c \<noteq> i" using 2(7,8) by auto
    then show ?thesis using 2(1,3,4-8) False by (auto split: if_splits)
  qed
qed simp

lemma quiet_end:
  assumes "table_ok (procs k)" "c < 64" "0 < c" "alive (procs k c)" "\<forall>j < 64. \<not> child_waiter (procs k j)"
    "\<forall>j < 64. j \<noteq> c \<longrightarrow> \<not> schedulable (procs k j)" "j < 64"
  shows "\<not> schedulable (procs (end_process c k) j)"
proof -
  have pid: "p_pid (procs k c) = int c" using table_okD(1) [OF assms(1,2)] assms(4) by (auto simp: slot_ok_def alive_def)
  have "view (procs (end_process c k) j) = view (exit_table c (procs k) j)"
    using exit_procs(2) [OF assms(2,3) pid assms(7)] by simp
  note v = view_eqD [OF this]
  have "\<not> schedulable (exit_table c (procs k) j)"
    using assms(5-7) by (auto simp: exit_table_def notified_def child_waiter_def schedulable_def)
  then show ?thesis using v by (simp add: schedulable_def)
qed

definition killed :: "nat \<Rightarrow> kstate \<Rightarrow> kstate" where
  "killed c k = upd c (\<lambda>p. p\<lparr>p_parent_pid := 0\<rparr>) (end_process c k)"

lemma self_kill_eq:
  assumes "table_ok (procs k)" "at_slot c k" "schedulable (procs k c)" "init_proc k \<noteq> Some c"
  shows "frame k (killed c k)" and "process_kill (int c) k = kbind (yield (killed c k)) (\<lambda>(t, s). if t = Continue
      then PANIC ''killed process resumed unexpectedly'' else Ok (No_return, s))"
proof -
  have c: "c < 64" "current_proc k = Some c" "p_pid (procs k c) = int c" "0 < c" "alive (procs k c)"
    "p_state (procs k c) = PROC_RUNNABLE"
    using assms(2,3) by (auto simp: at_slot_def schedulable_def alive_def)
  have f: "find_process_by_pid (int c) k = Some c" by (rule find_slot [OF assms(1) c(1,4)]) (simp add: c(6))
  show fr: "frame k (killed c k)" using end_process_result(1) [OF assms(1) c(1,4,5)] by (simp add: killed_def)
  then have cur: "current_proc (killed c k) = Some c" using c(2) by (simp add: frame_def)
  show "process_kill (int c) k = kbind (yield (killed c k)) (\<lambda>(t, s). if t = Continue
      then PANIC ''killed process resumed unexpectedly'' else Ok (No_return, s))"
    using f c(3,4,6) assms(4) cur unfolding killed_def process_kill_def by (simp add: Let_def)
qed

lemma self_kill_idle:
  assumes "table_ok (procs k)" "at_slot c k" "schedulable (procs k c)"
    and "\<forall>j < 64. j \<noteq> c \<longrightarrow> \<not> schedulable (procs k j)" "\<forall>j < 64. \<not> child_waiter (procs k j)"
    and "reap_exited_processes (killed c k) = Ok k2"
  shows "frame (killed c k) k2" "recycled (procs k2 c)" "pick_next k2 = None"
proof -
  have c: "c < 64" "0 < c" "alive (procs k c)" using assms(2,3) by (auto simp: at_slot_def schedulable_def alive_def)
  note e = end_process_result [OF assms(1) c]
  have rp: "frame (killed c k) k2" "kept (killed c k) k2"
    using reap_result [OF assms(6)] disown_result(1) [OF e(2) c(1) e(4)] by (auto simp: killed_def)
  then show "frame (killed c k) k2" by blast
  show "recycled (procs k2 c)"
    by (rule reap_recycles [OF assms(6) [unfolded reap_exited_processes_def]]) (use c(1) e(4) in \<open>auto simp: killed_def\<close>)
  have "\<not> schedulable (procs k2 j)" if j: "j < 64" for j
  proof -
    have "\<not> schedulable (procs (killed c k) j)"
      using quiet_end [OF assms(1) c assms(5,4) j] by (auto simp: schedulable_def killed_def)
    moreover have "procs k2 j = procs (killed c k) j \<or> cleared (procs k2 j)" using rp(2) by (auto simp: kept_def)
    ultimately show ?thesis by (auto simp: schedulable_def cleared_def)
  qed
  then show "pick_next k2 = None"
    using scan_slot_lt [of k2] by (auto simp: pick_next_def scan_from_None simp del: scan_from_numeral)
qed


lemma reap_no_memory:
  assumes "\<And>j. p_page_table (procs k j) = 0"
  shows "\<exists>k'. reap_loop i n k = Ok k'"
  using assms
proof (induction i n k rule: reap_loop.induct)
  case (2 i n k)
  have "\<exists>k1. recycle_process_slot i k = Ok k1"
    using 2(4) by (simp add: recycle_process_slot_def free_process_memory_def Let_def)
  then obtain k1 where k1: "recycle_process_slot i k = Ok k1" by blast
  obtain q where "procs k1 = (procs k)(i := q)" by (rule recycle_result [OF k1])
  then have "p_page_table (procs k1 j) = 0" for j using 2(4) recycle_page_table [OF k1] by simp
  then show ?case using 2 k1 by simp
qed simp



section \<open>Trap entry\<close>

lemma stack_base_unat:
  assumes "unat base + 64 * 8668 < 2 ^ 32" "j < 64" "d \<le> 8192"
  shows "unat (stack_base base j + of_nat d) = unat base + j * 8668 + 476 + d"
proof -
  have "unat base + j * 8668 + 476 + d < 2 ^ 32" using assms by simp
  then have "take_bit 32 (unat base + j * 8668 + 476 + d) = unat base + j * 8668 + 476 + d"
    by (simp only: take_bit_nat_eq_self_iff)
  then have "unat (of_nat (unat base + j * 8668 + 476 + d) :: u32) = unat base + j * 8668 + 476 + d"
    by (simp only: unsigned_of_nat) simp
  then show ?thesis by (simp add: stack_base_def)
qed



end
