(* ===== verification/SpaceProps.thy ===== *)
theory SpaceProps
  imports SpaceBudget SchedProps
begin

text \<open>
  What the process operations guarantee about address spaces: a created process sees exactly its image and the
  supervisor mappings, freeing a process gives back exactly what creating it took, and a forked child gets a copy of
  every user page of its parent in frames of its own.
\<close>

section \<open>Bytes of the image\<close>

lemma same_page:
  assumes "j < 4096" "unat (v :: u32) mod 4096 = 0"
  shows "vpn1 (v + of_nat j) = vpn1 v" "vpn0 (v + of_nat j) = vpn0 v"
proof -
  have lt: "unat v + j < 4294967296" using aligned_add_lt [of "unat v" 4096 4294967296 j] assms unat_lt [of v] by simp
  have "unat (v + of_nat j) = unat v + j"
    using lt assms(1) by (simp add: unat_word_ariths unsigned_of_nat take_bit_nat_eq_self)
  moreover have "(unat v + j) div 4096 = unat v div 4096"
  proof -
    obtain q where "unat v = 4096 * q" using assms(2) by auto
    then show ?thesis using assms(1) by simp
  qed
  moreover have "unat (drop_bit 12 w) = unat w div 4096" for w :: u32
    unfolding drop_bit_eq_div by (simp add: unat_div_numeral)
  ultimately have "unat (drop_bit 12 (v + of_nat j)) = unat (drop_bit 12 v)" by simp
  then have d: "drop_bit 12 (v + of_nat j) = drop_bit 12 v" by (simp add: word_unat_eq_iff)
  moreover have "drop_bit 22 (v + of_nat j) = drop_bit 22 v" using arg_cong [OF d, of "drop_bit 10"] by simp
  ultimately show "vpn1 (v + of_nat j) = vpn1 v" "vpn0 (v + of_nat j) = vpn0 v" unfolding vpn1_def vpn0_def by simp_all
qed

lemma walk_same_page:
  "j < 4096 \<Longrightarrow> unat v mod 4096 = 0 \<Longrightarrow> sv32_walk r t (v + of_nat j) = sv32_walk r t v"
  by (simp only: sv32_walk_def same_page)

lemma pages_of_nth:
  assumes "k < length img"
  shows "k div 4096 < length (pages_of img)" "k mod 4096 < length (pages_of img ! (k div 4096))"
    "pages_of img ! (k div 4096) ! (k mod 4096) = img ! k"
proof -
  have "k div 4096 < length (pages_of img) \<and> k mod 4096 < length (pages_of img ! (k div 4096)) \<and>
    pages_of img ! (k div 4096) ! (k mod 4096) = img ! k"
    using assms
  proof (induction img arbitrary: k rule: pages_of.induct)
    case (1 img)
    then have pg: "pages_of img = take 4096 img # pages_of (drop 4096 img)" by (subst pages_of.simps) auto
    show ?case
    proof (cases "k < 4096")
      case True
      then show ?thesis using 1(2) by (simp add: pg)
    next
      case False
      have ne: "img \<noteq> []" using 1(2) by auto
      have d: "k div 4096 = Suc ((k - 4096) div 4096)" "k mod 4096 = (k - 4096) mod 4096"
        using False by (simp_all add: le_div_geq le_mod_geq)
      have "k - 4096 < length (drop 4096 img)" using 1(2) False by simp
      from 1(1) [OF ne this] show ?thesis using False 1(2) by (simp add: pg d)
    qed
  qed
  then show "k div 4096 < length (pages_of img)" "k mod 4096 < length (pages_of img ! (k div 4096))"
    "pages_of img ! (k div 4096) ! (k mod 4096) = img ! k" by auto
qed

lemma image_bytes:
  assumes "maps_pages m t USER_BASE fs (replicate (length fs) USER_FLAGS)" "pages_hold m fs (pages_of img)"
    "length (pages_of img) \<le> 0xff000" "k < length img"
  shows "sv32_walk (ram m) t (USER_BASE + of_nat k) = Some (fs ! (k div 4096), USER_FLAGS)"
    "ram m (fs ! (k div 4096) + of_nat (k mod 4096)) = img ! k"
proof -
  let ?i = "k div 4096"
  note n = pages_of_nth [OF assms(4)]
  have len: "length fs = length (pages_of img)" using assms(2) by (simp add: pages_hold_def)
  have i: "?i < length fs" "?i < 0xff000" using n(1) len assms(3) by auto
  have w: "sv32_walk (ram m) t (user_va ?i) = Some (fs ! ?i, USER_FLAGS)"
    using assms(1) i by (simp add: maps_pages_def user_va_def)
  have "k = ?i * 4096 + k mod 4096" by simp
  then have "(of_nat k :: u32) = of_nat ?i * 4096 + of_nat (k mod 4096)" by (metis of_nat_add of_nat_mult of_nat_numeral)
  then have k: "USER_BASE + of_nat k = user_va ?i + of_nat (k mod 4096)" by (simp add: user_va_def)
  show "sv32_walk (ram m) t (USER_BASE + of_nat k) = Some (fs ! ?i, USER_FLAGS)"
    unfolding k using walk_same_page [of "k mod 4096" "user_va ?i"] unat_user_va [OF i(2)] w by simp
  show "ram m (fs ! ?i + of_nat (k mod 4096)) = img ! k"
    using assms(2) i(1) n(2,3) by (simp add: pages_hold_def)
qed

lemma unat_image_pages:
  assumes "length (pages_of img) \<le> 0xff000"
  shows "unat (image_pages img) = length (pages_of img)"
proof -
  have l: "length img + 4095 < 2 ^ 32" using assms unfolding length_pages_of by simp
  have "of_nat (length img) + 4096 - 1 = (of_nat (length img + 4095) :: u32)" by simp
  then have "image_pages img = of_nat (length img + 4095) div 4096" unfolding image_pages_def by (simp only:)
  then have "unat (image_pages img) = unat (of_nat (length img + 4095) :: u32) div 4096"
    by (simp only: unat_div_numeral) simp
  then show ?thesis unfolding length_pages_of by (simp only: unat_of_nat32 [OF l])
qed


section \<open>Creating and freeing\<close>

lemma create_process_space:
  assumes "reap_exited_processes s = Ok s1" "mem_wf (kmem s1)" "create_process img name s = Ok (Some i, s')"
    "length (pages_of img) \<le> 0xff000"
  obtains t fs where "p_page_table (procs s' i) = t" "p_user_pages (procs s' i) = image_pages img"
    "mem_wf (kmem s')" "pt_wf (kmem s') t" "length fs = length (pages_of img)" "distinct fs"
    "set fs \<inter> tables (kmem s') t = {}" "set fs \<inter> used_frames (kmem s1) = {}" "tables (kmem s') t \<inter> used_frames (kmem s1) = {}"
    "used_frames (kmem s') = used_frames (kmem s1) \<union> set fs \<union> tables (kmem s') t"
    "maps_pages (kmem s') t USER_BASE fs (replicate (length fs) USER_FLAGS)" "pages_hold (kmem s') fs (pages_of img)"
    "\<And>v. v mod 4096 = 0 \<Longrightarrow> v \<notin> user_va ` {..< length fs} \<Longrightarrow>
       sv32_walk (ram (kmem s')) t v = kernel_map (kernel_base s1) (free_ram_end s1) v"
    "\<And>g. unat g mod 4096 = 0 \<Longrightarrow> g \<notin> set fs \<Longrightarrow> g \<notin> tables (kmem s') t \<Longrightarrow>
       frame_eq (ram (kmem s1)) (ram (kmem s')) g"
proof -
  obtain t m1 m2 m3 root where a: "alloc_pages 1 (kmem s1) = Ok (t, m1)"
    and k: "map_kernel t (kernel_base s1) (free_ram_end s1) m1 = Ok m2" and l: "load_image t USER_BASE img m2 = Ok m3"
    and s': "s' = sync i (upd i (new_process i name (image_pages img) t root) (s1\<lparr>kmem := m3\<rparr>))"
    using assms(1,3) by (auto simp: create_process_def kbind_Ok_iff Let_def split: option.splits)
  have p: "kmem s' = m3" "p_page_table (procs s' i) = t" "p_user_pages (procs s' i) = image_pages img"
    by (simp_all add: s' new_process_def clear_exec_args_def set_process_name_def)
  show thesis
    by (rule new_space_result [OF assms(2) a k l assms(4)]) (rule that [unfolded p(1)], (rule p(2,3) | assumption | blast)+)
qed

text \<open>Creating succeeds when there is a free slot and enough memory.\<close>

lemma create_process_returns:
  assumes "reap_exited_processes s = Ok s1" "mem_wf (kmem s1)" "kernel_base s1 mod 4096 = 0" "vfs_wf (kfs s1)"
    "unused_slot s1 = Some i" "room (n + 1025 + length (pages_of img)) (kmem s1)"
  shows "\<exists>s'. create_process img name s = Ok (Some i, s') \<and> room n (kmem s')"
proof -
  obtain t m1 m2 m' where m: "alloc_pages 1 (kmem s1) = Ok (t, m1)"
    "map_kernel t (kernel_base s1) (free_ram_end s1) m1 = Ok m2" "load_image t USER_BASE img m2 = Ok m'" "room n m'"
    by (rule new_space_returns [OF assms(2,3,6)])
  then show ?thesis using assms(1,5) root_entry [OF assms(4)] by (simp add: create_process_def Let_def)
qed

lemma create_process_image:
  assumes "reap_exited_processes s = Ok s1" "mem_wf (kmem s1)" "create_process img name s = Ok (Some i, s')"
    "length (pages_of img) \<le> 0xff000"
  shows "(\<forall>k < length img. \<exists>f. sv32_walk (ram (kmem s')) (p_page_table (procs s' i)) (USER_BASE + of_nat k) = Some (f, USER_FLAGS) \<and>
       f \<notin> used_frames (kmem s1) \<and> ram (kmem s') (f + of_nat (k mod 4096)) = img ! k) \<and>
    (\<forall>v f flags. v mod 4096 = 0 \<longrightarrow> v \<notin> user_va ` {..< length (pages_of img)} \<longrightarrow>
       sv32_walk (ram (kmem s')) (p_page_table (procs s' i)) v = Some (f, flags) \<longrightarrow> f = v \<and> flags AND PAGE_U = 0) \<and>
    (\<forall>g \<in> used_frames (kmem s1). frame_eq (ram (kmem s1)) (ram (kmem s')) g)"
proof (rule create_process_space [OF assms])
  fix t fs
  assume t: "p_page_table (procs s' i) = t" and len: "length fs = length (pages_of img)"
    and d: "set fs \<inter> used_frames (kmem s1) = {}" "tables (kmem s') t \<inter> used_frames (kmem s1) = {}"
    and mp: "maps_pages (kmem s') t USER_BASE fs (replicate (length fs) USER_FLAGS)" "pages_hold (kmem s') fs (pages_of img)"
    and w: "\<And>v. v mod 4096 = 0 \<Longrightarrow> v \<notin> user_va ` {..< length fs} \<Longrightarrow>
       sv32_walk (ram (kmem s')) t v = kernel_map (kernel_base s1) (free_ram_end s1) v"
    and g: "\<And>g. unat g mod 4096 = 0 \<Longrightarrow> g \<notin> set fs \<Longrightarrow> g \<notin> tables (kmem s') t \<Longrightarrow>
       frame_eq (ram (kmem s1)) (ram (kmem s')) g"
  have "\<exists>f. sv32_walk (ram (kmem s')) t (USER_BASE + of_nat k) = Some (f, USER_FLAGS) \<and>
       f \<notin> used_frames (kmem s1) \<and> ram (kmem s') (f + of_nat (k mod 4096)) = img ! k" if k: "k < length img" for k
    using image_bytes [OF mp assms(4) k] pages_of_nth(1) [OF k] d(1) len by (metis disjoint_iff nth_mem)
  moreover have "f = v \<and> flags AND PAGE_U = 0"
    if "v mod 4096 = 0" "v \<notin> user_va ` {..< length (pages_of img)}" "sv32_walk (ram (kmem s')) t v = Some (f, flags)" for v f flags
  proof -
    have "kernel_map (kernel_base s1) (free_ram_end s1) v = Some (f, flags)"
      using w [OF that(1)] that(2,3) by (simp add: len)
    then show ?thesis using kernel_map_not_user by blast
  qed
  moreover have "frame_eq (ram (kmem s1)) (ram (kmem s')) h" if "h \<in> used_frames (kmem s1)" for h
    by (rule g [OF used_frame_aligned [OF assms(2) that]]) (use d that in auto)
  ultimately show ?thesis unfolding t by blast
qed

text \<open>C9: A new process sees exactly its program: every byte of the image is at its place from \<open>USER_BASE\<close> on, in frames
  that were free before and that user mode can access; every other page is a supervisor mapping of the kernel or is not
  mapped; and no frame that was in use has changed.\<close>

theorem create_process_maps_image:
  assumes "reap_exited_processes s = Ok s1" "mem_wf (kmem s1)" "create_process img name s = Ok (Some i, s')"
    "length (pages_of img) \<le> 0xff000"
  shows "(\<forall>k < length img. \<exists>f. sv32_walk (ram (kmem s')) (p_page_table (procs s' i)) (USER_BASE + of_nat k) = Some (f, USER_FLAGS) \<and>
       f \<notin> used_frames (kmem s1) \<and> ram (kmem s') (f + of_nat (k mod 4096)) = img ! k) \<and>
    (\<forall>v f flags. v mod 4096 = 0 \<longrightarrow> v \<notin> user_va ` {..< length (pages_of img)} \<longrightarrow>
       sv32_walk (ram (kmem s')) (p_page_table (procs s' i)) v = Some (f, flags) \<longrightarrow> f = v \<and> flags AND PAGE_U = 0) \<and>
    (\<forall>g \<in> used_frames (kmem s1). frame_eq (ram (kmem s1)) (ram (kmem s')) g)"
  by (rule create_process_image [OF assms])

text \<open>A small program in the address space of a booted kernel.\<close>

definition demo_kernel :: "fs_state \<Rightarrow> kstate" where
  "demo_kernel fs = (two_procs PROC_UNUSED)\<lparr>kfs := fs\<rparr>"

lemma demo_kernel_ok:
  "mem_wf (kmem (demo_kernel fs))" "reap_exited_processes (demo_kernel fs) = Ok (demo_kernel fs)"
  "kernel_base (demo_kernel fs) mod 4096 = 0" "unused_slot (demo_kernel fs) = Some 0" "kfs (demo_kernel fs) = fs"
  "used_frames (kmem (demo_kernel fs)) = {}" "n \<le> 0x3fff \<Longrightarrow> room n (kmem (demo_kernel fs))"
proof -
  have p: "procs (demo_kernel fs) j = procs (two_procs PROC_UNUSED) j" for j by (simp add: demo_kernel_def)
  show "mem_wf (kmem (demo_kernel fs))" by (simp add: demo_kernel_def two_procs_def mem_wf_def)
  show "reap_exited_processes (demo_kernel fs) = Ok (demo_kernel fs)"
    by (rule reap_none) (auto simp: p two_procs_def zero_process_def split: if_splits)
  show "kernel_base (demo_kernel fs) mod 4096 = 0" by (simp add: demo_kernel_def two_procs_def)
  show "unused_slot (demo_kernel fs) = Some 0" by (simp add: unused_slot_def p two_procs_def zero_process_def PROCS_MAX_def)
  show "kfs (demo_kernel fs) = fs" by (simp add: demo_kernel_def)
  have u: "used_pages (kmem (demo_kernel fs)) = {}" by (simp add: used_pages_def bitmap_test_def demo_kernel_def two_procs_def)
  then show uf: "used_frames (kmem (demo_kernel fs)) = {}" by (simp add: used_frames_def)
  show "room n (kmem (demo_kernel fs))" if "n \<le> 0x3fff"
    using that by (simp add: room_def uf) (simp add: demo_kernel_def two_procs_def)
qed

lemma demo_create:
  assumes "vfs_wf fs"
  obtains s' where "create_process [7, 8, 9] ''demo'' (demo_kernel fs) = Ok (Some 0, s')" "room 2000 (kmem s')"
proof -
  have pg: "length (pages_of [7, 8, 9]) = 1" by (simp add: length_pages_of)
  have "room (2000 + 1025 + length (pages_of [7, 8, 9])) (kmem (demo_kernel fs))"
    by (rule demo_kernel_ok(7)) (use pg in simp)
  from create_process_returns [OF demo_kernel_ok(2,1,3) _ demo_kernel_ok(4) this] that assms show thesis
    by (auto simp: demo_kernel_ok(5))
qed

theorem create_process_maps_image_witness:
  "\<exists>fs s' f. fs_init power_on = Ok fs \<and> create_process [7, 8, 9] ''demo'' (demo_kernel fs) = Ok (Some 0, s') \<and>
     sv32_walk (ram (kmem s')) (p_page_table (procs s' 0)) (USER_BASE + 2) = Some (f, USER_FLAGS) \<and> ram (kmem s') (f + 2) = 9"
proof -
  obtain fs where fs: "fs_init power_on = Ok fs" "vfs_wf fs" by (rule power_on_boots)
  obtain s' where s': "create_process [7, 8, 9] ''demo'' (demo_kernel fs) = Ok (Some 0, s')" by (rule demo_create [OF fs(2)])
  have pg: "length (pages_of [7, 8, 9]) \<le> 0xff000" by (simp add: length_pages_of)
  have "(2 :: nat) < length [7, 8, 9 :: u8]" by simp
  with create_process_maps_image [OF demo_kernel_ok(2,1) s' pg] obtain f where
    "sv32_walk (ram (kmem s')) (p_page_table (procs s' 0)) (USER_BASE + of_nat 2) = Some (f, USER_FLAGS)"
    "ram (kmem s') (f + of_nat (2 mod 4096)) = [7, 8, 9] ! 2" by blast
  then show ?thesis using fs(1) s' by auto
qed

text \<open>C10: Freeing the memory of a process gives back exactly the frames that creating it took: it does not panic, and the
  set of frames in use is the one from before.\<close>

theorem create_free_roundtrip:
  assumes "reap_exited_processes s = Ok s1" "mem_wf (kmem s1)" "create_process img name s = Ok (Some i, s')"
    "length (pages_of img) \<le> 0xff000"
  shows "\<exists>s''. free_process_memory i s' = Ok s'' \<and> used_frames (kmem s'') = used_frames (kmem s1) \<and> mem_wf (kmem s'') \<and>
    p_page_table (procs s'' i) = 0"
proof (rule create_process_space [OF assms])
  fix t fs
  assume t: "p_page_table (procs s' i) = t" "p_user_pages (procs s' i) = image_pages img"
    and wf: "mem_wf (kmem s')" "pt_wf (kmem s') t" and len: "length fs = length (pages_of img)" "distinct fs"
    and d: "set fs \<inter> tables (kmem s') t = {}" "set fs \<inter> used_frames (kmem s1) = {}"
      "tables (kmem s') t \<inter> used_frames (kmem s1) = {}"
      "used_frames (kmem s') = used_frames (kmem s1) \<union> set fs \<union> tables (kmem s') t"
    and mp: "maps_pages (kmem s') t USER_BASE fs (replicate (length fs) USER_FLAGS)"
  have "user_frames (kmem s') t 0 fs"
    using mp len(2) d(1,4) by (auto simp: user_frames_def maps_pages_def user_va_def)
  from free_space_result [OF wf this, of "image_pages img"] unat_image_pages [OF assms(4)] assms(4) len(1)
  obtain m where m: "free_space t (image_pages img) (kmem s') = Ok m" "mem_wf m"
    "used_frames m = used_frames (kmem s') - set fs - tables (kmem s') t" by auto
  have "t \<noteq> 0" by (rule used_frame_nonzero [OF wf(1)]) (use wf(2) in \<open>simp add: pt_wf_def\<close>)
  moreover have "used_frames m = used_frames (kmem s1)" using m(3) d by blast
  ultimately show ?thesis using m(1,2) by (simp add: free_process_memory_def t Let_def)
qed


theorem create_free_roundtrip_witness:
  "\<exists>fs s' s''. fs_init power_on = Ok fs \<and> create_process [7, 8, 9] ''demo'' (demo_kernel fs) = Ok (Some 0, s') \<and>
     free_process_memory 0 s' = Ok s'' \<and> used_frames (kmem s'') = {}"
proof -
  obtain fs where fs: "fs_init power_on = Ok fs" "vfs_wf fs" by (rule power_on_boots)
  obtain s' where s': "create_process [7, 8, 9] ''demo'' (demo_kernel fs) = Ok (Some 0, s')" by (rule demo_create [OF fs(2)])
  have pg: "length (pages_of [7, 8, 9]) \<le> 0xff000" by (simp add: length_pages_of)
  from create_free_roundtrip [OF demo_kernel_ok(2,1) s' pg] show ?thesis using fs(1) s' by (auto simp: demo_kernel_ok(6))
qed

section \<open>Forking\<close>

text \<open>What user programs see of a space: the frames of the pages, with their flags.\<close>

definition owns_space :: "mem_state \<Rightarrow> u32 \<Rightarrow> u32 list \<Rightarrow> u32 list \<Rightarrow> bool" where
  "owns_space m t fs fls \<longleftrightarrow> maps_pages m t USER_BASE fs fls \<and> tables m t \<union> set fs \<subseteq> used_frames m"

lemma fork_finish_space:
  assumes "fork_finish cur child tf s = Ok (r, s')" "0 \<le> r"
  shows "kmem s' = kmem s" "p_page_table (procs s' j) = p_page_table (procs s j)"
  using assms by (auto simp: fork_finish_def fork_fail_def Let_def case_prod_beta kbind_Ok_iff split: if_splits)

text \<open>The second half of \<open>fork_memory\<close>, from the copy of the pages on.\<close>

definition fork_child_space :: "nat \<Rightarrow> u32 \<Rightarrow> u32 \<Rightarrow> mem_state \<Rightarrow> kstate \<Rightarrow> kstate" where
  "fork_child_space child t n m s = (upd child (\<lambda>p. p\<lparr>p_page_table := t, p_user_pages := n\<rparr>) s)\<lparr>kmem := m\<rparr>"

definition fork_copy :: "nat \<Rightarrow> nat \<Rightarrow> trap_frame \<Rightarrow> u32 \<Rightarrow> kstate \<Rightarrow> mem_state \<Rightarrow> (int \<times> kstate) kres" where
  "fork_copy cur child tf t s m2 =
     kbind (copy_pages (p_page_table (procs s cur)) t 0 (unat (p_user_pages (procs s cur))) m2) (\<lambda>(ok, m3).
       if \<not> ok then fork_fail child (fork_child_space child t (p_user_pages (procs s cur)) m3 s)
       else fork_finish cur child tf (fork_child_space child t (p_user_pages (procs s cur)) m3 s))"

lemma fork_memory_copy:
  assumes "cur \<noteq> child"
  shows "fork_memory cur child tf s = kbind (alloc_pages 1 (kmem s)) (\<lambda>(t, m1).
     if t = 0 then fork_fail child (s\<lparr>kmem := m1\<rparr>)
     else kbind (map_kernel t (kernel_base s) (free_ram_end s) m1) (fork_copy cur child tf t s))"
proof -
  have "(upd child g (s\<lparr>kmem := m\<rparr>))\<lparr>kmem := m'\<rparr> = (upd child g s)\<lparr>kmem := m'\<rparr>" for g m m' by (simp add: upd_def)
  then show ?thesis
    using assms by (simp add: fork_memory_def fork_copy_def [abs_def] fork_child_space_def Let_def cong: if_cong)
qed

lemma table_other_space:
  assumes wf: "mem_wf m" and a: "alloc_pages 1 m = Ok (t, m1)" and mp: "maps_pages m pt va fs fls"
    and sub: "tables m pt \<union> set fs \<subseteq> used_frames m"
  shows "maps_pages m1 pt va fs fls" "tables m1 pt \<union> set fs \<subseteq> used_frames m1 - tables m1 t"
    "\<And>g. g \<in> set fs \<Longrightarrow> ram_read (ram m1) g 4096 = ram_read (ram m) g 4096"
proof -
  note t = alloc_table [OF wf a]
  have e: "frame_eq (ram m) (ram m1) g" if "g \<in> tables m pt \<union> set fs" for g
  proof -
    have "g \<in> used_frames m" using that sub by auto
    then show ?thesis using t(5) by (intro t(8) used_frame_aligned [OF wf]) auto
  qed
  have st: "tables m1 pt = tables m pt" by (rule same_tables(1)) (use e in auto)
  show "maps_pages m1 pt va fs fls" using mp same_tables(2) [of m pt m1] e by (auto simp: maps_pages_def)
  show "tables m1 pt \<union> set fs \<subseteq> used_frames m1 - tables m1 t" using sub st t(4,5,6) by auto
  show "ram_read (ram m1) g 4096 = ram_read (ram m) g 4096" if "g \<in> set fs" for g
    by (rule ram_read_eq [OF e]) (use that in simp)
qed

text \<open>C11: A successful fork gives the child a copy of every user page of the parent, with the same flags and contents, in
  frames that were free before; the pages of the parent are still mapped to the same frames with the same contents.\<close>

theorem fork_copies_space:
  assumes "fork_memory cur child tf s = Ok (r, s')" "0 \<le> r" "cur \<noteq> child" "mem_wf (kmem s)"
    "owns_space (kmem s) (p_page_table (procs s cur)) fs fls" "length fs \<le> 0xff000"
    "unat (p_user_pages (procs s cur)) = length fs"
  shows "\<exists>cs. length cs = length fs \<and> distinct cs \<and> set cs \<inter> used_frames (kmem s) = {} \<and>
    maps_pages (kmem s') (p_page_table (procs s' child)) USER_BASE cs fls \<and>
    maps_pages (kmem s') (p_page_table (procs s' cur)) USER_BASE fs fls \<and>
    (\<forall>j < length fs. ram_read (ram (kmem s')) (cs ! j) 4096 = ram_read (ram (kmem s)) (fs ! j) 4096 \<and>
       ram_read (ram (kmem s')) (fs ! j) 4096 = ram_read (ram (kmem s)) (fs ! j) 4096)"
proof -
  let ?pt = "p_page_table (procs s cur)"
  obtain t m1 where a: "alloc_pages 1 (kmem s) = Ok (t, m1)" and F1: "(if t = 0 then fork_fail child (s\<lparr>kmem := m1\<rparr>)
      else kbind (map_kernel t (kernel_base s) (free_ram_end s) m1) (fork_copy cur child tf t s)) = Ok (r, s')"
    using assms(1) unfolding fork_memory_copy [OF assms(3)] kbind_Ok_iff by auto
  note t = alloc_table [OF assms(4) a]
  have "t \<noteq> 0" by (rule used_frame_nonzero [OF t(1)]) (simp add: t(6))
  then obtain m2 where k: "map_kernel t (kernel_base s) (free_ram_end s) m1 = Ok m2" and F2: "fork_copy cur child tf t s m2 = Ok (r, s')"
    using F1 by (simp only: if_False kbind_Ok_iff) blast
  obtain ok m3 where c: "copy_pages ?pt t 0 (length fs) m2 = Ok (ok, m3)" and
    f: "(if \<not> ok then fork_fail child (fork_child_space child t (p_user_pages (procs s cur)) m3 s)
       else fork_finish cur child tf (fork_child_space child t (p_user_pages (procs s cur)) m3 s)) = Ok (r, s')"
    using F2 unfolding fork_copy_def kbind_Ok_iff assms(7) split_paired_Ex prod.case by blast
  have mp: "maps_pages (kmem s) ?pt (user_va 0) fs fls" and sub: "tables (kmem s) ?pt \<union> set fs \<subseteq> used_frames (kmem s)"
    using assms(5) by (auto simp: owns_space_def user_va_def)
  note km = map_kernel_result [OF k t(1,2,7)]
  note st = table_other_space [OF assms(4) a mp sub]
  note o = other_space_kept [OF km(1) t(1) st(1,2)]
  from copy_pages_result [OF c extendsD(1,2) [OF km(1)] o(1,2)] assms(6) obtain cs where ok and len: "length cs = length fs"
    and ad: "adds_pages t (user_va 0) m2 m3 cs fls (map (\<lambda>f. ram_read (ram m2) f 4096) fs)" by auto
  have d: "extends t m2 m3" "distinct cs" "set cs \<subseteq> fresh m2 m3" "maps_pages m3 t (user_va 0) cs fls"
    "pages_hold m3 cs (map (\<lambda>f. ram_read (ram m2) f 4096) fs)" using ad by (auto simp: adds_pages_def)
  note o' = other_space_kept [OF d(1) extendsD(1) [OF km(1)] o(1,2)]
  have fin: "kmem s' = m3" "p_page_table (procs s' child) = t" "p_page_table (procs s' cur) = ?pt"
    using fork_finish_space [OF _ assms(2), of cur child tf] f \<open>ok\<close> assms(3) by (auto simp: fork_child_space_def)
  have "ram_read (ram m3) (cs ! j) 4096 = ram_read (ram m2) (fs ! j) 4096" if j: "j < length fs" for j
    by (rule nth_equalityI) (use d(5) j len in \<open>auto simp: ram_read_def pages_hold_def\<close>)
  moreover have "ram_read (ram m2) (fs ! j) 4096 = ram_read (ram (kmem s)) (fs ! j) 4096" if "j < length fs" for j
    using o(3) st(3) nth_mem [OF that] by simp
  moreover have "ram_read (ram m3) (fs ! j) 4096 = ram_read (ram m2) (fs ! j) 4096" if "j < length fs" for j
    by (rule o'(3) [OF nth_mem [OF that]])
  moreover have "set cs \<inter> used_frames (kmem s) = {}"
    using d(3) extendsD(3) [OF km(1)] t(6) by (auto simp: fresh_def)
  moreover have "user_va 0 = USER_BASE" by (simp add: user_va_def)
  ultimately show ?thesis using len d(2,4) o'(1) by (intro exI [of _ cs]) (simp add: fin)
qed


text \<open>Forking succeeds when there is enough memory.\<close>

lemma fork_memory_returns:
  assumes "mem_wf (kmem s)" "kernel_base s mod 4096 = 0" "owns_space (kmem s) (p_page_table (procs s cur)) fs fls"
    "unat (p_user_pages (procs s cur)) = length fs" "cur \<noteq> child"
    "\<not> bad_pid (p_pid (procs s cur))" "\<not> bad_pid (p_pid (procs s child))" "room (1025 + length fs) (kmem s)"
  shows "\<exists>s'. fork_memory cur child tf s = Ok (p_pid (procs s child), s')"
proof -
  let ?pt = "p_page_table (procs s cur)"
  obtain t m1 m2 where m2: "alloc_pages 1 (kmem s) = Ok (t, m1)" "map_kernel t (kernel_base s) (free_ram_end s) m1 = Ok m2"
    "room (0 + length fs + card (page_entries (user_va 0) (length fs) - valid_entries m2 t)) m2"
  proof -
    have "room (0 + 1025 + length fs) (kmem s)" using assms(8) by simp
    from new_tables_return [OF assms(1,2) this, of "free_ram_end s" "user_va 0"] that show thesis by blast
  qed
  have mp: "maps_pages (kmem s) ?pt (user_va 0) fs fls" and sub: "tables (kmem s) ?pt \<union> set fs \<subseteq> used_frames (kmem s)"
    using assms(3) by (auto simp: owns_space_def user_va_def)
  note t = alloc_table [OF assms(1) m2(1)]
  note km = map_kernel_result [OF m2(2) t(1,2,7)]
  note a = table_other_space [OF assms(1) m2(1) mp sub]
  note o = other_space_kept [OF km(1) t(1) a(1,2)]
  from copy_pages_returns [OF extendsD(1,2) [OF km(1)] o(1,2) m2(3)] obtain m3 where
    c: "copy_pages ?pt t 0 (length fs) m2 = Ok (True, m3)" by blast
  have "t \<noteq> 0" by (rule used_frame_nonzero [OF t(1)]) (simp add: t(6))
  moreover have "\<exists>s'. fork_finish cur child tf (fork_child_space child t (p_user_pages (procs s cur)) m3 s) = Ok (p_pid (procs s child), s')"
    using assms(5,6,7) by (simp add: fork_finish_def fork_child_space_def fs_fork_copy_fds_def Let_def)
  ultimately show ?thesis using m2(1,2) c assms(4) by (simp add: fork_memory_copy [OF assms(5)] fork_copy_def)
qed

theorem fork_copies_space_witness:
  "\<exists>fs s' r s'' f. fs_init power_on = Ok fs \<and> create_process [7, 8, 9] ''demo'' (demo_kernel fs) = Ok (Some 0, s') \<and>
     fork_memory 0 2 zero_frame s' = Ok (2, s'') \<and>
     sv32_walk (ram (kmem s'')) (p_page_table (procs s'' 2)) USER_BASE = Some (f, USER_FLAGS) \<and> ram (kmem s'') (f + 2) = 9"
proof -
  obtain fs where fs: "fs_init power_on = Ok fs" "vfs_wf fs" by (rule power_on_boots)
  obtain s' where s': "create_process [7, 8, 9] ''demo'' (demo_kernel fs) = Ok (Some 0, s')" "room 2000 (kmem s')"
    by (rule demo_create [OF fs(2)])
  have pg: "length (pages_of [7, 8, 9]) = 1" by (simp add: length_pages_of)
  obtain t gs where t: "p_page_table (procs s' 0) = t" "p_user_pages (procs s' 0) = image_pages [7, 8, 9]" "mem_wf (kmem s')"
    "length gs = 1" "used_frames (kmem s') = used_frames (kmem (demo_kernel fs)) \<union> set gs \<union> tables (kmem s') t"
    "maps_pages (kmem s') t USER_BASE gs (replicate (length gs) USER_FLAGS)" "pages_hold (kmem s') gs (pages_of [7, 8, 9])"
    by (rule create_process_space [OF demo_kernel_ok(2,1) s'(1)]) (use pg in auto)
  have own: "owns_space (kmem s') (p_page_table (procs s' 0)) gs (replicate (length gs) USER_FLAGS)"
    using t(1,5,6) by (auto simp: owns_space_def)
  have up: "unat (p_user_pages (procs s' 0)) = length gs" using t(2,4) unat_image_pages [of "[7, 8, 9]"] pg by simp
  obtain m root where "s' = sync 0 (upd 0 (new_process 0 ''demo'' (image_pages [7, 8, 9]) t root) ((demo_kernel fs)\<lparr>kmem := m\<rparr>))"
    using s'(1) t(1) demo_kernel_ok(2) by (auto simp: create_process_def kbind_Ok_iff Let_def new_process_def clear_exec_args_def set_process_name_def split: option.splits)
  then have pid: "p_pid (procs s' 0) = 0" "p_pid (procs s' 2) = 2" "kernel_base s' mod 4096 = 0"
    by (simp_all add: demo_kernel_def two_procs_def new_process_def clear_exec_args_def set_process_name_def)
  obtain s'' where s'': "fork_memory 0 2 zero_frame s' = Ok (p_pid (procs s' 2), s'')"
    using fork_memory_returns [OF t(3) pid(3) own up, of 2 zero_frame] room_mono [OF s'(2)] pid t(4)
    by (auto simp: bad_pid_def PROCS_MAX_def)
  from fork_copies_space [OF s'' _ _ t(3) own _ up] pid t(4) obtain cs where cs: "length cs = 1"
    "maps_pages (kmem s'') (p_page_table (procs s'' 2)) USER_BASE cs [USER_FLAGS]"
    "ram_read (ram (kmem s'')) (cs ! 0) 4096 = ram_read (ram (kmem s')) (gs ! 0) 4096" by auto
  have "ram (kmem s'') (cs ! 0 + of_nat 2) = ram (kmem s') (gs ! 0 + of_nat 2)"
    using arg_cong [OF cs(3), of "\<lambda>xs. xs ! 2"] by (simp only: ram_read_nth)
  also have "\<dots> = 9"
  proof -
    have "\<forall>k < 4096. ram (kmem s') (gs ! 0 + of_nat k) = (if k < length (pages_of [7, 8, 9] ! 0) then pages_of [7, 8, 9] ! 0 ! k else 0)"
      using t(4,7) by (simp add: pages_hold_def)
    from this [rule_format, of 2] show ?thesis by (simp add: pages_of.simps)
  qed
  finally show ?thesis using fs(1) s'(1) s'' pid(2) cs(1,2) by (auto simp: maps_pages_def)
qed

end
