(* ===== verification/BootProps.thy ===== *)
theory BootProps
  imports SpaceProps
begin

text \<open>
  The kernel as a whole: that it boots into the shell, and what holds in every state that it reaches afterwards by
  system calls, timer interrupts and idle turns.
\<close>

section \<open>Booting\<close>

lemma new_process_fields:
  "p_state (new_process i name n t root p) = PROC_RUNNABLE" "p_pid (new_process i name n t root p) = int i"
  "p_page_table (new_process i name n t root p) = t" "p_parent_pid (new_process i name n t root p) = 0"
  "p_name (new_process i name n t root p) = overwrite (replicate 16 NUL) 0 (take (PROC_NAME_MAX - 1) name)"
  by (simp_all add: new_process_def clear_exec_args_def set_process_name_def)

lemma create_process_slot:
  assumes "reap_exited_processes s = Ok s1" "create_process img name s = Ok (Some i, s')"
  obtains t root m where "procs s' = (procs s1)(i := new_process i name (image_pages img) t root (procs s1 i))"
    "current_proc s' = current_proc s1" "kernel_base s' = kernel_base s1" "free_ram_end s' = free_ram_end s1"
  using assms
  by (auto simp: create_process_def kbind_Ok_iff Let_def fun_eq_iff split: option.splits)


text \<open>What the machine provides: a disk that works, RAM, and a clock whose upper half settles.\<close>

definition boot_clock_ok :: "sys_state \<Rightarrow> bool" where
  "boot_clock_ok s0 \<longleftrightarrow> (\<exists>k. hi32 (rtc_time s0 (rtc_reads s0 + 2 + 3 * k)) = hi32 (rtc_time s0 (rtc_reads s0 + 2 + 3 * k + 2)))"

definition bootable_machine :: "u32 \<Rightarrow> u32 \<Rightarrow> sys_state \<Rightarrow> bool" where
  "bootable_machine free_ram free_end s0 \<longleftrightarrow>
     (\<exists>d fs. honest_disk d (the_dev (blk (kfs (kern s0)))) \<and> bootable (\<lambda>i. d (of_nat i)) \<and> fs_init (kfs (kern s0)) = Ok fs) \<and>
     unat free_ram mod 4096 = 0 \<and> 0 < unat free_ram \<and> kernel_base (kern s0) mod 4096 = 0 \<and>
     (\<exists>pages m. memory_init free_ram free_end (kmem (kern s0)) = Ok (pages, m) \<and>
        2050 + length (pages_of (app_image s0 ''shell'')) \<le> unat (managed_pages m)) \<and>
     length (pages_of (app_image s0 ''shell'')) \<le> 0xff000 \<and> boot_clock_ok s0"

lemma clock_returns:
  assumes "boot_clock_ok s0"
  shows "\<exists>t n. rtc_now_sec (rtc_time s0) (rtc_reads s0 + 2) = Some (t, n)"
proof -
  obtain k where "hi32 (rtc_time s0 (rtc_reads s0 + 2 + 3 * k)) = hi32 (rtc_time s0 (rtc_reads s0 + 2 + 3 * k + 2))"
    using assms by (auto simp: boot_clock_ok_def)
  from rtc_now_ns_returns [OF this] show ?thesis by (auto simp: rtc_now_sec_def)
qed

lemma bootstrap_returns:
  assumes "bootable_machine free_ram free_end s0"
  obtains s where "kernel_bootstrap free_ram free_end s0 = Ok s" "current_proc (kern s) = Some 0"
    "p_pid (procs (kern s) 0) = 0" "p_state (procs (kern s) 0) = PROC_RUNNABLE" "\<And>j. 0 < j \<Longrightarrow> procs (kern s) j = zero_process"
    "mem_wf (kmem (kern s))" "room (1025 + length (pages_of (app_image s0 ''shell''))) (kmem (kern s))"
    "kernel_base (kern s) mod 4096 = 0" "app_image s = app_image s0" "vfs_wf (kfs (kern s))"
    "con s = empty_console" "pending s = pending s0"
proof -
  let ?s = "bss_clear s0" and ?n = "length (pages_of (app_image s0 ''shell''))"
  obtain d fs pages m where h: "honest_disk d (the_dev (blk (kfs (kern s0))))" "bootable (\<lambda>i. d (of_nat i))"
    "fs_init (kfs (kern s0)) = Ok fs" "unat free_ram mod 4096 = 0" "0 < unat free_ram" "kernel_base (kern s0) mod 4096 = 0"
    "memory_init free_ram free_end (kmem (kern s0)) = Ok (pages, m)" "2050 + ?n \<le> unat (managed_pages m)" "boot_clock_ok s0"
    using assms by (auto simp: bootable_machine_def)
  have fs: "vfs_wf fs" by (rule fs_init_wf [OF h(1-3)])
  have mi: "mem_wf m" "used_pages m = {}" using memory_init_spec [OF h(7,4,5)] by auto
  obtain now n where rtc: "rtc_now_sec (rtc_time s0) (rtc_reads s0 + 2) = Some (now, n)" using clock_returns [OF h(9)] by blast
  let ?k = "(kern ?s)\<lparr>kmem := m, kfs := fs\<rparr>"
  have z: "procs ?k = (\<lambda>_. zero_process)" by (simp add: bss_clear_def)
  have rp: "reap_exited_processes ?k = Ok ?k" by (rule reap_none) (simp add: z zero_process_def)
  have kb: "kernel_base ?k mod 4096 = 0" using h(6) by (simp add: bss_clear_def)
  have us: "unused_slot ?k = Some 0" by (simp add: unused_slot_def z zero_process_def PROCS_MAX_def)
  have "room ((1025 + ?n) + 1025 + length (pages_of [])) (kmem ?k)"
    using h(8) mi(2) by (simp add: room_def used_frames_def pages_of.simps)
  from create_process_returns [OF rp _ kb _ us this, of "''idle''"] mi(1) fs obtain k where
    k: "create_process [] ''idle'' ?k = Ok (Some 0, k)" "room (1025 + ?n) (kmem k)" by auto
  obtain t root where p: "procs k = (procs ?k)(0 := new_process 0 ''idle'' (image_pages []) t root (procs ?k 0))"
    and kb': "kernel_base k = kernel_base ?k" by (rule create_process_slot [OF rp k(1)])
  have wf: "mem_wf (kmem k)" using create_process_space [OF rp _ k(1)] mi(1) by (auto simp: pages_of.simps)
  let ?k' = "(upd 0 (\<lambda>p. p\<lparr>p_pid := 0\<rparr>) k)\<lparr>idle_proc := Some 0, current_proc := Some 0\<rparr>"
  let ?s' = "?s\<lparr>kern := ?k', kernel_total_pages := pages, rtc_reads := n\<rparr>"
  have b: "kernel_bootstrap free_ram free_end s0 = Ok ?s'"
    using h(3,7) rtc k(1) by (simp add: kernel_bootstrap_def Let_def bss_clear_def rtc_init_def)
  show thesis
  proof (rule that [OF b])
    show "room (1025 + length (pages_of (app_image s0 ''shell''))) (kmem (kern ?s'))" using k(2) by simp
    show "vfs_wf (kfs (kern ?s'))" using bootstrap_sinv [OF b h(1,2)] by (simp add: sinv_def kinv_def)
  qed (use p kb' wf h(6) in \<open>auto simp: new_process_fields bss_clear_def\<close>)
qed

lemma kernel_main_boots:
  assumes "bootable_machine free_ram free_end s0"
  obtains s where "kernel_main free_ram free_end s0 = Ok (Switched, s)" "sinv s" "running s" "current_proc (kern s) = Some 1"
    "cstr (p_name (procs (kern s) 1)) = ''shell''" "csr_satp (kern s) = SATP_SV32 OR p_page_table (procs (kern s) 1) div 4096"
    "\<And>k. k < length (app_image s0 ''shell'') \<Longrightarrow> \<exists>f. sv32_walk (ram (kmem (kern s))) (p_page_table (procs (kern s) 1))
        (USER_BASE + of_nat k) = Some (f, USER_FLAGS) \<and>
      ram (kmem (kern s)) (f + of_nat (k mod 4096)) = app_image s0 ''shell'' ! k"
    "\<And>j. p_state (procs (kern s) j) \<noteq> PROC_EXITED" "\<And>j. schedulable (procs (kern s) j) \<Longrightarrow> j = 1"
    "con s = empty_console" "pending s = pending s0"
proof -
  let ?img = "app_image s0 ''shell''"
  obtain s1 where s1: "kernel_bootstrap free_ram free_end s0 = Ok s1" "current_proc (kern s1) = Some 0"
    "p_pid (procs (kern s1) 0) = 0" "p_state (procs (kern s1) 0) = PROC_RUNNABLE" "\<And>j. 0 < j \<Longrightarrow> procs (kern s1) j = zero_process"
    "mem_wf (kmem (kern s1))" "room (1025 + length (pages_of ?img)) (kmem (kern s1))"
    "kernel_base (kern s1) mod 4096 = 0" "app_image s1 = app_image s0" "vfs_wf (kfs (kern s1))"
    "con s1 = empty_console" "pending s1 = pending s0"
    using bootstrap_returns [OF assms] by metis
  have st: "p_state (procs (kern s1) j) \<noteq> PROC_EXITED" for j using s1(4,5) by (cases "j = 0") (auto simp: zero_process_def)
  have rp: "reap_exited_processes (kern s1) = Ok (kern s1)" by (rule reap_none) (simp add: st)
  have us: "unused_slot (kern s1) = Some 1"
    unfolding unused_slot_def by (rule scan_from_SomeI) (use s1(4,5) in \<open>auto simp: zero_process_def\<close>)
  have sz: "length (pages_of ?img) \<le> 0xff000" using assms by (simp add: bootable_machine_def)
  have "room (0 + 1025 + length (pages_of ?img)) (kmem (kern s1))" using s1(7) by simp
  from create_process_returns [OF rp s1(6,8,10) us this] obtain k where
    k: "create_process ?img ''shell'' (kern s1) = Ok (Some 1, k)" by blast
  obtain t root where p: "procs k = (procs (kern s1))(1 := new_process 1 ''shell'' (image_pages ?img) t root (procs (kern s1) 1))"
    and cur: "current_proc k = current_proc (kern s1)" by (rule create_process_slot [OF rp k])
  define k1 where "k1 = k\<lparr>init_proc := Some 1\<rparr>"
  have k1: "procs k1 = procs k" "current_proc k1 = Some 0" "kmem k1 = kmem k" using cur s1(2) by (simp_all add: k1_def)
  have rp1: "reap_exited_processes k1 = Ok k1" by (rule reap_none) (use st in \<open>auto simp: k1 p new_process_fields split: if_splits\<close>)
  have at: "at_slot 0 k1" using s1(3) by (simp add: at_slot_def k1 p)
  have n0: "\<not> schedulable (procs k1 0)" and n1: "schedulable (procs k1 1)"
    using s1(3) by (simp_all add: schedulable_def k1 p new_process_fields)
  have "scan_from (\<lambda>i. schedulable (procs k1 (scan_slot k1 i))) 0 64 = Some 1"
    by (rule scan_from_SomeI) (use n0 n1 in \<open>simp_all add: scan_slot_at [OF at]\<close>)
  then have pick: "pick_next k1 = Some 1" by (simp add: pick_next_def scan_slot_at [OF at] del: scan_from_numeral)
  obtain k2 where y: "yield_turn k1 = (Switched, k2)" "current_proc k2 = Some 1" "kmem k2 = kmem k"
    "csr_satp k2 = SATP_SV32 OR t div 4096" "p_name (procs k2 1) = p_name (procs k 1)" "p_page_table (procs k2 1) = t"
    "schedulable (procs k2 1)" "\<And>j. p_state (procs k2 j) = p_state (procs k j)" "\<And>j. p_pid (procs k2 j) = p_pid (procs k j)"
    using pick n1 by (simp add: yield_turn_def Let_def switch_context_def schedulable_def k1 p new_process_fields)
  have main: "kernel_main free_ram free_end s0 = Ok (Switched, on_kern s1 k2)"
    using s1(1,9) k rp1 y(1) by (simp add: kernel_main_def yield_def k1_def)
  obtain d where "honest_disk d (the_dev (blk (kfs (kern s0))))" "bootable (\<lambda>i. d (of_nat i))"
    using assms by (auto simp: bootable_machine_def)
  from kernel_main_sinv [OF main this] have inv: "sinv (on_kern s1 k2)" .
  have nm: "cstr (p_name (procs k2 1)) = ''shell''"
    unfolding y(5) p by (simp add: new_process_fields PROC_NAME_MAX_def overwrite_def cstr_def)
  have pt: "p_page_table (procs k 1) = t" by (simp add: p new_process_fields)
  note im = conjunct1 [OF create_process_image [OF rp s1(6) k sz], unfolded pt]
  have only: "j = 1" if "schedulable (procs k2 j)" for j
    using that s1(3,5) by (cases "j = 0"; cases "j = 1") (auto simp: schedulable_def y(8,9) p zero_process_def)
  have ex: "p_state (procs k2 j) \<noteq> PROC_EXITED" for j
    using st [of j] by (cases "j = 1") (simp_all add: y(8) p new_process_fields)
  have ok: "kern (on_kern s1 k2) = k2" "con (on_kern s1 k2) = con s1" "pending (on_kern s1 k2) = pending s1"
    by (simp_all add: on_kern_def)
  have run: "running (on_kern s1 k2)" using y(2,7) by (auto simp: running_def ok(1))
  show thesis
    by (rule that [OF main inv run, unfolded ok]) (use y(2,3,4,6) im nm only ex s1(11,12) in \<open>simp_all, blast\<close>)
qed


text \<open>A machine with 64 MB of free RAM, an empty disk and a one-instruction shell.\<close>

definition demo_machine :: sys_state where
  "demo_machine = \<lparr>kern = two_procs PROC_UNUSED, con = empty_console, pending = [],
     app_image = \<lambda>name. if name = ''shell'' then [0x6f, 0, 0, 0] else [], rtc_time = \<lambda>_. 5000000000, rtc_reads = 0,
     kernel_total_pages = 0\<rparr>"

lemma demo_machine_boots: "bootable_machine 0x80400000 0x84400000 demo_machine"
proof -
  have k: "kfs (kern demo_machine) = power_on" "kernel_base (kern demo_machine) mod 4096 = 0"
    by (simp_all add: demo_machine_def two_procs_def)
  have pg: "length (pages_of (app_image demo_machine ''shell'')) = 1" by (simp add: demo_machine_def length_pages_of)
  obtain fs where fs: "fs_init power_on = Ok fs" by (rule power_on_boots)
  have d: "\<exists>d fs. honest_disk d (the_dev (blk (kfs (kern demo_machine)))) \<and> bootable (\<lambda>i. d (of_nat i)) \<and>
      fs_init (kfs (kern demo_machine)) = Ok fs"
    unfolding k(1) using power_on_disk fs by blast
  have m: "\<exists>m'. memory_init 0x80400000 0x84400000 m = Ok (16384, m') \<and> managed_pages m' = 16383" for m
    by (simp add: memory_init_def Let_def word_le_nat_alt)
  obtain m' where m': "memory_init 0x80400000 0x84400000 (kmem (kern demo_machine)) = Ok (16384, m')" "managed_pages m' = 16383"
    using m by blast
  have "boot_clock_ok demo_machine" by (simp add: boot_clock_ok_def demo_machine_def)
  moreover have "2050 + length (pages_of (app_image demo_machine ''shell'')) \<le> unat (managed_pages m')" by (simp add: pg m'(2))
  ultimately show ?thesis unfolding bootable_machine_def using d k(2) m'(1) pg by auto
qed


section \<open>Every reachable state\<close>

text \<open>The states that the kernel reaches after booting from a good disk.\<close>

lemma reachable_sinv:
  assumes "honest_disk d (the_dev (blk (kfs (kern s0))))" "bootable (\<lambda>i. d (of_nat i))"
    "kernel_main free_ram free_end s0 = Ok (t, s1)" "sys_reach s1 s"
  shows "sinv s"
  by (rule sys_reach_sinv [OF assms(4) kernel_main_sinv [OF assms(3,1,2)]])


text \<open>A process that reads from the empty console of an otherwise idle system blocks.\<close>

definition getchar_frame :: trap_frame where
  "getchar_frame = zero_frame\<lparr>tf_a3 := 2\<rparr>"

lemma getchar_blocks:
  assumes "running s" "current_proc (kern s) = Some 1" "con s = empty_console" "pending s = []"
    "\<And>j. p_state (procs (kern s) j) \<noteq> PROC_EXITED" "\<And>j. schedulable (procs (kern s) j) \<Longrightarrow> j = 1"
  obtains s' where "sys_step s s'" "console_waiter (procs (kern s') 1)"
proof -
  let ?k = "upd 1 (\<lambda>p. p\<lparr>p_wait_reason := PROC_WAIT_CONSOLE_INPUT, p_state := PROC_WAITTING\<rparr>) (kern s)"
  have poll: "poll_console_input s = s" using assms(3,4) by (simp add: poll_console_input_def empty_console_def)
  have "input_pop (con s) = None" by (simp add: assms(3) input_pop_def empty_console_def)
  then have h: "handle_syscall [] getchar_frame s = Ok (Blocked, s\<lparr>kern := ?k\<rparr>)"
    using assms(2) by (simp add: handle_syscall_def getchar_frame_def syscall_handle_getchar_def getchar_turn_def poll)
  have r: "reap_exited_processes ?k = Ok ?k" by (rule reap_none) (use assms(5) in \<open>auto split: if_splits\<close>)
  have "\<not> schedulable (procs ?k j)" for j
    using assms(6) [of j] by (cases "j = 1"; cases "schedulable (procs (kern s) j)") (auto simp: schedulable_def)
  then have "pick_next ?k = None" unfolding pick_next_def by (simp only: scan_from_None option.map) simp
  then have "yield ?k = Ok (Wait_interrupt, ?k\<lparr>csr_sscratch := Some 1\<rparr>)"
    using assms(2) unfolding yield_def r kbind.simps yield_turn_def by simp
  then have "ecall_turn [] 0 None getchar_frame s = Ok (Blocked, on_kern (s\<lparr>kern := ?k\<rparr>) (?k\<lparr>csr_sscratch := Some 1\<rparr>))"
    by (simp add: ecall_turn_def h ecall_finish_def)
  from sys_step.resume [OF assms(1) this] show thesis by (rule that) (simp add: on_kern_def console_waiter_def)
qed




end
