(* ===== verification/ProcTypes.thy ===== *)
theory ProcTypes
  imports BootProps
begin

text \<open>
  The types of the fields of \<open>struct process\<close> (src/include/process.h) as an invariant: the name has 16 characters, the
  argument array eight rows of 32, the paths 64 characters, and the argument count is between 0 and 8. Most operations
  of the kernel change neither these fields nor the address space of a process; the relation \<open>steady\<close> says so, and the
  invariants of the later theories use it as well.
\<close>

section \<open>Steady operations\<close>

text \<open>The fields that only creating, forking, executing and recycling change; of the current directory, its size.\<close>

definition core :: "process \<Rightarrow> (u32 \<times> u32 \<times> int) \<times> char list \<times> int \<times> char list list \<times> char list \<times> nat" where
  "core p = ((p_page_table p, p_user_pages p, p_pid p), p_name p, p_exec_argc p, p_exec_argv p, p_root_path p, length (p_cwd_path p))"

definition steady :: "kstate \<Rightarrow> kstate \<Rightarrow> bool" where
  "steady k k' \<longleftrightarrow> kmem k' = kmem k \<and> csr_satp k' = csr_satp k \<and> current_proc k' = current_proc k \<and>
     (\<forall>j. core (procs k' j) = core (procs k j) \<and> (alive (procs k' j) \<longrightarrow> alive (procs k j)))"

lemma steady_refl [simp]: "steady k k" by (simp add: steady_def)

lemma steady_trans [trans]: "steady k k1 \<Longrightarrow> steady k1 k2 \<Longrightarrow> steady k k2"
  by (auto simp: steady_def)

lemma steady_fields [simp]:
  "steady k (k'\<lparr>kfs := a\<rparr>) = steady k k'" "steady k (k'\<lparr>csr_sepc := b\<rparr>) = steady k k'"
  "steady k (k'\<lparr>csr_sscratch := c\<rparr>) = steady k k'" "steady k (k'\<lparr>need_resched := d\<rparr>) = steady k k'"
  "steady k (k'\<lparr>csr_sstatus := e\<rparr>) = steady k k'"
  by (simp_all add: steady_def)

lemma steady_upd:
  assumes "core (f (procs k i)) = core (procs k i)" "alive (f (procs k i)) \<Longrightarrow> alive (procs k i)"
  shows "steady k (upd i f k)"
  using assms by (simp add: steady_def)

lemma steady_fold: "(\<And>i s. steady s (f i s)) \<Longrightarrow> steady s (fold f xs s)"
  by (induction xs arbitrary: s) (auto intro: steady_trans)

lemma steady_wake: "alive (procs k i) \<Longrightarrow> steady k (wake i k)"
  unfolding wake_def steady_fields by (rule steady_upd) (auto simp: core_def)

lemma steady_block: "alive (procs k i) \<Longrightarrow> steady k (block reason pid i k)"
  unfolding block_def steady_fields by (rule steady_upd) (auto simp: core_def)

lemma steady_mark_exited: "steady k (mark_exited i k)"
  unfolding mark_exited_def by (rule steady_upd) (auto simp: core_def alive_def)

lemma steady_wakeup_input: "steady k (wakeup_input_waiters k)"
  unfolding wakeup_input_waiters_def by (rule steady_fold) (auto simp: alive_def intro: steady_wake)

lemma steady_notify: "steady k (notify_child_exit c k)"
  unfolding notify_child_exit_def Let_def by (auto intro!: steady_fold steady_wake simp: alive_def)

lemma steady_orphan: "steady k (orphan_children pid k)"
  unfolding orphan_children_def by (auto intro!: steady_fold steady_upd simp: core_def alive_def)

lemma steady_end_process: "steady k (end_process i k)"
  by (rule steady_trans [OF _ steady_notify], unfold steady_fields)
    (rule steady_trans [OF steady_orphan steady_mark_exited])

lemma steady_tick: "steady k (scheduler_on_timer_tick k)"
  by (auto simp: scheduler_on_timer_tick_def steady_def core_def alive_def Let_def split: option.splits)

lemma steady_poll: "steady (kern s) (kern (poll_console_input s))"
  using steady_wakeup_input by (simp add: poll_console_input_def Let_def case_prod_beta)

lemma steady_ipc_send: "process_ipc_send a b m k = (r, k') \<Longrightarrow> steady k k'"
  by (auto simp: process_ipc_send_def alive_def Let_def core_def steady_def wake_def split: option.splits if_splits)

lemma steady_trap_stack: "steady k (set_trap_stack w k)"
  by (simp add: set_trap_stack_def split: option.splits)

lemma steady_ipc_recv:
  assumes "process_ipc_recv (p_pid (procs k c)) k = (r, k')" "table_ok (procs k)" "c < 64" "p_state (procs k c) = PROC_RUNNABLE"
  shows "steady k k'"
proof -
  have pid: "p_pid (procs k c) = int c" by (rule runnable_reason(2) [OF assms(2-4)])
  have self: "i = c" if "find_process_by_pid (p_pid (procs k c)) k = Some i" for i
    using find_process_Some [OF that] table_okD(1) [OF assms(2), of i] pid by (auto simp: slot_ok_def)
  show ?thesis
  proof (cases "find_process_by_pid (p_pid (procs k c)) k")
    case (Some i)
    then have "i = c" by (rule self)
    moreover have "alive (procs k c)" using assms(4) by (simp add: alive_def)
    ultimately show ?thesis
      using assms(1) Some by (auto simp: process_ipc_recv_def core_def alive_def intro!: steady_block steady_upd split: if_splits)
  qed (use assms(1) in \<open>simp add: process_ipc_recv_def\<close>)
qed

lemma steady_getchar:
  assumes "getchar_turn s = (r, s')" "running s"
  shows "steady (kern s) (kern s')"
proof -
  obtain c where c: "current_proc (kern s) = Some c" "p_state (procs (kern s) c) = PROC_RUNNABLE" using assms(2) by (rule runningE)
  have al: "alive (procs (kern s) c)" using c(2) by (simp add: alive_def)
  have cur: "cur_slot (poll_console_input s) = c" using steady_poll [of s] c(1) by (simp add: steady_def)
  have up: "steady k (upd i (\<lambda>p. p\<lparr>p_wait_reason := w\<rparr>) k)" for k i w by (rule steady_upd) (auto simp: core_def alive_def)
  have got: "steady (kern t) (kern (snd (got_char ch cn t)))" for ch cn t by (simp add: got_char_def up)
  have "steady (kern s) (upd c (\<lambda>p. p\<lparr>p_wait_reason := PROC_WAIT_CONSOLE_INPUT, p_state := PROC_WAITTING\<rparr>) (kern (poll_console_input s)))"
    using steady_poll [of s] al by (auto simp: steady_def core_def alive_def)
  then show ?thesis
    using assms(1) got steady_trans [OF steady_poll got]
    by (auto simp: getchar_turn_def Let_def cur split: option.splits prod.splits dest!: arg_cong [of _ _ snd])
qed

section \<open>Sizes of the arrays\<close>

definition typed :: "process \<Rightarrow> bool" where
  "typed p \<longleftrightarrow> length (p_name p) = 16 \<and> length (p_exec_argv p) = 8 \<and> (\<forall>row \<in> set (p_exec_argv p). length row = 32) \<and>
     0 \<le> p_exec_argc p \<and> p_exec_argc p \<le> 8 \<and> length (p_root_path p) = 64 \<and> length (p_cwd_path p) = 64"

abbreviation all_typed :: "kstate \<Rightarrow> bool" where
  "all_typed k \<equiv> \<forall>i. typed (procs k i)"

lemma typed_core: "core p = core q \<Longrightarrow> typed p = typed q"
  by (auto simp: typed_def core_def)

lemma steady_typed: "steady k k' \<Longrightarrow> all_typed k \<Longrightarrow> all_typed k'"
  by (simp add: steady_def) (metis typed_core)

lemmas row_consts = PROC_NAME_MAX_def PROC_EXEC_ARGV_MAX_def PROC_EXEC_ARG_LEN_def

lemma set_overwrite: "set (overwrite xs 0 ys) \<subseteq> set ys \<union> set xs"
  by (auto simp: overwrite_def dest: in_set_takeD in_set_dropD)

lemma typed_parts [simp]:
  "typed p \<Longrightarrow> typed (clear_exec_args p)" "typed p \<Longrightarrow> typed (set_process_name name p)"
  "typed p \<Longrightarrow> typed (reset_slot p)" "typed p \<Longrightarrow> typed (new_process i nm n t root p)"
  "typed p \<Longrightarrow> typed q \<Longrightarrow> typed (inherit q p)"
proof -
  show c: "typed p \<Longrightarrow> typed (clear_exec_args p)" for p by (simp add: typed_def clear_exec_args_def row_consts)
  show n: "typed p \<Longrightarrow> typed (set_process_name name p)" for p name
    by (simp add: typed_def set_process_name_def row_consts split: option.splits)
  have f: "typed (p\<lparr>p_pid := a, p_state := b\<rparr>) = typed p" "typed (p\<lparr>p_state := b\<rparr>) = typed p" for p a b by (simp_all add: typed_def)
  show "typed p \<Longrightarrow> typed (reset_slot p)"
    unfolding reset_slot_def by (rule c) (use n [of p None] in \<open>simp add: typed_def set_process_name_def row_consts\<close>)
  show "typed p \<Longrightarrow> typed (new_process i nm n t root p)"
    by (simp add: typed_def new_process_def clear_exec_args_def set_process_name_def row_consts FS_PATH_MAX_def strcpy_s_spec(1))
  show "typed p \<Longrightarrow> typed q \<Longrightarrow> typed (inherit q p)"
    by (simp add: typed_def inherit_def row_consts FS_PATH_MAX_def strcpy_s_spec(1))
qed

lemma typed_exec_args [simp]:
  assumes "typed p"
  shows "typed (set_exec_args argc argv p)"
proof (cases "argv = None \<or> argc \<le> 0")
  case True
  then show ?thesis using assms by (auto simp: set_exec_args_def Let_def split: option.splits)
next
  case False
  then obtain args where a: "argv = Some args" "0 < argc" by auto
  let ?n = "if int PROC_EXEC_ARGV_MAX < argc then int PROC_EXEC_ARGV_MAX else argc"
  let ?rows = "map copy_arg (take (nat ?n) args)"
  have n: "0 \<le> ?n" "?n \<le> 8" using a(2) by (auto simp: row_consts)
  have row: "length (copy_arg r) = 32" for r by (simp add: copy_arg_def row_consts)
  have e: "p_exec_argv (clear_exec_args p) = replicate 8 (replicate 32 NUL)" by (simp add: clear_exec_args_def row_consts)
  have l: "length ?rows \<le> 8" using n by simp
  have "length r = 32" if "r \<in> set (overwrite (replicate 8 (replicate 32 NUL)) 0 ?rows)" for r
    using that set_overwrite [of "replicate 8 (replicate 32 NUL)" ?rows] row by (auto split: if_splits)
  moreover have "length (overwrite (replicate 8 (replicate 32 NUL)) 0 ?rows) = 8" using l by simp
  ultimately show ?thesis
    using typed_parts(1) [OF assms] a n e by (simp add: set_exec_args_def Let_def typed_def)
qed

lemma typed_upd: "all_typed k \<Longrightarrow> typed (f (procs k i)) \<Longrightarrow> all_typed (upd i f k)"
  by simp

section \<open>The operations keep them\<close>

lemma recycle_typed:
  assumes "recycle_process_slot i k = Ok k'" "all_typed k"
  shows "all_typed k'"
proof -
  obtain fs k1 where k1: "free_process_memory i (k\<lparr>kfs := fs\<rparr>) = Ok k1" "k' = upd i reset_slot k1"
    using assms(1) by (auto simp: recycle_process_slot_def kbind_Ok_iff Let_def)
  have "all_typed k1"
    using k1(1) assms(2) by (auto simp: free_process_memory_def kbind_Ok_iff Let_def typed_def split: if_splits)
  then show ?thesis using k1(2) by simp
qed

lemma reap_typed:
  assumes "reap_exited_processes k = Ok k'" "all_typed k"
  shows "all_typed k'"
proof -
  have "reap_loop i n k = Ok k' \<Longrightarrow> all_typed k \<Longrightarrow> all_typed k'" for i n
    by (induction n arbitrary: i k) (auto simp: kbind_Ok_iff split: if_splits dest: recycle_typed)
  then show ?thesis using assms by (auto simp: reap_exited_processes_def)
qed

lemma create_typed:
  assumes "create_process img name k = Ok (p, k')" "all_typed k"
  shows "all_typed k'"
proof -
  obtain k1 where k1: "reap_exited_processes k = Ok k1" using assms(1) by (auto simp: create_process_def kbind_Ok_iff)
  have t: "all_typed k1" by (rule reap_typed [OF k1 assms(2)])
  then have "all_typed (k1\<lparr>kmem := m\<rparr>)" for m by simp
  with t recycle_typed show ?thesis
    using assms(1) k1 by (auto simp: create_process_def kbind_Ok_iff Let_def split: option.splits)
qed

lemma fork_fail_typed: "fork_fail c k = Ok (r, k') \<Longrightarrow> all_typed k \<Longrightarrow> all_typed k'"
  by (auto simp: fork_fail_def kbind_Ok_iff dest: recycle_typed)

lemma fork_finish_typed:
  assumes "fork_finish cur c tf k = Ok (r, k')" "all_typed k"
  shows "all_typed k'"
proof -
  let ?k = "\<lambda>fs. (upd c (\<lambda>p. p\<lparr>p_ctx := Ctx_fork_return (tf\<lparr>tf_a0 := 0\<rparr>) (csr_sepc k + 4) (csr_sstatus k)\<rparr>) k)\<lparr>kfs := fs\<rparr>"
  let ?h = "\<lambda>p. p\<lparr>p_state := PROC_RUNNABLE, p_time_slice := SCHED_TIME_SLICE_TICKS, p_run_ticks := 0, p_schedule_count := 0\<rparr>"
  have t: "all_typed (?k fs)" for fs using assms(2) by (simp add: typed_def)
  obtain fs where "fork_fail c (?k fs) = Ok (r, k') \<or> k' = sync c (upd c ?h (?k fs))"
    using assms(1) by (auto simp: fork_finish_def Let_def case_prod_beta simp del: upd_simps(1) split: if_splits)
  then show ?thesis
  proof
    assume "fork_fail c (?k fs) = Ok (r, k')"
    then show ?thesis using fork_fail_typed t by blast
  next
    assume "k' = sync c (upd c ?h (?k fs))"
    then show ?thesis using assms(2) by (simp add: typed_def)
  qed
qed

lemma fork_memory_typed:
  assumes "fork_memory cur c tf k = Ok (r, k')" "all_typed k"
  shows "all_typed k'"
proof -
  have "all_typed ((upd c (\<lambda>p. p\<lparr>p_page_table := t, p_user_pages := n\<rparr>) k)\<lparr>kmem := m\<rparr>)" "all_typed (k\<lparr>kmem := m\<rparr>)" for t n m
    using assms(2) by (simp_all add: typed_def)
  moreover have "(upd c g (k\<lparr>kmem := m\<rparr>))\<lparr>kmem := m'\<rparr> = (upd c g k)\<lparr>kmem := m'\<rparr>" for g m m' by (simp add: upd_def)
  ultimately show ?thesis
    using assms(1) fork_fail_typed fork_finish_typed
    by (auto simp: fork_memory_def kbind_Ok_iff Let_def simp del: upd_simps(1) split: if_splits)
qed

lemma fork_typed:
  assumes "process_fork tf k = Ok (r, k')" "all_typed k"
  shows "all_typed k'"
proof -
  obtain child k1 where k1: "alloc_proc_slot k = Ok (child, k1)" using assms(1) by (auto simp: process_fork_def kbind_Ok_iff)
  have f: "typed (p\<lparr>p_pid := a, p_state := b, p_wait_reason := c, p_wait_pid := d, p_parent_pid := e\<rparr>) = typed p" for p a b c d e
    by (simp add: typed_def)
  have t: "all_typed k1"
    using k1 reap_typed [OF _ assms(2)] by (fastforce simp: alloc_proc_slot_def kbind_Ok_iff f split: option.splits)
  then have "all_typed (upd i (inherit (procs k1 j)) k1)" for i j by simp
  then show ?thesis
    using assms(1) k1 t fork_fail_typed fork_memory_typed
    by (auto simp: process_fork_def simp del: upd_simps(1) split: option.splits if_splits)
qed

lemma exec_typed:
  assumes "process_exec img name argc argv k = Ok (r, k')" "all_typed k"
  shows "all_typed k'"
proof -
  have f: "typed (p\<lparr>p_user_pages := n\<rparr>) = typed p"
    "typed (p\<lparr>p_wait_reason := a, p_wait_pid := b, p_time_slice := c, p_run_ticks := d\<rparr>) = typed p" for p n a b c d
    by (simp_all add: typed_def)
  show ?thesis
    using assms by (auto simp: process_exec_def free_user_pages_only_def kbind_Ok_iff Let_def f split: option.splits if_splits)
qed

lemma yield_typed:
  assumes "yield k = Ok (t, k')" "all_typed k"
  shows "all_typed k'"
proof -
  obtain k1 where k1: "reap_exited_processes k = Ok k1" "yield_turn k1 = (t, k')"
    using assms(1) by (auto simp: yield_def kbind_Ok_iff)
  then show ?thesis
    using reap_typed [OF k1(1) assms(2)]
    by (auto simp: yield_turn_def switch_context_def typed_def Let_def split: option.splits if_splits)
qed

lemma wait_cases:
  assumes "wait_for_child_exit a b k = Ok (r, k')"
  obtains "k' = k" | i where "i < 64" "p_state (procs k i) = PROC_EXITED" "recycle_process_slot i k = Ok k'"
    | "k' = block PROC_WAIT_CHILD_EXIT b (the (current_proc k)) k"
proof (cases "a \<le> 0")
  case True
  then show thesis using assms that(1) by (auto simp: wait_for_child_exit_def)
next
  case pos: False
  show thesis
  proof (cases "scan_from (\<lambda>i. is_child a b (procs k i) \<and> p_state (procs k i) = PROC_EXITED) 0 PROCS_MAX")
    case (Some i)
    then have "recycle_process_slot i k = Ok k'" using assms pos unfolding wait_for_child_exit_def by (auto simp only: if_False option.case kbind_Ok_iff kres.inject prod.inject)
    then show thesis using that(2) scan_from_SomeD [OF Some] by auto
  next
    case None
    then have "k' = k \<or> k' = block PROC_WAIT_CHILD_EXIT b (the (current_proc k)) k"
      using assms pos unfolding wait_for_child_exit_def by (auto simp only: if_False option.case kres.inject prod.inject split: if_splits)
    then show thesis using that(1,3) by blast
  qed
qed

lemma wait_typed:
  assumes "wait_for_child_exit a b k = Ok (r, k')" "all_typed k"
  shows "all_typed k'"
  using assms(1)
proof (cases rule: wait_cases)
  case (2 i)
  then show ?thesis using recycle_typed assms(2) by blast
next
  case 3
  then show ?thesis using assms(2) by (simp add: block_def typed_def)
qed (use assms(2) in simp)

text \<open>The table after a kill has marked its target.\<close>

definition killed :: "nat \<Rightarrow> kstate \<Rightarrow> kstate" where
  "killed i k = upd i (\<lambda>p. p\<lparr>p_parent_pid := 0\<rparr>) (notify_child_exit i (sync i (mark_exited i (orphan_children (p_pid (procs k i)) k))))"

lemma steady_killed: "steady k (killed i k)"
proof -
  have "steady k (notify_child_exit i (sync i (mark_exited i (orphan_children pid k))))" for pid
    by (rule steady_trans [OF _ steady_notify], unfold steady_fields) (rule steady_trans [OF steady_orphan steady_mark_exited])
  then show ?thesis unfolding killed_def by (rule steady_trans) (auto intro!: steady_upd simp: core_def alive_def)
qed

lemma process_kill_cases:
  assumes "process_kill a k = Ok (r, k')"
  obtains "k' = k"
    | i t where "find_process_by_pid a k = Some i" "p_state (procs k i) \<noteq> PROC_EXITED" "current_proc k = Some i" "yield (killed i k) = Ok (t, k')"
    | i where "find_process_by_pid a k = Some i" "p_state (procs k i) \<noteq> PROC_EXITED" "current_proc k \<noteq> Some i" "recycle_process_slot i (killed i k) = Ok k'"
proof (cases "a \<le> 0 \<or> find_process_by_pid a k = None")
  case True
  then show thesis using assms that(1) by (auto simp: process_kill_def split: if_splits)
next
  case False
  then obtain i where i: "find_process_by_pid a k = Some i" "0 < a" by auto
  show thesis
  proof (cases "p_state (procs k i) = PROC_EXITED \<or> init_proc k = Some i")
    case True
    then show thesis using assms i that(1) by (auto simp: process_kill_def split: if_splits)
  next
    case False
    have "current_proc (killed i k) = current_proc k" using steady_killed [of k i] by (simp add: steady_def)
    moreover have "(if current_proc (killed i k) = Some i then kbind (yield (killed i k)) (\<lambda>(t, s).
             if t = Continue then PANIC ''killed process resumed unexpectedly'' else Ok (No_return, s))
        else kbind (recycle_process_slot i (killed i k)) (\<lambda>s. Ok (Done (p_pid (procs k i)), s))) = Ok (r, k')"
      using assms i False by (simp add: process_kill_def killed_def Let_def split: if_splits)
    ultimately show thesis using that(2,3) i(1) False by (auto simp: kbind_Ok_iff split: if_splits)
  qed
qed

lemma kill_typed:
  assumes "process_kill a k = Ok (r, k')" "all_typed k"
  shows "all_typed k'"
  using assms(1)
proof (cases rule: process_kill_cases)
  case (2 i t)
  then show ?thesis using yield_typed steady_typed [OF steady_killed assms(2)] by blast
next
  case (3 i)
  then show ?thesis using recycle_typed steady_typed [OF steady_killed assms(2)] by blast
qed (use assms(2) in simp)

section \<open>System calls\<close>

definition ends :: "(kstate \<Rightarrow> bool) \<Rightarrow> outcome \<Rightarrow> bool" where
  "ends P r \<longleftrightarrow> (\<forall>x s. r = Ok (x, s) \<longrightarrow> P (kern s))"

lemma ends_Ok [simp]: "ends P (Ok (x, s)) = P (kern s)" by (simp add: ends_def)

lemma ends_PANIC [simp]: "ends P (PANIC m)" by (simp add: ends_def)

interpretation en: outcome_logic "ends P" for P
  by unfold_locales simp

lemmas ends_kbind = en.bind and ends_with_str = en.string_argument

lemma ends_kern [simp]: "kern (on_kern s k) = k" "kern (on_fs fs s) = (kern s)\<lparr>kfs := fs\<rparr>"
  by (simp_all add: on_kern_def on_fs_def)

lemma typed_storing:
  assumes "all_typed (kern s)" "\<And>m. all_typed (kern (s\<lparr>kern := (kern s)\<lparr>kmem := m\<rparr>\<rparr>)) \<Longrightarrow> ends all_typed (f (s\<lparr>kern := (kern s)\<lparr>kmem := m\<rparr>\<rparr>))"
  shows "ends all_typed (storing a bs s f)"
  unfolding storing_def
proof (rule ends_kbind)
  fix k assume "user_store a bs (kern s) = Ok k"
  then obtain m where "k = (kern s)\<lparr>kmem := m\<rparr>" using user_store_kern by blast
  then show "ends all_typed (f (s\<lparr>kern := k\<rparr>))" using assms by simp
qed

lemma typed_storing_ret: "all_typed (kern s) \<Longrightarrow> ends all_typed (storing a bs s (\<lambda>s. returning f v s))"
  by (rule typed_storing) simp_all

lemma typed_console_read:
  assumes "all_typed (kern s)" "sinv s" "running s"
  shows "ends all_typed (console_read_loop f buf i n s)"
  using assms
proof (induction n arbitrary: i s)
  case (Suc n)
  obtain r s1 where g: "getchar_turn s = (r, s1)" by (cases "getchar_turn s")
  note s1 = getchar_result [OF Suc.prems(2,3) g] and t = steady_typed [OF steady_getchar [OF g Suc.prems(3)] Suc.prems(1)]
  show ?case
  proof (cases r)
    case (Done ch)
    then show ?thesis using g t s1 by (auto intro!: typed_storing Suc.IH running_kmem sinv_kmem)
  qed (use g t in simp_all)
qed simp

lemma typed_chdir: "all_typed (kern s) \<Longrightarrow> ends all_typed (syscall_handle_chdir f s)"
  unfolding syscall_handle_chdir_def Let_def
  by (auto intro!: ends_kbind simp: typed_def FS_PATH_MAX_def strcpy_s_spec(1) dest: user_strn_nul_free split: option.splits)

lemma typed_ipc_recv:
  assumes "all_typed (kern s)" "sinv s" "running s"
  shows "ends all_typed (syscall_handle_ipc_recv f s)"
proof -
  obtain c where c: "current_proc (kern s) = Some c" "c < 64" "p_state (procs (kern s) c) = PROC_RUNNABLE"
    using assms(3) by (rule runningE)
  obtain r k where r: "process_ipc_recv (p_pid (procs (kern s) c)) (kern s) = (r, k)"
    by (cases "process_ipc_recv (p_pid (procs (kern s) c)) (kern s)")
  have "all_typed k" by (rule steady_typed [OF steady_ipc_recv [OF r sinv_table [OF assms(2)] c(2,3)] assms(1)])
  then show ?thesis
    unfolding syscall_handle_ipc_recv_def using c r assms(1)
    by (auto intro!: typed_storing_ret split: call.splits option.splits)
qed

lemma typed_exit:
  assumes "all_typed (kern s)"
  shows "ends all_typed (syscall_handle_exit f s)"
proof -
  have "all_typed (notify_child_exit i ((mark_exited i (orphan_children pid (kern s)))\<lparr>kfs := fs\<rparr>))" for i pid fs
    by (rule steady_typed [OF steady_trans [OF _ steady_notify] assms], unfold steady_fields)
      (rule steady_trans [OF steady_orphan steady_mark_exited])
  then show ?thesis unfolding syscall_handle_exit_def Let_def by (auto intro!: ends_kbind dest!: yield_typed)
qed

lemma typed_clone:
  assumes "all_typed (kern s)"
  shows "ends all_typed (syscall_handle_clone f s)"
proof -
  have "all_typed (upd i (\<lambda>p. p\<lparr>p_parent_pid := x\<rparr>) k)" if "create_process img name (kern s) = Ok (p, k)" for img name p k i x
    using create_typed [OF that assms] by (simp add: typed_def)
  then show ?thesis
    unfolding syscall_handle_clone_def Let_def
    using assms create_typed [OF _ assms] by (auto intro!: ends_kbind simp del: upd_simps(1) split: option.splits)
qed

lemma typed_read:
  assumes "all_typed (kern s)" "sinv s" "running s"
  shows "ends all_typed (syscall_handle_read f s)"
proof -
  obtain r fs where rd: "fs_read (cur_pid s) (sint (tf_a0 f)) (tf_a1 f \<noteq> 0) (tf_a2 f) (kfs (kern s)) = (r, fs)"
    by (cases "fs_read (cur_pid s) (sint (tf_a0 f)) (tf_a1 f \<noteq> 0) (tf_a2 f) (kfs (kern s))")
  have "vfs_wf fs" using fs_read_wf [OF sinv_vfs [OF assms(2)]] rd by (metis snd_conv)
  then have "sinv (on_fs fs s)" "running (on_fs fs s)" using assms(2,3) sinv_on_fs by (auto simp: running_def)
  then show ?thesis
    unfolding syscall_handle_read_def rd
    using assms by (auto simp: Let_def intro!: typed_storing_ret typed_console_read split: read_result.splits)
qed

text \<open>The calls on files, by the contract of \<open>kernel_invariant\<close>.\<close>

interpretation ty: kernel_invariant "\<lambda>s. sinv s \<and> all_typed (kern s)" "\<lambda>r. safe r \<and> ends all_typed r"
  by unfold_locales (auto simp: safe_def ends_def sinv_vfs sinv_on_fs)

lemma typed_fill_calls:
  assumes "all_typed (kern s)"
  shows "ends all_typed (syscall_handle_readdir f s)" "ends all_typed (syscall_handle_getcwd f s)"
  unfolding syscall_handle_readdir_def syscall_handle_getcwd_def
  using assms by (auto intro!: ends_with_str typed_storing_ret split: option.splits)

lemma typed_process_calls:
  assumes "all_typed (kern s)"
  shows "ends all_typed (syscall_handle_ps f s)" "ends all_typed (syscall_handle_waitpid f s)"
    "ends all_typed (syscall_handle_kill f s)" "ends all_typed (syscall_handle_fork f s)"
    "ends all_typed (syscall_handle_exec f s)" "ends all_typed (syscall_handle_execv f s)"
    "ends all_typed (syscall_handle_getargs f s)" "ends all_typed (syscall_handle_ipc_send f s)"
  unfolding syscall_handle_ps_def write_user_ps_info_def syscall_handle_waitpid_def syscall_handle_kill_def
    syscall_handle_fork_def syscall_handle_exec_def syscall_handle_execv_def syscall_handle_getargs_def
    syscall_handle_ipc_send_def Let_def
  using assms
  by (auto intro!: typed_storing_ret ends_kbind split: option.splits prod.splits call.splits
      dest: wait_typed kill_typed fork_typed exec_typed steady_typed [OF steady_ipc_send])

lemma typed_info:
  assumes "all_typed (kern s)"
  shows "ends all_typed (syscall_handle_bitmap f s)" "ends all_typed (syscall_handle_gettime f s)"
    "ends all_typed (syscall_handle_kernel_info junk f s)"
  using assms
  by (auto simp: syscall_handle_bitmap_def syscall_handle_gettime_def syscall_handle_kernel_info_def Let_def
      intro!: ends_kbind typed_storing_ret split: option.splits prod.splits)

lemma typed_getchar:
  assumes "all_typed (kern s)" "running s"
  shows "ends all_typed (syscall_handle_getchar f s)"
  using steady_typed [OF steady_getchar [OF _ assms(2)] assms(1)]
  by (auto simp: syscall_handle_getchar_def split: prod.splits call.splits)

lemma typed_syscall:
  assumes "all_typed (kern s)" "sinv s" "running s"
  shows "ends all_typed (handle_syscall junk f s)"
  unfolding handle_syscall_def Let_def
  using assms ty.file_calls [of s f] by (simp add: typed_fill_calls typed_process_calls typed_info typed_getchar typed_exit typed_clone typed_ipc_recv
      typed_read typed_chdir)

section \<open>Every reachable state\<close>

lemma typed_finish:
  assumes "ends all_typed r"
  shows "ends all_typed (kbind r (\<lambda>(x, s). ecall_finish pc w f x s))"
proof (rule ends_kbind)
  fix p assume p: "r = Ok p"
  obtain x s where x: "p = (x, s)" by fastforce
  have t: "all_typed (kern s)" using assms p x by (simp add: ends_def)
  from steady_typed [OF steady_trap_stack t] have "all_typed ((set_trap_stack w (kern s))\<lparr>csr_sepc := a\<rparr>)" for a by simp
  then show "ends all_typed (case p of (x, s) \<Rightarrow> ecall_finish pc w f x s)"
    using t yield_typed [OF _ t] by (auto simp: x ecall_finish_def Let_def intro!: ends_kbind split: call.splits)
qed

lemma typed_timer:
  assumes "all_typed (kern s)"
  shows "ends all_typed (timer_turn w f s)"
proof -
  let ?k = "scheduler_on_timer_tick (kern (poll_console_input s))"
  have t: "all_typed ?k" by (rule steady_typed [OF steady_trans [OF steady_poll steady_tick] assms])
  then show ?thesis
    unfolding timer_turn_def Let_def
    using yield_typed [OF _ t] steady_typed [OF steady_trap_stack] by (auto intro!: ends_kbind split: if_splits)
qed

lemma typed_trap:
  assumes "all_typed (kern s)" "sinv s" "running s" "process_from_trap_frame addr (kern s) = current_proc (kern s)"
  shows "ends all_typed (handle_trap junk scause addr f s)"
proof -
  have same: "on_kern s (kern s) = s" by (simp add: on_kern_def)
  show ?thesis
    unfolding handle_trap_def Let_def ecall_turn_def assms(4)
    using typed_finish [OF typed_syscall [OF assms(1-3)]] typed_timer [OF assms(1)] by (simp add: same)
qed

lemma sys_step_typed:
  assumes "sys_step s s'" "all_typed (kern s)" "sinv s"
  shows "all_typed (kern s')"
  using assms(1)
proof cases
  case (trap addr junk scause f r)
  then show ?thesis using typed_trap [OF assms(2,3) trap(1,2)] by (simp add: ends_def)
next
  case (resume junk pc w f r)
  then show ?thesis using typed_finish [OF typed_syscall [OF assms(2,3) resume(1)]] by (simp add: ends_def ecall_turn_def)
next
  case (resume_read pc w f i n r)
  then show ?thesis using typed_finish [OF typed_console_read [OF assms(2,3) resume_read(1)]] by (simp add: ends_def console_read_turn_def)
next
  case (idle_timer f r)
  then show ?thesis using typed_timer [OF assms(2)] by (simp add: ends_def)
next
  case (idle t k)
  then show ?thesis using assms(2) by (auto simp: yield_turn_def switch_context_def typed_def Let_def split: option.splits if_splits)
qed (use assms(2) in simp_all)

lemma kernel_main_typed:
  assumes "kernel_main free_ram free_end s0 = Ok (t, s)"
  shows "all_typed (kern s)"
proof -
  obtain s1 p k k2 where s1: "kernel_bootstrap free_ram free_end s0 = Ok s1"
    and cr: "create_process (app_image s1 ''shell'') ''shell'' (kern s1) = Ok (p, k)"
    and y: "yield (k\<lparr>init_proc := p\<rparr>) = Ok (t, k2)" and s: "s = on_kern s1 k2"
    using assms by (auto simp: kernel_main_def kbind_Ok_iff)
  obtain m fs q k' where cr0: "create_process [] ''idle'' ((kern (bss_clear s0))\<lparr>kmem := m, kfs := fs\<rparr>) = Ok (q, k')"
    and k1: "kern s1 = (upd (the q) (\<lambda>p. p\<lparr>p_pid := 0\<rparr>) k')\<lparr>idle_proc := q, current_proc := q\<rparr>"
    using s1 by (auto simp: kernel_bootstrap_def kbind_Ok_iff Let_def)
  have "all_typed k'" by (rule create_typed [OF cr0]) (simp add: bss_clear_def zero_process_def typed_def)
  then have "all_typed (kern s1)" by (simp add: k1 typed_def)
  then have "all_typed (k\<lparr>init_proc := p\<rparr>)" using create_typed [OF cr] by simp
  then show ?thesis using yield_typed [OF y] by (simp add: s)
qed

lemma reachable_typed:
  assumes "honest_disk d (the_dev (blk (kfs (kern s0))))" "bootable (\<lambda>i. d (of_nat i))"
    "kernel_main free_ram free_end s0 = Ok (t, s1)" "sys_reach s1 s"
  shows "all_typed (kern s)"
  using assms(4)
proof (induction rule: sys_reach.induct)
  case start
  show ?case by (rule kernel_main_typed [OF assms(3)])
next
  case (step s s')
  then show ?case using sys_step_typed reachable_sinv [OF assms(1-3)] by blast
qed

lemma typed_sizes:
  assumes "typed p"
  shows "length (ps_info_bytes p) = 32" "length (int_bytes (p_exec_argc p) @ map of_char (concat (p_exec_argv p)) :: u8 list) = 260"
proof -
  have "length (concat rows) = 32 * length rows" if "\<forall>row \<in> set rows. length row = 32" for rows :: "char list list"
    using that by (induction rows) auto
  then have "length (concat (p_exec_argv p)) = 256" using assms by (simp add: typed_def)
  then show "length (int_bytes (p_exec_argc p) @ map of_char (concat (p_exec_argv p)) :: u8 list) = 260" by (simp add: int_bytes_def)
  show "length (ps_info_bytes p) = 32" using assms by (simp add: ps_info_bytes_def int_bytes_def typed_def)
qed



end
