(* ===== verification/ExecProps.thy ===== *)
theory ExecProps
  imports SpaceProps
begin

text \<open>
  What \<open>process_exec\<close> of src/kernel/proc/process.c does to the address space of the caller: the pages of the old program
  are given back, the new image is in their place, and nothing else changes.
\<close>

section \<open>Loading the image\<close>

text \<open>The loading loop of \<open>process_exec\<close> is that of \<open>create_process\<close>, as no frame has the address 0.\<close>

lemma exec_load_image_load:
  assumes "exec_load_image t va img m = Ok (True, m')"
  shows "load_image t va img m = Ok m'"
  using assms
proof (induction t va img m rule: exec_load_image.induct)
  case (1 t va img m)
  show ?case
  proof (cases "img = []")
    case True
    then show ?thesis using 1(2) by (simp add: load_image.simps exec_load_image.simps)
  next
    case False
    obtain p m1 m2 where "alloc_pages 1 m = Ok (p, m1)"
      and "map_page t va p (PAGE_U OR PAGE_R OR PAGE_W OR PAGE_X) (m1\<lparr>ram := ram_write (ram m1) p (take 4096 img)\<rparr>) = Ok m2"
      and "exec_load_image t (va + 4096) (drop 4096 img) m2 = Ok (True, m')" "p \<noteq> 0"
      using 1(2) False by (subst (asm) exec_load_image.simps) (auto simp: kbind_Ok_iff split: if_splits)
    then show ?thesis using 1(1) False by (subst load_image.simps) auto
  qed
qed

section \<open>The address space after exec\<close>

text \<open>The memory of a successful exec: the old pages freed, the image loaded into the same page table.\<close>

lemma process_exec_memory:
  assumes "current_proc s = Some cur" "p_page_table (procs s cur) = t" "t \<noteq> 0" "process_exec img name argc argv s = Ok (0, s')"
  obtains m1 where "free_user_pages t 0 (unat (p_user_pages (procs s cur))) (kmem s) = Ok m1"
    "load_image t USER_BASE img m1 = Ok (kmem s')" "p_page_table (procs s' cur) = t"
    "p_user_pages (procs s' cur) = image_pages img" "csr_sepc s' = USER_BASE" "current_proc s' = Some cur"
proof -
  have set: "p_page_table (set_exec_args a b p) = p_page_table p" "p_user_pages (set_exec_args a b p) = p_user_pages p" for a b p
    by (simp_all add: set_exec_args_def clear_exec_args_def Let_def split: option.splits)
  have nm: "p_page_table (set_process_name n p) = p_page_table p" "p_user_pages (set_process_name n p) = p_user_pages p" for n p
    by (simp_all add: set_process_name_def)
  obtain m1 m2 where m: "free_user_pages t 0 (unat (p_user_pages (procs s cur))) (kmem s) = Ok m1"
      "exec_load_image t USER_BASE img m1 = Ok (True, m2)" and "img \<noteq> []"
    and s': "s' = (sync cur (upd cur (\<lambda>p. set_exec_args argc argv ((set_process_name (Some name)
        (p\<lparr>p_user_pages := image_pages img\<rparr>))\<lparr>p_wait_reason := PROC_WAIT_NONE, p_wait_pid := -1,
         p_time_slice := SCHED_TIME_SLICE_TICKS, p_run_ticks := 0\<rparr>))
        ((upd cur (\<lambda>p. p\<lparr>p_user_pages := 0\<rparr>) (s\<lparr>kmem := m1\<rparr>))\<lparr>kmem := m2\<rparr>)))\<lparr>csr_sepc := USER_BASE\<rparr>"
    using assms by (auto simp: process_exec_def free_user_pages_only_def kbind_Ok_iff Let_def split: if_splits)
  have "kmem s' = m2" "p_page_table (procs s' cur) = t" "p_user_pages (procs s' cur) = image_pages img"
    "csr_sepc s' = USER_BASE" "current_proc s' = Some cur"
    using assms(1,2) by (simp_all add: s' set nm)
  then show thesis using that m(1) exec_load_image_load [OF m(2)] by blast
qed

lemma exec_space:
  assumes "current_proc s = Some cur" "t = p_page_table (procs s cur)" "t \<noteq> 0" "mem_wf (kmem s)" "pt_wf (kmem s) t"
    "user_frames (kmem s) t 0 fs" "length fs = unat (p_user_pages (procs s cur))" "length fs \<le> 0xff000"
    "length (pages_of img) \<le> 0xff000" "process_exec img name argc argv s = Ok (0, s')"
  shows "mem_wf (kmem s') \<and> pt_wf (kmem s') t \<and>
    tables (kmem s') t \<inter> (used_frames (kmem s) - set fs - tables (kmem s) t) = {} \<and>
    p_page_table (procs s' cur) = t \<and> csr_sepc s' = USER_BASE \<and>
    (\<exists>fs'. length fs' = unat (p_user_pages (procs s' cur)) \<and> user_frames (kmem s') t 0 fs' \<and>
       set fs' \<inter> (used_frames (kmem s) - set fs) = {} \<and>
       used_frames (kmem s') = (used_frames (kmem s) - set fs) \<union> set fs' \<union> tables (kmem s') t \<and>
       (\<forall>k < length img. sv32_walk (ram (kmem s')) t (USER_BASE + of_nat k) = Some (fs' ! (k div 4096), USER_FLAGS) \<and>
          ram (kmem s') (fs' ! (k div 4096) + of_nat (k mod 4096)) = img ! k) \<and>
       (\<forall>k. length fs' \<le> k \<longrightarrow> k < length fs \<longrightarrow> sv32_walk (ram (kmem s')) t (user_va k) = None)) \<and>
    (\<forall>v. v mod 4096 = 0 \<longrightarrow> v \<notin> user_va ` {..< max (length fs) (length (pages_of img))} \<longrightarrow>
       sv32_walk (ram (kmem s')) t v = sv32_walk (ram (kmem s)) t v) \<and>
    (\<forall>g \<in> used_frames (kmem s) - set fs - tables (kmem s) t. frame_eq (ram (kmem s)) (ram (kmem s')) g)"
proof (rule process_exec_memory [OF assms(1) assms(2) [symmetric] assms(3,10)])
  fix m1
  assume f: "free_user_pages t 0 (unat (p_user_pages (procs s cur))) (kmem s) = Ok m1"
    and l: "load_image t USER_BASE img m1 = Ok (kmem s')"
    and p: "p_page_table (procs s' cur) = t" "p_user_pages (procs s' cur) = image_pages img" "csr_sepc s' = USER_BASE"
  let ?n = "length (pages_of img)"
  have m1: "mem_wf m1" "pt_wf m1 t" "used_frames m1 = used_frames (kmem s) - set fs" "tables m1 t = tables (kmem s) t"
    "\<And>v. v mod 4096 = 0 \<Longrightarrow> v \<notin> user_va ` {0 ..< length fs} \<Longrightarrow> sv32_walk (ram m1) t v = sv32_walk (ram (kmem s)) t v"
    "\<And>k. k < length fs \<Longrightarrow> sv32_walk (ram m1) t (user_va k) = None"
    "\<And>g. unat g mod 4096 = 0 \<Longrightarrow> g \<notin> tables (kmem s) t \<Longrightarrow> frame_eq (ram (kmem s)) (ram m1) g"
    using free_user_pages_result [OF assms(4-6)] f assms(7,8) by auto
  have "unat USER_BASE + 4096 * ?n \<le> 2 ^ 32" using assms(9) by (simp add: USER_BASE_def)
  from load_image_adds_pages [OF l m1(1,2) this] obtain fs' where len: "length fs' = ?n"
    and ad: "adds_pages t USER_BASE m1 (kmem s') fs' (replicate (length fs') USER_FLAGS) (pages_of img)" by blast
  have d: "extends t m1 (kmem s')" "distinct fs'" "set fs' \<subseteq> fresh m1 (kmem s')" "set fs' \<inter> tables (kmem s') t = {}"
    "used_frames (kmem s') = used_frames m1 \<union> set fs' \<union> tables (kmem s') t"
    and mp: "maps_pages (kmem s') t USER_BASE fs' (replicate (length fs') USER_FLAGS)" "pages_hold (kmem s') fs' (pages_of img)"
    and wk: "\<And>v. v mod 4096 = 0 \<Longrightarrow> v \<notin> user_va ` {..< length fs'} \<Longrightarrow> sv32_walk (ram (kmem s')) t v = sv32_walk (ram m1) t v"
    using ad by (auto simp: adds_pages_def user_va_def [abs_def])
  have uf: "user_frames (kmem s') t 0 fs'"
    using d(2,4,5) mp(1) by (auto simp: user_frames_def maps_pages_def user_va_def)
  have beyond: "sv32_walk (ram (kmem s')) t (user_va k) = None" if "length fs' \<le> k" "k < length fs" for k
  proof -
    have "user_va k \<noteq> user_va j" if "j < length fs'" for j
      using user_va_inj [of k j] that \<open>length fs' \<le> k\<close> \<open>k < length fs\<close> assms(8) by auto
    then have "user_va k \<notin> user_va ` {..< length fs'}" by auto
    then show ?thesis using wk [OF user_va_aligned] m1(6) that(2) by simp
  qed
  have other: "sv32_walk (ram (kmem s')) t v = sv32_walk (ram (kmem s)) t v"
    if "v mod 4096 = 0" "v \<notin> user_va ` {..< max (length fs) ?n}" for v
  proof -
    have "v \<notin> user_va ` {..< length fs'}" "v \<notin> user_va ` {0 ..< length fs}" using that(2) len by auto
    then show ?thesis using wk [OF that(1)] m1(5) [OF that(1)] by simp
  qed
  have keep: "frame_eq (ram (kmem s)) (ram (kmem s')) g" if "g \<in> used_frames (kmem s) - set fs - tables (kmem s) t" for g
  proof -
    have al: "unat g mod 4096 = 0" using used_frame_aligned [OF assms(4)] that by simp
    have "g \<notin> fresh m1 (kmem s')" using that m1(3) by (auto simp: fresh_def)
    then show ?thesis using frame_eq_trans [OF m1(7) [OF al] extendsD(6) [OF d(1) al]] that m1(4) by simp
  qed
  have "set fs' \<inter> (used_frames (kmem s) - set fs) = {}" using d(3) m1(3) by (auto simp: fresh_def)
  moreover have "tables (kmem s') t \<inter> (used_frames (kmem s) - set fs - tables (kmem s) t) = {}"
    using extendsD(5) [OF d(1)] m1(3,4) by (auto simp: fresh_def)
  ultimately show ?thesis
    using extendsD(1,2) [OF d(1)] p uf d(5) m1(3) beyond other keep image_bytes [OF mp assms(9)] len unat_image_pages [OF assms(9)] by (auto intro!: exI [of _ fs'])
qed

text \<open>C12: A successful exec puts the new program into the address space of the caller and takes the old one out: every byte of
  the image is at its place from \<open>USER_BASE\<close> on, in user pages of frames that were free or belonged to the old program;
  the pages of the old program beyond the new one are no longer mapped; every other page is mapped as before; the frames
  in use are the old ones without those of the old program, plus those of the image and the page table; and no frame of
  the kernel or of another process changes. The program starts at \<open>USER_BASE\<close>.\<close>

theorem exec_replaces_image:
  assumes "current_proc s = Some cur" "t = p_page_table (procs s cur)" "t \<noteq> 0" "mem_wf (kmem s)" "pt_wf (kmem s) t"
    "user_frames (kmem s) t 0 fs" "length fs = unat (p_user_pages (procs s cur))" "length fs \<le> 0xff000"
    "length (pages_of img) \<le> 0xff000" "process_exec img name argc argv s = Ok (0, s')"
  shows "p_page_table (procs s' cur) = t \<and> csr_sepc s' = USER_BASE \<and>
    (\<exists>fs'. length fs' = unat (p_user_pages (procs s' cur)) \<and> user_frames (kmem s') t 0 fs' \<and>
       set fs' \<inter> (used_frames (kmem s) - set fs) = {} \<and>
       used_frames (kmem s') = (used_frames (kmem s) - set fs) \<union> set fs' \<union> tables (kmem s') t \<and>
       (\<forall>k < length img. sv32_walk (ram (kmem s')) t (USER_BASE + of_nat k) = Some (fs' ! (k div 4096), USER_FLAGS) \<and>
          ram (kmem s') (fs' ! (k div 4096) + of_nat (k mod 4096)) = img ! k) \<and>
       (\<forall>k. length fs' \<le> k \<longrightarrow> k < length fs \<longrightarrow> sv32_walk (ram (kmem s')) t (user_va k) = None)) \<and>
    (\<forall>v. v mod 4096 = 0 \<longrightarrow> v \<notin> user_va ` {..< max (length fs) (length (pages_of img))} \<longrightarrow>
       sv32_walk (ram (kmem s')) t v = sv32_walk (ram (kmem s)) t v) \<and>
    (\<forall>g \<in> used_frames (kmem s) - set fs - tables (kmem s) t. frame_eq (ram (kmem s)) (ram (kmem s')) g)"
  by (rule exec_space [OF assms, THEN conjunct2, THEN conjunct2, THEN conjunct2])

section \<open>Enough memory for exec\<close>

lemma load_image_exec:
  assumes "load_image t va img m = Ok m'" "mem_wf m" "pt_wf m t"
  shows "exec_load_image t va img m = Ok (True, m')"
  using assms
proof (induction t va img m rule: load_image.induct)
  case (1 t va img m)
  show ?case
  proof (cases "img = []")
    case True
    then show ?thesis using 1(2) by (simp add: load_image.simps exec_load_image.simps)
  next
    case False
    let ?fl = "PAGE_U OR PAGE_R OR PAGE_W OR PAGE_X"
    obtain p m1 m2 where a: "alloc_pages 1 m = Ok (p, m1)"
      and mp: "map_page t va p ?fl (m1\<lparr>ram := ram_write (ram m1) p (take 4096 img)\<rparr>) = Ok m2"
      and r: "load_image t (va + 4096) (drop 4096 img) m2 = Ok m'"
      using 1(2) False by (subst (asm) load_image.simps) (auto simp: kbind_Ok_iff)
    have fl: "unat ?fl < 1024" by (simp add: PAGE_U_def PAGE_R_def PAGE_W_def PAGE_X_def)
    note p = add_page [OF 1(3,4) a _ fl mp]
    have "exec_load_image t (va + 4096) (drop 4096 img) m2 = Ok (True, m')"
      by (rule 1(1) [OF False r extendsD(1,2) [OF p(1)]]) simp_all
    moreover have "p \<noteq> 0" using used_frame_nonzero [of m1 p] alloc_table [OF 1(3) a] by auto
    ultimately show ?thesis using a mp False by (subst exec_load_image.simps) simp
  qed
qed

lemma free_pages_managed: "free_pages f n m = Ok m' \<Longrightarrow> managed_pages m' = managed_pages m"
  by (auto simp: free_pages_def kbind_Ok_iff Let_def split: if_splits)

lemma free_user_pages_managed: "free_user_pages t i n m = Ok m' \<Longrightarrow> managed_pages m' = managed_pages m"
proof (induction n arbitrary: i m)
  case (Suc n)
  then show ?case by (fastforce simp: Let_def kbind_Ok_iff split: if_splits dest: free_pages_managed)
qed simp

lemma process_exec_returns:
  assumes "current_proc s = Some cur" "t = p_page_table (procs s cur)" "t \<noteq> 0" "mem_wf (kmem s)" "pt_wf (kmem s) t"
    "user_frames (kmem s) t 0 fs" "length fs = unat (p_user_pages (procs s cur))" "length fs \<le> 0xff000" "img \<noteq> []"
    "room (1024 + length (pages_of img)) (kmem s)"
  shows "\<exists>s'. process_exec img name argc argv s = Ok (0, s')"
proof -
  obtain m1 where m1: "free_user_pages t 0 (length fs) (kmem s) = Ok m1" "mem_wf m1" "pt_wf m1 t"
    "used_frames m1 = used_frames (kmem s) - set fs"
    using free_user_pages_result [OF assms(4-6)] assms(8) by auto
  have "card (used_frames m1) \<le> card (used_frames (kmem s))" by (rule card_mono) (auto simp: m1(4))
  then have r: "room (1024 + length (pages_of img)) m1"
    using assms(10) free_user_pages_managed [OF m1(1)] by (simp add: room_def)
  have "page_entries USER_BASE (length (pages_of img)) - valid_entries m1 t \<subseteq> range vpn1" by (auto simp: page_entries_def)
  then have "card (page_entries USER_BASE (length (pages_of img)) - valid_entries m1 t) \<le> 1024" by (rule card_entries(2))
  then have "room (0 + length (pages_of img) + card (page_entries USER_BASE (length (pages_of img)) - valid_entries m1 t)) m1"
    by (intro room_mono [OF r]) simp
  moreover have al: "USER_BASE mod 4096 = 0" by (simp add: USER_BASE_def)
  ultimately obtain m2 where "load_image t USER_BASE img m1 = Ok m2"
    using load_image_returns [OF m1(2,3) al] by blast
  then have "exec_load_image t USER_BASE img m1 = Ok (True, m2)" by (rule load_image_exec [OF _ m1(2,3)])
  then show ?thesis using assms(1-3,7,9) m1(1) by (simp add: process_exec_def free_user_pages_only_def Let_def)
qed

theorem exec_replaces_image_witness:
  "\<exists>fs s s' f. fs_init power_on = Ok fs \<and> create_process [7, 8, 9] ''demo'' (demo_kernel fs) = Ok (Some 0, s) \<and>
     process_exec [4, 5] ''next'' 0 None (s\<lparr>current_proc := Some 0\<rparr>) = Ok (0, s') \<and>
     sv32_walk (ram (kmem s')) (p_page_table (procs s 0)) (USER_BASE + 1) = Some (f, USER_FLAGS) \<and> ram (kmem s') (f + 1) = 5"
proof -
  obtain fs where fs: "fs_init power_on = Ok fs" "vfs_wf fs" by (rule power_on_boots)
  obtain s where s: "create_process [7, 8, 9] ''demo'' (demo_kernel fs) = Ok (Some 0, s)" "room 2000 (kmem s)"
    by (rule demo_create [OF fs(2)])
  have pg: "length (pages_of [7, 8, 9]) = 1" "length (pages_of [4, 5]) = 1" by (simp_all add: length_pages_of)
  obtain t gs where t: "p_page_table (procs s 0) = t" "p_user_pages (procs s 0) = image_pages [7, 8, 9]" "mem_wf (kmem s)"
    "pt_wf (kmem s) t" "length gs = 1" "distinct gs" "set gs \<inter> tables (kmem s) t = {}"
    "used_frames (kmem s) = used_frames (kmem (demo_kernel fs)) \<union> set gs \<union> tables (kmem s) t"
    "maps_pages (kmem s) t USER_BASE gs (replicate (length gs) USER_FLAGS)"
    by (rule create_process_space [OF demo_kernel_ok(2,1) s(1)]) (use pg in auto)
  let ?s = "s\<lparr>current_proc := Some 0\<rparr>"
  have uf: "user_frames (kmem ?s) t 0 gs" using t(6-9) by (auto simp: user_frames_def maps_pages_def user_va_def)
  have t0: "t \<noteq> 0" by (rule used_frame_nonzero [OF t(3)]) (use t(4) in \<open>simp add: pt_wf_def\<close>)
  have up: "length gs = unat (p_user_pages (procs ?s 0))" using t(2,5) unat_image_pages [of "[7, 8, 9]"] pg by simp
  have a: "current_proc ?s = Some 0" "t = p_page_table (procs ?s 0)" "t \<noteq> 0" "mem_wf (kmem ?s)" "pt_wf (kmem ?s) t"
    using t t0 by simp_all
  have b: "length gs \<le> 0xff000" "length (pages_of [4, 5]) \<le> 0xff000" using t(5) pg by simp_all
  obtain s' where s': "process_exec [4, 5] ''next'' 0 None ?s = Ok (0, s')"
    using process_exec_returns [OF a uf up b(1), of "[4, 5]" "''next''" 0 None] room_mono [OF s(2), of 1025] pg by auto
  from exec_replaces_image [OF a uf up b s'] obtain fs' where
    "\<forall>k < length [4, 5 :: u8]. sv32_walk (ram (kmem s')) t (USER_BASE + of_nat k) = Some (fs' ! (k div 4096), USER_FLAGS) \<and>
       ram (kmem s') (fs' ! (k div 4096) + of_nat (k mod 4096)) = [4, 5] ! k" by blast
  from this [rule_format, of 1] show ?thesis using fs(1) s(1) s' t(1) by auto
qed

end
