(* ===== verification/Isolation.thy ===== *)
theory Isolation
  imports ExecProps
begin

text \<open>
  Isolation of address spaces. The footprint of a process is the set of frames of its page table and of its user
  pages; the invariant \<open>isolated\<close> says that the page table of every process is well formed, that user mode reaches
  only the user pages of the process, and that the footprints of different processes are disjoint. What a process can
  see in user mode is \<open>user_view\<close>. Creating, forking, executing and recycling processes and every write of a program
  to its own memory keep the invariant, and none of them changes what another living process sees.
\<close>

section \<open>One address space\<close>

definition user_list :: "mem_state \<Rightarrow> u32 \<Rightarrow> nat \<Rightarrow> u32 list" where
  "user_list m t n = map (\<lambda>j. fst (the (sv32_walk (ram m) t (user_va j)))) [0 ..< n]"

definition space_ok :: "mem_state \<Rightarrow> u32 \<Rightarrow> nat \<Rightarrow> bool" where
  "space_ok m t n \<longleftrightarrow> t \<noteq> 0 \<and> pt_wf m t \<and> user_frames m t 0 (user_list m t n) \<and> n \<le> 0xff000 \<and>
     (\<forall>v f fl. v mod 4096 = 0 \<longrightarrow> v \<notin> user_va ` {..< n} \<longrightarrow> sv32_walk (ram m) t v = Some (f, fl) \<longrightarrow> fl AND PAGE_U = 0)"

definition footprint :: "mem_state \<Rightarrow> u32 \<Rightarrow> nat \<Rightarrow> u32 set" where
  "footprint m t n = (if t = 0 then {} else tables m t \<union> set (user_list m t n))"

text \<open>What user mode sees at an address: the flags of its page and the byte, nothing on supervisor pages.\<close>

definition user_view :: "mem_state \<Rightarrow> u32 \<Rightarrow> u32 \<Rightarrow> (u32 \<times> u8) option" where
  "user_view m t v =
     (case sv32_walk (ram m) t v of
        None \<Rightarrow> None
      | Some (f, fl) \<Rightarrow> if fl AND PAGE_U = 0 then None else Some (fl, ram m (f + v mod 4096)))"

lemma user_list_eq: "user_frames m t 0 fs \<Longrightarrow> user_list m t (length fs) = fs"
  by (rule nth_equalityI) (auto simp: user_list_def user_frames_def)

lemma space_okI:
  assumes "t \<noteq> 0" "pt_wf m t" "user_frames m t 0 fs" "length fs = n" "n \<le> 0xff000"
    "\<And>v f fl. v mod 4096 = 0 \<Longrightarrow> v \<notin> user_va ` {..< n} \<Longrightarrow> sv32_walk (ram m) t v = Some (f, fl) \<Longrightarrow> fl AND PAGE_U = 0"
  shows "space_ok m t n" "footprint m t n = tables m t \<union> set fs"
  using assms user_list_eq [OF assms(3)] by (auto simp: space_ok_def footprint_def)

lemma space_okD:
  assumes "space_ok m t n"
  shows "t \<noteq> 0" "pt_wf m t" "user_frames m t 0 (user_list m t n)" "n \<le> 0xff000" "length (user_list m t n) = n"
    "footprint m t n = tables m t \<union> set (user_list m t n)" "footprint m t n \<subseteq> used_frames m"
    "set (user_list m t n) \<inter> tables m t = {}"
    "\<And>v f fl. v mod 4096 = 0 \<Longrightarrow> v \<notin> user_va ` {..< n} \<Longrightarrow> sv32_walk (ram m) t v = Some (f, fl) \<Longrightarrow> fl AND PAGE_U = 0"
  using assms tables_used [of m t] by (auto simp: space_ok_def footprint_def user_frames_def user_list_def)

lemma page_of_address: "\<exists>b j. (v :: u32) = b + of_nat j \<and> b mod 4096 = 0 \<and> unat b mod 4096 = 0 \<and> j < 4096 \<and> v mod 4096 = of_nat j"
proof -
  let ?j = "unat v mod 4096" and ?b = "of_nat (unat v div 4096 * 4096) :: u32"
  have lt: "unat v < 2 ^ 32" using unsigned_less [of v] by simp
  then have ub: "unat ?b = unat v div 4096 * 4096"
    by (intro unat_of_nat32 le_less_trans [OF div_times_less_eq_dividend])
  have "?b + of_nat ?j = of_nat (unat v div 4096 * 4096 + ?j)" by (simp only: of_nat_add)
  then have "v = ?b + of_nat ?j" by simp
  moreover have "unat ?b mod 4096 = 0" unfolding ub by simp
  moreover from this have "?b mod 4096 = 0" by (rule mod_4096_unat)
  moreover have "v mod 4096 = of_nat ?j"
    by (simp add: word_unat_eq_iff unat_mod_4096 unsigned_of_nat take_bit_nat_eq_self less_trans [OF mod_less_divisor])
  ultimately show ?thesis using mod_less_divisor [of 4096 "unat v"] by (intro exI [of _ ?b] exI [of _ ?j]) simp
qed

lemma user_page_frame:
  assumes "space_ok m t n" "sv32_walk (ram m) t v = Some (f, fl)" "fl AND PAGE_U \<noteq> 0"
  shows "f \<in> set (user_list m t n)"
proof -
  obtain b j where b: "v = b + of_nat j" "b mod 4096 = 0" "unat b mod 4096 = 0" "j < 4096"
    using page_of_address [of v] by (elim exE conjE) (rule that)
  have w: "sv32_walk (ram m) t b = Some (f, fl)" using walk_same_page [OF b(4,3)] assms(2) by (simp add: b(1))
  have "b \<in> user_va ` {..< n}" using space_okD(9) [OF assms(1) b(2) _ w] assms(3) by blast
  then obtain k where k: "b = user_va k" "k < n" by blast
  have "user_list m t n ! k = f" using w k by (simp add: user_list_def)
  then show ?thesis using k(2) space_okD(5) [OF assms(1)] nth_mem by fastforce
qed

text \<open>A space whose frames are not written stays as it is.\<close>

lemma pt_wf_kept:
  assumes "pt_wf m t" "\<And>g. g \<in> tables m t \<Longrightarrow> frame_eq (ram m) (ram m') g" "tables m t \<subseteq> used_frames m'"
  shows "pt_wf m' t"
proof -
  have root: "load32 (ram m') (pte_addr t i) = load32 (ram m) (pte_addr t i)" if "unat i < 1024" for i
    by (rule load32_frame_eq [OF _ that]) (simp add: assms(2) tables_def)
  show ?thesis
    using assms(1,3) tables_memI [of _ m t] by (auto simp: pt_wf_def root tables_def valid_entries_def)
qed

lemma space_kept:
  assumes "space_ok m t n" "\<And>g. g \<in> footprint m t n \<Longrightarrow> frame_eq (ram m) (ram m') g" "footprint m t n \<subseteq> used_frames m'"
  shows "space_ok m' t n" "footprint m' t n = footprint m t n" "user_view m' t v = user_view m t v"
proof -
  note d = space_okD [OF assms(1)]
  have tb: "\<And>g. g \<in> tables m t \<Longrightarrow> frame_eq (ram m) (ram m') g" using assms(2) d(6) by blast
  note st = same_tables(1,2) [of m t m', OF tb]
  have ul: "user_list m' t n = user_list m t n" by (simp add: user_list_def st(2))
  have "user_frames m' t 0 (user_list m t n)"
    using d(3,6,8) assms(3) by (auto simp: user_frames_def st)
  then show "space_ok m' t n" "footprint m' t n = footprint m t n"
    using space_okI [of t m' "user_list m t n" n] d pt_wf_kept [OF d(2) tb] assms(3) by (auto simp: st)
  show "user_view m' t v = user_view m t v"
  proof (cases "sv32_walk (ram m) t v")
    case (Some a)
    obtain f fl where a: "a = (f, fl)" by fastforce
    have "ram m' (f + v mod 4096) = ram m (f + v mod 4096)" if "fl AND PAGE_U \<noteq> 0"
    proof -
      have "f \<in> footprint m t n" using user_page_frame [OF assms(1) _ that] Some a d(6) by auto
      moreover obtain j where "j < 4096" "v mod 4096 = of_nat j" using page_of_address [of v] by blast
      ultimately show ?thesis using assms(2) by (simp add: frame_eq_def)
    qed
    then show ?thesis by (simp add: user_view_def st Some a)
  qed (simp add: user_view_def st)
qed

section \<open>The spaces of all processes\<close>

abbreviation ptab :: "kstate \<Rightarrow> nat \<Rightarrow> u32" where
  "ptab k i \<equiv> p_page_table (procs k i)"

abbreviation npages :: "kstate \<Rightarrow> nat \<Rightarrow> nat" where
  "npages k i \<equiv> unat (p_user_pages (procs k i))"

definition foot :: "kstate \<Rightarrow> nat \<Rightarrow> u32 set" where
  "foot k i = footprint (kmem k) (ptab k i) (npages k i)"

definition sees :: "kstate \<Rightarrow> nat \<Rightarrow> u32 \<Rightarrow> (u32 \<times> u8) option" where
  "sees k i = (\<lambda>v. if ptab k i = 0 then None else user_view (kmem k) (ptab k i) v)"

definition isolated :: "kstate \<Rightarrow> bool" where
  "isolated k \<longleftrightarrow> mem_wf (kmem k) \<and>
     (\<forall>i < 64. ptab k i \<noteq> 0 \<longrightarrow> space_ok (kmem k) (ptab k i) (npages k i)) \<and>
     (\<forall>i < 64. \<forall>j < 64. i \<noteq> j \<longrightarrow> foot k i \<inter> foot k j = {})"

lemma isolatedD:
  assumes "isolated k" "i < 64"
  shows "mem_wf (kmem k)" "ptab k i \<noteq> 0 \<Longrightarrow> space_ok (kmem k) (ptab k i) (npages k i)" "foot k i \<subseteq> used_frames (kmem k)"
    "\<And>j. j < 64 \<Longrightarrow> i \<noteq> j \<Longrightarrow> foot k i \<inter> foot k j = {}"
proof -
  show "mem_wf (kmem k)" and sp: "ptab k i \<noteq> 0 \<Longrightarrow> space_ok (kmem k) (ptab k i) (npages k i)"
    and "\<And>j. j < 64 \<Longrightarrow> i \<noteq> j \<Longrightarrow> foot k i \<inter> foot k j = {}"
    using assms by (simp_all add: isolated_def)
  show "foot k i \<subseteq> used_frames (kmem k)"
    using space_okD(7) [OF sp] by (cases "ptab k i = 0") (auto simp: foot_def footprint_def)
qed

text \<open>A change that keeps the invariant and what the processes outside \<open>A\<close> see.\<close>

definition keeps :: "nat set \<Rightarrow> kstate \<Rightarrow> kstate \<Rightarrow> bool" where
  "keeps A k k' \<longleftrightarrow> isolated k' \<and>
     (\<forall>j < 64. j \<notin> A \<longrightarrow> ptab k' j = ptab k j \<and> p_user_pages (procs k' j) = p_user_pages (procs k j) \<and> sees k' j = sees k j)"

lemma keeps_isolated: "keeps A k k' \<Longrightarrow> isolated k'" by (simp add: keeps_def)

lemma keeps_trans [trans]: "keeps A k k1 \<Longrightarrow> keeps B k1 k2 \<Longrightarrow> keeps (A \<union> B) k k2"
  by (auto simp: keeps_def)

lemma keeps_mono: "keeps A k k' \<Longrightarrow> A \<subseteq> B \<Longrightarrow> keeps B k k'" by (auto simp: keeps_def)

definition same_spaces :: "kstate \<Rightarrow> kstate \<Rightarrow> bool" where
  "same_spaces k k' \<longleftrightarrow> kmem k' = kmem k \<and> (\<forall>j. ptab k' j = ptab k j \<and> p_user_pages (procs k' j) = p_user_pages (procs k j))"

lemma same_spaces_keeps: "isolated k \<Longrightarrow> same_spaces k k' \<Longrightarrow> keeps {} k k'"
  by (auto simp: same_spaces_def keeps_def isolated_def foot_def sees_def)

lemma one_slot_keeps:
  assumes iso: "isolated k" and i: "i < 64" and wf: "mem_wf (kmem k')"
    and other: "\<And>j. j \<noteq> i \<Longrightarrow> ptab k' j = ptab k j \<and> p_user_pages (procs k' j) = p_user_pages (procs k j)"
    and keep: "\<And>g. g \<in> used_frames (kmem k) - foot k i \<Longrightarrow>
      g \<in> used_frames (kmem k') \<and> frame_eq (ram (kmem k)) (ram (kmem k')) g \<and> g \<notin> foot k' i"
    and own: "ptab k' i \<noteq> 0 \<Longrightarrow> space_ok (kmem k') (ptab k' i) (npages k' i)"
  shows "keeps {i} k k'"
proof -
  have sub: "foot k j \<subseteq> used_frames (kmem k) - foot k i" if "j < 64" "j \<noteq> i" for j
    using isolatedD(3,4) [OF iso that(1)] i that(2) by blast
  have kept: "space_ok (kmem k') (ptab k j) (npages k j) \<and> foot k' j = foot k j \<and> sees k' j = sees k j"
    if j: "j < 64" "j \<noteq> i" "ptab k j \<noteq> 0" for j
  proof -
    note o = other [OF j(2)]
    have fr: "frame_eq (ram (kmem k)) (ram (kmem k')) g" "g \<in> used_frames (kmem k')"
      if "g \<in> footprint (kmem k) (ptab k j) (npages k j)" for g
      using keep sub [OF j(1,2)] that by (auto simp: foot_def)
    then have sub': "footprint (kmem k) (ptab k j) (npages k j) \<subseteq> used_frames (kmem k')" by blast
    note sk = space_kept [OF isolatedD(2) [OF iso j(1,3)] fr(1) sub']
    then show ?thesis using o by (simp add: foot_def sees_def cong: if_cong)
  qed
  have ft: "foot k' j = foot k j" "sees k' j = sees k j" if "j < 64" "j \<noteq> i" for j
    using kept [OF that] other [OF that(2)] by (cases "ptab k j = 0"; simp add: foot_def footprint_def sees_def)+
  have dj: "foot k' i \<inter> foot k' j = {}" if "j < 64" "j \<noteq> i" for j
    using ft(1) [OF that] sub [OF that] keep by blast
  have "foot k' a \<inter> foot k' b = {}" if ab: "a < 64" "b < 64" "a \<noteq> b" for a b
    using ft(1) dj isolatedD(4) [OF iso ab(1,2,3)] ab by (cases "a = i"; cases "b = i") (auto simp: Int_commute)
  moreover have "space_ok (kmem k') (ptab k' j) (npages k' j)" if "j < 64" "ptab k' j \<noteq> 0" for j
    using own kept [of j] other [of j] that by (cases "j = i") auto
  ultimately show ?thesis using wf ft other by (auto simp: keeps_def isolated_def)
qed

section \<open>Recycling\<close>

lemma free_tables_frames:
  assumes "free_tables t i n m = Ok m'" "i + n \<le> 1024" "unat t mod 4096 = 0" "unat g mod 4096 = 0" "g \<noteq> t"
  shows "frame_eq (ram m) (ram m') g"
  using assms(1,2)
proof (induction n arbitrary: i m)
  case (Suc n)
  show ?case
  proof (cases "load32 (ram m) (pte_addr t (of_nat i)) AND PAGE_V = 0")
    case True
    then show ?thesis using Suc by (simp add: Let_def)
  next
    case False
    then obtain m1 where m1: "free_pages (pte_table (load32 (ram m) (pte_addr t (of_nat i)))) 1 m = Ok m1"
      "free_tables t (Suc i) n (m1\<lparr>ram := store32 (ram m1) (pte_addr t (of_nat i)) 0\<rparr>) = Ok m'"
      using Suc.prems(1) by (auto simp: Let_def kbind_Ok_iff)
    have u: "unat (of_nat i :: u32) < 1024" using Suc.prems(2) by (simp add: unat_of_nat32)
    have "frame_eq (ram m) (store32 (ram m) (pte_addr t (of_nat i)) 0) g"
      by (rule store32_frame_eq [OF assms(3,4) u assms(5)])
    then show ?thesis using Suc.IH [OF m1(2)] Suc.prems(2) free_pages_ram [OF m1(1)] by (auto intro: frame_eq_trans)
  qed
qed simp

lemma free_space_frames:
  assumes "free_space t n m = Ok m'" "mem_wf m" "pt_wf m t" "user_frames m t 0 fs" "length fs \<le> 0xff000" "unat n = length fs"
    "unat g mod 4096 = 0" "g \<notin> tables m t"
  shows "frame_eq (ram m) (ram m') g"
proof -
  obtain m1 where m1: "free_user_pages t 0 (length fs) m = Ok m1" "frame_eq (ram m) (ram m1) g"
    using free_user_pages_result [OF assms(2-4)] assms(5,7,8) by auto
  then obtain m2 where m2: "free_tables t 0 1024 m1 = Ok m2" "free_pages t 1 m2 = Ok m'"
    using assms(1,6) by (auto simp: free_space_def kbind_Ok_iff)
  have "unat t mod 4096 = 0" using assms(2,3) used_frame_aligned by (auto simp: pt_wf_def)
  then have "frame_eq (ram m1) (ram m2) g"
    using free_tables_frames [OF m2(1), of g] assms(7,8) by (auto simp: tables_def)
  then show ?thesis using m1(2) free_pages_ram [OF m2(2)] by (auto intro: frame_eq_trans)
qed

lemma reset_slot_space [simp]: "p_page_table (reset_slot p) = p_page_table p" "p_user_pages (reset_slot p) = p_user_pages p"
  by (simp_all add: reset_slot_def clear_exec_args_def set_process_name_def)

lemma recycle_keeps:
  assumes "recycle_process_slot i k = Ok k'" "isolated k" "i < 64"
  shows "keeps {i} k k'" "\<And>j. j \<noteq> i \<Longrightarrow> procs k' j = procs k j" "current_proc k' = current_proc k"
    "p_state (procs k' i) = PROC_UNUSED" "ptab k' i = 0"
proof -
  define fs where "fs = fs_on_process_recycle (p_pid (procs k i)) (snd (procfs_cleanup (procs k i) (kfs k)))"
  obtain k1 where k1: "free_process_memory i (k\<lparr>kfs := fs\<rparr>) = Ok k1" "k' = upd i reset_slot k1"
    using assms(1) by (auto simp: recycle_process_slot_def kbind_Ok_iff fs_def)
  have st: "p_state (procs k' i) = PROC_UNUSED"
    by (simp add: k1(2) reset_slot_def clear_exec_args_def set_process_name_def)
  have "keeps {i} k k' \<and> (\<forall>j. j \<noteq> i \<longrightarrow> procs k' j = procs k j) \<and> current_proc k' = current_proc k \<and> ptab k' i = 0"
  proof (cases "ptab k i = 0")
    case True
    then have "k1 = k\<lparr>kfs := fs\<rparr>" using k1(1) by (simp add: free_process_memory_def)
    then have "same_spaces k k'" using k1(2) by (simp add: same_spaces_def upd_def)
    then show ?thesis using keeps_mono [OF same_spaces_keeps [OF assms(2)]] True k1(2) \<open>k1 = _\<close> by (simp add: upd_def)
  next
    case False
    note sp = space_okD [OF isolatedD(2) [OF assms(2,3) False]] and wf = isolatedD(1) [OF assms(2,3)]
    obtain m where m: "free_space (ptab k i) (p_user_pages (procs k i)) (kmem k) = Ok m"
      and k1': "k1 = upd i (\<lambda>p. p\<lparr>p_page_table := 0, p_user_pages := 0\<rparr>) (k\<lparr>kfs := fs, kmem := m\<rparr>)"
      using k1(1) False by (auto simp: free_process_memory_def kbind_Ok_iff Let_def)
    have len: "length (user_list (kmem k) (ptab k i) (npages k i)) \<le> 0xff000"
      "npages k i = length (user_list (kmem k) (ptab k i) (npages k i))" using sp(4,5) by simp_all
    have r: "mem_wf m" "used_frames m = used_frames (kmem k) - foot k i"
      using free_space_result [OF wf sp(2,3) len] m sp(6) by (auto simp: foot_def)
    have k': "kmem k' = m" "ptab k' i = 0" by (simp_all add: k1(2) k1' upd_def)
    have "keeps {i} k k'"
    proof (rule one_slot_keeps [OF assms(2,3)])
      show "mem_wf (kmem k')" using r k' by simp
      show "ptab k' j = ptab k j \<and> p_user_pages (procs k' j) = p_user_pages (procs k j)" if "j \<noteq> i" for j
        using that by (simp add: k1(2) k1' upd_def)
      show "g \<in> used_frames (kmem k') \<and> frame_eq (ram (kmem k)) (ram (kmem k')) g \<and> g \<notin> foot k' i"
        if "g \<in> used_frames (kmem k) - foot k i" for g
        using that r k' used_frame_aligned [OF wf, of g] free_space_frames [OF m wf sp(2,3) len, of g] sp(6)
        by (auto simp: foot_def footprint_def)
    qed (use k' in simp)
    then show ?thesis using k' by (simp add: k1(2) k1' upd_def)
  qed
  then show "keeps {i} k k'" "\<And>j. j \<noteq> i \<Longrightarrow> procs k' j = procs k j" "current_proc k' = current_proc k"
    "p_state (procs k' i) = PROC_UNUSED" "ptab k' i = 0" using st by auto
qed

lemma reap_loop_keeps:
  assumes "reap_loop i n k = Ok k'" "isolated k" "i + n \<le> 64"
  shows "keeps {j. p_state (procs k j) = PROC_EXITED} k k' \<and> current_proc k' = current_proc k \<and>
    (\<forall>j. p_state (procs k j) \<noteq> PROC_EXITED \<longrightarrow> procs k' j = procs k j) \<and> (\<forall>j. alive (procs k' j) \<longrightarrow> alive (procs k j))"
  using assms
proof (induction n arbitrary: i k)
  case 0
  then show ?case by (simp add: keeps_def)
next
  case (Suc n)
  show ?case
  proof (cases "p_state (procs k i) = PROC_EXITED \<and> p_parent_pid (procs k i) = 0")
    case False
    then show ?thesis using Suc by (auto split: if_splits)
  next
    case True
    then obtain k1 where k1: "recycle_process_slot i k = Ok k1" "reap_loop (Suc i) n k1 = Ok k'"
      using Suc.prems(1) by (auto simp: kbind_Ok_iff)
    have i: "i < 64" using Suc.prems(3) by simp
    note r = recycle_keeps [OF k1(1) Suc.prems(2) i]
    have IH: "keeps {j. p_state (procs k1 j) = PROC_EXITED} k1 k'" "current_proc k' = current_proc k1"
      "\<And>j. p_state (procs k1 j) \<noteq> PROC_EXITED \<Longrightarrow> procs k' j = procs k1 j" "\<And>j. alive (procs k' j) \<Longrightarrow> alive (procs k1 j)"
      using Suc.IH [OF k1(2) keeps_isolated [OF r(1)]] Suc.prems(3) by auto
    have "p_state (procs k j) = PROC_EXITED" if "p_state (procs k1 j) = PROC_EXITED" for j
      using r(2) [of j] r(4) that by (cases "j = i") auto
    then have "keeps {j. p_state (procs k j) = PROC_EXITED} k k'"
      using keeps_mono [OF keeps_trans [OF r(1) IH(1)], of "{j. p_state (procs k j) = PROC_EXITED}"] True by blast
    moreover have "procs k' j = procs k j" if "p_state (procs k j) \<noteq> PROC_EXITED" for j
      using IH(3) [of j] r(2) [of j] True that by (cases "j = i") auto
    moreover have "alive (procs k j)" if "alive (procs k' j)" for j
      using IH(4) [OF that] r(2) [of j] r(4) by (cases "j = i") (auto simp: alive_def)
    ultimately show ?thesis using IH(2) r(3) by simp
  qed
qed

lemma reap_keeps:
  assumes "reap_exited_processes k = Ok k'" "isolated k"
  shows "keeps {j. p_state (procs k j) = PROC_EXITED} k k'" "current_proc k' = current_proc k"
    "\<And>j. p_state (procs k j) \<noteq> PROC_EXITED \<Longrightarrow> procs k' j = procs k j" "\<And>j. alive (procs k' j) \<Longrightarrow> alive (procs k j)"
  using reap_loop_keeps [of 0 64 k k'] assms by (simp_all add: reap_exited_processes_def PROCS_MAX_def)

section \<open>New spaces\<close>

text \<open>A space that was built in frames that were free keeps everything that was in use.\<close>

lemma new_space_keeps:
  assumes iso: "isolated k" and i: "i < 64" and wf: "mem_wf (kmem k')" and t: "ptab k' i = t" "t \<noteq> 0" "pt_wf (kmem k') t"
    and other: "\<And>j. j \<noteq> i \<Longrightarrow> ptab k' j = ptab k j \<and> p_user_pages (procs k' j) = p_user_pages (procs k j)"
    and fs: "user_frames (kmem k') t 0 fs" "length fs = npages k' i" "length fs \<le> 0xff000"
    and fresh: "(tables (kmem k') t \<union> set fs) \<inter> used_frames (kmem k) = {}"
    and used: "used_frames (kmem k) \<subseteq> used_frames (kmem k')"
    and keep: "\<And>g. g \<in> used_frames (kmem k) \<Longrightarrow> frame_eq (ram (kmem k)) (ram (kmem k')) g"
    and sup: "\<And>v. v mod 4096 = 0 \<Longrightarrow> v \<notin> user_va ` {..< length fs} \<Longrightarrow> sv32_walk (ram (kmem k')) t v = kernel_map kb fe v"
  shows "keeps {i} k k'"
proof -
  have sp: "space_ok (kmem k') t (npages k' i)" "footprint (kmem k') t (npages k' i) = tables (kmem k') t \<union> set fs"
    using space_okI [OF t(2,3) fs(1,2)] fs(2,3) sup kernel_map_not_user by auto
  show ?thesis
  proof (rule one_slot_keeps [OF iso i wf other])
    show "g \<in> used_frames (kmem k') \<and> frame_eq (ram (kmem k)) (ram (kmem k')) g \<and> g \<notin> foot k' i"
      if "g \<in> used_frames (kmem k) - foot k i" for g
      using that used keep fresh sp(2) t(1) by (auto simp: foot_def)
    show "space_ok (kmem k') (ptab k' i) (npages k' i)" using sp(1) unfolding t(1) .
  qed
qed

lemma grow_keeps:
  assumes iso: "isolated k" and wf: "mem_wf m'" and used: "used_frames (kmem k) \<subseteq> used_frames m'"
    and keep: "\<And>g. g \<in> used_frames (kmem k) \<Longrightarrow> frame_eq (ram (kmem k)) (ram m') g"
  shows "keeps {} k (k\<lparr>kmem := m'\<rparr>)"
proof -
  have kept: "space_ok m' (ptab k j) (npages k j)" "foot (k\<lparr>kmem := m'\<rparr>) j = foot k j" "sees (k\<lparr>kmem := m'\<rparr>) j = sees k j"
    if j: "j < 64" "ptab k j \<noteq> 0" for j
  proof -
    have fr: "footprint (kmem k) (ptab k j) (npages k j) \<subseteq> used_frames (kmem k)"
      using isolatedD(3) [OF iso j(1)] by (simp add: foot_def)
    note sk = space_kept [OF isolatedD(2) [OF iso j] keep order_trans [OF fr used]]
    show "space_ok m' (ptab k j) (npages k j)" "foot (k\<lparr>kmem := m'\<rparr>) j = foot k j" "sees (k\<lparr>kmem := m'\<rparr>) j = sees k j"
      using sk fr by (auto simp: foot_def sees_def fun_eq_iff)
  qed
  have ft: "foot (k\<lparr>kmem := m'\<rparr>) j = foot k j" "sees (k\<lparr>kmem := m'\<rparr>) j = sees k j" if "j < 64" for j
    using kept(2,3) [OF that] by (cases "ptab k j = 0"; simp add: foot_def footprint_def sees_def)+
  show ?thesis using wf kept(1) ft isolatedD(4) [OF iso] by (auto simp: keeps_def isolated_def)
qed

lemma unused_slot_state:
  assumes "unused_slot k = Some i"
  shows "i < 64" "p_state (procs k i) = PROC_UNUSED"
  using scan_from_SomeD [OF assms [unfolded unused_slot_def]] by (simp_all add: PROCS_MAX_def)

text \<open>The slots that do not hold a living process.\<close>

definition idle_slots :: "kstate \<Rightarrow> nat set" where
  "idle_slots k = {j. p_state (procs k j) = PROC_EXITED \<or> p_state (procs k j) = PROC_UNUSED}"

lemma create_keeps:
  assumes "create_process img name k = Ok (p, k')" "isolated k" "length (pages_of img) \<le> 0xff000"
  shows "keeps (idle_slots k) k k' \<and> (\<forall>j. alive (procs k' j) \<longrightarrow> alive (procs k j) \<or> ptab k' j \<noteq> 0)"
proof -
  obtain k1 where k1: "reap_exited_processes k = Ok k1" using assms(1) by (auto simp: create_process_def kbind_Ok_iff)
  note r = reap_keeps [OF k1 assms(2)]
  show ?thesis
  proof (cases "unused_slot k1")
    case None
    then have "k' = k1" using assms(1) k1 by (simp add: create_process_def)
    then show ?thesis using keeps_mono [OF r(1), of "idle_slots k"] r(4) by (auto simp: idle_slots_def)
  next
    case (Some i)
    obtain t m1 m2 m3 where a: "alloc_pages 1 (kmem k1) = Ok (t, m1)"
      and km: "map_kernel t (kernel_base k1) (free_ram_end k1) m1 = Ok m2" and l: "load_image t USER_BASE img m2 = Ok m3"
      and fin: "(case fs_get_root_entry (kfs k1) of None \<Rightarrow> kbind (recycle_process_slot i (k1\<lparr>kmem := m3\<rparr>)) (\<lambda>s. Ok (None, s))
            | Some root \<Rightarrow> Ok (Some i, sync i (upd i (new_process i name (image_pages img) t root) (k1\<lparr>kmem := m3\<rparr>)))) = Ok (p, k')"
      using assms(1) k1 Some by (auto simp: create_process_def kbind_Ok_iff Let_def)
    note iso = keeps_isolated [OF r(1)] and i = unused_slot_state [OF Some]
    note wf = isolatedD(1) [OF iso i(1)]
    have k1': "p_state (procs k i) = PROC_EXITED \<or> p_state (procs k i) = PROC_UNUSED"
      using r(3) [of i] i(2) by (cases "p_state (procs k i) = PROC_EXITED") auto
    obtain fs where ns: "mem_wf m3" "pt_wf m3 t" "length fs = length (pages_of img)" "distinct fs" "set fs \<inter> tables m3 t = {}"
      "set fs \<inter> used_frames (kmem k1) = {}" "tables m3 t \<inter> used_frames (kmem k1) = {}"
      "used_frames m3 = used_frames (kmem k1) \<union> set fs \<union> tables m3 t"
      "maps_pages m3 t USER_BASE fs (replicate (length fs) USER_FLAGS)"
      "\<And>v. v mod 4096 = 0 \<Longrightarrow> v \<notin> user_va ` {..< length fs} \<Longrightarrow>
         sv32_walk (ram m3) t v = kernel_map (kernel_base k1) (free_ram_end k1) v"
      "\<And>g. unat g mod 4096 = 0 \<Longrightarrow> g \<notin> set fs \<Longrightarrow> g \<notin> tables m3 t \<Longrightarrow> frame_eq (ram (kmem k1)) (ram m3) g"
      by (rule new_space_result [OF wf a km l assms(3)]) blast
    have kp: "frame_eq (ram (kmem k1)) (ram m3) g" if "g \<in> used_frames (kmem k1)" for g
      by (rule ns(11) [OF used_frame_aligned [OF wf that]]) (use ns(6,7) that in auto)
    have "keeps {i} k1 k' \<and> (\<forall>j. alive (procs k' j) \<longrightarrow> alive (procs k1 j) \<or> ptab k' j \<noteq> 0)"
    proof (cases "fs_get_root_entry (kfs k1)")
      case None
      then have "recycle_process_slot i (k1\<lparr>kmem := m3\<rparr>) = Ok k'" using fin by (simp add: kbind_Ok_iff)
      moreover have g: "keeps {} k1 (k1\<lparr>kmem := m3\<rparr>)" by (rule grow_keeps [OF iso ns(1) _ kp]) (use ns(8) in auto)
      note rc = recycle_keeps [OF calculation keeps_isolated [OF g] i(1)]
      have "alive (procs k1 j)" if "alive (procs k' j)" for j using rc(2) [of j] rc(4) that by (cases "j = i") (auto simp: alive_def)
      then show ?thesis using keeps_trans [OF g rc(1)] by simp
    next
      case (Some root)
      then have k': "k' = sync i (upd i (new_process i name (image_pages img) t root) (k1\<lparr>kmem := m3\<rparr>))" using fin by simp
      have np: "p_page_table (new_process i name n t root q) = t" "p_user_pages (new_process i name n t root q) = n" for n q
        by (simp_all add: new_process_def clear_exec_args_def set_process_name_def)
      have t0: "t \<noteq> 0" by (rule used_frame_nonzero [OF ns(1)]) (use ns(2) in \<open>simp add: pt_wf_def\<close>)
      moreover have "user_frames m3 t 0 fs" using ns(4,5,8,9) by (auto simp: user_frames_def maps_pages_def user_va_def)
      ultimately have "keeps {i} k1 k'"
        using ns kp assms(3) unat_image_pages [OF assms(3)]
        by (intro new_space_keeps [OF iso i(1), where t = t and fs = fs]) (auto simp: k' np)
      then show ?thesis using t0 by (auto simp: k' np)
    qed
    then show ?thesis
      using keeps_mono [OF keeps_trans [OF r(1)], of "{i}" k' "idle_slots k"] k1' r(4) by (auto simp: idle_slots_def)
  qed
qed

section \<open>Forking\<close>

lemma user_list_maps:
  assumes "space_ok m t n"
  obtains fls where "maps_pages m t (user_va 0) (user_list m t n) fls"
proof -
  note d = space_okD [OF assms]
  let ?fls = "map (\<lambda>j. snd (the (sv32_walk (ram m) t (user_va j)))) [0 ..< n]"
  have "maps_pages m t (user_va 0) (user_list m t n) ?fls"
    using d(3,5) by (fastforce simp: maps_pages_def user_frames_def user_va_def)
  then show thesis by (rule that)
qed

lemma fork_finish_keeps:
  assumes "fork_finish cur child tf s = Ok (r, s')" "isolated s" "child < 64"
  shows "keeps {child} s s'" "ptab s child \<noteq> 0 \<Longrightarrow> alive (procs s' j) \<Longrightarrow> alive (procs s j) \<or> ptab s' j \<noteq> 0"
proof -
  define s1 where "s1 = (upd child (\<lambda>p. p\<lparr>p_ctx := Ctx_fork_return (tf\<lparr>tf_a0 := 0\<rparr>) (csr_sepc s + 4) (csr_sstatus s)\<rparr>) s)
      \<lparr>kfs := snd (fs_fork_copy_fds (p_pid (procs s cur)) (p_pid (procs s child)) (kfs s))\<rparr>"
  have k1: "keeps {} s s1" by (rule same_spaces_keeps [OF assms(2)]) (simp add: s1_def same_spaces_def upd_def)
  have pid: "p_pid (procs (upd child (\<lambda>p. p\<lparr>p_ctx := c\<rparr>) s) j) = p_pid (procs s j)" for c j by (simp add: upd_def)
  consider "fork_fail child s1 = Ok (r, s')" | "same_spaces s s'" "\<forall>j. j \<noteq> child \<longrightarrow> procs s' j = procs s j"
    using assms(1) by (auto simp: fork_finish_def Let_def case_prod_beta pid s1_def same_spaces_def upd_def split: if_splits)
  then have "keeps {child} s s' \<and> (ptab s child \<noteq> 0 \<longrightarrow> alive (procs s' j) \<longrightarrow> alive (procs s j) \<or> ptab s' j \<noteq> 0)"
  proof cases
    case 1
    then have rc: "recycle_process_slot child s1 = Ok s'" by (auto simp: fork_fail_def kbind_Ok_iff)
    note rc = recycle_keeps [OF rc keeps_isolated [OF k1] assms(3)]
    have "alive (procs s j)" if "alive (procs s' j)"
      using that rc(2) [of j] rc(4) by (cases "j = child") (auto simp: alive_def s1_def)
    then show ?thesis using keeps_trans [OF k1 rc(1)] by simp
  next
    case 2
    have "alive (procs s j) \<or> ptab s' j \<noteq> 0" if "ptab s child \<noteq> 0" "alive (procs s' j)"
      using 2 that by (cases "j = child") (auto simp: same_spaces_def)
    then show ?thesis using keeps_mono [OF same_spaces_keeps [OF assms(2) 2(1)]] by auto
  qed
  then show "keeps {child} s s'" "ptab s child \<noteq> 0 \<Longrightarrow> alive (procs s' j) \<Longrightarrow> alive (procs s j) \<or> ptab s' j \<noteq> 0" by auto
qed

lemma fork_memory_keeps:
  assumes "fork_memory cur child tf s = Ok (r, s')" "isolated s" "cur \<noteq> child" "cur < 64" "child < 64" "ptab s cur \<noteq> 0"
  shows "keeps {child} s s' \<and> (\<forall>j. alive (procs s' j) \<longrightarrow> alive (procs s j) \<or> ptab s' j \<noteq> 0)"
proof -
  let ?pt = "ptab s cur" and ?n = "npages s cur"
  note wf = isolatedD(1) [OF assms(2,4)] and d = space_okD [OF isolatedD(2) [OF assms(2,4,6)]]
  let ?fs = "user_list (kmem s) ?pt ?n"
  obtain t m1 where a: "alloc_pages 1 (kmem s) = Ok (t, m1)" and F1: "(if t = 0 then fork_fail child (s\<lparr>kmem := m1\<rparr>)
      else kbind (map_kernel t (kernel_base s) (free_ram_end s) m1) (fork_copy cur child tf t s)) = Ok (r, s')"
    using assms(1) unfolding fork_memory_copy [OF assms(3)] kbind_Ok_iff by auto
  note t = alloc_table [OF wf a]
  have t0: "t \<noteq> 0" by (rule used_frame_nonzero [OF t(1)]) (simp add: t(6))
  then obtain m2 where k: "map_kernel t (kernel_base s) (free_ram_end s) m1 = Ok m2" and F2: "fork_copy cur child tf t s m2 = Ok (r, s')"
    using F1 by (simp only: if_False kbind_Ok_iff) blast
  obtain ok m3 where c: "copy_pages ?pt t 0 (length ?fs) m2 = Ok (ok, m3)" and
    f: "(if \<not> ok then fork_fail child (fork_child_space child t (p_user_pages (procs s cur)) m3 s)
       else fork_finish cur child tf (fork_child_space child t (p_user_pages (procs s cur)) m3 s)) = Ok (r, s')"
    using F2 unfolding fork_copy_def kbind_Ok_iff d(5) split_paired_Ex prod.case by blast
  obtain fls where mp: "maps_pages (kmem s) ?pt (user_va 0) ?fs fls" by (rule user_list_maps [OF isolatedD(2) [OF assms(2,4,6)]])
  have sub: "tables (kmem s) ?pt \<union> set ?fs \<subseteq> used_frames (kmem s)" using d(6,7) by simp
  note km = map_kernel_result [OF k t(1,2,7)]
  note st = table_other_space [OF wf a mp sub]
  note o = other_space_kept [OF km(1) t(1) st(1,2)]
  from copy_pages_result [OF c extendsD(1,2) [OF km(1)] o(1,2)] d(4,5) obtain cs where ok and len: "length cs = length ?fs"
    and ad: "adds_pages t (user_va 0) m2 m3 cs fls (map (\<lambda>f. ram_read (ram m2) f 4096) ?fs)" by auto
  have c3: "extends t m2 m3" "distinct cs" "set cs \<subseteq> fresh m2 m3" "set cs \<inter> tables m3 t = {}"
    "used_frames m3 = used_frames m2 \<union> set cs \<union> tables m3 t" "maps_pages m3 t (user_va 0) cs fls"
    and wk: "\<And>v. v mod 4096 = 0 \<Longrightarrow> v \<notin> user_va ` {..< length cs} \<Longrightarrow> sv32_walk (ram m3) t v = sv32_walk (ram m2) t v"
    using ad by (auto simp: adds_pages_def user_va_def [abs_def])
  have ext: "extends t m1 m3" by (rule extends_trans [OF km(1) c3(1)])
  have uf: "user_frames m3 t 0 cs" using c3(2,4,5,6) by (auto simp: user_frames_def maps_pages_def user_va_def)
  have kp: "frame_eq (ram (kmem s)) (ram m3) g" if g: "g \<in> used_frames (kmem s)" for g
  proof -
    note al = used_frame_aligned [OF wf g]
    have "g \<noteq> t" "g \<notin> fresh m1 m3" using g t(5,6) by (auto simp: fresh_def)
    then show ?thesis using frame_eq_trans [OF t(8) [OF al] extendsD(6) [OF ext al]] t(4) by simp
  qed
  let ?s = "fork_child_space child t (p_user_pages (procs s cur)) m3 s"
  have s: "kmem ?s = m3" "ptab ?s child = t" "npages ?s child = ?n"
    "\<And>j. j \<noteq> child \<Longrightarrow> procs ?s j = procs s j" by (simp_all add: fork_child_space_def)
  have "(tables m3 t \<union> set cs) \<inter> used_frames (kmem s) = {}"
    using extendsD(5) [OF ext] c3(3) extendsD(3) [OF km(1)] t(4,5,6) by (auto simp: fresh_def)
  then have k1: "keeps {child} s ?s"
    using extendsD(1,2) [OF ext] extendsD(3) [OF ext] uf kp t0 d(4,5) len t(6) wk km(4)
    by (intro new_space_keeps [OF assms(2,5), where t = t and fs = cs]) (auto simp: s)
  have ff: "fork_finish cur child tf ?s = Ok (r, s')" using f \<open>ok\<close> by simp
  note fin = fork_finish_keeps [OF ff keeps_isolated [OF k1] assms(5)]
  have "alive (procs s j) \<or> ptab s' j \<noteq> 0" if "alive (procs s' j)" for j
    using fin(2) [OF _ that] s(2) s(4) [of j] t0 by (cases "j = child") (auto simp: fork_child_space_def alive_def)
  then show ?thesis using keeps_trans [OF k1 fin(1)] by simp
qed

lemma fork_keeps:
  assumes "process_fork tf k = Ok (r, k')" "isolated k"
    "\<And>c. current_proc k = Some c \<Longrightarrow> c < 64 \<and> ptab k c \<noteq> 0 \<and> p_state (procs k c) \<noteq> PROC_EXITED"
  shows "keeps (idle_slots k) k k' \<and> (\<forall>j. alive (procs k' j) \<longrightarrow> alive (procs k j) \<or> ptab k' j \<noteq> 0)"
proof -
  obtain k1 where k1: "reap_exited_processes k = Ok k1"
    using assms(1) by (auto simp: process_fork_def alloc_proc_slot_def kbind_Ok_iff)
  note r = reap_keeps [OF k1 assms(2)] and iso = keeps_isolated [OF reap_keeps(1) [OF k1 assms(2)]]
  show ?thesis
  proof (cases "unused_slot k1")
    case None
    then have "k' = k1" using assms(1) k1 by (simp add: process_fork_def alloc_proc_slot_def)
    then show ?thesis using keeps_mono [OF r(1), of "idle_slots k"] r(4) by (auto simp: idle_slots_def)
  next
    case (Some i)
    note i = unused_slot_state [OF Some]
    define k2 where "k2 = upd i (\<lambda>p. clear_exec_args (p\<lparr>p_pid := int i, p_state := PROC_UNUSED,
         p_wait_reason := PROC_WAIT_NONE, p_wait_pid := -1, p_parent_pid := 0\<rparr>)) k1"
    have run: "(case current_proc k2 of None \<Rightarrow> fork_fail i k2
          | Some cur \<Rightarrow> if p_state (procs k2 cur) \<noteq> PROC_RUNNABLE \<and> p_state (procs k2 cur) \<noteq> PROC_WAITTING then fork_fail i k2
              else fork_memory cur i tf (upd i (inherit (procs k2 cur)) k2)) = Ok (r, k')"
    proof -
      have "alloc_proc_slot k = Ok (Some i, k2)" using k1 Some by (simp add: alloc_proc_slot_def k2_def)
      then show ?thesis using assms(1) by (simp add: process_fork_def)
    qed
    have i': "i \<in> idle_slots k"
      using r(3) [of i] i(2) by (cases "p_state (procs k i) = PROC_EXITED") (auto simp: idle_slots_def)
    have cl: "p_page_table (clear_exec_args p) = p_page_table p" "p_user_pages (clear_exec_args p) = p_user_pages p"
      "p_state (clear_exec_args p) = p_state p" for p by (simp_all add: clear_exec_args_def)
    have k2: "keeps {} k1 k2" by (rule same_spaces_keeps [OF iso]) (simp add: k2_def same_spaces_def upd_def cl)
    have al2: "alive (procs k1 j)" if "alive (procs k2 j)" for j using that by (auto simp: k2_def cl alive_def split: if_splits)
    have fail: "keeps {i} k1 k' \<and> (\<forall>j. alive (procs k' j) \<longrightarrow> alive (procs k1 j) \<or> ptab k' j \<noteq> 0)" if "fork_fail i k2 = Ok (r, k')"
    proof -
      have "recycle_process_slot i k2 = Ok k'" using that by (auto simp: fork_fail_def kbind_Ok_iff)
      note rc = recycle_keeps [OF this keeps_isolated [OF k2] i(1)]
      have "alive (procs k1 j)" if "alive (procs k' j)" for j
        using that rc(2) [of j] rc(4) al2 by (cases "j = i") (auto simp: alive_def)
      then show ?thesis using keeps_trans [OF k2 rc(1)] by simp
    qed
    have "keeps {i} k1 k' \<and> (\<forall>j. alive (procs k' j) \<longrightarrow> alive (procs k1 j) \<or> ptab k' j \<noteq> 0)"
    proof (cases "current_proc k2")
      case None
      then show ?thesis using run fail by simp
    next
      case cur: (Some c)
      have c: "c < 64" "ptab k c \<noteq> 0" "procs k1 c = procs k c"
        using cur assms(3) [of c] r(2,3) by (simp_all add: k2_def)
      show ?thesis
      proof (cases "p_state (procs k2 c) \<noteq> PROC_RUNNABLE \<and> p_state (procs k2 c) \<noteq> PROC_WAITTING")
        case True
        then show ?thesis using run cur fail by simp
      next
        case False
        let ?k = "upd i (inherit (procs k2 c)) k2"
        have ci: "c \<noteq> i" using False by (auto simp: k2_def cl)
        have k3: "keeps {} k2 ?k"
          by (rule same_spaces_keeps [OF keeps_isolated [OF k2]]) (simp add: same_spaces_def upd_def inherit_def)
        have "fork_memory c i tf ?k = Ok (r, k')" using run cur False by auto
        moreover have "ptab ?k c \<noteq> 0" using c ci by (simp add: k2_def)
        ultimately have fm: "keeps {i} ?k k'" "\<And>j. alive (procs k' j) \<Longrightarrow> alive (procs ?k j) \<or> ptab k' j \<noteq> 0"
          using fork_memory_keeps [OF _ keeps_isolated [OF k3] ci c(1) i(1)] by blast+
        have "alive (procs k1 j) \<or> ptab k' j \<noteq> 0" if "alive (procs k' j)" for j
          using fm(2) [OF that] al2 [of j] by (auto simp: inherit_def alive_def split: if_splits)
        then show ?thesis using keeps_trans [OF keeps_trans [OF k2 k3] fm(1)] by simp
      qed
    qed
    then show ?thesis using keeps_mono [OF keeps_trans [OF r(1)], of "{i}" k' "idle_slots k"] i' r(4) by (auto simp: idle_slots_def)
  qed
qed

section \<open>Executing\<close>

lemma exec_load_image_succeeds:
  assumes "exec_load_image t va img m = Ok (ok, m')" "mem_wf m" "pt_wf m t"
  shows "ok"
  using assms
proof (induction t va img m rule: exec_load_image.induct)
  case (1 t va img m)
  show ?case
  proof (cases "img = []")
    case True
    then show ?thesis using 1(2) by (simp add: exec_load_image.simps)
  next
    case False
    let ?fl = "PAGE_U OR PAGE_R OR PAGE_W OR PAGE_X"
    obtain p m1 where a: "alloc_pages 1 m = Ok (p, m1)" and F: "(if p = 0 then Ok (False, m1)
        else kbind (map_page t va p ?fl (m1\<lparr>ram := ram_write (ram m1) p (take 4096 img)\<rparr>)) (exec_load_image t (va + 4096) (drop 4096 img))) = Ok (ok, m')"
      using 1(2) False by (subst (asm) exec_load_image.simps) (auto simp: kbind_Ok_iff)
    have p0: "p \<noteq> 0" using used_frame_nonzero [of m1 p] alloc_table [OF 1(3) a] by auto
    obtain m2 where mp: "map_page t va p ?fl (m1\<lparr>ram := ram_write (ram m1) p (take 4096 img)\<rparr>) = Ok m2"
      and r: "exec_load_image t (va + 4096) (drop 4096 img) m2 = Ok (ok, m')" using F p0 by (auto simp: kbind_Ok_iff)
    have fl: "unat ?fl < 1024" by (simp add: PAGE_U_def PAGE_R_def PAGE_W_def PAGE_X_def)
    note p = add_page [OF 1(3,4) a _ fl mp]
    show ?thesis by (rule 1(1) [OF False p0 r extendsD(1,2) [OF p(1)]]) simp_all
  qed
qed

lemma exec_keeps:
  assumes "process_exec img name argc argv k = Ok (r, k')" "isolated k" "current_proc k = Some c" "c < 64" "ptab k c \<noteq> 0"
    "length (pages_of img) \<le> 0xff000"
  shows "keeps {c} k k'"
proof (cases "r = 0")
  case True
  let ?t = "ptab k c" and ?fs = "user_list (kmem k) (ptab k c) (npages k c)"
  note d = space_okD [OF isolatedD(2) [OF assms(2,4,5)]]
  have len: "length ?fs \<le> 0xff000" using d(4,5) by simp
  have rest: "\<And>j. j \<noteq> c \<Longrightarrow> procs k' j = procs k j"
    using assms(1,3) True by (auto simp: process_exec_def free_user_pages_only_def kbind_Ok_iff Let_def split: if_splits)
  obtain fs where e: "mem_wf (kmem k')" "pt_wf (kmem k') ?t" "ptab k' c = ?t" "length fs = npages k' c" "user_frames (kmem k') ?t 0 fs"
      "tables (kmem k') ?t \<inter> (used_frames (kmem k) - set ?fs - tables (kmem k) ?t) = {}"
      "set fs \<inter> (used_frames (kmem k) - set ?fs) = {}"
      "used_frames (kmem k') = (used_frames (kmem k) - set ?fs) \<union> set fs \<union> tables (kmem k') ?t"
    and beyond: "\<forall>j. length fs \<le> j \<longrightarrow> j < length ?fs \<longrightarrow> sv32_walk (ram (kmem k')) ?t (user_va j) = None"
    and other: "\<forall>v. v mod 4096 = 0 \<longrightarrow> v \<notin> user_va ` {..< max (length ?fs) (length (pages_of img))} \<longrightarrow>
       sv32_walk (ram (kmem k')) ?t v = sv32_walk (ram (kmem k)) ?t v"
    and kp: "\<forall>g \<in> used_frames (kmem k) - set ?fs - tables (kmem k) ?t. frame_eq (ram (kmem k)) (ram (kmem k')) g"
    using exec_space [OF assms(3) refl assms(5) isolatedD(1) [OF assms(2,4)] d(2,3,5) len assms(6) assms(1) [unfolded True]]
    by (elim conjE exE) (rule that)
  have np: "npages k' c = length (pages_of img)"
    by (rule process_exec_memory [OF assms(3) refl assms(5) assms(1) [unfolded True]]) (simp add: unat_image_pages [OF assms(6)])
  have sup: "fl AND PAGE_U = 0" if v: "v mod 4096 = 0" "v \<notin> user_va ` {..< length fs}" "sv32_walk (ram (kmem k')) ?t v = Some (f, fl)" for v f fl
  proof -
    have "v \<noteq> user_va j" if "j < length ?fs" for j
      using beyond [rule_format, of j] that v(2,3) by (cases "j < length fs") auto
    then have "v \<notin> user_va ` {..< length ?fs}" by auto
    moreover from this have "v \<notin> user_va ` {..< max (length ?fs) (length (pages_of img))}" using v(2) e(4) np by (auto simp: max_def split: if_splits)
    ultimately show ?thesis using other [rule_format, OF v(1)] v(3) d(5) d(9) [of v f fl] v(1) by simp
  qed
  have sp: "space_ok (kmem k') ?t (npages k' c)" "footprint (kmem k') ?t (npages k' c) = tables (kmem k') ?t \<union> set fs"
    using space_okI [OF assms(5) e(2,5,4)] sup np assms(6) e(4) by auto
  show ?thesis
  proof (rule one_slot_keeps [OF assms(2,4) e(1)])
    show "g \<in> used_frames (kmem k') \<and> frame_eq (ram (kmem k)) (ram (kmem k')) g \<and> g \<notin> foot k' c"
      if "g \<in> used_frames (kmem k) - foot k c" for g
      using that e(6,7,8) kp sp(2) d(6) by (auto simp: foot_def e(3))
  qed (use rest sp(1) e(3) in auto)
next
  case False
  have "k' = k"
  proof (rule ccontr)
    assume "k' \<noteq> k"
    then obtain m1 ok m2 where m1: "free_user_pages (ptab k c) 0 (npages k c) (kmem k) = Ok m1"
        and l: "exec_load_image (ptab k c) USER_BASE img m1 = Ok (ok, m2)" and n: "\<not> ok"
      using assms(1,3,5) False by (auto simp: process_exec_def free_user_pages_only_def kbind_Ok_iff Let_def split: if_splits)
    note d = space_okD [OF isolatedD(2) [OF assms(2,4,5)]]
    have "mem_wf m1" "pt_wf m1 (ptab k c)"
      using free_user_pages_result [OF isolatedD(1) [OF assms(2,4)] d(2,3)] m1 d(4,5) by auto
    then show False using exec_load_image_succeeds [OF l] n by blast
  qed
  then show ?thesis using assms(2) by (simp add: keeps_def)
qed

section \<open>Writing to user pages\<close>

definition put_byte :: "u32 \<Rightarrow> u8 \<Rightarrow> kstate \<Rightarrow> kstate" where
  "put_byte p b k = k\<lparr>kmem := (kmem k)\<lparr>ram := (ram (kmem k))(p := b)\<rparr>\<rparr>"

lemma byte_frame_eq:
  assumes "unat f mod 4096 = 0" "unat g mod 4096 = 0" "g \<noteq> f"
  shows "frame_eq r (r(f + a mod 4096 := b)) g"
proof -
  obtain j where j: "j < 4096" "a mod 4096 = of_nat j" using page_of_address [of a] by blast
  have "g + of_nat i \<noteq> f + of_nat j" if "i < 4096" for i
    using frame_offset_eq [OF assms(1,2), of j i] that j(1) assms(3) by metis
  then show ?thesis by (simp add: frame_eq_def j(2))
qed

lemma put_byte_keeps:
  assumes "isolated k" "c < 64" "ptab k c \<noteq> 0" "sv32_walk (ram (kmem k)) (ptab k c) a = Some (f, fl)" "fl AND PAGE_U \<noteq> 0"
  shows "keeps {c} k (put_byte (f + a mod 4096) b k)"
    "sv32_walk (ram (kmem (put_byte (f + a mod 4096) b k))) (ptab k c) v = sv32_walk (ram (kmem k)) (ptab k c) v"
proof -
  let ?k = "put_byte (f + a mod 4096) b k" and ?t = "ptab k c" and ?fs = "user_list (kmem k) (ptab k c) (npages k c)"
  note sp = isolatedD(2) [OF assms(1-3)] and wf = isolatedD(1) [OF assms(1,2)]
  note d = space_okD [OF sp]
  have f: "f \<in> set ?fs" by (rule user_page_frame [OF sp assms(4,5)])
  then have fu: "f \<in> used_frames (kmem k)" "f \<notin> tables (kmem k) ?t" "f \<in> foot k c" using d(6,7,8) by (auto simp: foot_def)
  have k: "procs ?k = procs k" "used_frames (kmem ?k) = used_frames (kmem k)" "mem_wf (kmem ?k)"
    using wf by (simp_all add: put_byte_def used_frames_def used_pages_def bitmap_test_def page_addr_def mem_wf_def)
  have eq: "frame_eq (ram (kmem k)) (ram (kmem ?k)) g" if "g \<in> used_frames (kmem k)" "g \<noteq> f" for g
    using byte_frame_eq [OF used_frame_aligned [OF wf fu(1)] used_frame_aligned [OF wf that(1)] that(2)] by (simp add: put_byte_def)
  have tb: "frame_eq (ram (kmem k)) (ram (kmem ?k)) g" if "g \<in> tables (kmem k) ?t" for g
    by (rule eq) (use that d(6,7) fu(2) in auto)
  note st = same_tables(1,2) [of "kmem k" ?t "kmem ?k", OF tb]
  show "sv32_walk (ram (kmem ?k)) ?t v = sv32_walk (ram (kmem k)) ?t v" by (rule st(2))
  have "user_frames (kmem ?k) ?t 0 ?fs" using d(3) by (simp add: user_frames_def st k(2))
  then have own: "space_ok (kmem ?k) ?t (npages k c)" "footprint (kmem ?k) ?t (npages k c) = foot k c"
    using space_okI [of ?t "kmem ?k" ?fs "npages k c"] d pt_wf_kept [OF d(2) tb] by (auto simp: st k(2) foot_def)
  show "keeps {c} k ?k"
    by (rule one_slot_keeps [OF assms(1,2) k(3)]) (use eq fu(3) own in \<open>auto simp: k(1,2) foot_def\<close>)
qed

end
