(* ===== verification/SysSpaces.thy ===== *)
theory SysSpaces
  imports ProcTypes Isolation
begin

text \<open>
  Isolation of address spaces in the whole system. The invariant \<open>spaces\<close> adds to \<open>isolated\<close> that every living process
  has a page table and that the processor uses the one of the current process. A system call may change the space of its
  caller and the slots that do not hold a living process, before or after the call; the relations \<open>tidy\<close> and \<open>moved\<close> say
  so. The kernel does not check the pointers it gets: the theorem is about programs that pass buffers of their own,
  \<open>own_buffer\<close>, and the relation \<open>space_step\<close> lists the steps of such a system, among them the stores of programs in
  user mode.
\<close>

section \<open>The invariant\<close>

definition spaces :: "kstate \<Rightarrow> bool" where
  "spaces k \<longleftrightarrow> isolated k \<and> (\<forall>i < 64. alive (procs k i) \<longrightarrow> ptab k i \<noteq> 0) \<and>
     (\<forall>c < 64. current_proc k = Some c \<longrightarrow> alive (procs k c) \<longrightarrow> 0 < p_pid (procs k c) \<longrightarrow> satp_root k = ptab k c)"

lemma spacesD:
  assumes "spaces k"
  shows "isolated k" "\<And>i. i < 64 \<Longrightarrow> alive (procs k i) \<Longrightarrow> ptab k i \<noteq> 0"
    "\<And>c. c < 64 \<Longrightarrow> current_proc k = Some c \<Longrightarrow> alive (procs k c) \<Longrightarrow> 0 < p_pid (procs k c) \<Longrightarrow> satp_root k = ptab k c"
  using assms by (simp_all add: spaces_def)

lemma idle_slots_alive: "j \<in> idle_slots k \<longleftrightarrow> \<not> alive (procs k j)"
  by (cases "p_state (procs k j)") (auto simp: idle_slots_def alive_def)

text \<open>What an operation of process \<open>c\<close> may do: \<open>tidy\<close> revives no slot, \<open>moved\<close> may fill slots that were free.\<close>

definition tidy :: "nat \<Rightarrow> kstate \<Rightarrow> kstate \<Rightarrow> bool" where
  "tidy c k k' \<longleftrightarrow> spaces k' \<and> idle_slots k \<subseteq> idle_slots k' \<and> keeps (insert c (idle_slots k')) k k'"

definition moved :: "nat \<Rightarrow> kstate \<Rightarrow> kstate \<Rightarrow> bool" where
  "moved c k k' \<longleftrightarrow> spaces k' \<and> keeps (insert c (idle_slots k \<union> idle_slots k')) k k'"

lemma tidy_spaces: "tidy c k k' \<Longrightarrow> spaces k'" by (simp add: tidy_def)

lemma tidy_trans [trans]:
  assumes "tidy c k k1" "tidy c k1 k2"
  shows "tidy c k k2"
proof -
  have "keeps (insert c (idle_slots k1) \<union> insert c (idle_slots k2)) k k2"
    using keeps_trans [of "insert c (idle_slots k1)" k k1 "insert c (idle_slots k2)" k2] assms by (simp add: tidy_def)
  then show ?thesis using assms keeps_mono [of _ k k2 "insert c (idle_slots k2)"] by (auto simp: tidy_def)
qed

lemma tidy_moved: "tidy c k k' \<Longrightarrow> moved c k k'"
  by (auto simp: tidy_def moved_def intro: keeps_mono)

lemma moved_tidy:
  assumes "moved c k k1" "tidy c k1 k2"
  shows "moved c k k2"
proof -
  have "keeps (insert c (idle_slots k \<union> idle_slots k1) \<union> insert c (idle_slots k2)) k k2"
    using keeps_trans [of "insert c (idle_slots k \<union> idle_slots k1)" k k1 "insert c (idle_slots k2)" k2] assms by (simp add: tidy_def moved_def)
  then show ?thesis using assms keeps_mono [of _ k k2 "insert c (idle_slots k \<union> idle_slots k2)"] by (auto simp: tidy_def moved_def)
qed

lemma steady_spaces:
  assumes "spaces k" "steady k k'"
  shows "same_spaces k k'" "spaces k'" "tidy c k k'"
proof -
  have st: "kmem k' = kmem k" "csr_satp k' = csr_satp k" "current_proc k' = current_proc k"
    "\<And>j. ptab k' j = ptab k j" "\<And>j. p_user_pages (procs k' j) = p_user_pages (procs k j)" "\<And>j. p_pid (procs k' j) = p_pid (procs k j)"
    "\<And>j. alive (procs k' j) \<Longrightarrow> alive (procs k j)"
    using assms(2) by (simp_all add: steady_def core_def)
  show same: "same_spaces k k'" by (simp add: same_spaces_def st)
  note kp = same_spaces_keeps [OF spacesD(1) [OF assms(1)] same]
  show sp: "spaces k'"
    unfolding spaces_def
  proof (intro conjI allI impI)
    show "isolated k'" by (rule keeps_isolated [OF kp])
    show "ptab k' i \<noteq> 0" if "i < 64" "alive (procs k' i)" for i
      unfolding st(4) using spacesD(2) [OF assms(1) that(1) st(7) [OF that(2)]] .
    show "satp_root k' = ptab k' i" if "i < 64" "current_proc k' = Some i" "alive (procs k' i)" "0 < p_pid (procs k' i)" for i
      using spacesD(3) [OF assms(1) that(1)] that st(7) [OF that(3)] by (simp add: st(2,3,4,6) satp_root_def)
  qed
  have "idle_slots k \<subseteq> idle_slots k'" using st(7) by (auto simp: idle_slots_alive)
  then show "tidy c k k'" using sp keeps_mono [OF kp, of "insert c (idle_slots k')"] by (simp add: tidy_def)
qed

lemma recycle_tidy:
  assumes "recycle_process_slot i k = Ok k'" "spaces k" "i < 64" "\<not> alive (procs k i)"
  shows "tidy c k k'"
proof -
  note r = recycle_keeps [OF assms(1) spacesD(1) [OF assms(2)] assms(3)]
  have st: "csr_satp k' = csr_satp k" by (rule recycle_result [OF assms(1)]) (simp add: frame_def)
  have al: "alive (procs k' j) \<Longrightarrow> j \<noteq> i \<and> alive (procs k j)" for j
    using r(2) [of j] r(4) by (cases "j = i") (auto simp: alive_def)
  have "spaces k'"
    unfolding spaces_def
  proof (intro conjI allI impI)
    show "isolated k'" by (rule keeps_isolated [OF r(1)])
    show "ptab k' j \<noteq> 0" if "j < 64" "alive (procs k' j)" for j
      using spacesD(2) [OF assms(2) that(1)] al [OF that(2)] r(2) [of j] by simp
    show "satp_root k' = ptab k' j" if "j < 64" "current_proc k' = Some j" "alive (procs k' j)" "0 < p_pid (procs k' j)" for j
      using spacesD(3) [OF assms(2) that(1)] that al [OF that(3)] r(2) [of j] by (simp add: st r(3) satp_root_def)
  qed
  moreover have "i \<in> idle_slots k'" using r(4) by (simp add: idle_slots_def)
  ultimately show ?thesis using keeps_mono [OF r(1), of "insert c (idle_slots k')"] al by (auto simp: tidy_def idle_slots_alive)
qed

lemma tidy_refl: "spaces k \<Longrightarrow> tidy c k k"
  using spacesD(1) by (auto simp: tidy_def keeps_def)

lemma reap_tidy:
  assumes "reap_exited_processes k = Ok k'" "spaces k"
  shows "tidy c k k'"
proof -
  have "reap_loop i n k = Ok k' \<Longrightarrow> spaces k \<Longrightarrow> i + n \<le> 64 \<Longrightarrow> tidy c k k'" for i n
  proof (induction n arbitrary: i k)
    case (Suc n)
    show ?case
    proof (cases "p_state (procs k i) = PROC_EXITED \<and> p_parent_pid (procs k i) = 0")
      case True
      then obtain k1 where k1: "recycle_process_slot i k = Ok k1" "reap_loop (Suc i) n k1 = Ok k'"
        using Suc.prems(1) by (auto simp: kbind_Ok_iff)
      have "tidy c k k1" by (rule recycle_tidy [OF k1(1) Suc.prems(2)]) (use Suc.prems(3) True in \<open>auto simp: alive_def\<close>)
      then show ?thesis using tidy_trans Suc.IH [OF k1(2)] tidy_spaces Suc.prems(3) by (metis add_Suc_shift)
    qed (use Suc in \<open>auto split: if_splits\<close>)
  qed (simp add: tidy_refl)
  from this [of 0 64] show ?thesis using assms by (simp add: reap_exited_processes_def)
qed

section \<open>Scheduling\<close>

lemma satp_root_of:
  assumes "unat (t :: u32) mod 4096 = 0"
  shows "((SATP_SV32 OR t div 4096) AND 0x3fffff) * 4096 = t"
proof -
  have dv: "t div 4096 = drop_bit 12 t" by (simp add: drop_bit_eq_div)
  have m: "(0x3fffff :: u32) = mask 22" by (simp add: mask_eq_exp_minus_1)
  have "drop_bit 12 t AND mask 22 = drop_bit 12 t"
    by (rule bit_word_eqI) (auto simp: bit_simps dest: bit_imp_le_length)
  moreover have "SATP_SV32 AND mask 22 = 0" by (simp add: SATP_SV32_def mask_eq_exp_minus_1)
  ultimately have "(SATP_SV32 OR t div 4096) AND 0x3fffff = drop_bit 12 t"
    unfolding dv m by (simp add: bit.conj_disj_distrib2)
  then have "((SATP_SV32 OR t div 4096) AND 0x3fffff) * 4096 = t div 4096 * 4096" by (simp add: dv)
  also have "\<dots> = t" using mod_4096_unat [OF assms] by (metis add.right_neutral div_mult_mod_eq)
  finally show ?thesis .
qed

lemma yield_turn_tidy:
  assumes "yield_turn k = (t, k')" "spaces k" "current_proc k = Some c" "c < 64"
  shows "tidy d k k'"
proof (cases "pick_next k")
  case None
  then have "steady k k'" using assms(1) by (auto simp: yield_turn_def Let_def)
  then show ?thesis by (rule steady_spaces(3) [OF assms(2)])
next
  case (Some n)
  have n: "n < 64" "schedulable (procs k n)" using pick_next_Some [OF Some] by auto
  then have al: "alive (procs k n)" by (simp add: schedulable_def alive_def)
  show ?thesis
  proof (cases "n = c")
    case True
    have "steady k k'"
      using assms(1,3) Some True by (auto simp: yield_turn_def Let_def core_def alive_def intro!: steady_upd split: if_splits)
    then show ?thesis by (rule steady_spaces(3) [OF assms(2)])
  next
    case False
    have k': "kmem k' = kmem k" "current_proc k' = Some n" "csr_satp k' = SATP_SV32 OR ptab k n div 4096"
      "\<And>j. ptab k' j = ptab k j" "\<And>j. p_user_pages (procs k' j) = p_user_pages (procs k j)" "\<And>j. p_state (procs k' j) = p_state (procs k j)"
      using assms(1,3) Some False by (auto simp: yield_turn_def switch_context_def Let_def)
    have al': "alive (procs k' j) = alive (procs k j)" for j by (simp add: alive_def k'(6))
    have pt: "ptab k n \<noteq> 0" by (rule spacesD(2) [OF assms(2) n(1) al])
    note d = space_okD(2) [OF isolatedD(2) [OF spacesD(1) [OF assms(2)] n(1) pt]]
    have "unat (ptab k n) mod 4096 = 0"
      using d isolatedD(1) [OF spacesD(1) [OF assms(2)] n(1)] used_frame_aligned by (auto simp: pt_wf_def)
    then have root: "satp_root k' = ptab k n" unfolding satp_root_def k'(3) by (rule satp_root_of)
    have kp: "keeps {} k k'" by (rule same_spaces_keeps [OF spacesD(1) [OF assms(2)]]) (simp add: same_spaces_def k')
    have "spaces k'"
      using keeps_isolated [OF kp] spacesD(2) [OF assms(2)] root by (simp add: spaces_def k' al')
    then show ?thesis using keeps_mono [OF kp, of "insert d (idle_slots k')"] by (auto simp: tidy_def idle_slots_alive al')
  qed
qed

lemma yield_tidy:
  assumes "yield k = Ok (t, k')" "spaces k" "kinv k"
  shows "tidy d k k'"
proof -
  obtain k1 where k1: "reap_exited_processes k = Ok k1" "yield_turn k1 = (t, k')"
    using assms(1) by (auto simp: yield_def kbind_Ok_iff)
  have r: "tidy d k k1" by (rule reap_tidy [OF k1(1) assms(2)])
  obtain c where "current_proc k1 = Some c" "c < 64"
    using reap_keeps(2) [OF k1(1) spacesD(1) [OF assms(2)]] assms(3) by (auto simp: kinv_def)
  from tidy_trans [OF r yield_turn_tidy [OF k1(2) tidy_spaces [OF r] this]] show ?thesis .
qed

section \<open>Process operations\<close>

lemma refill_spaces:
  assumes "spaces k" "keeps (idle_slots k) k k'" "frame k k'" "\<And>j. alive (procs k' j) \<Longrightarrow> alive (procs k j) \<or> ptab k' j \<noteq> 0"
    "\<And>j. alive (procs k j) \<Longrightarrow> procs k' j = procs k j" "\<And>c. current_proc k = Some c \<Longrightarrow> alive (procs k c)"
  shows "moved c k k'"
proof -
  have f: "current_proc k' = current_proc k" "satp_root k' = satp_root k" using assms(3) by (simp_all add: frame_def satp_root_def)
  have "spaces k'"
    unfolding spaces_def
  proof (intro conjI allI impI)
    show "isolated k'" by (rule keeps_isolated [OF assms(2)])
    show "ptab k' i \<noteq> 0" if "i < 64" "alive (procs k' i)" for i
      using assms(4) [OF that(2)] assms(5) [of i] spacesD(2) [OF assms(1) that(1)] by auto
    show "satp_root k' = ptab k' i" if "i < 64" "current_proc k' = Some i" "alive (procs k' i)" "0 < p_pid (procs k' i)" for i
      using spacesD(3) [OF assms(1) that(1)] that assms(5,6) f by simp
  qed
  then show ?thesis using keeps_mono [OF assms(2), of "insert c (idle_slots k \<union> idle_slots k')"] by (auto simp: moved_def)
qed

lemma create_moved:
  assumes "create_process img name k = Ok (p, k')" "spaces k" "table_ok (procs k)" "length (pages_of img) \<le> 0xff000"
    "\<And>c. current_proc k = Some c \<Longrightarrow> alive (procs k c)"
  shows "moved c k k'"
proof -
  note ck = create_keeps [OF assms(1) spacesD(1) [OF assms(2)] assms(4)]
  show ?thesis
    by (rule create_result [OF assms(1,3)], rule refill_spaces [OF assms(2)]) (use ck assms(5) in auto)
qed

lemma fork_moved:
  assumes "process_fork tf k = Ok (r, k')" "spaces k" "table_ok (procs k)" "current_proc k = Some c" "c < 64" "alive (procs k c)"
  shows "moved d k k'"
proof -
  have fk: "keeps (idle_slots k) k k' \<and> (\<forall>j. alive (procs k' j) \<longrightarrow> alive (procs k j) \<or> ptab k' j \<noteq> 0)"
    by (rule fork_keeps [OF assms(1) spacesD(1) [OF assms(2)]])
      (use spacesD(2) [OF assms(2,5,6)] assms(4-6) in \<open>auto simp: alive_def\<close>)
  show ?thesis
    by (rule refill_spaces [OF assms(2)]) (use fk fork_result [OF assms(1,3,4,5)] assms(4,6) in auto)
qed

lemma exec_tidy:
  assumes "process_exec img name argc argv k = Ok (r, k')" "spaces k" "current_proc k = Some c" "c < 64" "alive (procs k c)"
    "length (pages_of img) \<le> 0xff000"
  shows "tidy c k k'"
proof -
  have pt: "ptab k c \<noteq> 0" by (rule spacesD(2) [OF assms(2,4,5)])
  note kp = exec_keeps [OF assms(1) spacesD(1) [OF assms(2)] assms(3,4) pt assms(6)]
  have f: "current_proc k' = current_proc k" "csr_satp k' = csr_satp k" "\<And>j. ptab k' j = ptab k j" "\<And>j. p_pid (procs k' j) = p_pid (procs k j)"
    "\<And>j. alive (procs k' j) = alive (procs k j)"
    using assms(1,3) by (auto simp: process_exec_def free_user_pages_only_def kbind_Ok_iff Let_def alive_def set_exec_args_def
        clear_exec_args_def set_process_name_def split: option.splits if_splits)
  have "spaces k'"
    using keeps_isolated [OF kp] spacesD(2,3) [OF assms(2)] by (simp add: spaces_def satp_root_def f)
  then show ?thesis using keeps_mono [OF kp, of "insert c (idle_slots k')"] by (auto simp: tidy_def idle_slots_alive f)
qed

lemma killed_result:
  assumes "kinv k" "find_process_by_pid a k = Some i" "p_state (procs k i) \<noteq> PROC_EXITED"
  shows "kinv (killed i k)" "\<not> alive (procs (killed i k) i)"
proof -
  note f = find_process_Some [OF assms(2)]
  have t: "table_ok (procs k)" using assms(1) by (simp add: kinv_def)
  have al: "alive (procs k i)" using assms(3) f(3) by (cases "p_state (procs k i)") (auto simp: alive_def)
  have pid: "p_pid (procs k i) = int i" using table_okD(1) [OF t f(1)] f(3) by (simp add: slot_ok_def)
  have pos: "0 < i" using f(2,4) pid by simp
  note e = end_process_result [OF t f(1) pos al]
  note d = disown_result [OF e(2) f(1) e(4)]
  show "kinv (killed i k)" unfolding killed_def pid by (rule kinv_frame [OF assms(1)]) (use e(1) d(1) in auto)
  show "\<not> alive (procs (killed i k) i)" unfolding killed_def pid using e(4) by (simp add: alive_def)
qed

lemma kill_tidy:
  assumes "process_kill a k = Ok (r, k')" "spaces k" "kinv k"
  shows "tidy d k k'"
  using assms(1)
proof (cases rule: process_kill_cases)
  case 1
  then show ?thesis using tidy_refl [OF assms(2)] by simp
next
  case (2 i t)
  have "kinv (killed i k)" by (rule killed_result(1) [OF assms(3) 2(1,2)])
  then show ?thesis using tidy_trans [OF steady_spaces(3) [OF assms(2) steady_killed]] yield_tidy [OF 2(4) steady_spaces(2) [OF assms(2) steady_killed]] by blast
next
  case (3 i)
  have "\<not> alive (procs (killed i k) i)" by (rule killed_result(2) [OF assms(3) 3(1,2)])
  then show ?thesis
    using tidy_trans [OF steady_spaces(3) [OF assms(2) steady_killed]]
      recycle_tidy [OF 3(4) steady_spaces(2) [OF assms(2) steady_killed]] find_process_Some(1) [OF 3(1)] by blast
qed

section \<open>Buffers of user programs\<close>

definition user_page :: "kstate \<Rightarrow> u32 \<Rightarrow> bool" where
  "user_page k v \<longleftrightarrow> (\<exists>f fl. sv32_walk (ram (kmem k)) (satp_root k) v = Some (f, fl) \<and> fl AND PAGE_U \<noteq> 0)"

definition user_range :: "kstate \<Rightarrow> u32 \<Rightarrow> nat \<Rightarrow> bool" where
  "user_range k a n \<longleftrightarrow> (\<forall>j < n. user_page k (a + of_nat j))"

text \<open>The process that runs.\<close>

definition active :: "nat \<Rightarrow> kstate \<Rightarrow> bool" where
  "active c k \<longleftrightarrow> current_proc k = Some c \<and> c < 64 \<and> alive (procs k c) \<and> 0 < p_pid (procs k c)"

lemma running_active: "running s \<Longrightarrow> active (cur_slot s) (kern s)"
  by (auto simp: running_def active_def schedulable_def alive_def)

lemma active_running: "running s \<Longrightarrow> current_proc (kern s) = Some c \<Longrightarrow> active c (kern s)"
  using running_active by fastforce

lemma steady_range: "steady k k' \<Longrightarrow> user_range k' a n = user_range k a n"
  by (simp add: steady_def user_range_def user_page_def satp_root_def)

lemma put_byte_tidy:
  assumes "spaces k" "active c k" "sv32_walk (ram (kmem k)) (satp_root k) a = Some (f, fl)" "fl AND PAGE_U \<noteq> 0"
  shows "tidy c k (put_byte (f + a mod 4096) b k)" "user_page (put_byte (f + a mod 4096) b k) v = user_page k v"
proof -
  let ?k = "put_byte (f + a mod 4096) b k"
  have c: "c < 64" "alive (procs k c)" "satp_root k = ptab k c"
    using assms(1,2) spacesD(3) by (auto simp: active_def)
  note pt = spacesD(2) [OF assms(1) c(1,2)]
  note pb = put_byte_keeps [OF spacesD(1) [OF assms(1)] c(1) pt assms(3) [unfolded c(3)] assms(4)]
  have k: "procs ?k = procs k" "current_proc ?k = current_proc k" "satp_root ?k = satp_root k"
    by (simp_all add: put_byte_def satp_root_def)
  show "user_page ?k v = user_page k v" by (simp add: user_page_def k c(3) pb(2))
  have "spaces ?k" using keeps_isolated [OF pb(1)] assms(1) by (simp add: spaces_def k)
  then show "tidy c k ?k" using keeps_mono [OF pb(1), of "insert c (idle_slots ?k)"] by (auto simp: tidy_def idle_slots_alive k)
qed

lemma user_store_tidy:
  assumes "user_store a bs k = Ok k'" "spaces k" "active c k" "user_range k a n" "length bs \<le> n"
  shows "tidy c k k' \<and> (\<forall>v. user_page k' v = user_page k v)"
  using assms
proof (induction a bs k arbitrary: n rule: user_store.induct)
  case (1 a k)
  then show ?case using tidy_refl by simp
next
  case (2 a b bs k)
  obtain p where p: "translate PAGE_W a k = Some p" and r: "user_store (a + 1) bs (put_byte p b k) = Ok k'"
    using 2(2) by (auto simp: put_byte_def split: option.splits)
  have "user_page k a" using 2(5,6) by (auto simp: user_range_def dest: spec [of _ 0])
  then obtain f fl where w: "sv32_walk (ram (kmem k)) (satp_root k) a = Some (f, fl)" "fl AND PAGE_U \<noteq> 0"
    by (auto simp: user_page_def)
  have pf: "p = f + a mod 4096" using p w(1) by (simp add: translate_def split: if_splits)
  note pb = put_byte_tidy [OF 2(3,4) w, folded pf]
  have "user_page k (a + 1 + of_nat j)" if "j < n - 1" for j
  proof -
    have "Suc j < n" using that by simp
    then have "user_page k (a + of_nat (Suc j))" using 2(5) unfolding user_range_def by blast
    then show ?thesis by (simp add: add.assoc)
  qed
  then have rg: "user_range (put_byte p b k) (a + 1) (n - 1)" unfolding user_range_def pb(2) by blast
  have "active c (put_byte p b k)" using 2(4) by (simp add: active_def put_byte_def)
  moreover have "length bs \<le> n - 1" using 2(6) by simp
  ultimately have IH: "tidy c (put_byte p b k) k' \<and> (\<forall>v. user_page k' v = user_page (put_byte p b k) v)"
    using 2(1) [OF p, folded put_byte_def, OF r tidy_spaces [OF pb(1)] _ rg] by blast
  show ?case using tidy_trans [OF pb(1) conjunct1 [OF IH]] IH pb(2) by simp
qed

section \<open>System calls\<close>

text \<open>The memory that a call fills: its address and size, in bytes, by the number of the call.\<close>

definition out_buffer :: "trap_frame \<Rightarrow> u32 \<times> nat" where
  "out_buffer f =
     (if tf_a3 f = 4 then (tf_a1 f, 32)
      else if tf_a3 f = 9 then (tf_a0 f, 4)
      else if tf_a3 f = 11 then (tf_a0 f, 112)
      else if tf_a3 f = 14 then (tf_a1 f, unat (tf_a2 f))
      else if tf_a3 f = 17 then (tf_a2 f, 24)
      else if tf_a3 f = 20 then (tf_a0 f, 12)
      else if tf_a3 f = 25 then (tf_a0 f, 260)
      else if tf_a3 f = 27 then (tf_a0 f, 64)
      else (0, 0))"

definition own_buffer :: "trap_frame \<Rightarrow> kstate \<Rightarrow> bool" where
  "own_buffer f k \<longleftrightarrow> (case out_buffer f of (a, n) \<Rightarrow> a = 0 \<or> user_range k a n)"

lemma moved_steady: "spaces k \<Longrightarrow> steady k k' \<Longrightarrow> moved c k k'"
  by (rule tidy_moved [OF steady_spaces(3)])

lemma moved_store:
  assumes "spaces k0" "steady k0 (kern s)" "active c (kern s)" "user_range k0 a n" "length bs \<le> n"
    "\<And>k. tidy c k0 k \<Longrightarrow> k = (kern s)\<lparr>kmem := kmem k\<rparr> \<Longrightarrow> (\<And>v. user_page k v = user_page k0 v) \<Longrightarrow> ends (moved c k0) (f (s\<lparr>kern := k\<rparr>))"
  shows "ends (moved c k0) (storing a bs s f)"
  unfolding storing_def
proof (rule ends_kbind)
  fix k assume st: "user_store a bs (kern s) = Ok k"
  note ss = steady_spaces [OF assms(1,2)]
  have t: "tidy c (kern s) k" "\<And>v. user_page k v = user_page (kern s) v"
    using user_store_tidy [OF st ss(2) assms(3) _ assms(5)] assms(4) steady_range [OF assms(2)] by blast+
  have "user_page k v = user_page k0 v" for v
    using t(2) assms(2) by (simp add: steady_def user_page_def satp_root_def)
  moreover have "k = (kern s)\<lparr>kmem := kmem k\<rparr>" using user_store_kern [OF st] by force
  ultimately show "ends (moved c k0) (f (s\<lparr>kern := k\<rparr>))" using assms(6) tidy_trans [OF ss(3) t(1)] by blast
qed

lemma moved_store_ret:
  assumes "spaces k0" "steady k0 (kern s)" "active c (kern s)" "user_range k0 a n" "length bs \<le> n"
  shows "ends (moved c k0) (storing a bs s (\<lambda>s. returning f v s))"
  by (rule moved_store [OF assms]) (simp add: tidy_moved)

lemma active_steady: "steady k k' \<Longrightarrow> active c k \<Longrightarrow> alive (procs k' c) \<Longrightarrow> active c k'"
  by (auto simp: steady_def active_def core_def)

lemma moved_console_read:
  assumes "spaces k0" "tidy c k0 (kern s)" "sinv s" "running s" "active c (kern s)" "user_range (kern s) (buf + of_nat i) n"
  shows "ends (moved c k0) (console_read_loop f buf i n s)"
  using assms
proof (induction n arbitrary: i s)
  case 0
  then show ?case by (simp add: tidy_moved)
next
  case (Suc n)
  obtain r s1 where g: "getchar_turn s = (r, s1)" by (cases "getchar_turn s")
  note s1 = getchar_result [OF Suc.prems(3,4) g] and st = steady_getchar [OF g Suc.prems(4)]
  note ss = steady_spaces [OF tidy_spaces [OF Suc.prems(2)] st]
  show ?case
  proof (cases r)
    case (Done ch)
    then have run: "running s1" using s1(2) by blast
    have act: "active c (kern s1)"
      using active_running [OF run, of c] Suc.prems(5) st by (simp add: active_def steady_def)
    have "ends (moved c k0) (storing (buf + of_nat i) [ch] s1 (console_read_loop f buf (Suc i) n))"
      unfolding storing_def
    proof (rule ends_kbind)
      fix k assume k: "user_store (buf + of_nat i) [ch] (kern s1) = Ok k"
      have rg1: "user_range (kern s1) (buf + of_nat i) (Suc n)" using Suc.prems(6) steady_range [OF st] by simp
      have t: "tidy c (kern s1) k" "\<And>v. user_page k v = user_page (kern s1) v"
        using user_store_tidy [OF k ss(2) act rg1] by auto
      obtain m where m: "k = (kern s1)\<lparr>kmem := m\<rparr>" using user_store_kern [OF k] by blast
      have "user_page (kern s1) (buf + of_nat i + of_nat (Suc j))" if "j < n" for j
        by (rule rg1 [unfolded user_range_def, rule_format]) (use that in simp)
      then have rg: "user_range k (buf + of_nat (Suc i)) n" by (simp add: user_range_def t(2) add.assoc add.left_commute)
      have "tidy c k0 k" using tidy_trans [OF tidy_trans [OF Suc.prems(2) ss(3)] t(1)] .
      moreover have "sinv (s1\<lparr>kern := k\<rparr>)" "running (s1\<lparr>kern := k\<rparr>)" "active c k"
        using sinv_kmem [OF s1(1)] running_kmem [OF run] act by (simp_all add: m active_def)
      ultimately show "ends (moved c k0) (console_read_loop f buf (Suc i) n (s1\<lparr>kern := k\<rparr>))"
        using rg by (intro Suc.IH [OF Suc.prems(1)]) simp_all
    qed
    then show ?thesis using g Done by simp
  qed (use g tidy_moved [OF tidy_trans [OF Suc.prems(2) ss(3)]] in simp_all)
qed


lemma moved_refl: "spaces k \<Longrightarrow> moved c k k"
  by (rule moved_steady) simp_all

text \<open>The calls on files, by the contract of \<open>kernel_invariant\<close>.\<close>

lemma moved_on_fs: "moved c k (kern s) \<Longrightarrow> moved c k (kern (on_fs fs s))"
  by (rule moved_tidy [OF _ steady_spaces(3)]) (auto simp: moved_def)

interpretation mv: kernel_invariant "\<lambda>s. sinv s \<and> moved c k (kern s)" "\<lambda>r. safe r \<and> ends (moved c k) r" for c k
  by unfold_locales (auto simp: safe_def ends_def sinv_vfs sinv_on_fs moved_on_fs simp del: ends_kern)

lemma moved_chdir:
  assumes "spaces (kern s)" "all_typed (kern s)"
  shows "ends (moved c (kern s)) (syscall_handle_chdir f s)"
proof -
  have "steady (kern s) (upd i (\<lambda>p. p\<lparr>p_cwd_mount_idx := a, p_cwd_node_idx := b, p_cwd_path := strcpy_s (p_cwd_path p) FS_PATH_MAX path\<rparr>) (kern s))"
    if "user_strn v n (kern s) = Ok path" for i a b path v n
    by (rule steady_upd) (use assms(2) user_strn_nul_free [OF that] in \<open>auto simp: core_def alive_def typed_def FS_PATH_MAX_def strcpy_s_spec(1)\<close>)
  note G = this
  show ?thesis
    unfolding syscall_handle_chdir_def Let_def using assms(1)
    by (auto intro!: ends_kbind moved_refl moved_steady simp: G simp del: upd_simps(1) split: option.splits)
qed

lemma fs_read_size:
  assumes "fs_read pid fd hb sz fs = (Read_done v bytes, fs')"
  shows "length bytes \<le> unat sz"
proof -
  have "length (fst (snd (nodefs_read n off sz nfs))) \<le> unat sz" for n off nfs
    by (auto simp: nodefs_read_def Let_def word_less_nat_alt)
  then show ?thesis
    using assms by (auto simp: fs_read_def console_read_fallback_def Let_def case_prod_beta split: if_splits)
qed

lemma fs_read_console_size: "fs_read pid fd hb sz fs = (Console_read n, fs') \<Longrightarrow> n = sz"
  by (auto simp: fs_read_def console_read_fallback_def Let_def case_prod_beta split: if_splits)

lemma moved_read:
  assumes "spaces (kern s)" "sinv s" "running s" "active c (kern s)" "own_buffer f (kern s)" "tf_a3 f = 14"
  shows "ends (moved c (kern s)) (syscall_handle_read f s)"
proof -
  obtain r fs where rd: "fs_read (cur_pid s) (sint (tf_a0 f)) (tf_a1 f \<noteq> 0) (tf_a2 f) (kfs (kern s)) = (r, fs)"
    by (cases "fs_read (cur_pid s) (sint (tf_a0 f)) (tf_a1 f \<noteq> 0) (tf_a2 f) (kfs (kern s))")
  have rg: "user_range (kern s) (tf_a1 f) (unat (tf_a2 f))" if "\<not> (tf_a1 f = 0 \<and> 0 < tf_a2 f)"
    using assms(5,6) that by (auto simp: own_buffer_def out_buffer_def user_range_def word_gt_0 unat_eq_zero)
  have "vfs_wf fs" using fs_read_wf [OF sinv_vfs [OF assms(2)]] rd by (metis snd_conv)
  then have s: "sinv (on_fs fs s)" "running (on_fs fs s)" "active c (kern (on_fs fs s))"
    using assms(2-4) sinv_on_fs by (auto simp: running_def active_def)
  have st: "steady (kern s) (kern (on_fs fs s))" by simp
  have con: "ends (moved c (kern s)) (console_read_loop f (tf_a1 f) 0 (unat (tf_a2 f)) (on_fs fs s))" if "\<not> (tf_a1 f = 0 \<and> 0 < tf_a2 f)"
    by (rule moved_console_read [OF assms(1) steady_spaces(3) [OF assms(1) st] s])
      (use rg [OF that] steady_range [OF st] in simp)
  have "ends (moved c (kern s)) (storing (tf_a1 f) bytes (on_fs fs s) (\<lambda>s. returning f v s))"
    if "r = Read_done v bytes" "\<not> (tf_a1 f = 0 \<and> 0 < tf_a2 f)" for v bytes
    by (rule moved_store_ret [OF assms(1) st s(3) rg [OF that(2)]]) (use fs_read_size rd that(1) in blast)
  note dn = this
  show ?thesis
  proof (cases r)
    case (Read_done v bytes)
    then show ?thesis unfolding syscall_handle_read_def rd using dn assms(1) by (auto simp: Let_def intro!: moved_refl)
  next
    case (Console_read n)
    then have "n = tf_a2 f" using fs_read_console_size rd by blast
    then show ?thesis unfolding syscall_handle_read_def rd using Console_read con assms(1) by (auto simp: Let_def intro!: moved_refl)
  qed
qed

lemma moved_ret: "spaces (kern s) \<Longrightarrow> ends (moved c (kern s)) (returning f v s)"
  by (simp add: moved_refl)

lemma moved_fill:
  assumes "spaces (kern s)" "active c (kern s)" "own_buffer f (kern s)" "out_buffer f = (a, n)" "a \<noteq> 0" "length bs \<le> n" "steady (kern s) (kern s')"
    "alive (procs (kern s') c)"
  shows "ends (moved c (kern s)) (storing a bs s' (\<lambda>s. returning f v s))"
  by (rule moved_store_ret [OF assms(1,7) active_steady [OF assms(7,2,8)] _ assms(6)])
    (use assms(3-5) in \<open>simp add: own_buffer_def\<close>)

lemma moved_fill_here:
  assumes "spaces (kern s)" "active c (kern s)" "own_buffer f (kern s)" "out_buffer f = (a, n)" "a \<noteq> 0" "length bs \<le> n"
  shows "ends (moved c (kern s)) (storing a bs s (\<lambda>s. returning f v s))"
  by (rule moved_fill [OF assms]) (use assms(2) in \<open>simp_all add: active_def\<close>)

lemma fs_readdir_size:
  assumes "fs_readdir p i b fs = Some d"
  shows "length (dirent_bytes d) = 24"
proof -
  have "length (snd (copy_name (replicate 16 NUL) (cstr w))) = 16" for w
  proof -
    have "strncpy_loop (replicate 16 NUL) 0 15 (cstr w) = overwrite (replicate 16 NUL) 0 (take 15 (cstr w) @ [NUL])"
      by (rule strncpy_loop_overwrite) simp
    then show ?thesis by (simp add: copy_name_def)
  qed
  then have "length (de_name d) = 16"
    using assms by (auto simp: fs_readdir_def nodefs_readdir_def split: if_splits option.splits prod.splits)
  then show ?thesis by (simp add: dirent_bytes_def int_bytes_def)
qed

lemma moved_readdir:
  assumes "spaces (kern s)" "active c (kern s)" "own_buffer f (kern s)" "tf_a3 f = 17"
  shows "ends (moved c (kern s)) (syscall_handle_readdir f s)"
proof -
  have b: "out_buffer f = (tf_a2 f, 24)" using assms(4) by (simp add: out_buffer_def)
  show ?thesis
    unfolding syscall_handle_readdir_def using moved_ret [OF assms(1)]
    by (auto intro!: ends_with_str moved_fill_here [OF assms(1-3) b] split: option.splits simp: fs_readdir_size simp del: ends_Ok)
qed

lemma moved_getcwd:
  assumes "spaces (kern s)" "active c (kern s)" "own_buffer f (kern s)" "tf_a3 f = 27"
  shows "ends (moved c (kern s)) (syscall_handle_getcwd f s)"
proof -
  have b: "out_buffer f = (tf_a0 f, 64)" using assms(4) by (simp add: out_buffer_def)
  show ?thesis
    unfolding syscall_handle_getcwd_def using moved_ret [OF assms(1)]
    by (auto intro!: moved_fill_here [OF assms(1-3) b] simp: FS_PATH_MAX_def simp del: ends_Ok)
qed

lemma moved_ps:
  assumes "spaces (kern s)" "active c (kern s)" "own_buffer f (kern s)" "tf_a3 f = 4" "all_typed (kern s)"
  shows "ends (moved c (kern s)) (syscall_handle_ps f s)"
proof -
  have b: "out_buffer f = (tf_a1 f, 32)" using assms(4) by (simp add: out_buffer_def)
  show ?thesis
    unfolding syscall_handle_ps_def write_user_ps_info_def Let_def using moved_ret [OF assms(1)] typed_sizes(1) assms(5)
    by (auto intro!: moved_fill_here [OF assms(1-3) b] simp del: ends_Ok)
qed

lemma moved_getargs:
  assumes "spaces (kern s)" "active c (kern s)" "own_buffer f (kern s)" "tf_a3 f = 25" "all_typed (kern s)"
  shows "ends (moved c (kern s)) (syscall_handle_getargs f s)"
proof -
  have b: "out_buffer f = (tf_a0 f, 260)" using assms(4) by (simp add: out_buffer_def)
  show ?thesis
    unfolding syscall_handle_getargs_def Let_def using moved_ret [OF assms(1)] typed_sizes(2) assms(5)
    by (auto intro!: moved_fill_here [OF assms(1-3) b] simp del: ends_Ok)
qed

lemma moved_gettime:
  assumes "spaces (kern s)" "active c (kern s)" "own_buffer f (kern s)" "tf_a3 f = 20"
  shows "ends (moved c (kern s)) (syscall_handle_gettime f s)"
proof -
  have b: "out_buffer f = (tf_a0 f, 12)" using assms(4) by (simp add: out_buffer_def)
  have "ends (moved c (kern s)) (storing (tf_a0 f) bs (s\<lparr>rtc_reads := n\<rparr>) (\<lambda>s. returning f 0 s))" if "tf_a0 f \<noteq> 0" "length bs \<le> 12" for bs n
    by (rule moved_fill [OF assms(1-3) b that]) (use assms(2) in \<open>simp_all add: active_def\<close>)
  then show ?thesis
    unfolding syscall_handle_gettime_def Let_def using assms(1) by (auto intro!: moved_refl split: option.splits prod.splits)
qed

lemma moved_kernel_info:
  assumes "spaces (kern s)" "active c (kern s)" "own_buffer f (kern s)" "tf_a3 f = 11" "length junk = 40"
  shows "ends (moved c (kern s)) (syscall_handle_kernel_info junk f s)"
proof -
  have b: "out_buffer f = (tf_a0 f, 112)" using assms(4) by (simp add: out_buffer_def)
  have sz: "length (kernel_get_info junk now total) = 112" for now total
  proof -
    have "length (strcpy_s junk 40 (cstr w)) = 40" for w using assms(5) by (simp add: strcpy_s_spec(1))
    then show ?thesis by (simp add: kernel_get_info_def KERNEL_VERSION_def)
  qed
  have "ends (moved c (kern s)) (storing (tf_a0 f) (kernel_get_info junk now t) (s\<lparr>rtc_reads := n\<rparr>) (\<lambda>s. returning f 0 s))" if "tf_a0 f \<noteq> 0" for now t n
    by (rule moved_fill [OF assms(1-3) b that]) (use assms(2) sz in \<open>simp_all add: active_def\<close>)
  then show ?thesis
    unfolding syscall_handle_kernel_info_def using assms(1) by (auto intro!: moved_refl split: option.splits)
qed

lemma moved_ipc_recv:
  assumes "spaces (kern s)" "active c (kern s)" "own_buffer f (kern s)" "tf_a3 f = 9" "sinv s" "running s"
  shows "ends (moved c (kern s)) (syscall_handle_ipc_recv f s)"
proof -
  have b: "out_buffer f = (tf_a0 f, 4)" using assms(4) by (simp add: out_buffer_def)
  have c: "current_proc (kern s) = Some c" "c < 64" "p_state (procs (kern s) c) = PROC_RUNNABLE"
    using assms(2,6) by (auto simp: active_def running_def schedulable_def)
  obtain r k where r: "process_ipc_recv (p_pid (procs (kern s) c)) (kern s) = (r, k)"
    by (cases "process_ipc_recv (p_pid (procs (kern s) c)) (kern s)")
  have st: "steady (kern s) k" by (rule steady_ipc_recv [OF r sinv_table [OF assms(5)] c(2,3)])
  have "alive (procs k c)" if "r = Done (Some x)" for x
  proof -
    have "k = upd i (\<lambda>p. p\<lparr>p_ipc_has_message := False, p_ipc_from_pid := 0, p_ipc_message := 0\<rparr>) (kern s)"
      if "find_process_by_pid (p_pid (procs (kern s) c)) (kern s) = Some i" for i
      using r that \<open>r = _\<close> by (auto simp: process_ipc_recv_def split: if_splits)
    moreover have "find_process_by_pid (p_pid (procs (kern s) c)) (kern s) \<noteq> None"
      using r that by (auto simp: process_ipc_recv_def split: option.splits)
    ultimately show ?thesis using assms(2) by (auto simp: active_def alive_def split: if_splits)
  qed
  then have fill: "ends (moved c (kern s)) (storing (tf_a0 f) (int_bytes p) (on_kern s k) (\<lambda>s. returning f v s))"
    if "r = Done (Some x)" "tf_a0 f \<noteq> 0" for x p v
    using that st by (intro moved_fill [OF assms(1-3) b]) (simp_all add: int_bytes_def)
  show ?thesis
    unfolding syscall_handle_ipc_recv_def using c r assms(1) moved_steady [OF assms(1) st] fill
    by (auto intro!: moved_refl split: call.splits option.splits)
qed

lemma moved_getchar:
  assumes "spaces (kern s)" "running s"
  shows "ends (moved c (kern s)) (syscall_handle_getchar f s)"
  using moved_steady [OF assms(1) steady_getchar [OF _ assms(2)]]
  by (auto simp: syscall_handle_getchar_def split: prod.splits call.splits)

lemma moved_exit:
  assumes "spaces (kern s)" "sinv s" "running s"
  shows "ends (moved c (kern s)) (syscall_handle_exit f s)"
proof -
  let ?k = "\<lambda>i pid fs. notify_child_exit i ((mark_exited i (orphan_children pid (kern s)))\<lparr>kfs := fs\<rparr>)"
  have st: "steady (kern s) (?k i pid fs)" for i pid fs
    by (rule steady_trans [OF _ steady_notify], unfold steady_fields) (rule steady_trans [OF steady_orphan steady_mark_exited])
  have cur: "\<exists>d < 64. current_proc (?k i pid fs) = Some d" for i pid fs
    using st [where i = i and pid = pid and fs = fs] assms(3) by (auto simp: steady_def running_def)
  have "moved c (kern s) k" if y: "yield (?k i pid fs) = Ok (t, k)" for i pid fs t k
  proof -
    obtain k1 where k1: "reap_exited_processes (?k i pid fs) = Ok k1" "yield_turn k1 = (t, k)"
      using y by (auto simp: yield_def kbind_Ok_iff)
    note ss = steady_spaces [OF assms(1) st [where i = i and pid = pid and fs = fs]]
    have r: "tidy c (?k i pid fs) k1" by (rule reap_tidy [OF k1(1) ss(2)])
    obtain d where "current_proc k1 = Some d" "d < 64"
      using reap_keeps(2) [OF k1(1) spacesD(1) [OF ss(2)]] cur [where i = i and pid = pid and fs = fs] by auto
    from tidy_trans [OF tidy_trans [OF ss(3) r] yield_turn_tidy [OF k1(2) tidy_spaces [OF r] this]] show ?thesis by (rule tidy_moved)
  qed
  then show ?thesis unfolding syscall_handle_exit_def Let_def by (auto intro!: ends_kbind)
qed

lemma moved_clone:
  assumes "spaces (kern s)" "sinv s" "active c (kern s)" "\<And>name. length (pages_of (app_image s name)) \<le> 0xff000"
  shows "ends (moved c (kern s)) (syscall_handle_clone f s)"
proof -
  have img: "length (pages_of img) \<le> 0xff000" if "resolve_app_image a s = Some (img, name)" for a img name
    using that assms(4) by (auto simp: resolve_app_image_def)
  have "moved c (kern s) k \<and> moved c (kern s) (upd i (\<lambda>p. p\<lparr>p_parent_pid := x\<rparr>) k)"
    if "create_process img name (kern s) = Ok (p, k)" "length (pages_of img) \<le> 0xff000" for img name p k i x
  proof -
    have m: "moved c (kern s) k"
      by (rule create_moved [OF that(1) assms(1) sinv_table [OF assms(2)] that(2)]) (use assms(3) in \<open>simp add: active_def\<close>)
    have "steady k (upd i (\<lambda>p. p\<lparr>p_parent_pid := x\<rparr>) k)" by (rule steady_upd) (auto simp: core_def alive_def)
    from moved_tidy [OF m steady_spaces(3) [OF _ this]] m show ?thesis by (simp add: moved_def)
  qed
  then show ?thesis
    unfolding syscall_handle_clone_def Let_def
    using assms(1) img by (auto intro!: ends_kbind moved_refl simp del: upd_simps(1) split: option.splits)
qed

lemma moved_fork:
  assumes "spaces (kern s)" "sinv s" "active c (kern s)"
  shows "ends (moved c (kern s)) (syscall_handle_fork f s)"
proof -
  have "moved c (kern s) k" if "process_fork f (kern s) = Ok (r, k)" for r k
    by (rule fork_moved [OF that assms(1) sinv_table [OF assms(2)], of c]) (use assms(3) in \<open>simp_all add: active_def\<close>)
  then show ?thesis unfolding syscall_handle_fork_def by (auto intro!: ends_kbind)
qed

lemma moved_exec:
  assumes "spaces (kern s)" "active c (kern s)" "\<And>name. length (pages_of (app_image s name)) \<le> 0xff000"
  shows "ends (moved c (kern s)) (syscall_handle_exec f s)" "ends (moved c (kern s)) (syscall_handle_execv f s)"
proof -
  have "moved c (kern s) k" if "process_exec (app_image s nm) name argc argv (kern s) = Ok (r, k)" for nm name argc argv r k
    by (rule tidy_moved [OF exec_tidy [OF that assms(1)]]) (use assms(2,3) in \<open>simp_all add: active_def\<close>)
  then show "ends (moved c (kern s)) (syscall_handle_exec f s)" "ends (moved c (kern s)) (syscall_handle_execv f s)"
    unfolding syscall_handle_exec_def syscall_handle_execv_def
    using moved_refl [OF assms(1)] by (auto intro!: ends_kbind simp: resolve_app_image_def split: option.splits)
qed

lemma moved_waitpid:
  assumes "spaces (kern s)" "active c (kern s)"
  shows "ends (moved c (kern s)) (syscall_handle_waitpid f s)"
proof -
  have "moved c (kern s) k" if "wait_for_child_exit a b (kern s) = Ok (r, k)" for a b r k
    using that
  proof (cases rule: wait_cases)
    case (2 i)
    then show ?thesis using tidy_moved [OF recycle_tidy [OF 2(3) assms(1) 2(1)]] by (simp add: alive_def)
  next
    case 3
    have "steady (kern s) k" unfolding 3 by (rule steady_block) (use assms(2) in \<open>simp add: active_def\<close>)
    then show ?thesis by (rule moved_steady [OF assms(1)])
  qed (simp add: moved_refl [OF assms(1)])
  then show ?thesis
    unfolding syscall_handle_waitpid_def Let_def using assms(1) by (auto intro!: ends_kbind moved_refl split: call.splits)
qed

lemma moved_kill:
  assumes "spaces (kern s)" "sinv s"
  shows "ends (moved c (kern s)) (syscall_handle_kill f s)"
proof -
  have "moved c (kern s) k" if "process_kill a (kern s) = Ok (r, k)" for a r k
    by (rule tidy_moved [OF kill_tidy [OF that assms(1)]]) (use assms(2) in \<open>simp add: sinv_def\<close>)
  then show ?thesis unfolding syscall_handle_kill_def by (auto intro!: ends_kbind split: call.splits)
qed

lemma moved_info:
  assumes "spaces (kern s)"
  shows "ends (moved c (kern s)) (syscall_handle_bitmap f s)" "ends (moved c (kern s)) (syscall_handle_ipc_send f s)"
  using moved_refl [OF assms] moved_steady [OF assms steady_ipc_send]
  by (auto simp: syscall_handle_bitmap_def syscall_handle_ipc_send_def Let_def intro!: ends_kbind split: prod.splits)

lemma moved_syscall:
  assumes "spaces (kern s)" "sinv s" "running s" "all_typed (kern s)" "own_buffer f (kern s)" "length junk = 40"
    "\<And>name. length (pages_of (app_image s name)) \<le> 0xff000"
  shows "ends (moved (cur_slot s) (kern s)) (handle_syscall junk f s)"
  unfolding handle_syscall_def Let_def
  using assms running_active [OF assms(3)] mv.file_calls [of s "cur_slot s" "kern s" f] moved_refl [OF assms(1)]
  by (simp add: moved_chdir moved_read moved_readdir moved_getcwd moved_ps moved_getargs moved_gettime
      moved_kernel_info moved_ipc_recv moved_getchar moved_exit moved_clone moved_fork moved_exec moved_waitpid moved_kill moved_info)

section \<open>Traps\<close>

lemma moved_finish:
  assumes "ends (moved c k0) r" "safe r"
  shows "ends (moved c k0) (kbind r (\<lambda>(x, s). ecall_finish pc w f x s))"
proof (rule ends_kbind)
  fix p assume p: "r = Ok p"
  obtain x s where x: "p = (x, s)" by fastforce
  have m: "moved c k0 (kern s)" and inv: "kinv (kern s)" using assms p x by (simp_all add: ends_def safe_def sinv_def)
  then have sp: "spaces (kern s)" by (simp add: moved_def)
  have "moved c k0 ((set_trap_stack w (kern s))\<lparr>csr_sepc := a\<rparr>)" for a
    by (rule moved_tidy [OF m steady_spaces(3) [OF sp]]) (simp add: steady_trap_stack)
  moreover have "moved c k0 k" if "yield (kern s) = Ok (t, k)" for t k
    by (rule moved_tidy [OF m yield_tidy [OF that sp inv]])
  ultimately show "ends (moved c k0) (case p of (x, s) \<Rightarrow> ecall_finish pc w f x s)"
    using m by (auto simp: x ecall_finish_def Let_def intro!: ends_kbind split: call.splits)
qed

lemma moved_timer:
  assumes "spaces (kern s)" "sinv s"
  shows "ends (moved c (kern s)) (timer_turn w f s)"
proof -
  let ?s = "poll_console_input s" and ?k = "scheduler_on_timer_tick (kern (poll_console_input s))"
  have st: "steady (kern s) ?k" by (rule steady_trans [OF steady_poll steady_tick])
  note ss = steady_spaces [OF assms(1) st]
  have "sinv (on_kern ?s ?k)"
    by (rule sinv_frame [OF poll_result(1) [OF assms(2)] tick_result(1)])
      (use same_view_result [of ?k "kern ?s", OF tick_result(2)] sinv_table [OF poll_result(1) [OF assms(2)]] in auto)
  then have inv: "kinv ?k" by (simp add: sinv_def)
  have fin: "moved c (kern s) (set_trap_stack w k)" if "tidy c (kern s) k" for k
    by (rule tidy_moved [OF tidy_trans [OF that steady_spaces(3) [OF tidy_spaces [OF that] steady_trap_stack]]])
  have "moved c (kern s) (set_trap_stack w k)" if "yield ?k = Ok (t, k)" for t k
    by (rule fin [OF tidy_trans [OF ss(3) yield_tidy [OF that ss(2) inv]]])
  then show ?thesis
    unfolding timer_turn_def Let_def using fin [OF ss(3)] by (auto intro!: ends_kbind split: if_splits)
qed

lemma moved_trap:
  assumes "spaces (kern s)" "sinv s" "running s" "all_typed (kern s)"
    "scause = SCAUSE_ENVIRONMENT_CALL_FROM_U_MODE \<Longrightarrow> own_buffer f (kern s)" "length junk = 40"
    "\<And>name. length (pages_of (app_image s name)) \<le> 0xff000" "process_from_trap_frame addr (kern s) = current_proc (kern s)"
  shows "ends (moved (cur_slot s) (kern s)) (handle_trap junk scause addr f s)"
proof -
  have same: "on_kern s (kern s) = s" by (simp add: on_kern_def)
  show ?thesis
    unfolding handle_trap_def Let_def ecall_turn_def assms(8)
    using moved_finish [OF moved_syscall [OF assms(1-4) _ assms(6,7)] safe_syscall [OF assms(2,3)]] moved_timer [OF assms(1,2)] assms(5)
    by (simp add: same)
qed

section \<open>The programs stay the same\<close>

definition same_apps :: "sys_state \<Rightarrow> outcome \<Rightarrow> bool" where
  "same_apps s r \<longleftrightarrow> (\<forall>x s'. r = Ok (x, s') \<longrightarrow> app_image s' = app_image s)"

lemma same_apps_rules [simp]:
  "same_apps s (Ok (x, s')) \<longleftrightarrow> app_image s' = app_image s" "same_apps s (PANIC m)"
  "app_image (on_kern s k) = app_image s" "app_image (on_fs fs s) = app_image s" "app_image (poll_console_input s) = app_image s"
  by (simp_all add: same_apps_def on_kern_def on_fs_def poll_console_input_def Let_def case_prod_beta)

interpretation ap: outcome_logic "same_apps s" for s
  by unfold_locales simp

lemmas same_apps_kbind = ap.bind and same_apps_with_str = ap.string_argument

lemma same_apps_storing: "(\<And>k. same_apps s0 (f (s\<lparr>kern := k\<rparr>))) \<Longrightarrow> same_apps s0 (storing a bs s f)"
  by (rule ap.store_result)

lemma getchar_apps: "getchar_turn s = (r, s') \<Longrightarrow> app_image s' = app_image s"
  by (auto simp: getchar_turn_def got_char_def Let_def split: option.splits prod.splits)

lemma console_read_apps: "app_image s = app_image s0 \<Longrightarrow> same_apps s0 (console_read_loop f buf i n s)"
proof (induction n arbitrary: i s)
  case (Suc n)
  obtain r s1 where g: "getchar_turn s = (r, s1)" by (cases "getchar_turn s")
  then have "app_image s1 = app_image s0" using getchar_apps Suc.prems by simp
  then show ?case using g by (cases r) (auto intro!: same_apps_storing Suc.IH)
qed simp

lemmas handler_defs = syscall_handle_putchar_def syscall_handle_getchar_def syscall_handle_exit_def syscall_handle_ps_def
  write_user_ps_info_def syscall_handle_clone_def syscall_handle_waitpid_def syscall_handle_ipc_send_def syscall_handle_ipc_recv_def
  syscall_handle_bitmap_def syscall_handle_kill_def syscall_handle_kernel_info_def syscall_handle_open_def syscall_handle_close_def
  syscall_handle_read_def syscall_handle_write_def syscall_handle_mkdir_def syscall_handle_readdir_def syscall_handle_unlink_def
  syscall_handle_rmdir_def path_call_def syscall_handle_gettime_def syscall_handle_fork_def syscall_handle_exec_def
  syscall_handle_dup2_def syscall_handle_execv_def syscall_handle_getargs_def syscall_handle_getcwd_def syscall_handle_chdir_def

lemma handler_apps:
  "same_apps s (syscall_handle_putchar f s)" "same_apps s (syscall_handle_getchar f s)" "same_apps s (syscall_handle_exit f s)"
  "same_apps s (syscall_handle_ps f s)" "same_apps s (syscall_handle_clone f s)" "same_apps s (syscall_handle_waitpid f s)"
  "same_apps s (syscall_handle_ipc_send f s)" "same_apps s (syscall_handle_ipc_recv f s)" "same_apps s (syscall_handle_bitmap f s)"
  "same_apps s (syscall_handle_kill f s)" "same_apps s (syscall_handle_kernel_info junk f s)" "same_apps s (syscall_handle_open f s)"
  "same_apps s (syscall_handle_close f s)" "same_apps s (syscall_handle_read f s)" "same_apps s (syscall_handle_write f s)"
  "same_apps s (syscall_handle_mkdir f s)" "same_apps s (syscall_handle_readdir f s)" "same_apps s (syscall_handle_unlink f s)"
  "same_apps s (syscall_handle_rmdir f s)" "same_apps s (syscall_handle_gettime f s)" "same_apps s (syscall_handle_fork f s)"
  "same_apps s (syscall_handle_exec f s)" "same_apps s (syscall_handle_dup2 f s)" "same_apps s (syscall_handle_execv f s)"
  "same_apps s (syscall_handle_getargs f s)" "same_apps s (syscall_handle_getcwd f s)" "same_apps s (syscall_handle_chdir f s)"
  unfolding handler_defs Let_def
  by (auto intro!: same_apps_kbind same_apps_with_str same_apps_storing console_read_apps simp: getchar_apps
      split: option.splits prod.splits call.splits read_result.splits)

lemma finish_apps:
  assumes "same_apps s0 r"
  shows "same_apps s0 (kbind r (\<lambda>(x, s). ecall_finish pc w f x s))"
proof (rule same_apps_kbind)
  fix p assume p: "r = Ok p"
  obtain x s where x: "p = (x, s)" by fastforce
  have "app_image s = app_image s0" using assms p x by (simp add: same_apps_def)
  then show "same_apps s0 (case p of (x, s) \<Rightarrow> ecall_finish pc w f x s)"
    by (cases x) (auto simp: x ecall_finish_def Let_def intro!: same_apps_kbind)
qed

lemma ecall_apps: "same_apps s (ecall_turn junk pc w f s)"
  unfolding ecall_turn_def
  by (rule finish_apps) (simp add: handle_syscall_def Let_def handler_apps)

lemma timer_apps: "same_apps s (timer_turn w f s)"
  unfolding timer_turn_def Let_def by (auto intro!: same_apps_kbind split: prod.splits)

lemma trap_apps:
  assumes "process_from_trap_frame addr (kern s) = current_proc (kern s)"
  shows "same_apps s (handle_trap junk scause addr f s)"
proof -
  have same: "on_kern s (kern s) = s" by (simp add: on_kern_def)
  show ?thesis unfolding handle_trap_def Let_def assms using ecall_apps timer_apps by (simp add: same)
qed

section \<open>Steps of the system\<close>

text \<open>
  The steps of \<open>sys_step\<close> for programs that pass buffers of their own, with what programs do themselves spelled out:
  a program in user mode stores to a page that it may write, or computes with its registers.
\<close>

inductive space_step :: "sys_state \<Rightarrow> sys_state \<Rightarrow> bool" where
  trap: "running s \<Longrightarrow> process_from_trap_frame addr (kern s) = current_proc (kern s) \<Longrightarrow>
    (scause = SCAUSE_ENVIRONMENT_CALL_FROM_U_MODE \<longrightarrow> own_buffer f (kern s)) \<Longrightarrow> length junk = 40 \<Longrightarrow> handle_trap junk scause addr f s = Ok (r, s') \<Longrightarrow> space_step s s'"
| resume: "running s \<Longrightarrow> own_buffer f (kern s) \<Longrightarrow> length junk = 40 \<Longrightarrow> ecall_turn junk pc w f s = Ok (r, s') \<Longrightarrow> space_step s s'"
| resume_read: "running s \<Longrightarrow> user_range (kern s) (tf_a1 f + of_nat i) n \<Longrightarrow> console_read_turn pc w f i n s = Ok (r, s') \<Longrightarrow>
    space_step s s'"
| idle_timer: "timer_turn None f s = Ok (r, s') \<Longrightarrow> space_step s s'"
| idle: "yield_turn (kern s) = (t, k) \<Longrightarrow> space_step s (on_kern s k)"
| input: "space_step s (s\<lparr>pending := pending s @ chs\<rparr>)"
| store: "running s \<Longrightarrow> sv32_walk (ram (kmem (kern s))) (satp_root (kern s)) a = Some (fr, flags) \<Longrightarrow>
    flags AND PAGE_U \<noteq> 0 \<Longrightarrow> flags AND PAGE_W \<noteq> 0 \<Longrightarrow> space_step s (on_kern s (put_byte (fr + a mod 4096) b (kern s)))"
| registers: "running s \<Longrightarrow> space_step s (on_kern s ((kern s)\<lparr>csr_sepc := pc, csr_sstatus := st\<rparr>))"

inductive space_reach :: "sys_state \<Rightarrow> sys_state \<Rightarrow> bool" for s0 where
  start: "space_reach s0 s0"
| step: "space_reach s0 s \<Longrightarrow> space_step s s' \<Longrightarrow> space_reach s0 s'"

lemma space_step_sys:
  assumes "space_step s s'"
  shows "sys_step s s'"
  using assms
proof cases
  case (store a fr flags b)
  let ?m = "(ram (kmem (kern s)))(fr + a mod 4096 := b)"
  have "put_byte (fr + a mod 4096) b (kern s) =
      (kern s)\<lparr>kmem := (kmem (kern s))\<lparr>ram := ?m\<rparr>, csr_sepc := csr_sepc (kern s), csr_sstatus := csr_sstatus (kern s)\<rparr>"
    by (simp add: put_byte_def)
  then show ?thesis using sys_step.user [where s = s and m = ?m and pc = "csr_sepc (kern s)" and st = "csr_sstatus (kern s)"] store(1) by simp
next
  case registers
  have "(kern s)\<lparr>csr_sepc := x, csr_sstatus := y\<rparr> = (kern s)\<lparr>kmem := (kmem (kern s))\<lparr>ram := ram (kmem (kern s))\<rparr>, csr_sepc := x, csr_sstatus := y\<rparr>"
    for x y by simp
  then have "sys_step s (on_kern s ((kern s)\<lparr>csr_sepc := x, csr_sstatus := y\<rparr>))" for x y
    using sys_step.user [where s = s and m = "ram (kmem (kern s))" and pc = x and st = y] by simp
  then show ?thesis using registers(1) by simp
qed (auto intro: sys_step.intros)

text \<open>The whole invariant.\<close>

definition space_inv :: "sys_state \<Rightarrow> bool" where
  "space_inv s \<longleftrightarrow> sinv s \<and> all_typed (kern s) \<and> spaces (kern s) \<and> (\<forall>name. length (pages_of (app_image s name)) \<le> 0xff000)"

lemma space_step_result:
  assumes "space_step s s'" "space_inv s"
  shows "moved (cur_slot s) (kern s) (kern s') \<and> app_image s' = app_image s"
proof -
  have inv: "sinv s" "all_typed (kern s)" "spaces (kern s)" "\<And>name. length (pages_of (app_image s name)) \<le> 0xff000"
    using assms(2) by (simp_all add: space_inv_def)
  obtain c where cur: "current_proc (kern s) = Some c" "c < 64" using inv(1) by (auto simp: sinv_def kinv_def)
  show ?thesis
    using assms(1)
  proof cases
    case (trap addr f junk scause r)
    then show ?thesis
      using moved_trap [OF inv(3,1) trap(1) inv(2) trap(3) [rule_format] trap(4) inv(4) trap(2)] trap_apps [OF trap(2)] by (simp add: ends_def same_apps_def)
  next
    case (resume f junk pc w r)
    then show ?thesis
      using moved_finish [OF moved_syscall [OF inv(3,1) resume(1) inv(2) resume(2,3) inv(4)] safe_syscall [OF inv(1) resume(1)]] ecall_apps
      by (simp add: ends_def same_apps_def ecall_turn_def)
  next
    case (resume_read f i n pc w r)
    have "ends (moved (cur_slot s) (kern s)) (console_read_loop f (tf_a1 f) i n s)"
      by (rule moved_console_read [OF inv(3) tidy_refl [OF inv(3)] inv(1) resume_read(1) running_active [OF resume_read(1)] resume_read(2)])
    from moved_finish [OF this safe_console_read [OF inv(1) resume_read(1)]] finish_apps [OF console_read_apps [OF refl]] resume_read(3)
    show ?thesis unfolding console_read_turn_def ends_def same_apps_def by blast
  next
    case (idle_timer f r)
    then show ?thesis using moved_timer [OF inv(3,1)] timer_apps by (simp add: ends_def same_apps_def)
  next
    case (idle t k)
    then show ?thesis using tidy_moved [OF yield_turn_tidy [OF idle(2) inv(3) cur]] by simp
  next
    case (store a fr flags b)
    then show ?thesis using tidy_moved [OF put_byte_tidy(1) [OF inv(3) running_active [OF store(2)] store(3,4)]] by simp
  next
    case (registers pc st)
    then show ?thesis by (simp add: moved_steady [OF inv(3)])
  qed (simp add: moved_refl [OF inv(3)])
qed

lemma space_step_inv:
  assumes "space_step s s'" "space_inv s"
  shows "space_inv s'"
  using space_step_result [OF assms] sys_step_sinv [OF space_step_sys [OF assms(1)]] sys_step_typed [OF space_step_sys [OF assms(1)]] assms(2)
  by (simp add: space_inv_def moved_def)

lemma space_reach_inv: "space_reach s0 s \<Longrightarrow> space_inv s0 \<Longrightarrow> space_inv s"
  by (induction rule: space_reach.induct) (auto intro: space_step_inv)

section \<open>Boot\<close>

lemma kernel_main_spaces:
  assumes h: "honest_disk d (the_dev (blk (kfs (kern s0))))" "bootable (\<lambda>i. d (of_nat i))"
    and main: "kernel_main free_ram free_end s0 = Ok (t, s)" and ram: "unat free_ram mod 4096 = 0" "0 < unat free_ram"
    and img: "\<And>name. length (pages_of (app_image s0 name)) \<le> 0xff000"
  shows "space_inv s"
proof -
  obtain s1 p k k2 where s1: "kernel_bootstrap free_ram free_end s0 = Ok s1"
    and cr: "create_process (app_image s1 ''shell'') ''shell'' (kern s1) = Ok (p, k)"
    and y: "yield (k\<lparr>init_proc := p\<rparr>) = Ok (t, k2)" and s: "s = on_kern s1 k2"
    using main by (auto simp: kernel_main_def kbind_Ok_iff)
  let ?k0 = "kern (bss_clear s0)"
  obtain pages m fs n q k1 where mi: "memory_init free_ram free_end (kmem ?k0) = Ok (pages, m)" and fs: "fs_init (kfs ?k0) = Ok fs"
    and cr1: "create_process [] ''idle'' (?k0\<lparr>kmem := m, kfs := fs\<rparr>) = Ok (q, k1)"
    and s1': "s1 = (bss_clear s0)\<lparr>kern := (upd (the q) (\<lambda>p. p\<lparr>p_pid := 0\<rparr>) k1)\<lparr>idle_proc := q, current_proc := q\<rparr>,
       kernel_total_pages := pages, rtc_reads := n\<rparr>"
    using s1 by (auto simp: kernel_bootstrap_def kbind_Ok_iff Let_def)
  have wf: "vfs_wf fs" by (rule fs_init_wf [OF _ h(2) fs]) (use h(1) in \<open>simp add: bss_clear_def\<close>)
  let ?k = "?k0\<lparr>kmem := m, kfs := fs\<rparr>"
  have z: "procs ?k = (\<lambda>_. zero_process)" "current_proc ?k = None" by (simp_all add: bss_clear_def)
  have "isolated ?k" using memory_init_spec(1) [OF mi ram] by (simp add: isolated_def foot_def footprint_def z zero_process_def)
  then have sp0: "spaces ?k" by (simp add: spaces_def z alive_def zero_process_def)
  have "table_ok (procs ?k)" using zero_table z by simp
  then have m1: "moved 0 ?k k1" using create_moved [OF cr1 sp0] z(2) by (simp add: pages_of.simps)
  note i = idle_result [OF cr1 z(1)]
  have q: "q = Some 0" using i(1) wf by simp
  have al: "alive (procs k1 0)"
    using create_result [OF cr1] \<open>table_ok (procs ?k)\<close> q by (auto simp: view_def alive_def)
  have sp1: "spaces (kern s1)"
  proof -
    have e: "procs (kern s1) j = (if j = 0 then (procs k1 0)\<lparr>p_pid := 0\<rparr> else procs k1 j)" "kmem (kern s1) = kmem k1"
      "current_proc (kern s1) = Some 0" for j using q by (simp_all add: s1')
    have "same_spaces k1 (kern s1)" by (simp add: same_spaces_def e)
    moreover have "isolated k1" using m1 by (simp add: moved_def spaces_def)
    ultimately have "isolated (kern s1)" using keeps_isolated [OF same_spaces_keeps] by blast
    then show ?thesis using m1 by (auto simp: spaces_def e moved_def alive_def)
  qed
  have inv1: "sinv s1" by (rule bootstrap_sinv [OF s1 h])
  have im: "app_image s1 = app_image s0" by (simp add: s1' bss_clear_def)
  have m2: "moved 0 (kern s1) k"
    by (rule create_moved [OF cr sp1 sinv_table [OF inv1]]) (use img im al q in \<open>auto simp: s1' alive_def\<close>)
  have st: "steady k (k\<lparr>init_proc := p\<rparr>)" by (simp add: steady_def)
  note ss = steady_spaces [OF _ st]
  have "kinv (k\<lparr>init_proc := p\<rparr>)"
  proof (rule create_result [OF cr sinv_table [OF inv1]])
    assume "frame (kern s1) k" "table_ok (procs k)"
    then have "kinv k" using kinv_frame [of "kern s1" k] inv1 by (simp add: sinv_def)
    then show ?thesis by (simp add: kinv_def)
  qed
  then have "spaces k2" using yield_tidy [OF y ss(2)] m2 by (auto simp: moved_def tidy_def)
  then show ?thesis
    using kernel_main_sinv [OF main h] kernel_main_typed [OF main] img by (simp add: space_inv_def s im)
qed

text \<open>C2: Address spaces are isolated: in every state that the booted kernel reaches with programs that pass buffers of their
  own, two processes share no frame of a user page, no user page is part of a page table, and every step, system calls,
  interrupts, context switches and stores of programs, leaves what any other living process sees of its memory (pages,
  flags and bytes) as it is.\<close>

theorem address_spaces_isolated:
  assumes "honest_disk d (the_dev (blk (kfs (kern s0))))" "bootable (\<lambda>i. d (of_nat i))"
    "kernel_main free_ram free_end s0 = Ok (t, s1)" "unat free_ram mod 4096 = 0" "0 < unat free_ram"
    "\<And>name. length (pages_of (app_image s0 name)) \<le> 0xff000" "space_reach s1 s" "i < 64" "alive (procs (kern s) i)"
  shows "(\<forall>j < 64. \<forall>v w f g fl gl. alive (procs (kern s) j) \<longrightarrow> i \<noteq> j \<longrightarrow>
       sv32_walk (ram (kmem (kern s))) (ptab (kern s) i) v = Some (f, fl) \<longrightarrow> fl AND PAGE_U \<noteq> 0 \<longrightarrow>
       sv32_walk (ram (kmem (kern s))) (ptab (kern s) j) w = Some (g, gl) \<longrightarrow> gl AND PAGE_U \<noteq> 0 \<longrightarrow> f \<noteq> g) \<and>
    (\<forall>j < 64. \<forall>v f fl. alive (procs (kern s) j) \<longrightarrow>
       sv32_walk (ram (kmem (kern s))) (ptab (kern s) i) v = Some (f, fl) \<longrightarrow> fl AND PAGE_U \<noteq> 0 \<longrightarrow>
       f \<notin> tables (kmem (kern s)) (ptab (kern s) j)) \<and>
    (\<forall>s'. space_step s s' \<longrightarrow> current_proc (kern s) \<noteq> Some i \<longrightarrow> alive (procs (kern s') i) \<longrightarrow>
       (\<forall>v. user_view (kmem (kern s')) (ptab (kern s') i) v = user_view (kmem (kern s)) (ptab (kern s) i) v))"
proof -
  have si: "space_inv s" by (rule space_reach_inv [OF assms(7) kernel_main_spaces [OF assms(1-6)]])
  then have sp: "spaces (kern s)" by (simp add: space_inv_def)
  note iso = spacesD(1) [OF sp]
  have ok: "space_ok (kmem (kern s)) (ptab (kern s) j) (npages (kern s) j)" if "j < 64" "alive (procs (kern s) j)" for j
    by (rule isolatedD(2) [OF iso that(1) spacesD(2) [OF sp that]])
  note ft = space_okD(6,8) [OF ok]
  have page: "f \<in> foot (kern s) j \<and> f \<notin> tables (kmem (kern s)) (ptab (kern s) j)"
    if "j < 64" "alive (procs (kern s) j)" "sv32_walk (ram (kmem (kern s))) (ptab (kern s) j) v = Some (f, fl)" "fl AND PAGE_U \<noteq> 0" for j v f fl
    using user_page_frame [OF ok [OF that(1,2)] that(3,4)] ft [OF that(1,2)] by (auto simp: foot_def)
  have disj: "foot (kern s) i \<inter> foot (kern s) j = {}" if "j < 64" "i \<noteq> j" for j
    by (rule isolatedD(4) [OF iso assms(8) that])
  have "f \<noteq> g" if "j < 64" "alive (procs (kern s) j)" "i \<noteq> j" "sv32_walk (ram (kmem (kern s))) (ptab (kern s) i) v = Some (f, fl)"
    "fl AND PAGE_U \<noteq> 0" "sv32_walk (ram (kmem (kern s))) (ptab (kern s) j) w = Some (g, gl)" "gl AND PAGE_U \<noteq> 0" for j v w f g fl gl
    using page [OF assms(8,9) that(4,5)] page [OF that(1,2,6,7)] disj [OF that(1,3)] by blast
  moreover have "f \<notin> tables (kmem (kern s)) (ptab (kern s) j)" if "j < 64" "alive (procs (kern s) j)"
    "sv32_walk (ram (kmem (kern s))) (ptab (kern s) i) v = Some (f, fl)" "fl AND PAGE_U \<noteq> 0" for j v f fl
    using page [OF assms(8,9) that(3,4)] ft(1) [OF that(1,2)] disj [OF that(1)] by (cases "i = j") (auto simp: foot_def)
  moreover have "user_view (kmem (kern s')) (ptab (kern s') i) v = user_view (kmem (kern s)) (ptab (kern s) i) v"
    if st: "space_step s s'" "current_proc (kern s) \<noteq> Some i" "alive (procs (kern s') i)" for s' v
  proof -
    have cur: "\<exists>c. current_proc (kern s) = Some c" using si by (auto simp: space_inv_def sinv_def kinv_def)
    have "i \<notin> insert (cur_slot s) (idle_slots (kern s) \<union> idle_slots (kern s'))"
      using st(2,3) cur assms(9) by (auto simp: idle_slots_alive)
    then have k: "ptab (kern s') i = ptab (kern s) i" "sees (kern s') i = sees (kern s) i"
      using space_step_result [OF st(1) si] assms(8) by (auto simp: moved_def keeps_def)
    have "ptab (kern s) i \<noteq> 0" by (rule spacesD(2) [OF sp assms(8,9)])
    then show ?thesis using fun_cong [OF k(2), of v] k(1) by (simp add: sees_def)
  qed
  ultimately show ?thesis by blast
qed


theorem address_spaces_isolated_witness:
  "\<exists>s f. kernel_main 0x80400000 0x84400000 demo_machine = Ok (Switched, s) \<and> alive (procs (kern s) 1) \<and>
     sv32_walk (ram (kmem (kern s))) (ptab (kern s) 1) USER_BASE = Some (f, USER_FLAGS) \<and> f \<notin> tables (kmem (kern s)) (ptab (kern s) 1)"
proof -
  obtain s f where s: "kernel_main 0x80400000 0x84400000 demo_machine = Ok (Switched, s)" "running s" "current_proc (kern s) = Some 1"
    and f: "sv32_walk (ram (kmem (kern s))) (ptab (kern s) 1) USER_BASE = Some (f, USER_FLAGS)"
  proof (rule kernel_main_boots [OF demo_machine_boots])
    fix s
    assume b: "kernel_main 0x80400000 0x84400000 demo_machine = Ok (Switched, s)" "running s" "current_proc (kern s) = Some 1"
      and im: "\<And>k. k < length (app_image demo_machine ''shell'') \<Longrightarrow> \<exists>f. sv32_walk (ram (kmem (kern s))) (ptab (kern s) 1)
        (USER_BASE + of_nat k) = Some (f, USER_FLAGS) \<and>
        ram (kmem (kern s)) (f + of_nat (k mod 4096)) = app_image demo_machine ''shell'' ! k"
    show thesis using im [of 0] that [OF b] by (auto simp: demo_machine_def)
  qed
  have d: "honest_disk empty_disk (the_dev (blk (kfs (kern demo_machine))))" "bootable (\<lambda>i. empty_disk (of_nat i))"
    using power_on_disk by (simp_all add: demo_machine_def two_procs_def)
  have al: "alive (procs (kern s) 1)" using active_running [OF s(2,3)] by (simp add: active_def)
  have img: "length (pages_of (app_image demo_machine name)) \<le> 0xff000" for name by (simp add: demo_machine_def length_pages_of)
  have "USER_FLAGS AND PAGE_U \<noteq> 0" by (simp add: USER_FLAGS_def PAGE_U_def PAGE_V_def PAGE_R_def PAGE_W_def PAGE_X_def)
  then have "f \<notin> tables (kmem (kern s)) (ptab (kern s) 1)"
    using address_spaces_isolated [OF d s(1) _ _ img space_reach.start, of 1] al f by auto
  then show ?thesis using s(1) al f by blast
qed

end
