(* ===== verification/UserPath.thy ===== *)
theory UserPath
  imports NodeTree
begin

text \<open>
  Path normalisation for user programs, src/user/runtime/user_path.c: a relative path is put behind the working
  directory, and the result is brought into a form without empty names, \<open>.\<close> and \<open>..\<close>.

  The reading position \<open>i\<close> in \<open>abs\<close> is the part of the string that starts there; \<open>norm\<close> is the array of
  \<open>FS_PATH_MAX\<close> characters with its length \<open>norm_len\<close>, as the code updates it. A pointer that may be NULL is an
  option; the system call \<open>getcwd\<close> is given by its result, \<open>None\<close> when it fails. The contents that the local arrays
  have before they are written are parameters.
\<close>

section \<open>The code\<close>

fun pop_loop :: "char list \<Rightarrow> nat \<Rightarrow> nat" where
  "pop_loop path 0 = 0"
| "pop_loop path (Suc i) = (if path ! Suc i \<noteq> CHR ''/'' then pop_loop path i else Suc i)"

definition pop_component :: "char list \<times> nat \<Rightarrow> char list \<times> nat" where
  "pop_component = (\<lambda>(path, len).
     if len \<le> 1 then (buf_set path 1 NUL, 1)
     else let i = pop_loop path (len - 1) in
       if i = 0 then (buf_set path 1 NUL, 1) else (buf_set path i NUL, i))"

fun read_token :: "string \<Rightarrow> char list \<Rightarrow> char list \<times> string" where
  "read_token [] token = (token, [])"
| "read_token (c # absp) token =
     (if c = CHR ''/'' then (token, c # absp)
      else read_token absp (if length token < FS_NAME_MAX - 1 then token @ [c] else token))"

fun push_loop :: "char list \<times> nat \<Rightarrow> char list \<Rightarrow> (char list \<times> nat) option" where
  "push_loop (norm, norm_len) [] = Some (norm, norm_len)"
| "push_loop (norm, norm_len) (c # token) =
     (if norm_len + 1 \<ge> FS_PATH_MAX then None else push_loop (buf_set norm norm_len c, norm_len + 1) token)"

text \<open>A name is appended behind a slash, unless the path is still the root.\<close>

definition push_component :: "char list \<Rightarrow> char list \<times> nat \<Rightarrow> (char list \<times> nat) option" where
  "push_component token = (\<lambda>(norm, norm_len).
     map_option (\<lambda>(norm, norm_len). (buf_set norm norm_len NUL, norm_len))
       (if norm_len > 1
        then if norm_len + 1 \<ge> FS_PATH_MAX then None
             else push_loop (buf_set norm norm_len (CHR ''/''), norm_len + 1) token
        else push_loop (norm, norm_len) token))"

definition norm_step :: "char list \<Rightarrow> char list \<times> nat \<Rightarrow> (char list \<times> nat) option" where
  "norm_step token st =
     (if token = [] then Some st
      else if strcmp token ''.'' = 0 then Some st
      else if strcmp token ''..'' = 0 then Some (pop_component st)
      else push_component token st)"

lemma read_token_split:
  "read_token s t = (t @ take (15 - length t) (takeWhile (\<lambda>c. c \<noteq> CHR ''/'') s), dropWhile (\<lambda>c. c \<noteq> CHR ''/'') s)"
  if "length t \<le> 15" using that
  by (induction s t rule: read_token.induct) (auto simp: FS_NAME_MAX_def take_Cons' not_less)

function norm_loop :: "string \<Rightarrow> char list \<times> nat \<Rightarrow> (char list \<times> nat) option" where
  "norm_loop absp st =
     (let (token, rest) = read_token absp [] in
      case norm_step token st of
        None \<Rightarrow> None
      | Some st \<Rightarrow> if rest = [] then Some st else norm_loop (skip_slashes rest) st)"
  by pat_completeness auto
termination
proof (relation "measure (\<lambda>(absp, st). length absp)", simp)
  fix absp :: string and st :: "char list \<times> nat" and p token rest st'
  assume "p = read_token absp []" "(token, rest) = p" "rest \<noteq> []"
  then have r: "rest = dropWhile (\<lambda>c. c \<noteq> CHR ''/'') absp" "rest \<noteq> []" by (simp_all add: read_token_split)
  then obtain c q where q: "rest = c # q" by (meson neq_Nil_conv)
  have "hd rest = CHR ''/''" using hd_dropWhile [of "\<lambda>c. c \<noteq> CHR ''/''" absp] r by simp
  then have "c = CHR ''/''" by (simp add: q)
  then have "length (skip_slashes rest) \<le> length q" using length_skip_slashes [of q] by (simp add: q)
  also have "length q < length rest" by (simp add: q)
  also have "length rest \<le> length absp" using r(1) by (simp add: length_dropWhile_le)
  finally show "((skip_slashes rest, st'), absp, st) \<in> measure (\<lambda>(absp, st). length absp)" by simp
qed

declare norm_loop.simps [simp del]

text \<open>The path to normalise, in the array \<open>abs\<close>.\<close>

definition abs_path :: "char list \<Rightarrow> string option \<Rightarrow> string \<Rightarrow> char list option" where
  "abs_path absp getcwd input_path =
     (if char_at input_path 0 = CHR ''/'' then Some (strcpy_s absp FS_PATH_MAX input_path)
      else case getcwd of
        None \<Rightarrow> None
      | Some cwd \<Rightarrow>
          let absp = strcpy_s absp FS_PATH_MAX cwd;
              absp = (if strcmp (cstr absp) ''/'' \<noteq> 0 then strcat_s absp FS_PATH_MAX ''/'' else absp)
          in Some (strcat_s absp FS_PATH_MAX input_path))"

definition user_path_resolve ::
  "char list \<Rightarrow> char list \<Rightarrow> string option \<Rightarrow> string option \<Rightarrow> char list option \<Rightarrow> nat \<Rightarrow> int \<times> char list option" where
  "user_path_resolve absp norm getcwd input_path out_path out_size =
     (case (input_path, out_path) of
        (Some input_path, Some out) \<Rightarrow>
          if out_size = 0 then (-1, Some out)
          else let out = buf_set out 0 NUL in
            case abs_path (buf_set absp 0 NUL) getcwd input_path of
              None \<Rightarrow> (-1, Some out)
            | Some absp \<Rightarrow>
                case norm_loop (skip_slashes (cstr absp)) (buf_set (buf_set norm 0 (CHR ''/'')) 1 NUL, 1) of
                  None \<Rightarrow> (-1, Some out)
                | Some (norm, norm_len) \<Rightarrow> (0, Some (strcpy_s out out_size (cstr norm)))
      | _ \<Rightarrow> (-1, out_path))"

section \<open>What it computes\<close>

text \<open>The names of the normal form: \<open>..\<close> removes the last name, \<open>.\<close> nothing, and a name keeps at most 15 characters.\<close>

fun normal_names :: "string list \<Rightarrow> string list \<Rightarrow> string list" where
  "normal_names st [] = st"
| "normal_names st (c # cs) =
     (if c = ''.'' then normal_names st cs
      else if c = ''..'' then normal_names (butlast st) cs
      else normal_names (st @ [take 15 c]) cs)"

fun show_names :: "string list \<Rightarrow> string" where
  "show_names [] = []"
| "show_names (c # cs) = CHR ''/'' # c @ show_names cs"

definition show_path :: "string list \<Rightarrow> string" where
  "show_path cs = (if cs = [] then ''/'' else show_names cs)"

text \<open>The array holds the path of a list of names.\<close>

definition holds_names :: "string list \<Rightarrow> char list \<times> nat \<Rightarrow> bool" where
  "holds_names st = (\<lambda>(norm, len).
     length norm = 64 \<and> (\<forall>c \<in> set st. name_ok c) \<and> len = length (show_path st) \<and> len < 64 \<and>
     take len norm = show_path st \<and> norm ! len = NUL)"

lemma show_names_append: "show_names (st @ cs) = show_names st @ show_names cs"
  by (induction st) auto

lemma show_names_empty [simp]: "show_names st = [] \<longleftrightarrow> st = []"
  by (cases st) auto

lemma length_show_names: "st \<noteq> [] \<Longrightarrow> \<forall>c \<in> set st. name_ok c \<Longrightarrow> 2 \<le> length (show_names st)"
  by (cases st) (auto simp: name_ok_def Suc_le_eq)

lemma show_path_snoc: "show_path (st @ [c]) = show_names st @ CHR ''/'' # c"
  by (simp add: show_path_def show_names_append)

lemma nul_free_show_names: "\<forall>c \<in> set st. name_ok c \<Longrightarrow> nul_free (show_names st)"
  by (induction st) (auto simp: name_ok_def)

lemma nul_free_show_path: "\<forall>c \<in> set st. name_ok c \<Longrightarrow> nul_free (show_path st)"
  by (simp add: show_path_def nul_free_show_names)

lemma holds_names_cstr: "holds_names st (norm, len) \<Longrightarrow> cstr norm = show_path st"
  by (rule cstr_eqI [of len]) (auto simp: holds_names_def nul_free_show_path)

lemma pop_loop_stops:
  assumes "k = 0 \<or> path ! k = CHR ''/''" "\<And>j. k < j \<Longrightarrow> j \<le> k + n \<Longrightarrow> path ! j \<noteq> CHR ''/''"
  shows "pop_loop path (k + n) = k"
  using assms(2)
proof (induction n)
  case 0
  then show ?case using assms(1) by (cases k) auto
next
  case (Suc n)
  then show ?case using Suc.prems [of "Suc (k + n)"] by simp
qed

lemma pop_component_names:
  assumes "holds_names st (norm, len)"
  shows "holds_names (butlast st) (pop_component (norm, len))"
proof (cases st rule: rev_cases)
  case Nil
  with assms have "length norm = 64" "take 1 norm = ''/''" "len = 1" by (auto simp: holds_names_def show_path_def)
  then show ?thesis by (auto simp: Nil holds_names_def show_path_def pop_component_def)
next
  case (snoc ns c)
  let ?k = "length (show_names ns)"
  have n: "length norm = 64" "\<forall>c \<in> set st. name_ok c" "len = Suc ?k + length c" "len < 64"
    and p: "take len norm = show_names ns @ CHR ''/'' # c"
    using assms by (auto simp: holds_names_def snoc show_path_snoc)
  have c: "c \<noteq> []" "CHR ''/'' \<notin> set c" using n(2) by (auto simp: snoc name_ok_def)
  have at: "norm ! j = (show_names ns @ CHR ''/'' # c) ! j" if "j < len" for j
    using that p by (metis nth_take)
  have "norm ! ?k = CHR ''/''" using at [of ?k] n(3) by simp
  moreover have "norm ! j \<noteq> CHR ''/''" if "?k < j" "j \<le> ?k + length c" for j
  proof -
    have "norm ! j = c ! (j - Suc ?k)" "j - Suc ?k < length c" using at [of j] that n(3) by (auto simp: nth_append)
    then show ?thesis using c(2) by (metis nth_mem)
  qed
  ultimately have l: "pop_loop norm (len - 1) = ?k" using pop_loop_stops [of ?k norm "length c"] n(3) by simp
  have len: "1 < len" using n(3) c(1) by (cases c) auto
  have "take ?k (take len norm) = show_names ns" by (simp add: p)
  then have t: "take ?k norm = show_names ns" using n(3) by simp
  show ?thesis
  proof (cases "ns = []")
    case True
    have "norm ! 0 = CHR ''/''" using at [of 0] len True by simp
    then have "take 1 norm = ''/''" using n(1) by (cases norm) auto
    with True n(1) l len show ?thesis by (auto simp: pop_component_def snoc holds_names_def show_path_def)
  next
    case False
    with n t l len show ?thesis by (auto simp: pop_component_def Let_def snoc holds_names_def show_path_def)
  qed
qed

lemma push_loop_overwrite:
  "len + length token < 64 \<Longrightarrow> length norm = 64 \<Longrightarrow>
     push_loop (norm, len) token = Some (overwrite norm len token, len + length token)"
proof (induction token arbitrary: norm len)
  case (Cons c token)
  then have "push_loop (norm, len) (c # token) = push_loop (norm[len := c], len + 1) token" by (simp add: FS_PATH_MAX_def)
  then show ?case using Cons overwrite_Cons [of len norm c token] by simp
qed simp

lemma push_component_names:
  assumes "holds_names st (norm, len)" "name_ok c" "length (show_names st) + 1 + length c < 64"
  shows "\<exists>st'. push_component c (norm, len) = Some st' \<and> holds_names (st @ [c]) st'"
proof -
  have h: "length norm = 64" "\<forall>c \<in> set st. name_ok c" "len = length (show_path st)" "take len norm = show_path st"
    using assms(1) by (auto simp: holds_names_def)
  have "\<exists>norm'. push_component c (norm, len) = Some (buf_set norm' (length (show_path (st @ [c]))) NUL, length (show_path (st @ [c]))) \<and>
      length norm' = 64 \<and> take (length (show_path (st @ [c]))) norm' = show_path (st @ [c])"
  proof (cases "st = []")
    case True
    with h have l: "len = 1" "take 1 norm = ''/''" by (simp_all add: show_path_def)
    then have "push_loop (norm, 1) c = Some (overwrite norm 1 c, 1 + length c)"
      using assms(3) h(1) True by (intro push_loop_overwrite) simp_all
    then show ?thesis using l h(1) assms(3) True
      by (intro exI [of _ "overwrite norm 1 c"]) (simp add: push_component_def show_path_def overwrite_def)
  next
    case False
    then have l: "len = length (show_names st)" "1 < len"
      using h(2,3) length_show_names [of st] by (simp_all add: show_path_def)
    let ?n = "overwrite (norm[len := CHR ''/'']) (len + 1) c"
    have "push_loop (norm[len := CHR ''/''], len + 1) c = Some (?n, len + 1 + length c)"
      using assms(3) h(1) l(1) by (intro push_loop_overwrite) simp_all
    then have p: "push_component c (norm, len) = Some (buf_set ?n (len + 1 + length c) NUL, len + 1 + length c)"
      using l assms(3) h(1) by (simp add: push_component_def FS_PATH_MAX_def)
    have "?n = overwrite norm len (CHR ''/'' # c)" using overwrite_Cons [of len norm _ c] assms(3) l(1) h(1) by simp
    then have "take (len + 1 + length c) ?n = show_names st @ CHR ''/'' # c"
      using h(1,4) assms(3) l(1) False by (simp add: overwrite_def show_path_def)
    then show ?thesis using p h(1) assms(3) l(1)
      by (intro exI [of _ ?n]) (simp add: show_path_snoc)
  qed
  then show ?thesis using h(2) assms(2,3)
    by (auto simp: holds_names_def show_path_snoc)
qed

text \<open>One name of the path, and all of them.\<close>

lemma norm_step_names:
  assumes "holds_names st p" "nul_free c" "CHR ''/'' \<notin> set c" "c \<noteq> []" "length (show_names st) + 1 + length c < 64"
  shows "\<exists>p'. norm_step (take 15 c) p = Some p' \<and> holds_names (normal_names st [c]) p' \<and>
     length (show_names (normal_names st [c])) \<le> length (show_names st) + 1 + length c"
proof -
  have dot: "take 15 c = ''.'' \<longleftrightarrow> c = ''.''" "take 15 c = ''..'' \<longleftrightarrow> c = ''..''"
    by (cases c rule: remdups_adj.cases; cases "drop 2 c"; auto)+
  have cmp: "strcmp (take 15 c) ''.'' = 0 \<longleftrightarrow> c = ''.''" "strcmp (take 15 c) ''..'' = 0 \<longleftrightarrow> c = ''..''"
    using assms(2) by (simp_all add: strcmp_zero_iff dot)
  have ok: "name_ok (take 15 c)" using assms(2-4) by (auto simp: name_ok_def dest: in_set_takeD)
  obtain norm len where p: "p = (norm, len)" by fastforce
  have b: "length (show_names (butlast st)) \<le> length (show_names st)"
    by (cases st rule: rev_cases) (simp_all add: show_names_append)
  show ?thesis
  proof (cases "c = ''.'' \<or> c = ''..''")
    case True
    then have "norm_step (take 15 c) p = Some (if c = ''.'' then p else pop_component p)"
      by (auto simp: norm_step_def cmp)
    then show ?thesis using True assms(1) pop_component_names [of st norm len] b p
      by (intro exI [of _ "if c = ''.'' then p else pop_component p"]) auto
  next
    case False
    then show ?thesis
      using push_component_names [of st norm len "take 15 c"] assms(1,4,5) ok p
      by (auto simp: norm_step_def cmp show_names_append)
  qed
qed

lemma normal_names_append: "normal_names st (cs @ ds) = normal_names (normal_names st cs) ds"
  by (induction st cs rule: normal_names.induct) auto

lemma path_comps_first:
  assumes "s \<noteq> []" "hd s \<noteq> CHR ''/''"
  shows "path_comps s = takeWhile (\<lambda>c. c \<noteq> CHR ''/'') s # path_comps (dropWhile (\<lambda>c. c \<noteq> CHR ''/'') s)"
  using assms by (cases s) auto

lemma nul_free_skip_slashes: "nul_free s \<Longrightarrow> nul_free (skip_slashes s)"
  by (induction s) auto

lemma norm_loop_names:
  assumes "holds_names st p" "nul_free s" "s = [] \<or> hd s \<noteq> CHR ''/''"
    "s \<noteq> [] \<Longrightarrow> length (show_names st) + 1 + length s < 64"
  shows "\<exists>p'. norm_loop s p = Some p' \<and> holds_names (normal_names st (path_comps s)) p'"
  using assms
proof (induction s p arbitrary: st rule: norm_loop.induct)
  case (1 s p)
  let ?c = "takeWhile (\<lambda>c. c \<noteq> CHR ''/'') s" and ?r = "dropWhile (\<lambda>c. c \<noteq> CHR ''/'') s"
  have tok: "read_token s [] = (take 15 ?c, ?r)" by (simp add: read_token_split)
  show ?case
  proof (cases "s = []")
    case True
    with 1(2) show ?thesis by (cases p) (simp add: norm_loop.simps [of "[]"] norm_step_def)
  next
    case False
    with 1(4) have hd: "hd s \<noteq> CHR ''/''" by simp
    have len: "length s = length ?c + length ?r" by (metis length_append takeWhile_dropWhile_id)
    have c: "nul_free ?c" "CHR ''/'' \<notin> set ?c" "?c \<noteq> []" and r: "nul_free ?r"
      using 1(3) False hd by (auto simp: nul_free_def takeWhile_eq_Nil_iff dest: set_takeWhileD set_dropWhileD)
    have "length (show_names st) + 1 + length ?c < 64" using 1(5) [OF False] len by linarith
    from norm_step_names [OF 1(2) c this] obtain p' where
      p': "norm_step (take 15 ?c) p = Some p'" "holds_names (normal_names st [?c]) p'"
      "length (show_names (normal_names st [?c])) \<le> length (show_names st) + 1 + length ?c"
      by blast
    have eq: "normal_names st (path_comps s) = normal_names (normal_names st [?c]) (path_comps ?r)"
      using normal_names_append [of st "[?c]" "path_comps ?r"] by (simp only: path_comps_first [OF False hd] append.simps)
    show ?thesis
    proof (cases "?r = []")
      case True
      then have "norm_loop s p = Some p'" using p'(1) tok by (simp add: norm_loop.simps [of s])
      moreover have "normal_names st (path_comps s) = normal_names st [?c]" unfolding eq by (simp only: True path_comps.simps normal_names.simps)
      ultimately show ?thesis using p'(2) by metis
    next
      case rest: False
      then obtain q where q: "?r = CHR ''/'' # q" using hd_dropWhile [of "\<lambda>c. c \<noteq> CHR ''/''" s] 
        by (metis dropWhile_eq_Nil_conv list.collapse)
      let ?s = "skip_slashes ?r"
      have "length ?s < length ?r" using length_skip_slashes [of q] by (simp add: q)
      then have l: "length (show_names (normal_names st [?c])) + 1 + length ?s < 64" using p'(3) 1(5) [OF False] len by linarith
      have n: "nul_free ?s" using r by (rule nul_free_skip_slashes)
      have "?s = [] \<or> hd ?s \<noteq> CHR ''/''" using skip_slashes_hd by blast
      then obtain p'' where "norm_loop ?s p' = Some p''" "holds_names (normal_names (normal_names st [?c]) (path_comps ?s)) p''"
        using 1(1) [OF tok [symmetric] refl p'(1) rest p'(2) n _ l] by auto
      moreover have "norm_loop s p = norm_loop ?s p'" using p'(1) tok rest by (auto simp: norm_loop.simps [of s])
      ultimately show ?thesis unfolding eq path_comps_skip by metis
    qed
  qed
qed

text \<open>The path that is normalised: cut to 63 characters, and relative to the working directory.\<close>

definition target_path :: "string \<Rightarrow> string \<Rightarrow> string" where
  "target_path cwd input = take 63
     (if char_at input 0 = CHR ''/'' then input else if cwd = ''/'' then cwd @ input else cwd @ ''/'' @ input)"

lemma take_take_append: "take n (take n xs @ ys) = take n (xs @ ys)"
  by (cases "n \<le> length xs") simp_all

lemma abs_path_target:
  assumes "nul_free input" "length a = 64"
    "char_at input 0 = CHR ''/'' \<or> getcwd = Some cwd \<and> nul_free cwd \<and> char_at cwd 0 = CHR ''/''"
  shows "\<exists>b. abs_path a getcwd input = Some b \<and> cstr b = target_path cwd input"
proof (cases "char_at input 0 = CHR ''/''")
  case True
  then show ?thesis using strcpy_s_spec [of 64 a input] assms(1,2)
    by (simp add: abs_path_def target_path_def FS_PATH_MAX_def)
next
  case False
  with assms(3) have w: "getcwd = Some cwd" "nul_free cwd" "char_at cwd 0 = CHR ''/''" by auto
  let ?b = "strcpy_s a 64 cwd"
  let ?d = "if strcmp (cstr ?b) ''/'' \<noteq> 0 then strcat_s ?b 64 ''/'' else ?b"
  have b: "length ?b = 64" "cstr ?b = take 63 cwd" using strcpy_s_spec [of 64 a cwd] w(2) assms(2) by simp_all
  have cmp: "strcmp (cstr ?b) ''/'' = 0 \<longleftrightarrow> cwd = ''/''"
    using w(2,3) by (simp add: b strcmp_zero_iff) (cases cwd; auto)
  have d: "length ?d = 64 \<and> cstr ?d = take 63 (if cwd = ''/'' then cwd else cwd @ ''/'')"
    unfolding cmp using strcat_s_spec [of ?b 64 "''/''"] b by (auto simp: min_def)
  have "cstr (strcat_s ?d 64 input) = take 63 (cstr ?d @ input)" using strcat_s_spec(2) [of ?d 64 input] d assms(1) by simp
  also have "\<dots> = take 63 ((if cwd = ''/'' then cwd else cwd @ ''/'') @ input)"
    unfolding d [THEN conjunct2] by (rule take_take_append)
  also have "\<dots> = target_path cwd input" using False by (simp add: target_path_def del: take_append)
  finally show ?thesis using False w(1) by (auto simp: abs_path_def FS_PATH_MAX_def Let_def)
qed

lemma target_path_first:
  assumes "char_at input 0 = CHR ''/'' \<or> char_at cwd 0 = CHR ''/''"
  shows "\<exists>s. target_path cwd input = CHR ''/'' # s \<and> length s \<le> 62"
  using assms by (cases input; cases cwd) (auto simp: target_path_def)

lemma nul_free_target: "nul_free input \<Longrightarrow> char_at input 0 = CHR ''/'' \<or> nul_free cwd \<Longrightarrow> nul_free (target_path cwd input)"
  by (auto simp: target_path_def)

text \<open>Normal names are neither \<open>.\<close> nor \<open>..\<close>, and a path that is in normal form is its own normal form.\<close>

lemma normal_names_no_dots:
  "''.'' \<notin> set st \<Longrightarrow> ''..'' \<notin> set st \<Longrightarrow> ''.'' \<notin> set (normal_names st cs) \<and> ''..'' \<notin> set (normal_names st cs)"
proof (induction st cs rule: normal_names.induct)
  case (2 st c cs)
  have "take 15 c = ''.'' \<longleftrightarrow> c = ''.''" "take 15 c = ''..'' \<longleftrightarrow> c = ''..''"
    by (cases c rule: remdups_adj.cases; cases "drop 2 c"; auto)+
  then show ?case using 2 by (auto dest: in_set_butlastD)
qed simp

lemma path_comps_show_names: "\<forall>c \<in> set cs. name_ok c \<Longrightarrow> path_comps (show_names cs) = cs"
proof (induction cs)
  case (Cons c cs)
  then have "c \<noteq> []" "CHR ''/'' \<notin> set c" by (auto simp: name_ok_def)
  moreover have "show_names cs = [] \<or> hd (show_names cs) = CHR ''/''" by (cases cs) auto
  ultimately have "takeWhile (\<lambda>x. x \<noteq> CHR ''/'') (c @ show_names cs) = c \<and> dropWhile (\<lambda>x. x \<noteq> CHR ''/'') (c @ show_names cs) = show_names cs"
    by (cases "show_names cs") (auto simp: takeWhile_append dropWhile_append)
  moreover have "hd (c @ show_names cs) \<noteq> CHR ''/''" using \<open>c \<noteq> []\<close> \<open>CHR ''/'' \<notin> set c\<close> by (cases c) auto
  ultimately show ?case using Cons \<open>c \<noteq> []\<close> path_comps_first [of "c @ show_names cs"] by simp
qed simp

lemma path_comps_show_path: "\<forall>c \<in> set cs. name_ok c \<Longrightarrow> path_comps (show_path cs) = cs"
  by (simp add: show_path_def path_comps_show_names)

lemma user_path_resolve_result:
  assumes "nul_free input" "0 < out_size" "out_size \<le> length out" "length ab = 64" "length nm = 64"
    "char_at input 0 = CHR ''/'' \<or> getcwd = Some cwd \<and> nul_free cwd \<and> char_at cwd 0 = CHR ''/''"
    "ns = normal_names [] (path_comps (target_path cwd input))"
  shows "\<exists>out'. user_path_resolve ab nm getcwd (Some input) (Some out) out_size = (0, Some out') \<and>
     length out' = length out \<and> cstr out' = take (out_size - 1) (show_path ns) \<and>
     length (show_path ns) < FS_PATH_MAX \<and> path_comps (show_path ns) = ns \<and>
     (\<forall>c \<in> set ns. name_ok c \<and> c \<noteq> ''.'' \<and> c \<noteq> ''..'')"
proof -
  obtain b where b: "abs_path (buf_set ab 0 NUL) getcwd input = Some b" "cstr b = target_path cwd input"
    using abs_path_target [OF assms(1) _ assms(6), of "buf_set ab 0 NUL"] assms(4) by auto
  obtain s where s: "target_path cwd input = CHR ''/'' # s" "length s \<le> 62" using target_path_first assms(6) by blast
  let ?t = "skip_slashes s" and ?p = "((nm[0 := CHR ''/''])[1 := NUL], 1 :: nat)"
  have n: "nul_free s" using nul_free_target [of input cwd] assms(1,6) s(1) by auto
  have p: "holds_names [] ?p" using assms(5) by (cases nm) (auto simp: holds_names_def show_path_def)
  have "length (show_names []) + 1 + length ?t < 64" using length_skip_slashes [of s] s(2) by simp
  then obtain q where q: "norm_loop ?t ?p = Some q" "holds_names (normal_names [] (path_comps ?t)) q"
    using norm_loop_names [OF p nul_free_skip_slashes [OF n]] skip_slashes_hd by blast
  obtain norm len where [simp]: "q = (norm, len)" by fastforce
  have ns: "normal_names [] (path_comps ?t) = ns" by (simp add: assms(7) s(1) path_comps_skip)
  have c: "cstr norm = show_path ns" "\<forall>c \<in> set ns. name_ok c" "length (show_path ns) < 64"
    using q(2) holds_names_cstr [of ns norm len] by (auto simp: ns holds_names_def)
  let ?out = "buf_set out 0 NUL"
  have "user_path_resolve ab nm getcwd (Some input) (Some out) out_size = (0, Some (strcpy_s ?out out_size (show_path ns)))"
    using assms(2,5) b q(1) s(1) c(1) by (simp add: user_path_resolve_def Let_def)
  moreover have "length ?out = length out" using assms(2,3) by (cases out) simp_all
  ultimately show ?thesis
    using strcpy_s_spec [OF assms(2), of ?out "show_path ns"] assms(3) nul_free_show_path [OF c(2)] c(2,3)
      path_comps_show_path [OF c(2)] normal_names_no_dots [of "[]" "path_comps (target_path cwd input)"]
    by (auto simp: FS_PATH_MAX_def assms(7) [symmetric])
qed



end
