(* ===== verification/Printf.thy ===== *)
theory Printf
  imports CommonLibs
begin

text \<open>
  Formatted output: \<open>printf\<close> of src/lib/commonlibs.c, which kernel and user programs share, and \<open>shell_printf\<close> of
  src/user/apps/shell/utils.c. Both hand one character after the other to \<open>putchar\<close>; the model returns the list of
  these characters. The arguments are the list that \<open>va_arg\<close> walks along; a conversion that finds no argument of its
  type there has no defined behaviour in C and is \<open>None\<close> here.
\<close>

abbreviation NL :: char where
  "NL \<equiv> CHR 0x0A"

abbreviation TAB :: char where
  "TAB \<equiv> CHR 0x09"

datatype va_value = Va_str string | Va_int u32

section \<open>Conversions\<close>

text \<open>\<open>while (magnitude / divisor > 9) divisor *= 10\<close>, over machine words.\<close>

partial_function (option) divisor_loop :: "u32 \<Rightarrow> u32 \<Rightarrow> u32 option" where
  "divisor_loop magnitude divisor = (if magnitude div divisor > 9 then divisor_loop magnitude (divisor * 10) else Some divisor)"

text \<open>\<open>while (divisor > 0)\<close>: one digit per turn.\<close>

function digit_loop :: "u32 \<Rightarrow> u32 \<Rightarrow> string" where
  "digit_loop magnitude divisor =
     (if divisor > 0
      then char_of (unat (48 + magnitude div divisor)) # digit_loop (magnitude mod divisor) (divisor div 10) else [])"
  by pat_completeness auto
termination
  by (relation "measure (\<lambda>(m, d). unat d)") (auto simp: unat_div_numeral word_gt_0 unat_gt_0)

declare digit_loop.simps [simp del] divisor_loop.simps [code]

definition fmt_d :: "u32 \<Rightarrow> string option" where
  "fmt_d v =
     (let minus = sint v < 0; magnitude = (if minus then - v else v)
      in map_option (\<lambda>d. (if minus then ''-'' else []) @ digit_loop magnitude d) (divisor_loop magnitude 1))"

definition hex_digits :: string where
  "hex_digits = ''0123456789abcdef''"

definition fmt_x :: "u32 \<Rightarrow> string" where
  "fmt_x v = map (\<lambda>i. hex_digits ! unat (drop_bit (i * 4) v AND 0xf)) [7, 6, 5, 4, 3, 2, 1, 0]"

section \<open>The two formatters\<close>

fun printf :: "string \<Rightarrow> va_value list \<Rightarrow> string option" where
  "printf [] vargs = Some []"
| "printf (c # fmt) vargs =
     (if c = CHR ''%''
      then case fmt of
          [] \<Rightarrow> Some ''%''
        | d # fmt \<Rightarrow>
            if d = CHR ''%'' then map_option (\<lambda>out. ''%'' @ out) (printf fmt vargs)
            else if d = CHR ''s''
            then (case vargs of
                Va_str s # vargs \<Rightarrow> map_option (\<lambda>out. s @ out) (printf fmt vargs)
              | _ \<Rightarrow> None)
            else if d = CHR ''d''
            then (case vargs of
                Va_int v # vargs \<Rightarrow> Option.bind (fmt_d v) (\<lambda>t. map_option (\<lambda>out. t @ out) (printf fmt vargs))
              | _ \<Rightarrow> None)
            else if d = CHR ''x''
            then (case vargs of
                Va_int v # vargs \<Rightarrow> map_option (\<lambda>out. fmt_x v @ out) (printf fmt vargs)
              | _ \<Rightarrow> None)
            else printf fmt vargs
      else map_option (\<lambda>out. c # out) (printf fmt vargs))"

fun shell_printf :: "string \<Rightarrow> va_value list \<Rightarrow> string option" where
  "shell_printf [] vargs = Some []"
| "shell_printf (c # fmt) vargs =
     (if c = CHR ''%''
      then case fmt of
          [] \<Rightarrow> Some ''%''
        | d # fmt \<Rightarrow>
            if d = CHR ''%'' then map_option (\<lambda>out. ''%'' @ out) (shell_printf fmt vargs)
            else if d = CHR ''s''
            then (case vargs of
                Va_str s # vargs \<Rightarrow> map_option (\<lambda>out. s @ out) (shell_printf fmt vargs)
              | _ \<Rightarrow> None)
            else if d = CHR ''d''
            then (case vargs of
                Va_int v # vargs \<Rightarrow> Option.bind (fmt_d v) (\<lambda>t. map_option (\<lambda>out. t @ out) (shell_printf fmt vargs))
              | _ \<Rightarrow> None)
            else if d = CHR ''x''
            then (case vargs of
                Va_int v # vargs \<Rightarrow> map_option (\<lambda>out. fmt_x v @ out) (shell_printf fmt vargs)
              | _ \<Rightarrow> None)
            else map_option (\<lambda>out. ''%'' @ d # out) (shell_printf fmt vargs)
      else map_option (\<lambda>out. c # out) (shell_printf fmt vargs))"

section \<open>The decimal conversion\<close>

lemma unat_pow10: "k \<le> 9 \<Longrightarrow> unat (of_nat (10 ^ k) :: u32) = 10 ^ k"
proof -
  assume "k \<le> 9"
  then have "(10::nat) ^ k \<le> 10 ^ 9" by (intro power_increasing) simp_all
  also have "\<dots> < 2 ^ LENGTH(32)" by simp
  finally show ?thesis by (simp only: unat_of_nat mod_less)
qed

text \<open>The number of digits: \<open>k\<close> is the position of the first one.\<close>

definition top_digit :: "nat \<Rightarrow> nat \<Rightarrow> bool" where
  "top_digit n k \<longleftrightarrow> n < 10 ^ Suc k \<and> (k = 0 \<or> 10 ^ k \<le> n)"

lemma top_digit_exists: "\<exists>k. top_digit n k"
proof -
  define k where "k = (LEAST k. n < 10 ^ Suc k)"
  have "n < 10 ^ Suc n" using less_exp [of "Suc n"] power_mono [of 2 "10::nat" "Suc n"] by simp
  then have 1: "n < 10 ^ Suc k" unfolding k_def by (rule LeastI)
  have "10 ^ k \<le> n" if j: "k = Suc j" for j
  proof -
    have "j < (LEAST k. n < 10 ^ Suc k)" using j unfolding k_def by linarith
    then have "\<not> n < 10 ^ Suc j" by (rule not_less_Least)
    then show ?thesis by (simp add: j)
  qed
  then have "top_digit n k" using 1 by (cases k) (auto simp: top_digit_def)
  then show ?thesis ..
qed

lemma top_digit_u32: "top_digit (unat (v :: u32)) k \<Longrightarrow> k \<le> 9"
proof (rule ccontr)
  assume t: "top_digit (unat v) k" and "\<not> k \<le> 9"
  then have "(10::nat) ^ 10 \<le> 10 ^ k" by (intro power_increasing) simp_all
  also have "\<dots> \<le> unat v" using t \<open>\<not> k \<le> 9\<close> by (simp add: top_digit_def)
  also have "\<dots> < 2 ^ 32" using unsigned_less [of v] by simp
  finally show False by simp
qed

lemma divisor_loop_power:
  assumes "top_digit (unat m) k" "i \<le> k"
  shows "divisor_loop m (of_nat (10 ^ i)) = Some (of_nat (10 ^ k))"
  using assms(2)
proof (induction "k - i" arbitrary: i)
  have k: "k \<le> 9" using top_digit_u32 assms(1) .
  have gt: "9 < m div of_nat (10 ^ i) \<longleftrightarrow> 10 * 10 ^ i \<le> unat m" if "i \<le> k" for i
  proof -
    have "9 < m div of_nat (10 ^ i) \<longleftrightarrow> 9 < unat m div 10 ^ i"
      using unat_pow10 [of i] that k by (simp add: word_less_nat_alt unat_div)
    also have "\<dots> \<longleftrightarrow> 10 \<le> unat m div 10 ^ i" by linarith
    finally show ?thesis by (simp add: less_eq_div_iff_mult_less_eq)
  qed
  {
    case 0
    then have "i = k" by simp
    moreover have "\<not> 10 * 10 ^ k \<le> unat m" using assms(1) by (simp add: top_digit_def)
    ultimately show ?case using gt [of k] by (subst divisor_loop.simps) (simp del: of_nat_power)
  next
    case (Suc n)
    then have i: "Suc i \<le> k" by simp
    then have "(10::nat) ^ Suc i \<le> 10 ^ k" by (intro power_increasing) simp_all
    also have "\<dots> \<le> unat m" using assms(1) i by (simp add: top_digit_def)
    finally have "divisor_loop m (of_nat (10 ^ i)) = divisor_loop m (of_nat (10 ^ i) * 10)"
      using gt [of i] i by (subst divisor_loop.simps) (simp del: of_nat_power)
    also have "of_nat (10 ^ i) * 10 = (of_nat (10 ^ Suc i) :: u32)" by simp
    finally show ?case using Suc.hyps(1) [of "Suc i"] Suc.hyps(2) i by simp
  }
qed

text \<open>The digits from a given position down.\<close>

fun wide :: "nat \<Rightarrow> nat \<Rightarrow> string" where
  "wide 0 n = [digit_char n]"
| "wide (Suc k) n = digit_char (n div 10 ^ Suc k) # wide k (n mod 10 ^ Suc k)"

lemma wide_snoc: "wide (Suc k) n = wide k (n div 10) @ [digit_char (n mod 10)]"
proof (induction k arbitrary: n)
  case (Suc k)
  have 1: "n div 10 ^ Suc (Suc k) = n div 10 div 10 ^ Suc k" by (simp only: power_Suc [of _ "Suc k"] div_mult2_eq)
  have 2: "n mod 10 ^ Suc (Suc k) = 10 * (n div 10 mod 10 ^ Suc k) + n mod 10" using mod_mult2_eq [of n 10 "10 ^ Suc k"] by simp
  have "wide (Suc (Suc k)) n = digit_char (n div 10 ^ Suc (Suc k)) # wide (Suc k) (n mod 10 ^ Suc (Suc k))" by (simp only: wide.simps)
  also have "\<dots> = digit_char (n div 10 div 10 ^ Suc k) # wide k (n div 10 mod 10 ^ Suc k) @ [digit_char (n mod 10)]"
    unfolding Suc.IH unfolding 1 2 by simp
  finally show ?case by simp
qed simp

lemma wide_dec_string: "top_digit n k \<Longrightarrow> wide k n = dec_string n"
proof (induction k arbitrary: n)
  case 0
  then show ?case by (simp add: top_digit_def dec_string.simps [of n])
next
  case (Suc k)
  have n: "10 ^ Suc k \<le> n" "n < 10 ^ Suc (Suc k)" using Suc.prems by (simp_all add: top_digit_def)
  have "(10::nat) ^ 1 \<le> 10 ^ Suc k" by (intro power_increasing) simp_all
  then have "10 \<le> n" using n(1) by (metis order_trans power_one_right)
  moreover have "top_digit (n div 10) k" using n by (auto simp: top_digit_def less_eq_div_iff_mult_less_eq)
  ultimately show ?case using Suc.IH [of "n div 10"] by (simp add: wide_snoc dec_string.simps [of n] del: wide.simps)
qed

lemma digit_loop_wide:
  "k \<le> 9 \<Longrightarrow> unat m < 10 ^ Suc k \<Longrightarrow> digit_loop m (of_nat (10 ^ k)) = wide k (unat m)"
proof (induction k arbitrary: m)
  case 0
  have "unat (48 + m) = 48 + unat m" using 0 by (simp add: unat_word_ariths)
  then show ?case using 0 by (simp add: digit_loop.simps digit_char_def)
next
  case (Suc k)
  let ?d = "of_nat (10 ^ Suc k) :: u32"
  have d: "unat ?d = 10 ^ Suc k" using unat_pow10 [OF Suc.prems(1)] .
  then have pos: "0 < ?d" by (metis power_not_zero unat_eq_zero word_neq_0_conv zero_neq_numeral)
  have q: "unat (m div ?d) = unat m div 10 ^ Suc k" by (simp only: unat_div d)
  have "unat m div 10 ^ Suc k < 10" using Suc.prems(2) by (simp add: div_less_iff_less_mult)
  then have c: "char_of (unat (48 + m div ?d)) = digit_char (unat m div 10 ^ Suc k)"
    using q by (simp add: unat_word_ariths digit_char_def)
  have "unat (?d div 10) = 10 ^ k" by (simp only: unat_div_numeral d) simp
  then have "?d div 10 = of_nat (10 ^ k)" using unat_pow10 [of k] Suc.prems(1) by (metis Suc_leD word_unat_eq_iff)
  moreover have r: "unat (m mod ?d) = unat m mod 10 ^ Suc k" by (simp only: unat_mod d)
  ultimately show ?case using Suc.IH [of "m mod ?d"] Suc.prems(1) pos c
    by (simp add: digit_loop.simps [of m ?d] del: of_nat_power power_Suc)
qed

lemma fmt_d_decimal:
  "fmt_d v = Some (if sint v < 0 then CHR ''-'' # dec_string (nat (- sint v)) else dec_string (nat (sint v)))"
proof -
  have abs: "unat (if sint v < 0 then - v else v) = nat \<bar>sint v\<bar>"
  proof -
    have "(if sint v < 0 then - v else v) = of_int \<bar>sint v\<bar>" by (simp add: abs_if)
    moreover have "\<bar>sint v\<bar> < 2 ^ 32" using sint_greater_eq [of v] sint_less [of v] by simp
    ultimately show ?thesis by (simp add: unsigned_of_int take_bit_int_eq_self)
  qed
  let ?m = "if sint v < 0 then - v else v"
  obtain k where k: "top_digit (unat ?m) k" using top_digit_exists by blast
  then have "k \<le> 9" by (rule top_digit_u32)
  then have "divisor_loop ?m 1 = Some (of_nat (10 ^ k))" "digit_loop ?m (of_nat (10 ^ k)) = dec_string (unat ?m)"
    using divisor_loop_power [OF k, of 0] digit_loop_wide [of k ?m] wide_dec_string [OF k] k by (simp_all add: top_digit_def)
  then show ?thesis unfolding fmt_d_def Let_def abs by simp
qed

section \<open>Formats as sequences of pieces\<close>

text \<open>What a format string says: characters, and conversions with the arguments they take.\<close>

datatype piece = Text char | Percent | Str string | Dec u32 | Hex u32

fun piece_fmt :: "piece \<Rightarrow> string" where
  "piece_fmt (Text c) = [c]"
| "piece_fmt Percent = ''%%''"
| "piece_fmt (Str s) = ''%s''"
| "piece_fmt (Dec v) = ''%d''"
| "piece_fmt (Hex v) = ''%x''"

fun piece_args :: "piece \<Rightarrow> va_value list" where
  "piece_args (Str s) = [Va_str s]"
| "piece_args (Dec v) = [Va_int v]"
| "piece_args (Hex v) = [Va_int v]"
| "piece_args _ = []"

definition int_text :: "int \<Rightarrow> string" where
  "int_text i = (if i < 0 then CHR ''-'' # dec_string (nat (- i)) else dec_string (nat i))"

fun piece_text :: "piece \<Rightarrow> string" where
  "piece_text (Text c) = [c]"
| "piece_text Percent = ''%''"
| "piece_text (Str s) = s"
| "piece_text (Dec v) = int_text (sint v)"
| "piece_text (Hex v) = fmt_x v"

lemma append_singleton_fun [simp]: "(@) [c] = (#) c"
  by (rule ext) simp

lemma printf_piece:
  "p \<noteq> Text (CHR ''%'') \<Longrightarrow>
   printf (piece_fmt p @ fmt) (piece_args p @ vargs) = map_option (\<lambda>out. piece_text p @ out) (printf fmt vargs)"
  by (cases p) (auto simp: fmt_d_decimal int_text_def option.map_comp o_def)

lemma shell_printf_piece:
  "p \<noteq> Text (CHR ''%'') \<Longrightarrow>
   shell_printf (piece_fmt p @ fmt) (piece_args p @ vargs) = map_option (\<lambda>out. piece_text p @ out) (shell_printf fmt vargs)"
  by (cases p) (auto simp: fmt_d_decimal int_text_def option.map_comp o_def)

lemma printf_pieces:
  "Text (CHR ''%'') \<notin> set ps \<Longrightarrow>
   printf (concat (map piece_fmt ps)) (concat (map piece_args ps)) = Some (concat (map piece_text ps))"
  by (induction ps) (auto simp: printf_piece)

text \<open>Eight hexadecimal digits denote the word.\<close>

definition hex_value :: "string \<Rightarrow> nat" where
  "hex_value s = foldl (\<lambda>v c. 16 * v + (if of_char c < (58::nat) then of_char c - 48 else of_char c - 87)) 0 s"

lemma hex_digit_value:
  "n < 16 \<Longrightarrow> (if of_char (hex_digits ! n) < (58::nat) then of_char (hex_digits ! n) - 48 else of_char (hex_digits ! n) - 87) = n"
proof -
  assume "n < 16"
  then have "n \<in> set [0 ..< 16]" by simp
  moreover have "list_all (\<lambda>n. (if of_char (hex_digits ! n) < (58::nat) then of_char (hex_digits ! n) - 48
    else of_char (hex_digits ! n) - 87) = n) [0 ..< 16]" by code_simp
  ultimately show ?thesis by (auto simp only: list_all_iff)
qed

lemma nibble: "unat (drop_bit n v AND (0xf :: u32)) = unat v div 2 ^ n mod 16"
proof -
  have "drop_bit n v AND 0xf = take_bit 4 (drop_bit n v)" by (simp add: take_bit_eq_mask mask_eq_exp_minus_1)
  moreover have u: "unat v mod 4294967296 = unat v" using unsigned_less [of v, where 'a = nat] by simp
  moreover have "unat (take_bit 4 (drop_bit n v)) = unat v div 2 ^ n mod 2 ^ 4"
    by (simp only: unsigned_take_bit_eq unsigned_drop_bit_eq) (simp add: take_bit_eq_mod drop_bit_eq_div u)
  ultimately show ?thesis by simp
qed

lemma hex_value_digits:
  "foldl (\<lambda>v c. 16 * v + (if of_char c < (58::nat) then of_char c - 48 else of_char c - 87)) a
     (map (\<lambda>i. hex_digits ! (n div 16 ^ i mod 16)) (rev [0 ..< k])) = a * 16 ^ k + n mod 16 ^ k"
proof (induction k arbitrary: a)
  case (Suc k)
  have "n mod 16 ^ Suc k = 16 ^ k * (n div 16 ^ k mod 16) + n mod 16 ^ k"
    using mod_mult2_eq [of n "16 ^ k" 16] by (simp add: mult.commute)
  then show ?case using Suc.IH by (simp add: hex_digit_value algebra_simps)
qed simp

lemma hex_value_fmt_x: "hex_value (fmt_x v) = unat v"
proof -
  have "fmt_x v = map (\<lambda>i. hex_digits ! (unat v div 16 ^ i mod 16)) (rev [0 ..< 8])"
    by (simp add: fmt_x_def nibble upt_rec power_mult [symmetric] del: unsigned_and_eq)
  moreover have "unat v < 2 ^ 32" using unsigned_less [of v] by simp
  ultimately show ?thesis by (simp add: hex_value_def hex_value_digits)
qed

text \<open>For every format of plain characters, \<open>%%\<close>, \<open>%s\<close>, \<open>%d\<close> and \<open>%x\<close> with matching arguments, \<open>printf\<close> and
  \<open>shell_printf\<close> terminate and print the characters, the strings, the decimal numerals of the signed values (the
  smallest one included) and eight hexadecimal digits that denote the word; a single percent sign at the end is printed.\<close>

theorem printf_prints_pieces:
  assumes "Text (CHR ''%'') \<notin> set ps"
  shows "printf (concat (map piece_fmt ps)) (concat (map piece_args ps)) = Some (concat (map piece_text ps)) \<and>
     shell_printf (concat (map piece_fmt ps)) (concat (map piece_args ps)) = Some (concat (map piece_text ps)) \<and>
     printf (concat (map piece_fmt ps) @ ''%'') (concat (map piece_args ps)) = Some (concat (map piece_text ps) @ ''%'') \<and>
     (\<forall>v. length (fmt_x v) = 8 \<and> hex_value (fmt_x v) = unat v) \<and>
     (\<forall>n. dec_value (dec_string n) = n)"
proof -
  have "printf (concat (map piece_fmt ps) @ ''%'') (concat (map piece_args ps)) = Some (concat (map piece_text ps) @ ''%'')"
    using assms by (induction ps) (auto simp: printf_piece)
  moreover have "shell_printf (concat (map piece_fmt ps)) (concat (map piece_args ps)) = Some (concat (map piece_text ps))"
    using assms by (induction ps) (auto simp: shell_printf_piece)
  moreover have "length (fmt_x v) = 8" for v by (simp add: fmt_x_def)
  ultimately show ?thesis using printf_pieces [OF assms] by (simp add: hex_value_fmt_x dec_value_dec_string)
qed

theorem printf_prints_pieces_witness:
  "printf ''[bg] pid=%d %s 0x%x%'' [Va_int (- 12), Va_str ''ok'', Va_int 0x80200000] = Some ''[bg] pid=-12 ok 0x80200000%''"
proof -
  have "dec_string 12 = ''12''" by code_simp
  moreover have "fmt_x 0x80200000 = ''80200000''" by (simp add: fmt_x_def hex_digits_def)
  ultimately show ?thesis
    using printf_prints_pieces [of "map Text ''[bg] pid='' @ [Dec (- 12), Text (CHR '' ''), Str ''ok''] @
      map Text '' 0x'' @ [Hex 0x80200000]"]
    by (simp add: int_text_def)
qed

end
