(* ===== verification/Apps.thy ===== *)
theory Apps
  imports UserPath Printf UtcTime VfsInv
begin

text \<open>
  The programs under src/user/apps (the shell apart). A program is a function of its argument vector (the strings
  that \<open>argv\<close> points to, \<open>argv[0]\<close> included) and returns the value of \<open>main\<close> with the state it leaves behind.

  The programs on files act on the file system of the kernel through the system calls of user_syscall.c, that is,
  through the entry points of Vfs.thy with the pid of the program; standard output is descriptor 1, where
  \<open>printf\<close> writes one character per call, to the console or to the file the shell has put there. The other
  programs get the results of the system calls they make as functions, and return what they print.
\<close>

section \<open>What a program finds at its start\<close>

record uproc =
  u_pid :: int
  u_cwd :: "string option" \<comment> \<open>what \<open>getcwd\<close> returns\<close>
  u_stack :: "char list" \<comment> \<open>what is in a path buffer before it is written\<close>

definition u_putchar :: "uproc \<Rightarrow> char \<Rightarrow> fs_state \<Rightarrow> fs_state" where
  "u_putchar u ch s = snd (fs_write (u_pid u) 1 (Some [of_char ch]) 1 s)"

definition u_print :: "uproc \<Rightarrow> string \<Rightarrow> fs_state \<Rightarrow> fs_state" where
  "u_print u out s = fold (u_putchar u) out s"

definition u_printf :: "uproc \<Rightarrow> string \<Rightarrow> va_value list \<Rightarrow> fs_state \<Rightarrow> fs_state" where
  "u_printf u fmt vargs s = (case printf fmt vargs of None \<Rightarrow> s | Some out \<Rightarrow> u_print u out s)"

text \<open>A message and the result -1.\<close>

definition failed :: "uproc \<Rightarrow> string \<Rightarrow> fs_state \<Rightarrow> int \<times> fs_state" where
  "failed u msg s = (-1, u_printf u (msg @ [NL]) [] s)"

text \<open>The common start of the programs on files: the first argument, resolved.\<close>

definition with_target :: "uproc \<Rightarrow> string \<Rightarrow> (string \<Rightarrow> fs_state \<Rightarrow> int \<times> fs_state) \<Rightarrow> fs_state \<Rightarrow> int \<times> fs_state" where
  "with_target u arg f s =
     (case user_path_resolve (u_stack u) (u_stack u) (u_cwd u) (Some arg) (Some (u_stack u)) FS_PATH_MAX of
        (r, target) \<Rightarrow> if r < 0 then failed u ''resolve path failed'' s else f (cstr (the target)) s)"

section \<open>mkdir, rm, rmdir, touch, write\<close>

definition mkdir_main :: "uproc \<Rightarrow> string list \<Rightarrow> fs_state \<Rightarrow> int \<times> fs_state" where
  "mkdir_main u argv s =
     (if length argv \<noteq> 2 then failed u ''usage: mkdir <path>'' s
      else with_target u (argv ! 1) (\<lambda>target s.
        let (r, s) = fs_mkdir (Some target) s
        in if r < 0 then failed u ''mkdir failed'' s else (0, s)) s)"

definition rm_main :: "uproc \<Rightarrow> string list \<Rightarrow> fs_state \<Rightarrow> int \<times> fs_state" where
  "rm_main u argv s =
     (if length argv \<noteq> 2 then failed u ''usage: rm <path>'' s
      else with_target u (argv ! 1) (\<lambda>target s.
        let (r, s) = fs_unlink (Some target) s
        in if r < 0 then failed u ''rm failed'' s else (0, s)) s)"

definition rmdir_main :: "uproc \<Rightarrow> string list \<Rightarrow> fs_state \<Rightarrow> int \<times> fs_state" where
  "rmdir_main u argv s =
     (if length argv \<noteq> 2 then failed u ''usage: rmdir <path>'' s
      else with_target u (argv ! 1) (\<lambda>target s.
        let (r, s) = fs_rmdir (Some target) s
        in if r < 0 then failed u ''rmdir failed'' s else (0, s)) s)"

definition touch_main :: "uproc \<Rightarrow> string list \<Rightarrow> fs_state \<Rightarrow> int \<times> fs_state" where
  "touch_main u argv s =
     (if length argv \<noteq> 2 then failed u ''usage: touch <path>'' s
      else with_target u (argv ! 1) (\<lambda>target s.
        let (fd, s) = fs_open (u_pid u) (Some target) (O_CREAT OR O_WRONLY) s
        in if fd < 0 then failed u ''touch failed'' s else (0, snd (fs_close (u_pid u) fd s))) s)"

definition write_main :: "uproc \<Rightarrow> string list \<Rightarrow> fs_state \<Rightarrow> int \<times> fs_state" where
  "write_main u argv s =
     (if length argv \<noteq> 3 then failed u ''usage: write <path> <text>'' s
      else with_target u (argv ! 1) (\<lambda>target s.
        let (fd, s) = fs_open (u_pid u) (Some target) (O_CREAT OR O_WRONLY OR O_TRUNC) s
        in if fd < 0 then failed u ''open failed'' s
           else
             let n = str_len (argv ! 2);
                 (w, s) = fs_write (u_pid u) fd (Some (map of_char (argv ! 2))) (of_nat n) s;
                 s = snd (fs_close (u_pid u) fd s)
             in if w < 0 then failed u ''write failed'' s else (0, s)) s)"

section \<open>cat\<close>

text \<open>The reading loop. A read from the console is not possible here, since the descriptor is an open file.\<close>

definition chunk_text :: "u8 list \<Rightarrow> string" where
  "chunk_text x = cstr (map (\<lambda>b. char_of (unat b)) x)"

partial_function (option) cat_loop :: "uproc \<Rightarrow> int \<Rightarrow> fs_state \<Rightarrow> fs_state option" where
  "cat_loop u fd s =
     (case fs_read (u_pid u) fd True 63 s of
        (Read_done n x, s) \<Rightarrow> if n \<le> 0 then Some s else cat_loop u fd (u_printf u ''%s'' [Va_str (chunk_text x)] s)
      | (Console_read _, s) \<Rightarrow> None)"

declare cat_loop.simps [code]

definition cat_main :: "uproc \<Rightarrow> string list \<Rightarrow> fs_state \<Rightarrow> (int \<times> fs_state) option" where
  "cat_main u argv s =
     (if length argv \<noteq> 2 then Some (failed u ''usage: cat <path>'' s)
      else case user_path_resolve (u_stack u) (u_stack u) (u_cwd u) (Some (argv ! 1)) (Some (u_stack u)) FS_PATH_MAX of
        (r, target) \<Rightarrow>
          if r < 0 then Some (failed u ''resolve path failed'' s)
          else
            let (fd, s) = fs_open (u_pid u) (Some (cstr (the target))) O_RDONLY s
            in if fd < 0 then Some (failed u ''cat failed'' s)
               else map_option (\<lambda>s. (0, snd (fs_close (u_pid u) fd (u_printf u [NL] [] s)))) (cat_loop u fd s))"

section \<open>ls\<close>

definition ls_option :: "char \<Rightarrow> string list \<Rightarrow> bool" where
  "ls_option c argv \<longleftrightarrow> (length argv = 2 \<or> length argv = 3) \<and> char_at (argv ! 1) 0 = CHR ''-'' \<and> c \<in> set (tl (argv ! 1))"

definition ls_path_arg :: "string list \<Rightarrow> string" where
  "ls_path_arg argv =
     (if length argv = 1 then ''.''
      else if length argv = 2
      then (if ls_option (CHR ''l'') argv \<or> ls_option (CHR ''a'') argv then ''.'' else argv ! 1)
      else argv ! 2)"

definition ls_detail_line :: "fs_dirent \<Rightarrow> (string \<times> va_value list) list" where
  "ls_detail_line ent =
     [(''%s'' @ [TAB] @ ''%d'' @ [TAB],
         [Va_str (if de_type ent = FS_TYPE_DIR then ''d'' else ''f''), Va_int (de_size ent)]),
      ((if de_type ent = FS_TYPE_DIR then ''%s/'' else ''%s'') @ [NL], [Va_str (cstr (de_name ent))])]"

definition ls_short_entry :: "int \<Rightarrow> fs_dirent \<Rightarrow> (string \<times> va_value list) list" where
  "ls_short_entry i ent =
     ((if de_type ent = FS_TYPE_DIR then ''%s/'' else ''%s'') @ [TAB], [Va_str (cstr (de_name ent))]) #
     (if i \<noteq> 0 \<and> i mod 10 = 0 then [([NL], [])] else [])"

definition u_printfs :: "uproc \<Rightarrow> (string \<times> va_value list) list \<Rightarrow> fs_state \<Rightarrow> fs_state" where
  "u_printfs u ps s = fold (\<lambda>(fmt, vargs). u_printf u fmt vargs) ps s"

text \<open>The loop over the directory; \<open>line\<close> is what is printed for an entry.\<close>

partial_function (option) ls_loop ::
  "uproc \<Rightarrow> string \<Rightarrow> bool \<Rightarrow> (int \<Rightarrow> fs_dirent \<Rightarrow> (string \<times> va_value list) list) \<Rightarrow> int \<Rightarrow> fs_state \<Rightarrow> (int \<times> fs_state) option" where
  "ls_loop u path all_print line i s =
     (case fs_readdir (Some path) i True s of
        None \<Rightarrow> Some (i, s)
      | Some ent \<Rightarrow>
          ls_loop u path all_print line (i + 1)
            (if \<not> all_print \<and> char_at (cstr (de_name ent)) 0 = CHR ''.'' then s else u_printfs u (line i ent) s))"

declare ls_loop.simps [code]

definition ls_main :: "uproc \<Rightarrow> string list \<Rightarrow> fs_state \<Rightarrow> (int \<times> fs_state) option" where
  "ls_main u argv s =
     (let detail = ls_option (CHR ''l'') argv; all_print = ls_option (CHR ''a'') argv in
      case user_path_resolve (u_stack u) (u_stack u) (u_cwd u) (Some (ls_path_arg argv)) (Some (u_stack u)) FS_PATH_MAX of
        (r, path) \<Rightarrow>
          if r < 0 then Some (failed u ''resolve path failed'' s)
          else if detail
          then map_option (\<lambda>(i, s). (0, s))
            (ls_loop u (cstr (the path)) all_print (\<lambda>i. ls_detail_line) 0
              (u_printf u (''TYPE'' @ [TAB] @ ''SIZE'' @ [TAB] @ ''NAME'' @ [NL]) [] s))
          else map_option (\<lambda>(i, s). (0, if i < 10 then u_printf u [NL] [] s else s))
            (ls_loop u (cstr (the path)) all_print ls_short_entry 0 s))"

end
