(* ===== verification/FileUse.thy ===== *)
theory FileUse
  imports VfsProps
begin

text \<open>
  How a program uses files: the data of the file at a path, and what the sequences open - read - ... - close and
  open - write - close do to it. The programs and the shell history rest on these lemmas.
\<close>

section \<open>The data of a file\<close>

definition file_data :: "fs_state \<Rightarrow> string \<Rightarrow> u8 list option" where
  "file_data s path =
     (case vfs_resolve_mount path s of
        None \<Rightarrow> None
      | Some (m, sub) \<Rightarrow>
          (case names_of sub of
             None \<Rightarrow> None
           | Some cs \<Rightarrow> (case tree_of (get_fs (m_ctx (mounts s m)) s) cs of Some (File d) \<Rightarrow> Some d | _ \<Rightarrow> None)))"

lemma vfs_resolve_mount_cong: "mounts s = mounts s' \<Longrightarrow> vfs_resolve_mount path s = vfs_resolve_mount path s'"
  by (simp add: vfs_resolve_mount_def)

lemma file_data_cong: "mounts s = mounts s' \<Longrightarrow> (\<And>c. get_fs c s = get_fs c s') \<Longrightarrow> file_data s path = file_data s' path"
  using vfs_resolve_mount_cong [of s s' path] by (simp add: file_data_def split: option.splits)

lemma file_data_frame [simp]:
  "file_data (set_fd p d f s) path = file_data s path" "file_data (s\<lparr>con_out := c\<rparr>) path = file_data s path"
  by (rule file_data_cong; simp)+

lemma file_dataE:
  assumes "vfs_wf s" "nul_free path" "file_data s path = Some d"
  obtains ctx sub cs i where "vfs_resolve_mount path s = Some (mount_no ctx, sub)" "m_ctx (mounts s (mount_no ctx)) = ctx"
    "names_of sub = Some cs" "walk (get_fs ctx s) 0 cs = Some i" "list_all nul_free cs" "nul_free sub"
    "live_file (get_fs ctx s) i" "contents (get_fs ctx s) i = d"
proof -
  obtain m sub cs where r: "vfs_resolve_mount path s = Some (m, sub)" "names_of sub = Some cs"
      "tree_of (get_fs (m_ctx (mounts s m)) s) cs = Some (File d)"
    using assms(3) by (auto simp: file_data_def split: option.splits fs_entry.splits)
  obtain ctx where c: "m = mount_no ctx" "m_ctx (mounts s m) = ctx" "nul_free sub"
    by (rule resolve_ctx [OF assms(1,2) r(1)])
  have t: "tree_of (get_fs ctx s) cs = Some (File d)" using r(3) c by simp
  then obtain i where i: "walk (get_fs ctx s) 0 cs = Some i" "list_all nul_free cs" "entry_of (nodes (get_fs ctx s) i) = File d"
    by (auto simp: tree_of_def split: if_splits)
  have "live (get_fs ctx s) i" by (rule walk_live [OF vfs_wfD(2) [OF assms(1)] live_root [OF vfs_wfD(2) [OF assms(1)]] i(1)])
  then have "live_file (get_fs ctx s) i" "contents (get_fs ctx s) i = d"
    using i(3) by (auto simp: live_file_def entry_of_def contents_def split: if_splits)
  then show thesis using that r(1,2) c i(1,2) by metis
qed

section \<open>Open descriptors\<close>

text \<open>Descriptor \<open>fd\<close> of a process is open on the file at the path, at an offset.\<close>

definition opened :: "fs_state \<Rightarrow> int \<Rightarrow> int \<Rightarrow> fs_id \<Rightarrow> nat \<Rightarrow> nat \<Rightarrow> int \<Rightarrow> bool" where
  "opened s pid fd ctx i off flags \<longleftrightarrow> \<not> bad_pid pid \<and> \<not> bad_fd fd \<and> off \<le> 512 \<and>
     fd_table s (nat pid) (nat fd) = \<lparr>f_used = True, f_mount_idx = int (mount_no ctx), f_node_index = int i,
       f_offset = of_nat off, f_flags = flags\<rparr>"

definition lowest_free :: "fs_state \<Rightarrow> int \<Rightarrow> nat option" where
  "lowest_free s pid = scan_from (\<lambda>fd. \<not> f_used (fd_table s (nat pid) fd)) 0 FS_FD_MAX"

lemma put_get_fs [simp]: "put_fs ctx (get_fs ctx s) s = s"
  by (cases ctx) simp_all

lemma open_existing_read:
  assumes "nodefs_resolve_path fs sub = Some i" "n_type (nodes fs i) = FS_TYPE_FILE"
  shows "nodefs_open sub O_RDONLY fs b = (Some i, fs, b)"
  using assms by (simp add: nodefs_open_def hdr_consts)

lemma open_read:
  assumes "vfs_wf s" "\<not> bad_pid pid" "nul_free path" "file_data s path = Some d" "lowest_free s pid = Some f"
  obtains ctx i where "fs_open pid (Some path) O_RDONLY s = (int f, set_fd (nat pid) f
      \<lparr>f_used = True, f_mount_idx = int (mount_no ctx), f_node_index = int i, f_offset = of_nat 0, f_flags = O_RDONLY\<rparr> s)"
    "live_file (get_fs ctx s) i" "contents (get_fs ctx s) i = d" "f < 16"
proof -
  obtain ctx sub cs i where r: "vfs_resolve_mount path s = Some (mount_no ctx, sub)" "m_ctx (mounts s (mount_no ctx)) = ctx"
    "names_of sub = Some cs" "walk (get_fs ctx s) 0 cs = Some i" "live_file (get_fs ctx s) i" "contents (get_fs ctx s) i = d"
    by (rule file_dataE [OF assms(1,3,4)])
  have "nodefs_open sub O_RDONLY (get_fs ctx s) (blk s) = (Some i, get_fs ctx s, blk s)"
    using r(3-5) by (intro open_existing_read) (auto simp: resolve_path_walk live_file_def)
  moreover have "f < 16" using assms(5) scan_from_SomeD [of _ 0 16 f] by (auto simp: lowest_free_def FS_FD_MAX_def simp del: scan_from_numeral)
  ultimately show thesis using that [of ctx i] r(1,2,5,6) assms(2,5)
    by (simp add: fs_open_def vfs_alloc_fd_def lowest_free_def)
qed

text \<open>One read, and what it leaves.\<close>

lemma read_opened:
  assumes "vfs_wf s" "opened s pid fd ctx i off flags" "flags AND O_RDONLY \<noteq> 0" "live_file (get_fs ctx s) i"
    "x = take (unat sz) (drop off (contents (get_fs ctx s) i))"
  shows "fs_read pid fd True sz s = (Read_done (int (length x)) x,
     set_fd (nat pid) (nat fd) ((fd_table s (nat pid) (nat fd))\<lparr>f_offset := of_nat (off + length x)\<rparr>) s)"
proof -
  have m: "mounts s = boot_mounts" by (rule vfs_wfD(1) [OF assms(1)])
  have o: "unat (of_nat off :: u32) = off" using assms(2) by (simp add: opened_def unat_of_nat)
  have "nodefs_read (int i) (of_nat off) sz (get_fs ctx s) = (int (length x), x, of_nat off + of_nat (length x))"
    using nodefs_read_contents [OF vfs_wfD(2) [OF assms(1)] assms(4), of "of_nat off" sz] by (simp add: assms(5) o Let_def)
  moreover have "\<not> bad_mount s (int (mount_no ctx))" "m_ctx (mounts s (mount_no ctx)) = ctx"
    using boot_mounts_ctx(2,3) [of ctx] mount_no_lt [of ctx] by (simp_all add: bad_mount_def m VFS_MOUNT_MAX_def)
  ultimately show ?thesis using assms(2,3) by (simp add: fs_read_def opened_def)
qed

section \<open>Writing a file\<close>

definition O_REWRITE :: int where "O_REWRITE = O_CREAT OR O_WRONLY OR O_TRUNC"

lemma rewrite_flags: "O_REWRITE AND O_CREAT \<noteq> 0" "wants_trunc O_REWRITE" "O_REWRITE AND O_WRONLY \<noteq> 0"
  by (simp_all add: O_REWRITE_def wants_trunc_def hdr_consts)

lemma open_rewrite:
  assumes "vfs_wf s" "nul_free path" "fs_open pid (Some path) O_REWRITE s = (fd, s1)" "0 \<le> fd"
  obtains ctx i sub cs where "\<not> bad_pid pid" "opened s1 pid fd ctx i 0 O_REWRITE" "lowest_free s pid = Some (nat fd)"
    "vfs_resolve_mount path s1 = Some (mount_no ctx, sub)" "names_of sub = Some cs" "list_all nul_free cs"
    "walk (get_fs ctx s1) 0 cs = Some i" "live_file (get_fs ctx s1) i" "contents (get_fs ctx s1) i = []"
    "vfs_wf s1" "con_out s1 = con_out s" "\<And>p e. (p, e) \<noteq> (nat pid, nat fd) \<Longrightarrow> fd_table s1 p e = fd_table s p e"
proof -
  have pid: "\<not> bad_pid pid" using assms(3,4) by (auto simp: fs_open_def)
  obtain m sub where r: "vfs_resolve_mount path s = Some (m, sub)"
    using assms(3,4) pid by (cases "vfs_resolve_mount path s") (auto simp: fs_open_def)
  obtain ctx where c: "m = mount_no ctx" "m_ctx (mounts s m) = ctx" "nul_free sub" by (rule resolve_ctx [OF assms(1,2) r])
  obtain res fs' b' where o: "nodefs_open sub O_REWRITE (get_fs ctx s) (blk s) = (res, fs', b')" by (metis prod_cases3)
  let ?s = "put_fs ctx fs' (s\<lparr>blk := b'\<rparr>)"
  obtain i where res: "res = Some i" using assms(3,4) pid r c o by (cases res) (auto simp: fs_open_def)
  note op = open_refines(2) [OF vfs_wfD(2) [OF assms(1)] c(3) o res]
  have a: "vfs_alloc_fd pid (int m) (int i) 0 O_REWRITE ?s = (fd, s1)"
    using assms(3) pid r c o res by (simp add: fs_open_def)
  then obtain f where f: "lowest_free s pid = Some f" "fd = int f" "s1 = set_fd (nat pid) f
      \<lparr>f_used = True, f_mount_idx = int m, f_node_index = int i, f_offset = 0, f_flags = O_REWRITE\<rparr> ?s"
    using assms(4) pid by (auto simp: vfs_alloc_fd_def lowest_free_def simp del: scan_from_numeral split: option.splits)
  have "f < 16" using f(1) scan_from_SomeD [of _ 0 16 f] by (auto simp: lowest_free_def FS_FD_MAX_def simp del: scan_from_numeral)
  then have fd: "\<not> bad_fd fd" by (simp add: f(2) bad_fd_def FS_FD_MAX_def)
  obtain cs where cs: "names_of sub = Some cs" "walk fs' 0 cs = Some i" using op by (auto simp: resolve_path_walk bind_eq_Some_conv)
  have nf: "list_all nul_free cs" by (rule names_nul_free [OF cs(1) c(3)])
  have "spec_open True True cs (tree_of (get_fs ctx s)) = Some (tree_of fs')"
    using op cs(1) rewrite_flags by (simp add: open_spec_def)
  then have "tree_of fs' = (tree_of (get_fs ctx s))(cs \<mapsto> File [])"
    by (auto simp: spec_open_def spec_create_def split: option.splits fs_entry.splits if_splits)
  then have "tree_of fs' cs = Some (File [])" by simp
  then have "contents fs' i = []" using cs(2) nf by (auto simp: tree_of_def entry_of_def contents_def split: if_splits)
  moreover have "vfs_wf s1" using fs_open_wf [OF assms(1), of "Some path" pid O_REWRITE] assms(2,3) by (simp add: cpath_def)
  moreover have "vfs_resolve_mount path s1 = Some (mount_no ctx, sub)"
    using r c(1) vfs_resolve_mount_cong [of s1 s path] by (simp add: f(3))
  moreover have "get_fs ctx s1 = fs'" by (simp add: f(3) get_put_fs)
  moreover have "opened s1 pid fd ctx i 0 O_REWRITE" using pid fd c(1) by (simp add: opened_def f(2,3))
  moreover have "con_out s1 = con_out s" "\<And>p e. (p, e) \<noteq> (nat pid, nat fd) \<Longrightarrow> fd_table s1 p e = fd_table s p e"
    by (auto simp: f(2,3))
  ultimately show thesis
    using that [of ctx i sub cs] pid f(1,2) cs nf op by simp
qed

lemma write_opened:
  assumes "vfs_wf s" "opened s pid fd ctx i 0 O_REWRITE" "live_file (get_fs ctx s) i" "contents (get_fs ctx s) i = []"
    "walk (get_fs ctx s) 0 cs = Some i" "list_all nul_free cs" "length x \<le> 512"
    "fs_write pid fd (Some x) (of_nat (length x)) s = (r, s1)"
  obtains fs' b' where "s1 = set_fd (nat pid) (nat fd)
      ((fd_table s (nat pid) (nat fd))\<lparr>f_offset := of_nat (length x)\<rparr>) (put_fs ctx fs' (s\<lparr>blk := b'\<rparr>))"
    "tree_of fs' cs = Some (File x)" "r = (if r < 0 then -1 else int (length x))"
    "persistent (get_fs ctx s) \<or> 0 \<le> r"
proof -
  have m: "mounts s = boot_mounts" by (rule vfs_wfD(1) [OF assms(1)])
  have n: "unat (of_nat (length x) :: u32) = length x" using assms(7) by (simp add: unat_of_nat)
  have tk: "take (min (unat (of_nat (length x) :: u32)) (512 - unat (0 :: u32))) x = x" using n assms(7) by simp
  have bm: "\<not> bad_mount s (int (mount_no ctx))" "m_ctx (mounts s (mount_no ctx)) = ctx"
    using boot_mounts_ctx(2,3) [of ctx] mount_no_lt [of ctx] by (simp_all add: bad_mount_def m VFS_MOUNT_MAX_def)
  obtain fs' where w: "nodefs_write (int i) 0 x (of_nat (length x)) (get_fs ctx s) (blk s) =
      (if fst (pfs_sync fs' (blk s)) < 0 then -1 else int (length x), of_nat (length x), fs', snd (pfs_sync fs' (blk s)))"
    "tree_of fs' = (tree_of (get_fs ctx s))(cs \<mapsto> File (spec_write 0 x []))" "same_mount (get_fs ctx s) fs'"
    by (rule nodefs_write_contents [OF vfs_wfD(2) [OF assms(1)] assms(3,5,6), of 0 "of_nat (length x)" x "blk s",
          unfolded tk assms(4)]) (use n in simp_all)
  have t: "tree_of fs' cs = Some (File x)" by (simp add: w(2) spec_write_def)
  show thesis
    using that [of fs' "snd (pfs_sync fs' (blk s))"] t w(1,3) bm assms(2,8) rewrite_flags(3)
    by (auto simp: fs_write_def opened_def same_mount_def pfs_sync_def)
qed

text \<open>Open, write and close leave the data in the file.\<close>

lemma rewrite_file:
  assumes "vfs_wf s" "nul_free path" "fs_open pid (Some path) O_REWRITE s = (fd, s1)" "0 \<le> fd"
    "length x \<le> 512" "fs_write pid fd (Some x) (of_nat (length x)) s1 = (w, s2)" "0 \<le> w"
  defines "s3 \<equiv> snd (fs_close pid fd s2)"
  shows "vfs_wf s3" "file_data s3 path = Some x" "w = int (length x)" "con_out s3 = con_out s"
    "\<And>p e. f_used (fd_table s3 p e) = f_used (fd_table s p e)"
proof -
  obtain ctx i sub cs where o: "\<not> bad_pid pid" "opened s1 pid fd ctx i 0 O_REWRITE" "lowest_free s pid = Some (nat fd)"
    "vfs_resolve_mount path s1 = Some (mount_no ctx, sub)" "names_of sub = Some cs" "list_all nul_free cs"
    "walk (get_fs ctx s1) 0 cs = Some i" "live_file (get_fs ctx s1) i" "contents (get_fs ctx s1) i = []"
    "vfs_wf s1" "con_out s1 = con_out s" "\<And>p e. (p, e) \<noteq> (nat pid, nat fd) \<Longrightarrow> fd_table s1 p e = fd_table s p e"
    by (rule open_rewrite [OF assms(1-4)]) blast
  obtain fs' b' where w: "s2 = set_fd (nat pid) (nat fd)
      ((fd_table s1 (nat pid) (nat fd))\<lparr>f_offset := of_nat (length x)\<rparr>) (put_fs ctx fs' (s1\<lparr>blk := b'\<rparr>))"
    "tree_of fs' cs = Some (File x)" "w = (if w < 0 then -1 else int (length x))"
    by (rule write_opened [OF o(10,2,8,9,7,6) assms(5,6)])
  show "w = int (length x)" using w(3) assms(7) by simp
  have fd: "\<not> bad_fd fd" "f_used (fd_table s2 (nat pid) (nat fd))" using o(2) w(1) by (auto simp: opened_def)
  then have s3: "s3 = set_fd (nat pid) (nat fd) closed_fd s2" using o(1) by (simp add: s3_def fs_close_def)
  have "vfs_wf s2" using fs_write_wf [OF o(10), of "Some x" "of_nat (length x)" pid fd] assms(5,6) by (simp add: unat_of_nat)
  then show "vfs_wf s3" unfolding s3_def by (rule fs_close_wf)
  have "m_ctx (mounts s1 (mount_no ctx)) = ctx" using boot_mounts_ctx(2) [of ctx] vfs_wfD(1) [OF o(10)] by simp
  moreover have "vfs_resolve_mount path s3 = vfs_resolve_mount path s1" "mounts s3 = mounts s1" "get_fs ctx s3 = fs'"
    by (simp_all add: s3 w(1) get_put_fs vfs_resolve_mount_def)
  ultimately show "file_data s3 path = Some x" using o(4,5) w(2) by (simp add: file_data_def)
  show "con_out s3 = con_out s" using o(11) by (simp add: s3 w(1))
  have "\<not> f_used (fd_table s (nat pid) (nat fd))"
    using o(3) scan_from_SomeD [of _ 0 16 "nat fd"] by (auto simp: lowest_free_def FS_FD_MAX_def simp del: scan_from_numeral)
  then show "f_used (fd_table s3 p e) = f_used (fd_table s p e)" for p e
    using o(12) [of p e] by (cases "(p, e) = (nat pid, nat fd)") (auto simp: s3 w(1) closed_fd_def)
qed

end
