(* ===== verification/ShellHist.thy ===== *)
theory ShellHist
  imports Apps FileUse
begin

text \<open>
  The command history of the shell, src/user/apps/shell/utils.c: a ring buffer of 64 lines, and the file
  \<open>/.history\<close> that keeps the most recent ones over a restart, one line each with the newline and the backslash
  escaped.
\<close>

definition HISTORY_MAX :: nat where "HISTORY_MAX = 64"
definition CMDLINE_MAX :: nat where "CMDLINE_MAX = 64"

lemmas shell_consts [hdr_consts] = HISTORY_MAX_def CMDLINE_MAX_def

record hist =
  history :: "nat \<Rightarrow> char list"
  history_head :: nat
  history_count :: nat

section \<open>The ring buffer\<close>

definition history_push :: "string \<Rightarrow> hist \<Rightarrow> hist" where
  "history_push line h =
     (if line = [] then h
      else
        let (write_idx, h) =
              (if history_count h < HISTORY_MAX
               then ((history_head h + history_count h) mod HISTORY_MAX, h\<lparr>history_count := history_count h + 1\<rparr>)
               else (history_head h, h\<lparr>history_head := (history_head h + 1) mod HISTORY_MAX\<rparr>))
        in h\<lparr>history := (history h)(write_idx := strncpy_loop (history h write_idx) 0 (CMDLINE_MAX - 1) line)\<rparr>)"

definition history_print :: "hist \<Rightarrow> string option" where
  "history_print h = fold (\<lambda>i acc. Option.bind acc (\<lambda>out.
     map_option (\<lambda>t. out @ t) (shell_printf (''%d: %s'' @ [NL])
       [Va_int (of_nat (i + 1)), Va_str (cstr (history h ((history_head h + i) mod HISTORY_MAX)))])))
     [0 ..< history_count h] (Some [])"

definition history_size :: "hist \<Rightarrow> nat" where
  "history_size h = history_count h"

definition history_get :: "int \<Rightarrow> char list \<Rightarrow> nat \<Rightarrow> hist \<Rightarrow> int \<times> char list" where
  "history_get pos out out_max h =
     (if out_max = 0 then (-1, out)
      else if pos < 0 \<or> int (history_count h) \<le> pos then (-1, out)
      else (0, strncpy_loop out 0 (out_max - 1) (cstr (history h ((history_head h + nat pos) mod HISTORY_MAX)))))"

section \<open>The file format\<close>

abbreviation BSLASH :: char where
  "BSLASH \<equiv> CHR 0x5C"

fun history_encoded_line_len :: "string \<Rightarrow> nat" where
  "history_encoded_line_len [] = 1"
| "history_encoded_line_len (c # s) = (if c = NL \<or> c = BSLASH then 2 else 1) + history_encoded_line_len s"

text \<open>The first entry that is written: \<open>i + 1\<close> counts down, \<open>total\<close> is the space taken so far.\<close>

fun start_loop :: "hist \<Rightarrow> nat \<Rightarrow> nat \<Rightarrow> nat \<Rightarrow> nat \<Rightarrow> nat" where
  "start_loop h out_cap start total_n 0 = start"
| "start_loop h out_cap start total_n (Suc i) =
     (let need = history_encoded_line_len (cstr (history h ((history_head h + i) mod HISTORY_MAX)))
      in if total_n + need > out_cap then start else start_loop h out_cap i (total_n + need) i)"

text \<open>The characters of one line; \<open>out\<close> is what has been written, and the result is \<open>False\<close> where the code returns
  early because the buffer is full.\<close>

fun encode_line :: "nat \<Rightarrow> string \<Rightarrow> char list \<Rightarrow> bool \<times> char list" where
  "encode_line out_cap [] out = (if length out + 1 > out_cap then (False, out) else (True, out @ [NL]))"
| "encode_line out_cap (c # s) out =
     (if \<not> length out < out_cap then (if length out + 1 > out_cap then (False, out) else (True, out @ [NL]))
      else if c = NL \<or> c = BSLASH
      then (if length out + 2 > out_cap then (False, out)
            else encode_line out_cap s (out @ [BSLASH, if c = NL then CHR ''n'' else BSLASH]))
      else (if length out + 1 > out_cap then (False, out) else encode_line out_cap s (out @ [c])))"

fun encode_loop :: "hist \<Rightarrow> nat \<Rightarrow> nat \<Rightarrow> nat \<Rightarrow> char list \<Rightarrow> char list" where
  "encode_loop h out_cap i 0 out = out"
| "encode_loop h out_cap i (Suc n) out =
     (case encode_line out_cap (cstr (history h ((history_head h + i) mod HISTORY_MAX))) out of
        (False, out) \<Rightarrow> out
      | (True, out) \<Rightarrow> encode_loop h out_cap (Suc i) n out)"

definition history_serialize :: "hist \<Rightarrow> nat \<Rightarrow> char list" where
  "history_serialize h out_cap =
     (if out_cap = 0 then []
      else let start = start_loop h out_cap (history_count h) 0 (history_count h)
        in encode_loop h out_cap start (history_count h - start) [])"

text \<open>What \<open>history_load\<close> has at hand between two characters: the line so far, whether a backslash was read.\<close>

record loading =
  l_line :: "char list"
  l_escaped :: bool
  l_hist :: hist

definition add_char :: "char \<Rightarrow> loading \<Rightarrow> loading" where
  "add_char c l = (if length (l_line l) < CMDLINE_MAX - 1 then l\<lparr>l_line := l_line l @ [c]\<rparr> else l)"

definition load_char :: "char \<Rightarrow> loading \<Rightarrow> loading" where
  "load_char c l =
     (if c = CHR 0x0D then l
      else if l_escaped l then add_char (if c = CHR ''n'' then NL else c) (l\<lparr>l_escaped := False\<rparr>)
      else if c = BSLASH then l\<lparr>l_escaped := True\<rparr>
      else if c = NL then l\<lparr>l_line := [], l_hist := history_push (cstr (l_line l)) (l_hist l)\<rparr>
      else add_char c l)"

text \<open>The rest of the file after the last newline.\<close>

definition load_end :: "loading \<Rightarrow> hist" where
  "load_end l =
     (let line = (if l_escaped l \<and> length (l_line l) < CMDLINE_MAX - 1 then l_line l @ [BSLASH] else l_line l)
      in if line = [] then l_hist l else history_push (cstr line) (l_hist l))"

section \<open>Loading and writing the file\<close>

definition history_path :: string where "history_path = ''/.history''"

partial_function (option) load_loop :: "uproc \<Rightarrow> int \<Rightarrow> loading \<Rightarrow> fs_state \<Rightarrow> (loading \<times> fs_state) option" where
  "load_loop u fd l s =
     (case fs_read (u_pid u) fd True 256 s of
        (Read_done n x, s) \<Rightarrow>
          if n \<le> 0 then Some (l, s) else load_loop u fd (fold load_char (map (\<lambda>b. char_of (unat b)) x) l) s
      | (Console_read _, s) \<Rightarrow> None)"

declare load_loop.simps [code]

definition history_load :: "uproc \<Rightarrow> hist \<Rightarrow> fs_state \<Rightarrow> (hist \<times> fs_state) option" where
  "history_load u h s =
     (let (fd, s) = fs_open (u_pid u) (Some history_path) O_RDONLY s
      in if fd < 0 then Some (h, s)
         else map_option (\<lambda>(l, s). (load_end l, snd (fs_close (u_pid u) fd s)))
           (load_loop u fd \<lparr>l_line = [], l_escaped = False, l_hist = h\<lparr>history_head := 0, history_count := 0\<rparr>\<rparr> s))"

definition history_write :: "uproc \<Rightarrow> hist \<Rightarrow> fs_state \<Rightarrow> fs_state" where
  "history_write u h s =
     (let (fd, s) = fs_open (u_pid u) (Some history_path) (O_CREAT OR O_WRONLY OR O_TRUNC) s
      in if fd < 0 then u_printf u (''open failed'' @ [NL]) [] s
         else
           let buf = history_serialize h FS_FILE_MAX_SIZE; n = length buf;
               (w, s) = fs_write (u_pid u) fd (Some (map of_char buf)) (of_nat n) s;
               s = (if w < 0 \<or> w \<noteq> int n then u_printf u (''write failed'' @ [NL]) [] s else s)
           in snd (fs_close (u_pid u) fd s))"

end
