(* ===== verification/AppsSys.thy ===== *)
theory AppsSys
  imports Printf UtcTime Process
begin

text \<open>
  The programs under src/user/apps that report on or act on processes and the machine: kill, ipc_rx, ps, date, bitmap
  and kernel_info, and the start-up code user_main_entry of src/user/runtime/user.c. The system calls they make are
  arguments, functions from what the program passes to what it gets back; the programs return the value of \<open>main\<close>
  and the text they print.
\<close>

definition say :: "(string \<times> va_value list) list \<Rightarrow> string" where
  "say ps = concat (map (\<lambda>(fmt, vargs). case printf fmt vargs of None \<Rightarrow> [] | Some out \<Rightarrow> out) ps)"

section \<open>Numbers on the command line\<close>

text \<open>The value is an \<open>int\<close> of 32 bits.\<close>

fun parse_loop :: "string \<Rightarrow> u32 \<Rightarrow> u32 option" where
  "parse_loop [] val = Some val"
| "parse_loop (c # s) val =
     (if of_char c < (48 :: nat) \<or> (57 :: nat) < of_char c then None else parse_loop s (val * 10 + (of_char c - 48)))"

definition parse_int_local :: "string \<Rightarrow> int option" where
  "parse_int_local s = (if s = [] then None else map_option sint (parse_loop s 0))"

section \<open>kill\<close>

definition kill_main :: "(int \<Rightarrow> int) \<Rightarrow> string list \<Rightarrow> int \<times> string" where
  "kill_main kill argv =
     (if length argv \<noteq> 2 then (-1, say [(''target pid is required. kill <pid>'' @ [NL], [])])
      else case parse_int_local (argv ! 1) of
        None \<Rightarrow> (-1, say [(''invalid pid specified'' @ [NL], [])])
      | Some target_pid \<Rightarrow>
          let ret = kill target_pid
          in if ret < 0
             then (-1, say [(''pid: %d kill failed. '', [Va_int (of_int target_pid)]),
                ((if - ret = 1 then ''invalid pid specified'' else if - ret = 2 then ''process not exist''
                  else if - ret = 3 then ''cannot kill init process'' else ''unknown error'') @ [NL], [])])
             else (0, say [(''pid: %d killed'' @ [NL], [Va_int (of_int target_pid)])]))"

section \<open>ipc_rx\<close>

text \<open>The receiver never returns; one turn of its loop prints one line. \<open>ipc_recv\<close> gives the sender and the message,
  or a negative result.\<close>

definition ipc_receiver_turn :: "int \<times> int \<Rightarrow> string" where
  "ipc_receiver_turn = (\<lambda>(from_pid, msg).
     if msg < 0 then say [(''ipc_rx: recv failed'' @ [NL], [])]
     else say [(''ipc_rx: from=%d msg=%d'' @ [NL], [Va_int (of_int from_pid), Va_int (of_int msg)])])"

definition ipc_run_sender :: "(int \<Rightarrow> int \<Rightarrow> int) \<Rightarrow> string \<Rightarrow> string \<Rightarrow> int \<times> string" where
  "ipc_run_sender ipc_send pid_s msg_s =
     (case (parse_int_local pid_s, parse_int_local msg_s) of
        (Some pid, Some msg) \<Rightarrow>
          let ret = ipc_send pid msg
          in if ret = -2 then (-1, say [(''ipc_send failed: receiver mailbox full'' @ [NL], [])])
             else if ret < 0 then (-1, say [(''ipc_send failed'' @ [NL], [])])
             else (0, [])
      | _ \<Rightarrow> (-1, say [(''usage: ipc_rx sender <pid> <msg>'' @ [NL], [])]))"

datatype ipc_mode = Receiver string \<comment> \<open>the text printed before the loop\<close> | Finished int string

definition ipc_rx_main :: "(int \<Rightarrow> int \<Rightarrow> int) \<Rightarrow> string list \<Rightarrow> ipc_mode" where
  "ipc_rx_main ipc_send argv =
     (let argc = length argv; receiver = Receiver (say [(''ipc_rx started'' @ [NL], [])]);
          usage = (\<lambda>msg. Finished (-1) (say [(msg @ [NL], [])]))
      in if argc = 1 then receiver
         else if strcmp (argv ! 1) ''receiver'' = 0
         then (if argc \<noteq> 2 then usage ''usage: ipc_rx receiver'' else receiver)
         else if strcmp (argv ! 1) ''sender'' = 0
         then (if argc \<noteq> 4 then usage ''usage: ipc_rx sender <pid> <msg>''
               else case ipc_run_sender ipc_send (argv ! 2) (argv ! 3) of (r, out) \<Rightarrow> Finished r out)
         else usage ''usage: ipc_rx receiver | ipc_rx sender <pid> <msg>'')"

section \<open>ps\<close>

record ps_info =
  pi_pid :: int
  pi_parent_pid :: int
  pi_state :: int
  pi_wait_reason :: int
  pi_name :: "char list"

definition proc_state_to_string :: "int \<Rightarrow> string" where
  "proc_state_to_string state =
     (if state = 1 then ''RUN'' else if state = 2 then ''WAIT'' else if state = 3 then ''EXIT'' else ''UNUSED'')"

definition proc_wait_reason_to_string :: "int \<Rightarrow> string" where
  "proc_wait_reason_to_string r =
     (if r = 2 then ''CHILD_EXIT'' else if r = 1 then ''CONSOLE_INPUT'' else if r = 3 then ''IPC_RECV''
      else if r = 0 then [] else ''UNKNOWN'')"

definition ps_line :: "ps_info \<Rightarrow> string" where
  "ps_line p =
     (if pi_state p = 0 then []
      else say [(''%d'' @ [TAB] @ ''%d'' @ [TAB] @ ''%s'' @ [TAB] @ ''%s'' @ [TAB] @ ''%s'' @ [NL],
        [Va_int (of_int (pi_pid p)), Va_int (of_int (pi_parent_pid p)), Va_str (cstr (pi_name p)),
         Va_str (proc_state_to_string (pi_state p)), Va_str (proc_wait_reason_to_string (pi_wait_reason p))])])"

text \<open>\<open>ps i\<close> is the entry of slot \<open>i\<close>, \<open>None\<close> for a negative result.\<close>

partial_function (option) ps_loop :: "(int \<Rightarrow> ps_info option) \<Rightarrow> int \<Rightarrow> string option" where
  "ps_loop ps i =
     (case ps i of None \<Rightarrow> Some [] | Some p \<Rightarrow> Option.bind (ps_loop ps (i + 1)) (\<lambda>out. Some (ps_line p @ out)))"

declare ps_loop.simps [code]

definition ps_main :: "(int \<Rightarrow> ps_info option) \<Rightarrow> (int \<times> string) option" where
  "ps_main ps = map_option
     (\<lambda>out. (0, say [(''PID'' @ [TAB] @ ''PPID'' @ [TAB] @ ''APP'' @ [TAB] @ ''STATE'' @ [TAB] @ ''REASON'' @ [NL], [])] @ out))
     (ps_loop ps 1)"

section \<open>date, bitmap, kernel_info\<close>

text \<open>\<open>gettime\<close> gives the high and the low half of the seconds; \<open>ts\<close> is the buffer before it is written.\<close>

definition date_main :: "char list \<Rightarrow> (u32 \<times> u32) option \<Rightarrow> int \<times> string" where
  "date_main ts gettime =
     (case gettime of
        None \<Rightarrow> (-1, [])
      | Some (sec_hi, sec_lo) \<Rightarrow>
          let sec = push_bit 32 (ucast sec_hi :: u64) OR ucast sec_lo
          in (0, say [(''%s'' @ [NL], [Va_str (cstr (snd (unix_time_to_utc_str sec ts 40)))])]))"

partial_function (option) bitmap_loop :: "(int \<Rightarrow> int) \<Rightarrow> int \<Rightarrow> int \<times> int \<Rightarrow> (int \<times> int) option" where
  "bitmap_loop bitmap i acc =
     (let bit = bitmap i
      in if bit < 0 then Some acc
         else bitmap_loop bitmap (i + 1) (fst acc + 1, snd acc + (if bit = 1 then 1 else 0)))"

declare bitmap_loop.simps [code]

definition bitmap_main :: "(int \<Rightarrow> int) \<Rightarrow> (int \<times> string) option" where
  "bitmap_main bitmap = map_option
     (\<lambda>(total_n, used). (0, say [(''bitmap: total=%d/used=%d/free=%d'' @ [NL],
        [Va_int (of_int total_n), Va_int (of_int used), Va_int (of_int (total_n - used))])]))
     (bitmap_loop bitmap 0 (0, 0))"

record kernel_info =
  ki_version :: "char list"
  ki_time :: "char list"
  ki_total_pages :: u32
  ki_page_size :: u32
  ki_kernel_base :: u32
  ki_user_base :: u32
  ki_proc_max :: u32
  ki_kernel_stack_bytes :: u32
  ki_time_slice_ticks :: u32
  ki_timer_interval_ms :: u32
  ki_ramfs_node_max :: u32
  ki_ramfs_size_max :: u32
  ki_pfs_block_size :: u32
  ki_pfs_block_count :: u32
  ki_pfs_image_blocks :: u32
  ki_pfs_image_bytes :: u32

definition kernel_info_main :: "kernel_info option \<Rightarrow> int \<times> string" where
  "kernel_info_main info =
     (case info of
        None \<Rightarrow> (-1, say [(''kernel_info failed'' @ [NL], [])])
      | Some i \<Rightarrow> (0, say
         [(''version       : %s'' @ [NL], [Va_str (cstr (ki_version i))]),
          (''kernel time   : %s'' @ [NL], [Va_str (cstr (ki_time i))]),
          (''total pages   : %d'' @ [NL], [Va_int (ki_total_pages i)]),
          (''page size     : %d bytes'' @ [NL], [Va_int (ki_page_size i)]),
          (''kernel base   : 0x%x'' @ [NL], [Va_int (ki_kernel_base i)]),
          (''user base     : 0x%x'' @ [NL], [Va_int (ki_user_base i)]),
          (''proc max      : %d'' @ [NL], [Va_int (ki_proc_max i)]),
          (''kernel stack  : %d bytes/proc'' @ [NL], [Va_int (ki_kernel_stack_bytes i)]),
          (''time slice    : %d ticks'' @ [NL], [Va_int (ki_time_slice_ticks i)]),
          (''timer interval: %d ms'' @ [NL], [Va_int (ki_timer_interval_ms i)]),
          (''ramfs node max: %d'' @ [NL], [Va_int (ki_ramfs_node_max i)]),
          (''ramfs size max: %d bytes'' @ [NL], [Va_int (ki_ramfs_size_max i)]),
          (''pfs blk count : %d'' @ [NL], [Va_int (ki_pfs_block_count i)]),
          (''pfs blk size  : %d bytes'' @ [NL], [Va_int (ki_pfs_block_size i)]),
          (''pfs img blks  : %d'' @ [NL], [Va_int (ki_pfs_image_blocks i)]),
          (''pfs img bytes : %d'' @ [NL], [Va_int (ki_pfs_image_bytes i)])]))"

section \<open>Program start\<close>

text \<open>The arguments that \<open>main\<close> gets; \<open>getargs\<close> gives the count and the rows of the argument table.\<close>

definition user_main_entry :: "(int \<times> char list list) option \<Rightarrow> string list" where
  "user_main_entry getargs =
     (case getargs of
        None \<Rightarrow> []
      | Some (argc, rows) \<Rightarrow>
          let argc = (if argc < 0 then 0 else argc);
              argc = (if argc > int PROC_EXEC_ARGV_MAX then int PROC_EXEC_ARGV_MAX else argc)
          in map (\<lambda>i. cstr (rows ! i)) [0 ..< nat argc])"

section \<open>What the programs compute\<close>

definition digits :: "string \<Rightarrow> bool" where
  "digits s \<longleftrightarrow> (\<forall>c \<in> set s. 48 \<le> (of_char c :: nat) \<and> of_char c \<le> (57 :: nat))"

lemma parse_loop_value:
  "parse_loop s (of_nat n) = (if digits s then Some (of_nat (foldl (\<lambda>v c. 10 * v + (of_char c - 48)) n s)) else None)"
proof (induction s arbitrary: n)
  case (Cons c s)
  show ?case
  proof (cases "48 \<le> (of_char c :: nat) \<and> of_char c \<le> (57 :: nat)")
    case True
    then obtain d :: nat where d: "of_char c = 48 + d" using le_Suc_ex by blast
    have "(of_char c :: u32) = of_nat (of_char c)" by (rule of_nat_of_char [symmetric])
    then have "of_nat n * 10 + (of_char c - 48) = (of_nat (10 * n + d) :: u32)" by (simp only: d) simp
    then show ?thesis using True Cons.IH [of "10 * n + d"] by (auto simp: digits_def d mult.commute)
  next
    case False
    then show ?thesis by (auto simp: digits_def not_le)
  qed
qed (simp add: digits_def)

text \<open>A number of the command line is read modulo \<open>2\<^sup>32\<close>, without a sign.\<close>

lemma parse_int_local_value:
  "parse_int_local s = (if s \<noteq> [] \<and> digits s then Some (sint (of_nat (dec_value s) :: u32)) else None)"
  using parse_loop_value [of s 0] by (simp add: parse_int_local_def dec_value_def)

text \<open>The loops over a table end at the first index that the kernel refuses.\<close>

lemma ps_loop_table:
  assumes "\<And>j. i \<le> j \<Longrightarrow> j < i + int n \<Longrightarrow> ps j \<noteq> None" "ps (i + int n) = None"
  shows "ps_loop ps i = Some (concat (map (\<lambda>k. ps_line (the (ps (i + int k)))) [0 ..< n]))"
  using assms
proof (induction n arbitrary: i)
  case 0
  then show ?case by (simp add: ps_loop.simps)
next
  case (Suc n)
  then obtain p where p: "ps i = Some p" by fastforce
  have "ps_loop ps (i + 1) = Some (concat (map (\<lambda>k. ps_line (the (ps (i + 1 + int k)))) [0 ..< n]))"
    using Suc.prems by (intro Suc.IH) (auto simp: algebra_simps)
  moreover have "[0 ..< Suc n] = 0 # map Suc [0 ..< n]" by (simp add: map_Suc_upt upt_conv_Cons)
  ultimately show ?case using p by (simp add: ps_loop.simps [of ps i] o_def algebra_simps)
qed

lemma bitmap_loop_count:
  assumes "\<And>j. i \<le> j \<Longrightarrow> j < i + int n \<Longrightarrow> 0 \<le> bitmap j" "bitmap (i + int n) < 0"
  shows "bitmap_loop bitmap i (t, u) =
    Some (t + int n, u + int (length (filter (\<lambda>k. bitmap (i + int k) = 1) [0 ..< n])))"
  using assms
proof (induction n arbitrary: i t u)
  case 0
  then show ?case by (simp add: bitmap_loop.simps)
next
  case (Suc n)
  have "bitmap_loop bitmap i (t, u) = bitmap_loop bitmap (i + 1) (t + 1, u + (if bitmap i = 1 then 1 else 0))"
    using Suc.prems(1) [of i] by (simp add: bitmap_loop.simps [of bitmap i])
  moreover have "bitmap_loop bitmap (i + 1) (t + 1, u + (if bitmap i = 1 then 1 else 0)) =
      Some (t + 1 + int n, u + (if bitmap i = 1 then 1 else 0) +
        int (length (filter (\<lambda>k. bitmap (i + 1 + int k) = 1) [0 ..< n])))"
    using Suc.prems by (intro Suc.IH) (auto simp: algebra_simps)
  moreover have "[0 ..< Suc n] = 0 # map Suc [0 ..< n]" by (simp add: map_Suc_upt upt_conv_Cons)
  ultimately show ?case by (simp add: filter_map o_def algebra_simps)
qed

end
