(* ===== verification/ShellLine.thy ===== *)
theory ShellLine
  imports ShellHist AppsSys
begin

text \<open>
  The line editor of the shell, the inner loop of src/user/apps/shell/main.c with the completion of command names
  and \<open>redraw_cmdline\<close> of utils.c: a command line of at most 63 characters with a cursor, the arrow keys, the delete
  key and the backspace, browsing in the history with a draft of the line that was being typed.

  The characters that \<open>getchar\<close> will return are a list; the editor waits when the list is used up. What it prints is
  collected in \<open>le_out\<close>.
\<close>

abbreviation ESC :: char where "ESC \<equiv> CHR 0x1B"
abbreviation CR :: char where "CR \<equiv> CHR 0x0D"
abbreviation BS :: char where "BS \<equiv> CHR 0x08"
abbreviation DEL :: char where "DEL \<equiv> CHR 0x7F"

record ledit =
  le_cmdline :: "char list"
  le_len :: nat
  le_cursor :: nat
  le_draft :: "char list"
  le_draft_len :: nat
  le_hcursor :: int
  le_out :: string

section \<open>Completion of command names\<close>

definition shell_app_names :: "string list" where
  "shell_app_names = [''shell'', ''ipc_rx'', ''ps'', ''date'', ''ls'', ''mkdir'', ''rmdir'', ''touch'', ''rm'', ''write'',
     ''cat'', ''cd'', ''kill'', ''kernel_info'', ''bitmap'']"

text \<open>The first blank from \<open>i\<close> on, with \<open>n\<close> characters to go.\<close>

fun first_token_end :: "char list \<Rightarrow> nat \<Rightarrow> nat \<Rightarrow> nat" where
  "first_token_end s i 0 = i"
| "first_token_end s i (Suc n) = (if s ! i \<noteq> CHR '' '' \<and> s ! i \<noteq> TAB then first_token_end s (Suc i) n else i)"

fun common_prefix_len :: "string \<Rightarrow> string \<Rightarrow> nat" where
  "common_prefix_len (a # as) (b # bs) = (if a = b then Suc (common_prefix_len as bs) else 0)"
| "common_prefix_len _ _ = 0"

text \<open>The two shifting loops: \<open>n\<close> cells from \<open>i\<close> on move by \<open>d\<close>, upwards starting at the last one.\<close>

fun shift_up :: "char list \<Rightarrow> nat \<Rightarrow> nat \<Rightarrow> nat \<Rightarrow> char list" where
  "shift_up a d i 0 = a"
| "shift_up a d i (Suc n) = shift_up (buf_set a (i + n + d) (a ! (i + n))) d i n"

fun shift_down :: "char list \<Rightarrow> nat \<Rightarrow> nat \<Rightarrow> nat \<Rightarrow> char list" where
  "shift_down a d i 0 = a"
| "shift_down a d i (Suc n) = shift_down (buf_set a (i - d) (a ! i)) d (Suc i) n"

definition replace_first_token :: "nat \<Rightarrow> string \<Rightarrow> nat \<Rightarrow> ledit \<Rightarrow> ledit" where
  "replace_first_token old_token_len new_token new_token_len e =
     (let old_len = le_len e; tail_len = old_len - old_token_len; new_len = new_token_len + tail_len
      in if new_len \<ge> CMDLINE_MAX then e
         else
           let cmdline = le_cmdline e;
               cmdline = (if new_token_len > old_token_len
                  then shift_up cmdline (new_token_len - old_token_len) old_token_len (old_len + 1 - old_token_len)
                  else if new_token_len < old_token_len
                  then shift_down cmdline (old_token_len - new_token_len) old_token_len (old_len + 1 - old_token_len)
                  else cmdline);
               cmdline = memcpy cmdline 0 new_token 0 new_token_len
           in e\<lparr>le_len := new_len, le_cursor := new_token_len, le_cmdline := buf_set cmdline new_len NUL\<rparr>)"

definition complete_app_name :: "ledit \<Rightarrow> bool \<times> ledit" where
  "complete_app_name e =
     (let token_end = first_token_end (le_cmdline e) 0 (le_len e)
      in if le_cursor e > token_end \<or> le_cursor e = 0 then (False, e)
         else
           let matches = filter (\<lambda>name. list_all (\<lambda>j. char_at name j = le_cmdline e ! j) [0 ..< le_cursor e]) shell_app_names
           in case matches of
                [] \<Rightarrow> (False, e)
              | [m] \<Rightarrow> (True, replace_first_token token_end m (str_len m) e)
              | m # ms \<Rightarrow>
                  let lcp = fold (\<lambda>name lcp. min lcp (common_prefix_len m name)) ms (str_len m)
                  in if lcp > token_end then (True, replace_first_token token_end m lcp e) else (False, e))"

section \<open>The screen\<close>

definition CONSOLE_BLUE :: string where "CONSOLE_BLUE = [ESC] @ ''[34m''"
definition CONSOLE_WHITE :: string where "CONSOLE_WHITE = [ESC] @ ''[0m''"

definition redraw_cmdline :: "string \<Rightarrow> nat \<Rightarrow> string \<Rightarrow> string" where
  "redraw_cmdline line cursor_pos cwd_path =
     (let len = str_len line; cursor_pos = (if cursor_pos > len then len else cursor_pos)
      in say [([CR] @ ''%saqua-core%s:%s%s%s$ '' @ [ESC] @ ''[K%s'',
           [Va_str CONSOLE_BLUE, Va_str CONSOLE_WHITE, Va_str CONSOLE_BLUE, Va_str cwd_path, Va_str CONSOLE_WHITE, Va_str line])] @
         replicate (len - cursor_pos) BS)"

definition redraw :: "string \<Rightarrow> ledit \<Rightarrow> ledit" where
  "redraw cwd e = e\<lparr>le_out := le_out e @ redraw_cmdline (cstr (le_cmdline e)) (le_cursor e) cwd\<rparr>"

section \<open>Keys\<close>

definition delete_at :: "nat \<Rightarrow> ledit \<Rightarrow> ledit" where
  "delete_at i e =
     (let cmdline = shift_down (le_cmdline e) 1 (i + 1) (le_len e - 1 - i)
      in e\<lparr>le_len := le_len e - 1, le_cmdline := buf_set cmdline (le_len e - 1) NUL\<rparr>)"

definition key_right :: "string \<Rightarrow> ledit \<Rightarrow> ledit" where
  "key_right cwd e = (if le_cursor e < le_len e then redraw cwd (e\<lparr>le_cursor := le_cursor e + 1\<rparr>) else e)"

definition key_left :: "string \<Rightarrow> ledit \<Rightarrow> ledit" where
  "key_left cwd e = (if le_cursor e > 0 then redraw cwd (e\<lparr>le_cursor := le_cursor e - 1\<rparr>) else e)"

definition key_delete :: "string \<Rightarrow> ledit \<Rightarrow> ledit" where
  "key_delete cwd e = (if le_cursor e < le_len e then redraw cwd (delete_at (le_cursor e) e) else e)"

definition key_backspace :: "string \<Rightarrow> ledit \<Rightarrow> ledit" where
  "key_backspace cwd e =
     (if le_cursor e > 0
      then redraw cwd ((delete_at (le_cursor e - 1) e)\<lparr>le_cursor := le_cursor e - 1\<rparr>) else e)"

definition show_history :: "hist \<Rightarrow> string \<Rightarrow> ledit \<Rightarrow> ledit" where
  "show_history h cwd e =
     (if le_hcursor e \<ge> 0
      then let cmdline = snd (history_get (le_hcursor e) (le_cmdline e) CMDLINE_MAX h); len = str_len (cstr cmdline)
        in redraw cwd (e\<lparr>le_cmdline := cmdline, le_len := len, le_cursor := len\<rparr>)
      else e)"

definition key_up :: "hist \<Rightarrow> string \<Rightarrow> ledit \<Rightarrow> ledit" where
  "key_up h cwd e =
     (if history_size h = 0 then e
      else show_history h cwd
        (if le_hcursor e = -1
         then e\<lparr>le_draft := buf_set (memcpy (le_draft e) 0 (le_cmdline e) 0 (le_len e)) (le_len e) NUL,
                le_draft_len := le_len e, le_hcursor := int (history_size h) - 1\<rparr>
         else if le_hcursor e > 0 then e\<lparr>le_hcursor := le_hcursor e - 1\<rparr> else e))"

definition key_down :: "hist \<Rightarrow> string \<Rightarrow> ledit \<Rightarrow> ledit" where
  "key_down h cwd e =
     (if history_size h = 0 then e
      else if le_hcursor e = -1 then e
      else if le_hcursor e < int (history_size h) - 1 then show_history h cwd (e\<lparr>le_hcursor := le_hcursor e + 1\<rparr>)
      else redraw cwd (e\<lparr>le_hcursor := -1,
          le_cmdline := buf_set (memcpy (le_cmdline e) 0 (le_draft e) 0 (le_draft_len e)) (le_draft_len e) NUL,
          le_len := le_draft_len e, le_cursor := le_draft_len e\<rparr>))"

definition key_tab :: "string \<Rightarrow> ledit \<Rightarrow> ledit" where
  "key_tab cwd e = (case complete_app_name e of (done, e) \<Rightarrow> if done then redraw cwd e else e)"

definition key_char :: "string \<Rightarrow> char \<Rightarrow> ledit \<Rightarrow> ledit" where
  "key_char cwd ch e =
     (if le_cursor e = le_len e
      then e\<lparr>le_cmdline := buf_set (le_cmdline e) (le_len e) ch, le_len := le_len e + 1, le_cursor := le_len e + 1,
             le_out := le_out e @ [ch]\<rparr>
      else redraw cwd (e\<lparr>le_cmdline := buf_set
          (shift_up (le_cmdline e) 1 (le_cursor e) (le_len e + 1 - le_cursor e)) (le_cursor e) ch,
          le_len := le_len e + 1, le_cursor := le_cursor e + 1\<rparr>))"

section \<open>The loop\<close>

datatype edit_end =
    Entered ledit string \<comment> \<open>the line is complete; the input that is left\<close>
  | Too_long ledit string
  | Waiting ledit

fun edit_loop :: "hist \<Rightarrow> string \<Rightarrow> string \<Rightarrow> ledit \<Rightarrow> edit_end" where
  "edit_loop h cwd [] e = Waiting e"
| "edit_loop h cwd (ch # inp) e =
     (if ch = CR \<or> ch = NL
      then Entered (e\<lparr>le_cmdline := buf_set (le_cmdline e) (le_len e) NUL, le_out := le_out e @ [NL]\<rparr>) inp
      else if ch = ESC
      then (case inp of
          c1 # c2 # inp \<Rightarrow>
            if c1 = CHR ''['' \<and> c2 = CHR ''A'' then edit_loop h cwd inp (key_up h cwd e)
            else if c1 = CHR ''['' \<and> c2 = CHR ''B'' then edit_loop h cwd inp (key_down h cwd e)
            else if c1 = CHR ''['' \<and> c2 = CHR ''C'' then edit_loop h cwd inp (key_right cwd e)
            else if c1 = CHR ''['' \<and> c2 = CHR ''D'' then edit_loop h cwd inp (key_left cwd e)
            else if c1 = CHR ''['' \<and> c2 = CHR ''3''
            then (case inp of
                [] \<Rightarrow> Waiting e
              | c3 # inp \<Rightarrow> edit_loop h cwd inp (if c3 = CHR ''~'' then key_delete cwd e else e))
            else edit_loop h cwd inp e
        | _ \<Rightarrow> Waiting e)
      else if ch = TAB then edit_loop h cwd inp (key_tab cwd e)
      else if ch = BS \<or> ch = DEL then edit_loop h cwd inp (key_backspace cwd e)
      else if le_len e = CMDLINE_MAX - 1
      then Too_long (e\<lparr>le_out := le_out e @ say [([NL] @ ''command too long'' @ [NL], [])]\<rparr>) inp
      else edit_loop h cwd inp (key_char cwd ch e))"

text \<open>The prompt and the variables of one line; the arrays hold what the stack holds.\<close>

definition start_line :: "char list \<Rightarrow> char list \<Rightarrow> string \<Rightarrow> ledit" where
  "start_line cmdline draft cwd =
     \<lparr>le_cmdline = cmdline, le_len = 0, le_cursor = 0, le_draft = draft, le_draft_len = 0, le_hcursor = -1,
      le_out = say [(''%saqua-core%s:%s%s%s$ '',
        [Va_str CONSOLE_BLUE, Va_str CONSOLE_WHITE, Va_str CONSOLE_BLUE, Va_str cwd, Va_str CONSOLE_WHITE])]\<rparr>"

end
