(* ===== verification/ShellMain.thy ===== *)
theory ShellMain
  imports ShellLine
begin

text \<open>
  The commands of the shell: splitting a line into words, redirection, the choice of the command, external programs
  and the loop around them (src/user/apps/shell/main.c, utils.c, commands_sys.c).

  A command runs on the file system of the kernel. What a child process does to it while the shell waits is an
  argument; \<open>fork\<close> and \<open>chdir\<close> are given by their results. The shell keeps two descriptors of its own for built-in
  commands, which are -1 as long as nothing sets them (the shell itself does not).
\<close>

section \<open>Words\<close>

text \<open>\<open>rest\<close> is the part of the line from index \<open>i\<close> on; an element of \<open>argv\<close> is the index it points to.\<close>

fun split_loop :: "nat \<Rightarrow> nat \<Rightarrow> bool \<Rightarrow> string \<Rightarrow> char list \<Rightarrow> nat list \<Rightarrow> char list \<times> nat list" where
  "split_loop argv_max i in_token [] line argv = (line, argv)"
| "split_loop argv_max i in_token (c # rest) line argv =
     (if c = CHR '' '' \<or> c = TAB then split_loop argv_max (Suc i) False rest (buf_set line i NUL) argv
      else if \<not> in_token
      then split_loop argv_max (Suc i) True rest line (if length argv < argv_max then argv @ [i] else argv)
      else split_loop argv_max (Suc i) in_token rest line argv)"

definition split_args :: "char list \<Rightarrow> nat \<Rightarrow> char list \<times> nat list" where
  "split_args line argv_max = split_loop argv_max 0 False (cstr line) line []"

text \<open>The strings that the pointers refer to.\<close>

definition arg_strings :: "char list \<times> nat list \<Rightarrow> string list" where
  "arg_strings = (\<lambda>(line, argv). map (\<lambda>i. cstr (drop i line)) argv)"

definition parse_int :: "string \<Rightarrow> int option" where
  "parse_int s = (if s = [] then None else map_option sint (parse_loop s 0))"

text \<open>The arguments without the redirections, and the last path for each direction.\<close>

fun redirection_loop :: "string list \<Rightarrow> string list \<times> string option \<times> string option \<Rightarrow>
    (string list \<times> string option \<times> string option) option" where
  "redirection_loop [] acc = Some acc"
| "redirection_loop (a # argv) (exec_argv, in_path, out_path) =
     (if strcmp a ''<'' = 0 \<or> strcmp a ''>'' = 0
      then (case argv of
          [] \<Rightarrow> None
        | p # argv \<Rightarrow> redirection_loop argv
            (if char_at a 0 = CHR ''<'' then (exec_argv, Some p, out_path) else (exec_argv, in_path, Some p)))
      else redirection_loop argv (exec_argv @ [a], in_path, out_path))"

definition parse_redirection :: "string list \<Rightarrow> (string list \<times> string option \<times> string option) option" where
  "parse_redirection argv = redirection_loop argv ([], None, None)"

definition is_background :: "string list \<Rightarrow> bool" where
  "is_background argv \<longleftrightarrow> strcmp (argv ! (length argv - 1)) ''&'' = 0"

section \<open>External programs\<close>

definition app_map :: "string \<Rightarrow> int" where
  "app_map name =
     (if strcmp name ''shell'' = 0 then 1 else if strcmp name ''ipc_rx'' = 0 then 2 else if strcmp name ''ps'' = 0 then 3
      else if strcmp name ''date'' = 0 then 4 else if strcmp name ''ls'' = 0 then 5 else if strcmp name ''mkdir'' = 0 then 6
      else if strcmp name ''rmdir'' = 0 then 7 else if strcmp name ''touch'' = 0 then 8 else if strcmp name ''rm'' = 0 then 9
      else if strcmp name ''write'' = 0 then 10 else if strcmp name ''cat'' = 0 then 11 else if strcmp name ''kill'' = 0 then 12
      else if strcmp name ''kernel_info'' = 0 then 14 else if strcmp name ''bitmap'' = 0 then 15 else -1)"

text \<open>What \<open>run_external\<close> does, in the parent and in the child.\<close>

datatype external =
    No_program string \<comment> \<open>the message\<close>
  | Child_exec int "string list" \<comment> \<open>\<open>execv(app_id, argv)\<close>, then \<open>exit\<close>\<close>
  | Parent_wait int
  | Parent_background int string

definition run_external :: "int \<Rightarrow> string list \<Rightarrow> bool \<Rightarrow> external" where
  "run_external fork argv background =
     (let argc = (if background \<and> strcmp (argv ! (length argv - 1)) ''&'' = 0 then length argv - 1 else length argv);
          exec_argc = (if argc > 8 then 8 else argc);
          exec_argv = take exec_argc argv;
          app_id = app_map (argv ! 0)
      in if app_id < 0 then No_program (say [(''command not found'' @ [NL], [])])
         else if fork < 0 then No_program (say [(''fork failed'' @ [NL], [])])
         else if fork = 0 then Child_exec app_id exec_argv
         else if \<not> background then Parent_wait fork
         else Parent_background fork (say [(''[bg] pid=%d'' @ [NL], [Va_int (of_int fork)])]))"

section \<open>The commands\<close>

datatype command = Cmd_history | Cmd_cd_background | Cmd_cd_usage | Cmd_cd string | Cmd_pwd | Cmd_exit
  | Cmd_external "string list" bool

definition dispatch :: "string list \<Rightarrow> command" where
  "dispatch argv =
     (if strcmp (argv ! 0) ''history'' = 0 \<and> length argv = 1 then Cmd_history
      else if strcmp (argv ! 0) ''cd'' = 0
      then (if is_background argv then Cmd_cd_background
            else if length argv \<noteq> 2 then Cmd_cd_usage
            else Cmd_cd (argv ! 1))
      else if strcmp (argv ! 0) ''pwd'' = 0 then Cmd_pwd
      else if strcmp (argv ! 0) ''exit'' = 0 \<and> length argv = 1 then Cmd_exit
      else Cmd_external argv (is_background argv))"

text \<open>The target that \<open>shell_cmd_cd\<close> passes to \<open>chdir\<close>; \<open>None\<close> is its result -1.\<close>

definition shell_cmd_cd :: "uproc \<Rightarrow> string \<Rightarrow> string option" where
  "shell_cmd_cd u path =
     (case user_path_resolve (u_stack u) (u_stack u) (u_cwd u) (Some path) (Some (u_stack u)) FS_PATH_MAX of
        (r, target) \<Rightarrow> if r < 0 then None else Some (cstr (the target)))"

definition shell_cmd_pwd :: "uproc \<Rightarrow> fs_state \<Rightarrow> int \<times> fs_state" where
  "shell_cmd_pwd u s =
     (case u_cwd u of None \<Rightarrow> (-1, s) | Some target \<Rightarrow> (0, u_printf u (''%s'' @ [NL]) [Va_str target] s))"

text \<open>\<open>shell_cmd_write_file\<close>; it prints through \<open>shell_printf\<close> to the console.\<close>

definition shell_cmd_write_file :: "uproc \<Rightarrow> string \<Rightarrow> string \<Rightarrow> fs_state \<Rightarrow> int \<times> fs_state" where
  "shell_cmd_write_file u path txt_arg s =
     (let (fd, s) = fs_open (u_pid u) (Some path) (O_CREAT OR O_WRONLY OR O_TRUNC) s
      in if fd < 0 then failed u ''open failed'' s
         else
           let n = str_len txt_arg;
               (w, s) = fs_write (u_pid u) fd (Some (map of_char txt_arg)) (of_nat n) s;
               s = snd (fs_close (u_pid u) fd s)
           in if w < 0 then failed u ''write failed'' s else (0, s))"

text \<open>A command after the redirections. \<open>child\<close> is what the files look like after the parent has waited for the program,
  or after the child has started it.\<close>

definition run_command :: "uproc \<Rightarrow> hist \<Rightarrow> (string \<Rightarrow> int) \<Rightarrow> int \<Rightarrow> (external \<Rightarrow> fs_state \<Rightarrow> fs_state) \<Rightarrow> command \<Rightarrow> fs_state \<Rightarrow> fs_state" where
  "run_command u h chdir fork child c s =
     (let message = (\<lambda>m. u_printf u (m @ [NL]) [])
      in case c of
        Cmd_history \<Rightarrow> (case history_print h of None \<Rightarrow> s | Some out \<Rightarrow> u_print u out s)
      | Cmd_cd_background \<Rightarrow> message ''cd: background execution is not supported'' s
      | Cmd_cd_usage \<Rightarrow> message ''usage: cd <path>'' s
      | Cmd_cd path \<Rightarrow>
          (case shell_cmd_cd u path of
             None \<Rightarrow> message ''chdir failed'' s
           | Some target \<Rightarrow> if chdir target < 0 then message ''chdir failed'' s else s)
      | Cmd_pwd \<Rightarrow> (let (r, s) = shell_cmd_pwd u s in if r < 0 then message ''pwd failed'' s else s)
      | Cmd_exit \<Rightarrow> history_write u h s
      | Cmd_external argv background \<Rightarrow>
          (case run_external fork argv background of
             No_program msg \<Rightarrow> u_print u msg s
           | Parent_background pid msg \<Rightarrow> u_print u msg (child (Parent_background pid msg) s)
           | e \<Rightarrow> child e s))"

section \<open>Redirection\<close>

text \<open>\<open>fs_open\<close>, and \<open>dup2\<close> with \<open>fs_close\<close> unless the descriptor is already the wanted one; \<open>cleanup\<close> is what the
  code does in addition when \<open>dup2\<close> fails. The flag is \<open>False\<close> where the code goes back to the prompt.\<close>

definition redirect :: "uproc \<Rightarrow> string \<Rightarrow> int \<Rightarrow> int \<Rightarrow> (fs_state \<Rightarrow> fs_state) \<Rightarrow> fs_state \<Rightarrow> bool \<times> fs_state" where
  "redirect u path flags target cleanup s =
     (let (fd, s) = fs_open (u_pid u) (Some path) flags s
      in if fd < 0 then (False, u_printf u (''file open failed'' @ [NL]) [] s)
         else if fd \<noteq> target
         then let (r, s) = fs_dup2 (u_pid u) fd target s
           in if r < 0
              then (False, cleanup (snd (fs_close (u_pid u) fd (u_printf u (''dup2 failed'' @ [NL]) [] s))))
              else (True, snd (fs_close (u_pid u) fd s))
         else (True, s))"

definition redirect_in :: "uproc \<Rightarrow> string option \<Rightarrow> fs_state \<Rightarrow> bool \<times> fs_state" where
  "redirect_in u in_path s = (case in_path of None \<Rightarrow> (True, s) | Some p \<Rightarrow> redirect u p O_RDONLY 0 (\<lambda>s. s) s)"

definition redirect_out :: "uproc \<Rightarrow> bool \<Rightarrow> string option \<Rightarrow> fs_state \<Rightarrow> bool \<times> fs_state" where
  "redirect_out u stdin_redirected out_path s =
     (case out_path of
        None \<Rightarrow> (True, s)
      | Some p \<Rightarrow> redirect u p (O_WRONLY OR O_CREAT OR O_TRUNC) 1
          (\<lambda>s. if stdin_redirected then snd (fs_close (u_pid u) 0 s) else s) s)"

definition shell_command :: "uproc \<Rightarrow> (command \<Rightarrow> fs_state \<Rightarrow> fs_state) \<Rightarrow> string list \<Rightarrow> fs_state \<Rightarrow> fs_state" where
  "shell_command u run raw_argv s =
     (case parse_redirection raw_argv of
        None \<Rightarrow> u_printf u (''redirection syntax error'' @ [NL]) [] s
      | Some (argv, in_path, out_path) \<Rightarrow>
          if argv = [] then u_printf u (''command not found.'' @ [NL]) [] s
          else case redirect_in u in_path s of
            (False, s) \<Rightarrow> s
          | (True, s) \<Rightarrow>
              (case redirect_out u (in_path \<noteq> None) out_path s of
                 (False, s) \<Rightarrow> s
               | (True, s) \<Rightarrow>
                   let s = run (dispatch argv) s
                   in if dispatch argv = Cmd_exit then s \<comment> \<open>\<open>shell_cmd_exit\<close> does not return\<close>
                      else let s = (if out_path \<noteq> None then snd (fs_close (u_pid u) 1 s) else s)
                        in if in_path \<noteq> None then snd (fs_close (u_pid u) 0 s) else s))"

section \<open>One turn of the main loop\<close>

text \<open>The prompt, a line, the history, the command. \<open>None\<close> while the shell waits for input.\<close>

definition shell_turn :: "uproc \<Rightarrow> (hist \<Rightarrow> command \<Rightarrow> fs_state \<Rightarrow> fs_state) \<Rightarrow> char list \<Rightarrow> char list \<Rightarrow> hist \<Rightarrow> string \<Rightarrow> fs_state \<Rightarrow>
    (hist \<times> string \<times> fs_state) option" where
  "shell_turn u run cmdline draft h inp s =
     (let cwd = (case u_cwd u of None \<Rightarrow> ''unkown'' | Some cwd \<Rightarrow> cwd)
      in case edit_loop h cwd inp (start_line cmdline draft cwd) of
           Waiting e \<Rightarrow> None
         | Too_long e inp \<Rightarrow> Some (h, inp, u_print u (le_out e) s)
         | Entered e inp \<Rightarrow>
             let s = u_print u (le_out e) s;
                 h = history_push (cstr (le_cmdline e)) h;
                 raw_argv = arg_strings (split_args (le_cmdline e) 8)
             in if raw_argv = [] then Some (h, inp, s) else Some (h, inp, shell_command u (run h) raw_argv s))"

section \<open>The descriptors of built-in commands\<close>

record shell_io =
  shell_input_fd :: int
  shell_output_fd :: int

definition shell_set_input_fd :: "int \<Rightarrow> shell_io \<Rightarrow> shell_io" where
  "shell_set_input_fd fd io = io\<lparr>shell_input_fd := fd\<rparr>"

definition shell_reset_input_fd :: "shell_io \<Rightarrow> shell_io" where
  "shell_reset_input_fd io = io\<lparr>shell_input_fd := -1\<rparr>"

definition shell_set_output_fd :: "int \<Rightarrow> shell_io \<Rightarrow> shell_io" where
  "shell_set_output_fd fd io = io\<lparr>shell_output_fd := fd\<rparr>"

definition shell_reset_output_fd :: "shell_io \<Rightarrow> shell_io" where
  "shell_reset_output_fd io = io\<lparr>shell_output_fd := -1\<rparr>"

definition shell_putc :: "uproc \<Rightarrow> shell_io \<Rightarrow> char \<Rightarrow> fs_state \<Rightarrow> fs_state" where
  "shell_putc u io ch s =
     (if shell_output_fd io \<ge> 0 then snd (fs_write (u_pid u) (shell_output_fd io) (Some [of_char ch]) 1 s)
      else u_putchar u ch s)"

text \<open>\<open>getchar\<close> is the character that the console gives, or -1. The result is the value of the call and the bytes it has
  put into the buffer.\<close>

definition shell_read_input :: "uproc \<Rightarrow> shell_io \<Rightarrow> int \<Rightarrow> u32 \<Rightarrow> fs_state \<Rightarrow> read_result \<times> fs_state" where
  "shell_read_input u io getchar sz s =
     (if sz = 0 then (Read_done (-1) [], s)
      else if shell_input_fd io \<ge> 0 then fs_read (u_pid u) (shell_input_fd io) True sz s
      else if getchar < 0 then (Read_done (-1) [], s)
      else (Read_done 1 [of_int getchar], s))"

text \<open>\<open>shell_printf\<close> writes character by character.\<close>

definition shell_out :: "uproc \<Rightarrow> shell_io \<Rightarrow> string \<Rightarrow> va_value list \<Rightarrow> fs_state \<Rightarrow> fs_state" where
  "shell_out u io fmt vargs s = (case shell_printf fmt vargs of None \<Rightarrow> s | Some out \<Rightarrow> fold (shell_putc u io) out s)"

text \<open>One read of \<open>shell_cmd_stdin_test\<close>. \<open>inp\<close> are the results of \<open>getchar\<close> to come; \<open>None\<close> while the shell waits for
  the console.\<close>

definition stdin_chunk :: "uproc \<Rightarrow> shell_io \<Rightarrow> int list \<Rightarrow> fs_state \<Rightarrow> (int \<times> u8 list \<times> int list \<times> fs_state) option" where
  "stdin_chunk u io inp s =
     (if shell_input_fd io < 0
      then case inp of
          [] \<Rightarrow> None
        | c # inp \<Rightarrow> (case shell_read_input u io c 63 s of (Read_done n bs, s) \<Rightarrow> Some (n, bs, inp, s) | _ \<Rightarrow> None)
      else case shell_read_input u io (-1) 63 s of
          (Read_done n bs, s) \<Rightarrow> Some (n, bs, inp, s)
        | (Console_read sz, s) \<Rightarrow>
            if length inp < unat sz then None else Some (uint sz, map of_int (take (unat sz) inp), drop (unat sz) inp, s))"

partial_function (option) stdin_test_loop :: "uproc \<Rightarrow> shell_io \<Rightarrow> char list \<Rightarrow> int list \<Rightarrow> u32 \<Rightarrow> fs_state \<Rightarrow> (u32 \<times> int list \<times> fs_state) option" where
  "stdin_test_loop u io buf inp tot s =
     Option.bind (stdin_chunk u io inp s) (\<lambda>(n, bs, inp, s).
       if n \<le> 0 then Some (tot, inp, s)
       else
         let buf = buf_set (overwrite buf 0 (map (\<lambda>b. char_of (unat b)) bs)) (nat n) NUL
         in stdin_test_loop u io buf inp (tot + of_int n) (shell_out u io ''%s'' [Va_str (cstr buf)] s))"

definition shell_cmd_stdin_test :: "uproc \<Rightarrow> shell_io \<Rightarrow> char list \<Rightarrow> int list \<Rightarrow> fs_state \<Rightarrow> (int list \<times> fs_state) option" where
  "shell_cmd_stdin_test u io buf inp s =
     map_option (\<lambda>(tot, inp, s). (inp, shell_out u io ([NL] @ ''[stdin_test] bytes=%d'' @ [NL]) [Va_int tot] s))
       (stdin_test_loop u io buf inp 0 s)"

end
