(* ===== verification/AppProps.thy ===== *)
theory AppProps
  imports Apps FileUse
begin

text \<open>
  The programs on files against the file system: what \<open>write\<close> puts into a file is what \<open>cat\<close> prints, and what
  happens to the output of \<open>cat\<close> when the shell has put a file at descriptor 0 only.
\<close>

section \<open>Printing on the console\<close>

lemma u_putchar_console:
  "\<not> bad_pid (u_pid u) \<Longrightarrow> \<not> f_used (fd_table s (nat (u_pid u)) 1) \<Longrightarrow>
   u_putchar u ch s = s\<lparr>con_out := con_out s @ [of_char ch]\<rparr>"
  by (simp add: u_putchar_def fs_write_def bad_fd_def FS_FD_MAX_def console_write_fallback_def)

lemma u_print_console:
  "\<not> bad_pid (u_pid u) \<Longrightarrow> \<not> f_used (fd_table s (nat (u_pid u)) 1) \<Longrightarrow>
   u_print u out s = s\<lparr>con_out := con_out s @ map of_char out\<rparr>"
  unfolding u_print_def by (induction out arbitrary: s) (simp_all add: u_putchar_console)

lemma printf_string: "printf ''%s'' [Va_str t] = Some t" "printf [NL] [] = Some [NL]"
  by simp_all

lemma u_printf_console:
  assumes "\<not> bad_pid (u_pid u)" "\<not> f_used (fd_table s (nat (u_pid u)) 1)" "printf fmt vargs = Some out"
  shows "u_printf u fmt vargs s = s\<lparr>con_out := con_out s @ map of_char out\<rparr>"
  using assms u_print_console by (simp add: u_printf_def)

section \<open>The loop of cat\<close>

lemma vfs_wf_con_out [simp]: "vfs_wf (s\<lparr>con_out := c\<rparr>) = vfs_wf s"
  by (simp add: vfs_wf_def fd_ok_def)

lemma chunk_text_of_char: "nul_free t \<Longrightarrow> chunk_text (map of_char t) = t"
  by (simp add: chunk_text_def o_def char_of_unat_of_char cstr_nul_free)

text \<open>A state that differs in the offset of one descriptor and in what has been printed.\<close>

definition printed :: "nat \<Rightarrow> nat \<Rightarrow> nat \<Rightarrow> string \<Rightarrow> fs_state \<Rightarrow> fs_state" where
  "printed p d off out s = (set_fd p d ((fd_table s p d)\<lparr>f_offset := of_nat off\<rparr>) s)\<lparr>con_out := con_out s @ map of_char out\<rparr>"

lemma printed_printed: "printed p d off' out' (printed p d off out s) = printed p d off' (out @ out') s"
  by (simp add: printed_def set_fd_def)

lemma printed_frame [simp]:
  "get_fs c (printed p d off out s) = get_fs c s" "mounts (printed p d off out s) = mounts s"
  "f_used (fd_table (printed p d off out s) q e) = f_used (fd_table s q e)"
  "con_out (printed p d off out s) = con_out s @ map of_char out"
  by (auto simp: printed_def)

lemma printed_wf:
  assumes "vfs_wf s" "opened s pid fd ctx i off0 flags" "live_file (get_fs ctx s) i" "off \<le> 512"
  shows "vfs_wf (printed (nat pid) (nat fd) off out s)" "opened (printed (nat pid) (nat fd) off out s) pid fd ctx i off flags"
proof -
  have "fd_ok s ((fd_table s (nat pid) (nat fd))\<lparr>f_offset := of_nat off\<rparr>)"
    using assms(2-4) by (auto simp: fd_ok_def opened_def unat_of_nat mount_no_inj)
  then show "vfs_wf (printed (nat pid) (nat fd) off out s)"
    using vfs_wf_set_fd [OF assms(1)] by (simp add: printed_def)
  show "opened (printed (nat pid) (nat fd) off out s) pid fd ctx i off flags"
    using assms(2,4) by (simp add: printed_def opened_def)
qed

lemma cat_loop_prints:
  assumes "vfs_wf s" "opened s (u_pid u) fd ctx i off O_RDONLY" "live_file (get_fs ctx s) i"
    "contents (get_fs ctx s) i = map of_char text" "nul_free text" "length text \<le> 512" "off \<le> length text"
    "\<not> f_used (fd_table s (nat (u_pid u)) 1)"
  shows "cat_loop u fd s = Some (printed (nat (u_pid u)) (nat fd) (length text) (drop off text) s)"
  using assms
proof (induction "length text - off" arbitrary: off s rule: less_induct)
  case less
  let ?p = "nat (u_pid u)" and ?x = "take 63 (drop off text)"
  have pid: "\<not> bad_pid (u_pid u)" using less.prems(2) by (simp add: opened_def)
  let ?s = "set_fd ?p (nat fd) ((fd_table s ?p (nat fd))\<lparr>f_offset := of_nat (off + length ?x)\<rparr>) s"
  have "take (unat (63 :: u32)) (drop off (contents (get_fs ctx s) i)) = map of_char ?x"
    by (simp add: less.prems(4) drop_map take_map)
  then have r: "fs_read (u_pid u) fd True 63 s = (Read_done (int (length ?x)) (map of_char ?x), ?s)"
    using read_opened [OF less.prems(1,2) _ less.prems(3), of "map of_char ?x" 63] by (simp add: O_RDONLY_def)
  show ?case
  proof (cases "off = length text")
    case True
    then have "cat_loop u fd s = Some ?s" using r by (simp add: cat_loop.simps [of u fd s])
    then show ?thesis using True by (simp add: printed_def)
  next
    case False
    then have off: "off < length text" using less.prems(7) by simp
    have nf: "nul_free ?x" using less.prems(5) by simp
    let ?t = "printed ?p (nat fd) (off + length ?x) ?x s"
    have unused: "\<not> f_used (fd_table ?s ?p 1)" using less.prems(2,8) by (auto simp: opened_def set_fd_def)
    have "u_printf u ''%s'' [Va_str (chunk_text (map of_char ?x))] ?s = ?t"
      using u_printf_console [OF pid unused printf_string(1)] chunk_text_of_char [OF nf] by (simp add: printed_def)
    moreover have "\<not> int (length ?x) \<le> 0" using off by simp
    ultimately have step: "cat_loop u fd s = cat_loop u fd ?t"
      by (subst cat_loop.simps) (simp only: r prod.case read_result.case if_False)
    have le: "off + length ?x \<le> length text" using off by simp
    have le': "off + length ?x \<le> 512" using le less.prems(6) by linarith
    note t = printed_wf [OF less.prems(1-3) le', of ?x]
    have "cat_loop u fd ?t = Some (printed ?p (nat fd) (length text) (drop (off + length ?x) text) ?t)"
    proof (rule less.hyps)
      show "length text - (off + length ?x) < length text - off" using off by simp
    qed (use t less.prems le in simp_all)
    also have "drop off text = ?x @ drop (off + length ?x) text"
      by (metis append_take_drop_id drop_drop length_take min_def add.commute nat_le_linear drop_all take_all)
    ultimately show ?thesis using step by (simp add: printed_printed)
  qed
qed

section \<open>Running the programs\<close>

text \<open>The place where a path of a program leads.\<close>

definition resolved :: "uproc \<Rightarrow> string \<Rightarrow> string" where
  "resolved u arg = show_path (normal_names [] (path_comps (target_path (the (u_cwd u)) arg)))"

definition uproc_ok :: "uproc \<Rightarrow> bool" where
  "uproc_ok u \<longleftrightarrow> \<not> bad_pid (u_pid u) \<and> length (u_stack u) = 64 \<and>
     (\<exists>cwd. u_cwd u = Some cwd \<and> nul_free cwd \<and> char_at cwd 0 = CHR ''/'')"

lemma resolve_program_path:
  assumes "uproc_ok u" "nul_free arg"
  obtains out where "user_path_resolve (u_stack u) (u_stack u) (u_cwd u) (Some arg) (Some (u_stack u)) FS_PATH_MAX = (0, Some out)"
    "cstr out = resolved u arg" "nul_free (resolved u arg)"
proof -
  obtain cwd where cwd: "u_cwd u = Some cwd" "nul_free cwd" "char_at cwd 0 = CHR ''/''" and st: "length (u_stack u) = 64"
    using assms(1) by (auto simp: uproc_ok_def)
  define ns where "ns = normal_names [] (path_comps (target_path cwd arg))"
  have "\<exists>out. user_path_resolve (u_stack u) (u_stack u) (u_cwd u) (Some arg) (Some (u_stack u)) 64 = (0, Some out) \<and>
     length out = length (u_stack u) \<and> cstr out = take (64 - 1) (show_path ns) \<and> length (show_path ns) < FS_PATH_MAX \<and>
     path_comps (show_path ns) = ns \<and> (\<forall>c \<in> set ns. name_ok c \<and> c \<noteq> ''.'' \<and> c \<noteq> ''..'')"
    by (rule user_path_resolve_result [OF assms(2) _ _ st st _ ns_def]) (simp_all add: cwd st)
  then obtain out where o: "user_path_resolve (u_stack u) (u_stack u) (u_cwd u) (Some arg) (Some (u_stack u)) 64 = (0, Some out)"
     "cstr out = show_path ns" "\<forall>c \<in> set ns. name_ok c" by (auto simp: FS_PATH_MAX_def)
  have "resolved u arg = show_path ns" by (simp add: resolved_def ns_def cwd(1))
  then show thesis using that [of out] o nul_free_show_path [OF o(3)] by (simp add: FS_PATH_MAX_def)
qed

lemma write_main_effect:
  assumes "vfs_wf s" "uproc_ok u" "nul_free path" "length text \<le> 512" "write_main u [prog, path, text] s = (0, s1)"
  shows "vfs_wf s1" "file_data s1 (resolved u path) = Some (map of_char text)" "con_out s1 = con_out s"
    "\<And>p e. f_used (fd_table s1 p e) = f_used (fd_table s p e)"
proof -
  obtain out where o: "user_path_resolve (u_stack u) (u_stack u) (u_cwd u) (Some path) (Some (u_stack u)) FS_PATH_MAX = (0, Some out)"
    "cstr out = resolved u path" "nul_free (resolved u path)"
    by (rule resolve_program_path [OF assms(2,3)])
  let ?x = "map of_char text :: u8 list"
  obtain fd t1 w t2 where f: "fs_open (u_pid u) (Some (resolved u path)) O_REWRITE s = (fd, t1)"
    "fs_write (u_pid u) fd (Some ?x) (of_nat (length text)) t1 = (w, t2)" by fastforce
  have "0 \<le> fd \<and> 0 \<le> w \<and> s1 = snd (fs_close (u_pid u) fd t2)"
    using assms(5) o f by (auto simp: write_main_def with_target_def failed_def O_REWRITE_def [symmetric] Let_def split: if_splits)
  then show "vfs_wf s1" "file_data s1 (resolved u path) = Some ?x" "con_out s1 = con_out s"
    "\<And>p e. f_used (fd_table s1 p e) = f_used (fd_table s p e)"
    using rewrite_file [OF assms(1) o(3) f(1), of ?x w t2] f(2) assms(4) by simp_all
qed

lemma cat_main_effect:
  assumes "vfs_wf s" "uproc_ok u" "nul_free path" "nul_free text" "length text \<le> 512"
    "file_data s (resolved u path) = Some (map of_char text)" "lowest_free s (u_pid u) = Some fd" "fd \<noteq> 1"
    "\<not> f_used (fd_table s (nat (u_pid u)) 1)"
  shows "\<exists>s2. cat_main u [prog, path] s = Some (0, s2) \<and> con_out s2 = con_out s @ map of_char (text @ [NL]) \<and>
    (\<forall>c. get_fs c s2 = get_fs c s) \<and> (\<forall>p e. f_used (fd_table s2 p e) = f_used (fd_table s p e))"
proof -
  let ?p = "nat (u_pid u)"
  have pid: "\<not> bad_pid (u_pid u)" using assms(2) by (simp add: uproc_ok_def)
  obtain out where o: "user_path_resolve (u_stack u) (u_stack u) (u_cwd u) (Some path) (Some (u_stack u)) FS_PATH_MAX = (0, Some out)"
    "cstr out = resolved u path" "nul_free (resolved u path)"
    by (rule resolve_program_path [OF assms(2,3)])
  obtain ctx i where f: "fs_open (u_pid u) (Some (resolved u path)) O_RDONLY s = (int fd, set_fd ?p fd
      \<lparr>f_used = True, f_mount_idx = int (mount_no ctx), f_node_index = int i, f_offset = of_nat 0, f_flags = O_RDONLY\<rparr> s)"
    "live_file (get_fs ctx s) i" "contents (get_fs ctx s) i = map of_char text" "fd < 16"
    by (rule open_read [OF assms(1) pid o(3) assms(6,7)])
  let ?s = "snd (fs_open (u_pid u) (Some (resolved u path)) O_RDONLY s)"
  have fd: "\<not> bad_fd (int fd)" "\<not> f_used (fd_table s ?p fd)"
    using f(4) assms(7) scan_from_SomeD [of _ 0 16 fd]
    by (auto simp: bad_fd_def FS_FD_MAX_def lowest_free_def simp del: scan_from_numeral)
  have wf: "vfs_wf ?s" by (rule fs_open_wf [OF assms(1)]) (simp add: cpath_def o(3))
  have op: "opened ?s (u_pid u) (int fd) ctx i 0 O_RDONLY" using pid fd f(1) by (simp add: opened_def)
  have loop: "cat_loop u (int fd) ?s = Some (printed ?p fd (length text) text ?s)"
    using cat_loop_prints [OF wf op _ _ assms(4,5)] f assms(8,9) by (simp add: set_fd_def)
  let ?t = "printed ?p fd (length text) text ?s"
  have nl: "u_printf u [NL] [] ?t = ?t\<lparr>con_out := con_out ?t @ [10]\<rparr>"
    using u_printf_console [OF pid _ printf_string(2), of ?t] f(1) assms(8,9) by (simp add: set_fd_def)
  have cl: "fs_close (u_pid u) (int fd) (?t\<lparr>con_out := c\<rparr>) = (0, set_fd ?p fd closed_fd (?t\<lparr>con_out := c\<rparr>))" for c
    using pid fd(1) f(1) by (simp add: fs_close_def)
  have "cat_main u [prog, path] s = Some (0, set_fd ?p fd closed_fd (?t\<lparr>con_out := con_out ?t @ [10]\<rparr>))"
    using o f(1) loop nl cl by (simp add: cat_main_def)
  moreover have "f_used (fd_table (set_fd ?p fd closed_fd (?t\<lparr>con_out := c\<rparr>)) p e) = f_used (fd_table s p e)" for c p e
    using fd(2) f(1) by (auto simp: closed_fd_def set_fd_def printed_def)
  ultimately show ?thesis using f(1) by simp
qed


text \<open>A state after booting in which \<open>/tmp/a\<close> exists and nothing is open.\<close>

definition idle_files :: fs_state where
  "idle_files = a_open\<lparr>fd_table := \<lambda>_ _. closed_fd\<rparr>"

definition prog1 :: uproc where
  "prog1 = \<lparr>u_pid = 1, u_cwd = Some ''/tmp'', u_stack = replicate 64 NUL\<rparr>"

lemma idle_files_wf: "vfs_wf idle_files"
  using a_open_wf by (simp add: vfs_wf_def idle_files_def fd_ok_def closed_fd_def)

lemma prog1_ok: "uproc_ok prog1" "resolved prog1 ''a'' = ''/tmp/a''"
  by (simp_all add: uproc_ok_def prog1_def bad_pid_def PROCS_MAX_def resolved_def target_path_def show_path_def)

lemma idle_open:
  "\<exists>t. fs_open 1 (Some ''/tmp/a'') O_REWRITE idle_files = (0, t) \<and> fst (fs_write 1 0 (Some [104, 105]) 2 t) = 2"
proof -
  have r: "nodefs_resolve_path tmp_with_a ''/a'' = Some 1" using tmp_with_a_wf(3) names_a by (simp add: resolve_path_walk)
  have f: "n_type (nodes tmp_with_a 1) = FS_TYPE_FILE" using tmp_with_a_wf(2) by (simp add: live_file_def)
  define fs where "fs = set_node 1 ((nodes tmp_with_a 1)\<lparr>n_size := 0, n_data := replicate 512 0\<rparr>) tmp_with_a"
  have m: "m_used (boot_mounts (Suc 0))" "m_ctx (boot_mounts (Suc 0)) = Tmpfs"
    using boot_mounts_ctx(2,3) [of Tmpfs] by simp_all
  have o: "nodefs_open ''/a'' O_REWRITE tmp_with_a b = (Some 1, fs, b)" for b
    using r f tmp_with_a_wf(4) by (simp add: nodefs_open_def O_REWRITE_def hdr_consts pfs_sync_def fs_def Let_def)
  let ?t = "set_fd 1 0 \<lparr>f_used = True, f_mount_idx = 1, f_node_index = 1, f_offset = 0, f_flags = O_REWRITE\<rparr>
    (idle_files\<lparr>tmpfs := fs\<rparr>)"
  have "fs_open 1 (Some ''/tmp/a'') O_REWRITE idle_files = (0, ?t)"
    using o m resolve_tmp_a [OF idle_files_wf]
    by (simp add: fs_open_def bad_pid_def PROCS_MAX_def vfs_alloc_fd_def FS_FD_MAX_def idle_files_def a_open_def closed_fd_def)
  moreover have "valid_file_node fs 1" "\<not> persistent fs"
    using tmp_with_a_wf(1,2,4) valid_file_node_iff [of tmp_with_a 1] by (auto simp: valid_file_node_def fs_def)
  then have "fst (fs_write 1 0 (Some [104, 105]) 2 ?t) = 2"
    using m rewrite_flags(3)
    by (simp add: fs_write_def bad_pid_def bad_fd_def bad_mount_def PROCS_MAX_def FS_FD_MAX_def VFS_MOUNT_MAX_def
        idle_files_def a_open_def nodefs_write_def pfs_sync_def case_prod_beta Let_def)
  ultimately show ?thesis by blast
qed


lemma u_print_lost:
  "\<not> bad_pid (u_pid u) \<Longrightarrow> f_used (fd_table s (nat (u_pid u)) 1) \<Longrightarrow> f_flags (fd_table s (nat (u_pid u)) 1) = O_RDONLY \<Longrightarrow>
   u_print u out s = s"
  unfolding u_print_def
  by (induction out) (simp_all add: u_putchar_def fs_write_def bad_fd_def hdr_consts)

lemma cat_loop_silent:
  assumes "vfs_wf s" "opened s (u_pid u) 1 ctx i off O_RDONLY" "live_file (get_fs ctx s) i"
    "contents (get_fs ctx s) i = d" "length d \<le> 512" "off \<le> length d"
  shows "cat_loop u 1 s = Some (printed (nat (u_pid u)) 1 (length d) [] s)"
  using assms
proof (induction "length d - off" arbitrary: off s rule: less_induct)
  case less
  let ?p = "nat (u_pid u)" and ?x = "take 63 (drop off d)"
  let ?s = "set_fd ?p 1 ((fd_table s ?p 1)\<lparr>f_offset := of_nat (off + length ?x)\<rparr>) s"
  have r: "fs_read (u_pid u) 1 True 63 s = (Read_done (int (length ?x)) ?x, ?s)"
    using read_opened [OF less.prems(1,2) _ less.prems(3), of ?x 63] by (simp add: O_RDONLY_def less.prems(4))
  show ?case
  proof (cases "off = length d")
    case True
    then have "cat_loop u 1 s = Some ?s" using r by (simp add: cat_loop.simps [of u 1 s])
    then show ?thesis using True by (simp add: printed_def)
  next
    case False
    then have off: "off < length d" using less.prems(6) by simp
    have eq: "?s = printed ?p 1 (off + length ?x) [] s" by (simp add: printed_def set_fd_def)
    have "u_printf u ''%s'' [Va_str (chunk_text ?x)] ?s = ?s"
      using u_print_lost [of u ?s] less.prems(2) by (simp add: u_printf_def printf_string opened_def)
    moreover have "\<not> int (length ?x) \<le> 0" using off by simp
    ultimately have step: "cat_loop u 1 s = cat_loop u 1 ?s"
      by (subst cat_loop.simps) (simp only: r prod.case read_result.case if_False)
    have le: "off + length ?x \<le> length d" using off by simp
    have le': "off + length ?x \<le> 512" using le less.prems(5) by linarith
    note t = printed_wf [OF less.prems(1-3) le', of "[]"]
    have "cat_loop u 1 (printed ?p 1 (off + length ?x) [] s) = Some (printed ?p 1 (length d) [] (printed ?p 1 (off + length ?x) [] s))"
    proof (rule less.hyps)
      show "length d - (off + length ?x) < length d - off" using off by simp
    qed (use t less.prems le in simp_all)
    then show ?thesis using step eq by (simp add: printed_printed)
  qed
qed

text \<open>When the shell has put a file at descriptor 0 and descriptor 1 is the console, the file that \<open>cat\<close> opens
  gets descriptor 1, so that everything the program prints is lost.\<close>

theorem cat_with_input_redirected_prints_nothing:
  assumes "vfs_wf s" "uproc_ok u" "f_used (fd_table s (nat (u_pid u)) 0)" "\<not> f_used (fd_table s (nat (u_pid u)) 1)"
    "nul_free path" "file_data s (resolved u path) = Some d"
  shows "\<exists>s2. cat_main u [prog, path] s = Some (0, s2) \<and> con_out s2 = con_out s"
proof -
  let ?p = "nat (u_pid u)"
  have pid: "\<not> bad_pid (u_pid u)" using assms(2) by (simp add: uproc_ok_def)
  have "lowest_free s (u_pid u) = Some 1"
    unfolding lowest_free_def by (rule scan_from_SomeI) (use assms(3,4) in \<open>auto simp: FS_FD_MAX_def\<close>)
  obtain out where o: "user_path_resolve (u_stack u) (u_stack u) (u_cwd u) (Some path) (Some (u_stack u)) FS_PATH_MAX = (0, Some out)"
    "cstr out = resolved u path" "nul_free (resolved u path)"
    by (rule resolve_program_path [OF assms(2,5)])
  obtain ctx i where f: "fs_open (u_pid u) (Some (resolved u path)) O_RDONLY s = (int 1, set_fd ?p 1
      \<lparr>f_used = True, f_mount_idx = int (mount_no ctx), f_node_index = int i, f_offset = of_nat 0, f_flags = O_RDONLY\<rparr> s)"
    "live_file (get_fs ctx s) i" "contents (get_fs ctx s) i = d"
    by (rule open_read [OF assms(1) pid o(3) assms(6) \<open>lowest_free s (u_pid u) = Some 1\<close>])
  let ?s = "snd (fs_open (u_pid u) (Some (resolved u path)) O_RDONLY s)"
  have wf: "vfs_wf ?s" by (rule fs_open_wf [OF assms(1)]) (simp add: cpath_def o(3))
  have op: "opened ?s (u_pid u) 1 ctx i 0 O_RDONLY" using pid f(1) by (simp add: opened_def bad_fd_def FS_FD_MAX_def)
  have len: "length d \<le> 512"
    using length_contents [OF vfs_wfD(2) [OF assms(1)], of ctx i] nodefs_wfD(1) [OF vfs_wfD(2) [OF assms(1)], of ctx i] f(3)
    by (auto simp: node_shape_def)
  let ?t = "printed ?p 1 (length d) [] ?s"
  have "cat_loop u 1 ?s = Some ?t" using cat_loop_silent [OF wf op _ _ len] f by simp
  moreover have "u_printf u [NL] [] ?t = ?t"
    using u_print_lost [OF pid, of ?t] op by (simp add: u_printf_def opened_def printed_def)
  ultimately have "cat_main u [prog, path] s = Some (0, snd (fs_close (u_pid u) 1 ?t))"
    using o f(1) by (simp add: cat_main_def)
  moreover have "con_out (snd (fs_close (u_pid u) 1 ?t)) = con_out s" using f(1) by (simp add: fs_close_def)
  ultimately show ?thesis by blast
qed

end
