(* ===== verification/ShellHistProps.thy ===== *)
theory ShellHistProps
  imports ShellHist AppProps "HOL-Library.Sublist"
begin

text \<open>
  The history as the list of its lines: the ring buffer keeps the last 64, and the file format keeps the most recent
  ones that fit, exactly.
\<close>

section \<open>The lines of the ring buffer\<close>

definition entries :: "hist \<Rightarrow> string list" where
  "entries h = map (\<lambda>i. cstr (history h ((history_head h + i) mod 64))) [0 ..< history_count h]"

definition hist_ok :: "hist \<Rightarrow> bool" where
  "hist_ok h \<longleftrightarrow> history_head h < 64 \<and> history_count h \<le> 64 \<and> (\<forall>i. length (history h i) = 64) \<and>
     (\<forall>e \<in> set (entries h). e \<noteq> [] \<and> length e < 64)"

lemma length_entries [simp]: "length (entries h) = history_count h"
  by (simp add: entries_def)

lemma nth_entries: "i < history_count h \<Longrightarrow> entries h ! i = cstr (history h ((history_head h + i) mod 64))"
  by (simp add: entries_def)

definition last_64 :: "'a list \<Rightarrow> 'a list" where
  "last_64 xs = drop (length xs - 64) xs"

lemma row_pushed:
  assumes "length row = 64" "nul_free line"
  shows "length (strncpy_loop row 0 63 line) = 64" "cstr (strncpy_loop row 0 63 line) = take 63 line"
  using strcpy_s_spec [of 64 row line] assms by (simp_all add: strcpy_s_def)

lemma ring_index_distinct: "i < j \<Longrightarrow> j < 64 \<Longrightarrow> (h + i) mod 64 \<noteq> (h + j) mod (64 :: nat)"
proof
  assume ij: "i < j" "j < 64" and eq: "(h + i) mod 64 = (h + j) mod 64"
  then have "(h + j - (h + i)) mod 64 = 0" using mod_eq_dvd_iff_nat [of "h + i" "h + j" 64] by (simp add: eq)
  then show False using ij by simp
qed

lemma shifted_list:
  assumes "length es = 64" "\<And>i. i < 63 \<Longrightarrow> g i = es ! Suc i" "g 63 = x"
  shows "map g [0 ..< 64] = tl es @ [x]"
proof (rule nth_equalityI)
  fix i assume "i < length (map g [0 ..< 64])"
  then consider "i < 63" | "i = 63" by fastforce
  then show "map g [0 ..< 64] ! i = (tl es @ [x]) ! i"
    using assms by cases (simp_all add: nth_append nth_tl)
qed (simp add: assms(1))

lemma entries_push:
  assumes "hist_ok h" "nul_free line" "line \<noteq> []"
  shows "entries (history_push line h) = last_64 (entries h @ [take 63 line])" "hist_ok (history_push line h)"
proof -
  have h: "history_head h < 64" "history_count h \<le> 64" "\<And>i. length (history h i) = 64"
    using assms(1) by (auto simp: hist_ok_def)
  note row = row_pushed [OF h(3) assms(2)]
  show e: "entries (history_push line h) = last_64 (entries h @ [take 63 line])"
  proof (cases "history_count h < 64")
    case True
    let ?w = "(history_head h + history_count h) mod 64"
    have p: "history_push line h = h\<lparr>history_count := history_count h + 1,
        history := (history h)(?w := strncpy_loop (history h ?w) 0 63 line)\<rparr>"
      using True assms(3) by (simp add: history_push_def HISTORY_MAX_def CMDLINE_MAX_def)
    have "cstr (((history h)(?w := strncpy_loop (history h ?w) 0 63 line)) ((history_head h + i) mod 64)) =
        cstr (history h ((history_head h + i) mod 64))" if "i < history_count h" for i
      using ring_index_distinct [OF that True, of "history_head h"] by simp
    then have "entries (history_push line h) = entries h @ [take 63 line]"
      using row(2) by (simp add: p entries_def)
    then show ?thesis using True by (simp add: last_64_def)
  next
    case False
    then have c: "history_count h = 64" using h(2) by simp
    let ?g = "\<lambda>i. cstr (((history h)(history_head h := strncpy_loop (history h (history_head h)) 0 63 line))
        (((history_head h + 1) mod 64 + i) mod 64))"
    have p: "history_push line h = h\<lparr>history_head := (history_head h + 1) mod 64,
        history := (history h)(history_head h := strncpy_loop (history h (history_head h)) 0 63 line)\<rparr>"
      using c assms(3) by (simp add: history_push_def HISTORY_MAX_def CMDLINE_MAX_def)
    have new: "entries (history_push line h) = map ?g [0 ..< 64]" by (simp add: p entries_def c)
    have old: "?g i = entries h ! Suc i" if "i < 63" for i
    proof -
      have "((history_head h + 1) mod 64 + i) mod 64 = (history_head h + Suc i) mod 64" by (simp add: mod_add_left_eq)
      moreover have "(history_head h + Suc i) mod 64 \<noteq> history_head h"
        using ring_index_distinct [of 0 "Suc i" "history_head h"] that h(1) by simp
      ultimately show ?thesis using that c by (simp add: nth_entries)
    qed
    have "((history_head h + 1) mod 64 + 63) mod 64 = history_head h" using h(1) by (simp add: mod_add_left_eq)
    then have "?g 63 = take 63 line" using row(2) by simp
    then have "map ?g [0 ..< 64] = tl (entries h) @ [take 63 line]"
      by (intro shifted_list) (use old c in simp_all)
    then show ?thesis using new c by (simp add: last_64_def drop_Suc)
  qed
  have "set (entries (history_push line h)) \<subseteq> insert (take 63 line) (set (entries h))"
    unfolding e last_64_def by (auto dest!: in_set_dropD)
  moreover have "\<forall>e \<in> insert (take 63 line) (set (entries h)). e \<noteq> [] \<and> length e < 64"
    using assms(1,3) by (auto simp: hist_ok_def)
  ultimately show "hist_ok (history_push line h)"
    using h row(1) assms(3) unfolding hist_ok_def
    by (auto simp: history_push_def HISTORY_MAX_def CMDLINE_MAX_def Let_def)
qed

lemma history_get_entry:
  assumes "length out = 64"
  shows "history_get pos out 64 h = (if 0 \<le> pos \<and> pos < int (history_count h)
    then (0, strncpy_loop out 0 63 (entries h ! nat pos)) else (-1, out))"
  by (auto simp: history_get_def nth_entries HISTORY_MAX_def)

section \<open>The file format\<close>

fun escape_char :: "char \<Rightarrow> string" where
  "escape_char c = (if c = NL then [BSLASH, CHR ''n''] else if c = BSLASH then [BSLASH, BSLASH] else [c])"

definition enc_line :: "string \<Rightarrow> string" where
  "enc_line e = concat (map escape_char e) @ [NL]"

lemma encoded_len: "history_encoded_line_len e = length (enc_line e)"
  by (induction e) (auto simp: enc_line_def)

lemma encode_line_fits: "length out + length (enc_line e) \<le> cap \<Longrightarrow> encode_line cap e out = (True, out @ enc_line e)"
  by (induction cap e out rule: encode_line.induct) (auto simp: enc_line_def)

text \<open>The most recent lines that fit, newest first, and in their order.\<close>

fun recent_rev :: "nat \<Rightarrow> string list \<Rightarrow> string list" where
  "recent_rev cap [] = []"
| "recent_rev cap (e # es) = (if length (enc_line e) > cap then [] else e # recent_rev (cap - length (enc_line e)) es)"

definition recent :: "nat \<Rightarrow> string list \<Rightarrow> string list" where
  "recent cap es = rev (recent_rev cap (rev es))"

lemma recent_rev_prefix: "prefix (recent_rev cap es) es"
  by (induction cap es rule: recent_rev.induct) auto

lemma recent_rev_size: "length (concat (map enc_line (recent_rev cap es))) \<le> cap"
  by (induction cap es rule: recent_rev.induct) auto

lemma recent_rev_all: "length (concat (map enc_line es)) \<le> cap \<Longrightarrow> recent_rev cap es = es"
  by (induction cap es rule: recent_rev.induct) auto

text \<open>The next line would not fit any more.\<close>

lemma recent_rev_maximal:
  "es = recent_rev cap es @ e # rest \<Longrightarrow> cap < length (concat (map enc_line (recent_rev cap es @ [e])))"
proof (induction cap es rule: recent_rev.induct)
  case (2 cap f es)
  then show ?case by (cases "length (enc_line f) > cap") auto
qed simp

lemma length_concat_rev: "length (concat (map f (rev xs))) = length (concat (map f xs))"
  by (simp add: length_concat rev_map [symmetric] sum_list_rev)

lemma recent_suffix:
  "suffix (recent cap es) es" "length (concat (map enc_line (recent cap es))) \<le> cap"
  "length (concat (map enc_line es)) \<le> cap \<Longrightarrow> recent cap es = es"
proof -
  show "suffix (recent cap es) es"
    using recent_rev_prefix [of cap "rev es"] by (simp add: recent_def suffix_to_prefix)
  show "length (concat (map enc_line (recent cap es))) \<le> cap"
    using recent_rev_size [of cap "rev es"] by (simp add: recent_def length_concat_rev)
  show "length (concat (map enc_line es)) \<le> cap \<Longrightarrow> recent cap es = es"
    using recent_rev_all [of "rev es" cap] by (simp add: recent_def length_concat_rev)
qed

lemma recent_maximal:
  assumes "es = (rest @ [e]) @ recent cap es"
  shows "cap < length (concat (map enc_line (e # recent cap es)))"
proof -
  have "rev es = recent_rev cap (rev es) @ e # rev rest"
    using arg_cong [OF assms, of rev] by (simp add: recent_def)
  from recent_rev_maximal [OF this] show ?thesis
    using length_concat_rev [of enc_line "e # recent cap es"] by (simp add: recent_def)
qed

lemma start_loop_recent:
  assumes "i \<le> history_count h" "t \<le> cap"
  shows "start_loop h cap i t i + length (recent_rev (cap - t) (rev (take i (entries h)))) = i"
  using assms
proof (induction i arbitrary: t)
  case (Suc i)
  let ?e = "cstr (history h ((history_head h + i) mod 64))"
  have "rev (take (Suc i) (entries h)) = ?e # rev (take i (entries h))"
    using Suc.prems(1) by (simp add: take_Suc_conv_app_nth nth_entries)
  then show ?case using Suc.IH [of "t + length (enc_line ?e)"] Suc.prems
    by (auto simp: encoded_len HISTORY_MAX_def Let_def)
qed simp

lemma encode_loop_lines:
  assumes "i + n \<le> history_count h" "length out + length (concat (map enc_line (take n (drop i (entries h))))) \<le> cap"
  shows "encode_loop h cap i n out = out @ concat (map enc_line (take n (drop i (entries h))))"
  using assms
proof (induction n arbitrary: i out)
  case (Suc n)
  let ?e = "cstr (history h ((history_head h + i) mod 64))"
  have d: "take (Suc n) (drop i (entries h)) = ?e # take n (drop (Suc i) (entries h))"
    using Suc.prems(1) by (simp add: Cons_nth_drop_Suc [symmetric] nth_entries)
  then have "encode_line cap ?e out = (True, out @ enc_line ?e)" using Suc.prems(2) by (intro encode_line_fits) simp
  moreover have "encode_loop h cap (Suc i) n (out @ enc_line ?e) =
      (out @ enc_line ?e) @ concat (map enc_line (take n (drop (Suc i) (entries h))))"
    by (rule Suc.IH) (use Suc.prems d in simp_all)
  ultimately show ?case using d by (simp add: HISTORY_MAX_def)
qed simp

lemma history_serialize_recent: "history_serialize h cap = concat (map enc_line (recent cap (entries h)))"
proof (cases "cap = 0")
  case True
  have "length (concat (map enc_line (recent 0 (entries h)))) \<le> 0" by (rule recent_suffix(2))
  then show ?thesis using True by (simp add: history_serialize_def)
next
  case False
  let ?c = "history_count h" and ?r = "recent cap (entries h)"
  let ?st = "start_loop h cap ?c 0 ?c"
  have s: "?st + length ?r = ?c" using start_loop_recent [of ?c h 0 cap] by (simp add: recent_def)
  obtain es where es: "entries h = es @ ?r" using recent_suffix(1) suffixE by metis
  have "length es = ?st" using s arg_cong [OF es, of length] by simp
  then have d: "drop ?st (entries h) = ?r" using es by (metis append_eq_conv_conj)
  then have t: "take (?c - ?st) (drop ?st (entries h)) = ?r" using s by simp
  have "encode_loop h cap ?st (?c - ?st) [] = [] @ concat (map enc_line (take (?c - ?st) (drop ?st (entries h))))"
    by (rule encode_loop_lines) (use s recent_suffix(2) [of cap "entries h"] t in simp_all)
  then show ?thesis using False t by (simp add: history_serialize_def Let_def)
qed

section \<open>Reading the lines back\<close>

definition no_cr :: "string \<Rightarrow> bool" where
  "no_cr e \<longleftrightarrow> CHR 0x0D \<notin> set e"

lemma load_escaped:
  assumes "c \<noteq> CHR 0x0D"
  shows "fold load_char (escape_char c) \<lparr>l_line = t, l_escaped = False, l_hist = h\<rparr> =
    add_char c \<lparr>l_line = t, l_escaped = False, l_hist = h\<rparr>"
  using assms by (auto simp: load_char_def)

lemma load_text:
  assumes "no_cr e" "length t + length e \<le> 63"
  shows "fold load_char (concat (map escape_char e)) \<lparr>l_line = t, l_escaped = False, l_hist = h\<rparr> =
    \<lparr>l_line = t @ e, l_escaped = False, l_hist = h\<rparr>"
  using assms
proof (induction e arbitrary: t)
  case (Cons c e)
  then have "c \<noteq> CHR 0x0D" "no_cr e" by (auto simp: no_cr_def)
  then show ?case using Cons load_escaped [of c t h]
    by (simp add: add_char_def CMDLINE_MAX_def del: escape_char.simps)
qed simp

lemma load_enc_line:
  assumes "no_cr e" "length e \<le> 63" "nul_free e"
  shows "fold load_char (enc_line e) \<lparr>l_line = [], l_escaped = False, l_hist = h\<rparr> =
    \<lparr>l_line = [], l_escaped = False, l_hist = history_push e h\<rparr>"
  using load_text [of e "[]" h] assms by (simp add: enc_line_def load_char_def cstr_nul_free)

lemma load_enc_lines:
  assumes "\<forall>e \<in> set es. no_cr e \<and> length e \<le> 63 \<and> nul_free e"
  shows "fold load_char (concat (map enc_line es)) \<lparr>l_line = [], l_escaped = False, l_hist = h\<rparr> =
    \<lparr>l_line = [], l_escaped = False, l_hist = fold history_push es h\<rparr>"
  using assms by (induction es arbitrary: h) (simp_all add: load_enc_line)

lemma fold_push:
  assumes "hist_ok h" "\<forall>e \<in> set es. e \<noteq> [] \<and> length e \<le> 63 \<and> nul_free e" "history_count h + length es \<le> 64"
  shows "hist_ok (fold history_push es h) \<and> entries (fold history_push es h) = entries h @ es"
  using assms
proof (induction es arbitrary: h)
  case (Cons e es)
  have p: "hist_ok (history_push e h)" "entries (history_push e h) = entries h @ [e]"
    using entries_push [of h e] Cons.prems by (simp_all add: last_64_def)
  have "history_count (history_push e h) = Suc (history_count h)" using arg_cong [OF p(2), of length] by simp
  then show ?case using Cons.IH [OF p(1)] Cons.prems p(2) by simp
qed simp

section \<open>Over the file system\<close>

lemma load_loop_reads:
  assumes "vfs_wf s" "opened s (u_pid u) fd ctx i off O_RDONLY" "live_file (get_fs ctx s) i"
    "contents (get_fs ctx s) i = map of_char text" "length text \<le> 512" "off \<le> length text"
  shows "load_loop u fd l s = Some (fold load_char (drop off text) l, printed (nat (u_pid u)) (nat fd) (length text) [] s)"
  using assms
proof (induction "length text - off" arbitrary: off s l rule: less_induct)
  case less
  let ?p = "nat (u_pid u)" and ?x = "take 256 (drop off text)"
  let ?s = "printed ?p (nat fd) (off + length ?x) [] s"
  have "take (unat (256 :: u32)) (drop off (contents (get_fs ctx s) i)) = map of_char ?x"
    by (simp add: less.prems(4) drop_map take_map)
  then have r: "fs_read (u_pid u) fd True 256 s = (Read_done (int (length ?x)) (map of_char ?x), ?s)"
    using read_opened [OF less.prems(1,2) _ less.prems(3), of "map of_char ?x" 256]
    by (simp add: O_RDONLY_def printed_def set_fd_def)
  show ?case
  proof (cases "off = length text")
    case True
    then show ?thesis using r by (simp add: load_loop.simps [of u fd l s])
  next
    case False
    then have off: "off < length text" using less.prems(6) by simp
    then have pos: "\<not> int (length ?x) \<le> 0" by simp
    have ch: "map (\<lambda>b. char_of (unat b)) (map of_char ?x :: u8 list) = ?x" by (simp add: o_def char_of_unat_of_char)
    have step: "load_loop u fd l s = load_loop u fd (fold load_char ?x l) ?s"
      by (subst load_loop.simps) (simp only: r prod.case read_result.case pos if_False ch)
    have le: "off + length ?x \<le> length text" using off by simp
    have le': "off + length ?x \<le> 512" using le less.prems(5) by linarith
    note t = printed_wf [OF less.prems(1-3) le', of "[]"]
    have "load_loop u fd (fold load_char ?x l) ?s =
      Some (fold load_char (drop (off + length ?x) text) (fold load_char ?x l), printed ?p (nat fd) (length text) [] ?s)"
    proof (rule less.hyps)
      show "length text - (off + length ?x) < length text - off" using off by simp
    qed (use t less.prems le in simp_all)
    moreover have "drop off text = ?x @ drop (off + length ?x) text"
      by (metis append_take_drop_id drop_drop length_take min_def add.commute nat_le_linear drop_all take_all)
    then have "fold load_char (drop off text) l = fold load_char (drop (off + length ?x) text) (fold load_char ?x l)"
      by (metis comp_apply fold_append)
    ultimately show ?thesis using step by (simp only: printed_printed append.simps)
  qed
qed

lemma history_load_file:
  assumes "vfs_wf s" "\<not> bad_pid (u_pid u)" "lowest_free s (u_pid u) = Some fd"
    "file_data s history_path = Some (map of_char text)" "length text \<le> 512"
  shows "\<exists>s2. history_load u h s = Some (load_end (fold load_char text
     \<lparr>l_line = [], l_escaped = False, l_hist = h\<lparr>history_head := 0, history_count := 0\<rparr>\<rparr>), s2)"
proof -
  let ?p = "nat (u_pid u)"
  have nf: "nul_free history_path" by (simp add: history_path_def)
  obtain ctx i where f: "fs_open (u_pid u) (Some history_path) O_RDONLY s = (int fd, set_fd ?p fd
      \<lparr>f_used = True, f_mount_idx = int (mount_no ctx), f_node_index = int i, f_offset = of_nat 0, f_flags = O_RDONLY\<rparr> s)"
    "live_file (get_fs ctx s) i" "contents (get_fs ctx s) i = map of_char text" "fd < 16"
    by (rule open_read [OF assms(1,2) nf assms(4,3)])
  let ?s = "snd (fs_open (u_pid u) (Some history_path) O_RDONLY s)"
  have wf: "vfs_wf ?s" by (rule fs_open_wf [OF assms(1)]) (simp add: cpath_def nf)
  have "opened ?s (u_pid u) (int fd) ctx i 0 O_RDONLY" using assms(2) f(1,4) by (simp add: opened_def bad_fd_def FS_FD_MAX_def)
  from load_loop_reads [OF wf this] show ?thesis using f assms(5) by (simp add: history_load_def)
qed

text \<open>A failure of \<open>history_write\<close> prints a message on the console.\<close>

lemma history_write_file:
  assumes "vfs_wf s" "\<not> bad_pid (u_pid u)" "\<not> f_used (fd_table s (nat (u_pid u)) 0)" "\<not> f_used (fd_table s (nat (u_pid u)) 1)"
    "con_out (history_write u h s) = con_out s"
  shows "vfs_wf (history_write u h s) \<and> file_data (history_write u h s) history_path = Some (map of_char (history_serialize h 512)) \<and>
    lowest_free (history_write u h s) (u_pid u) = Some 0"
proof -
  have nf: "nul_free history_path" by (simp add: history_path_def)
  let ?x = "map of_char (history_serialize h 512) :: u8 list"
  have len: "length ?x \<le> 512" using recent_suffix(2) [of 512 "entries h"] by (simp add: history_serialize_recent)
  obtain fd s1 w s2 where o: "fs_open (u_pid u) (Some history_path) O_REWRITE s = (fd, s1)"
    "fs_write (u_pid u) fd (Some ?x) (of_nat (length ?x)) s1 = (w, s2)" by fastforce
  have con: "con_out (u_printf u (msg @ [NL]) [] t) \<noteq> con_out t"
    if "\<not> f_used (fd_table t (nat (u_pid u)) 1)" "printf (msg @ [NL]) [] = Some (msg @ [NL])" for t msg
    using u_printf_console [OF assms(2) that] by simp
  have fd: "0 \<le> fd"
  proof (rule ccontr)
    assume n: "\<not> 0 \<le> fd"
    then have "fd_table s1 = fd_table s" "con_out s1 = con_out s"
      using o(1) by (auto simp: fs_open_def vfs_alloc_fd_def Let_def simp del: scan_from_numeral
          split: if_splits option.splits prod.splits)
    then show False using con [of s1 "''open failed''"] assms(4,5) o(1) n
      by (simp add: history_write_def O_REWRITE_def)
  qed
  have lf: "lowest_free s (u_pid u) = Some 0" using assms(3) by (simp add: lowest_free_def FS_FD_MAX_def)
  obtain ctx i sub cs where op: "opened s1 (u_pid u) fd ctx i 0 O_REWRITE" "lowest_free s (u_pid u) = Some (nat fd)"
    "vfs_resolve_mount history_path s1 = Some (mount_no ctx, sub)" "names_of sub = Some cs" "list_all nul_free cs"
    "walk (get_fs ctx s1) 0 cs = Some i" "live_file (get_fs ctx s1) i" "contents (get_fs ctx s1) i = []"
    "vfs_wf s1" "con_out s1 = con_out s" "\<And>p e. (p, e) \<noteq> (nat (u_pid u), nat fd) \<Longrightarrow> fd_table s1 p e = fd_table s p e"
    by (rule open_rewrite [OF assms(1) nf o(1) fd]) blast
  have fd0: "fd = 0" using op(2) lf fd by simp
  obtain fs' b' where wr: "s2 = set_fd (nat (u_pid u)) (nat fd)
      ((fd_table s1 (nat (u_pid u)) (nat fd))\<lparr>f_offset := of_nat (length ?x)\<rparr>) (put_fs ctx fs' (s1\<lparr>blk := b'\<rparr>))"
    "w = (if w < 0 then -1 else int (length ?x))"
    by (rule write_opened [OF op(9,1,7,8,6,5) len o(2)])
  have u2: "\<not> f_used (fd_table s2 (nat (u_pid u)) 1)" "con_out s2 = con_out s"
    using wr(1) op(10,11) assms(4) fd0 by auto
  have close: "con_out (snd (fs_close (u_pid u) fd t)) = con_out t" for t by (simp add: fs_close_def)
  have w: "0 \<le> w"
  proof (rule ccontr)
    assume n: "\<not> 0 \<le> w"
    then have "history_write u h s = snd (fs_close (u_pid u) fd (u_printf u (''write failed'' @ [NL]) [] s2))"
      using o fd by (simp add: history_write_def O_REWRITE_def [symmetric] FS_FILE_MAX_SIZE_def)
    then show False using con [OF u2(1), of "''write failed''"] assms(5) u2(2) close by simp
  qed
  then have "history_write u h s = snd (fs_close (u_pid u) fd s2)"
    using o fd wr(2) by (simp add: history_write_def O_REWRITE_def [symmetric] FS_FILE_MAX_SIZE_def split: if_splits)
  then show ?thesis
    using rewrite_file [OF assms(1) nf o(1) fd len o(2) w] assms(3) by (simp add: lowest_free_def FS_FD_MAX_def)
qed

lemma history_saved_loaded:
  assumes "vfs_wf s" "\<not> bad_pid (u_pid u)" "\<not> f_used (fd_table s (nat (u_pid u)) 0)" "\<not> f_used (fd_table s (nat (u_pid u)) 1)"
    "hist_ok h" "hist_ok h0" "\<forall>e \<in> set (entries h). no_cr e" "con_out (history_write u h s) = con_out s"
  shows "\<exists>h1 s2. history_load u h0 (history_write u h s) = Some (h1, s2) \<and> hist_ok h1 \<and> entries h1 = recent 512 (entries h)"
proof -
  let ?r = "recent 512 (entries h)" and ?h = "h0\<lparr>history_head := 0, history_count := 0\<rparr>"
  note w = history_write_file [OF assms(1-4,8)]
  have len: "length (history_serialize h 512) \<le> 512" using recent_suffix(2) [of 512 "entries h"] by (simp add: history_serialize_recent)
  have sub: "set ?r \<subseteq> set (entries h)" "length ?r \<le> 64"
    using recent_suffix(1) [of 512 "entries h"] assms(5) suffix_length_le [of ?r "entries h"]
    by (auto simp: hist_ok_def dest: set_mono_suffix)
  have nf: "nul_free e" if "e \<in> set (entries h)" for e using that by (auto simp: entries_def)
  have ok: "\<forall>e \<in> set ?r. e \<noteq> [] \<and> no_cr e \<and> length e \<le> 63 \<and> nul_free e"
    using sub(1) assms(5,7) nf by (fastforce simp: hist_ok_def)
  have h: "hist_ok ?h" "entries ?h = []" using assms(6) by (simp_all add: hist_ok_def entries_def)
  have p: "hist_ok (fold history_push ?r ?h)" "entries (fold history_push ?r ?h) = ?r"
    using fold_push [OF h(1), of ?r] ok sub(2) h(2) by auto
  obtain s2 where "history_load u h0 (history_write u h s) = Some (load_end (fold load_char (history_serialize h 512)
     \<lparr>l_line = [], l_escaped = False, l_hist = ?h\<rparr>), s2)"
    using history_load_file [of "history_write u h s" u 0 "history_serialize h 512" h0] w assms(2) len by auto
  moreover have "fold load_char (history_serialize h 512) \<lparr>l_line = [], l_escaped = False, l_hist = ?h\<rparr> =
      \<lparr>l_line = [], l_escaped = False, l_hist = fold history_push ?r ?h\<rparr>"
    unfolding history_serialize_recent using ok by (intro load_enc_lines) auto
  ultimately show ?thesis using p by (simp add: load_end_def)
qed

text \<open>C19: When the shell has written its history without an error message, a shell that starts later loads exactly the
  most recent lines: all of them if they fit into the 512 bytes of a file, otherwise the longest run of last lines that
  fits, newlines and backslashes in them included.\<close>

theorem history_survives_restart:
  assumes "vfs_wf s" "\<not> bad_pid (u_pid u)" "\<not> f_used (fd_table s (nat (u_pid u)) 0)" "\<not> f_used (fd_table s (nat (u_pid u)) 1)"
    "hist_ok h" "hist_ok h0" "\<forall>e \<in> set (entries h). no_cr e" "con_out (history_write u h s) = con_out s"
  shows "\<exists>h1 s2 old. history_load u h0 (history_write u h s) = Some (h1, s2) \<and> hist_ok h1 \<and> entries h = old @ entries h1 \<and>
    (length (concat (map enc_line (entries h))) \<le> 512 \<longrightarrow> old = []) \<and>
    (\<forall>rest e. old = rest @ [e] \<longrightarrow> 512 < length (concat (map enc_line (e # entries h1))))"
proof -
  obtain h1 s2 where l: "history_load u h0 (history_write u h s) = Some (h1, s2)" "hist_ok h1" "entries h1 = recent 512 (entries h)"
    using history_saved_loaded [OF assms] by blast
  obtain old where old: "entries h = old @ entries h1" using recent_suffix(1) [of 512 "entries h"] l(3) by (metis suffixE)
  have "old = []" if "length (concat (map enc_line (entries h))) \<le> 512"
    using recent_suffix(3) [OF that] old l(3) by (metis self_append_conv2)
  moreover have "512 < length (concat (map enc_line (e # entries h1)))" if "old = rest @ [e]" for rest e
    unfolding l(3) by (rule recent_maximal) (use old in \<open>simp only: l(3) that\<close>)
  ultimately show ?thesis using l(1,2) old by blast
qed

text \<open>A history of three lines, written to the root file system of the idle machine.\<close>

definition empty_hist :: hist where
  "empty_hist = \<lparr>history = \<lambda>_. replicate 64 NUL, history_head = 0, history_count = 0\<rparr>"

definition demo_hist :: hist where
  "demo_hist = fold history_push [''ls -l'', ''write a x'', ''cat a''] empty_hist"

lemma demo_hist_ok: "hist_ok empty_hist" "hist_ok demo_hist" "entries demo_hist = [''ls -l'', ''write a x'', ''cat a'']"
proof -
  show e: "hist_ok empty_hist" by (simp add: empty_hist_def hist_ok_def entries_def)
  have "entries empty_hist = []" by (simp add: empty_hist_def entries_def)
  then show "hist_ok demo_hist" "entries demo_hist = [''ls -l'', ''write a x'', ''cat a'']"
    using fold_push [OF e, of "[''ls -l'', ''write a x'', ''cat a'']"] by (auto simp: demo_hist_def empty_hist_def)
qed

lemma idle_history_write: "con_out (history_write prog1 demo_hist idle_files) = con_out idle_files"
proof -
  let ?x = "map of_char (history_serialize demo_hist 512) :: u8 list"
  have r: "nodefs_resolve_path (volatile_fs 0) ''/.history'' = None"
    using tree_of_None_iff [of "[''.history'']" "volatile_fs 0"] by (simp add: resolve_path_walk names_of_def)
  have sp: "open_spec ''/.history'' O_REWRITE (volatile_fs 0) \<noteq> None"
    using rewrite_flags(1) by (simp add: open_spec_def names_of_def spec_open_def spec_create_def)
  obtain f where "nodefs_alloc_node (volatile_fs 0) = Some (1, f)" using volatile_alloc by blast
  then have "fst (nodefs_open ''/.history'' O_REWRITE (volatile_fs 0) (blk idle_files)) = Some 1"
    by (intro open_missing(4) [OF volatile_fs_wf _ r sp]) simp_all
  then obtain fs b where op: "nodefs_open ''/.history'' O_REWRITE (volatile_fs 0) (blk idle_files) = (Some 1, fs, b)"
    by (metis prod.collapse)
  have m: "vfs_resolve_mount ''/.history'' idle_files = Some (0, ''/.history'')" "m_ctx (mounts idle_files 0) = Rootfs"
    using vfs_wfD(1) [OF idle_files_wf] boot_mounts_ctx(2) [of Rootfs]
    by (simp_all add: vfs_resolve_mount_def VFS_MOUNT_MAX_def boot_mounts_def mnt_def zero_mnt_def numeral_eq_Suc
      vfs_match_mount_def overwrite_def char_at_def)
  let ?s1 = "set_fd 1 0 \<lparr>f_used = True, f_mount_idx = 0, f_node_index = 1, f_offset = 0, f_flags = O_REWRITE\<rparr>
    (idle_files\<lparr>blk := b, rootfs := fs\<rparr>)"
  have lf: "scan_from (\<lambda>fd. \<not> f_used (fd_table (idle_files\<lparr>blk := b, rootfs := fs\<rparr>) (nat 1) fd)) 0 16 = Some 0"
    by (simp add: idle_files_def closed_fd_def)
  have "get_fs Rootfs idle_files = volatile_fs 0" by (simp add: idle_files_def a_open_def)
  then have o: "fs_open 1 (Some history_path) O_REWRITE idle_files = (0, ?s1)"
    using op m lf by (simp add: fs_open_def history_path_def bad_pid_def PROCS_MAX_def vfs_alloc_fd_def FS_FD_MAX_def del: scan_from_numeral)
  have "same_mount (volatile_fs 0) fs" using open_keeps(1) [OF volatile_fs_wf _ op] by (simp add: files_kept_def)
  then have np: "\<not> persistent (get_fs c ?s1)" for c
    using tmp_with_a_wf(4) by (cases c) (simp_all add: same_mount_def idle_files_def a_open_def)
  have nf: "nul_free history_path" by (simp add: history_path_def)
  have len: "length ?x \<le> 512" using recent_suffix(2) [of 512 "entries demo_hist"] by (simp add: history_serialize_recent)
  obtain w s2 where wr: "fs_write 1 0 (Some ?x) (of_nat (length ?x)) ?s1 = (w, s2)" by fastforce
  obtain ctx i sub cs where opn: "opened ?s1 1 0 ctx i 0 O_REWRITE" "list_all nul_free cs"
    "walk (get_fs ctx ?s1) 0 cs = Some i" "live_file (get_fs ctx ?s1) i" "contents (get_fs ctx ?s1) i = []" "vfs_wf ?s1"
    by (rule open_rewrite [OF idle_files_wf nf o]) auto
  obtain fs' b' where w: "s2 = set_fd (nat 1) (nat 0)
      ((fd_table ?s1 (nat 1) (nat 0))\<lparr>f_offset := of_nat (length ?x)\<rparr>) (put_fs ctx fs' (?s1\<lparr>blk := b'\<rparr>))"
    "w = (if w < 0 then -1 else int (length ?x))" "persistent (get_fs ctx ?s1) \<or> 0 \<le> w"
    by (rule write_opened [OF opn(6,1,4,5,3,2) len wr])
  have "\<not> w < 0" "w = int (length ?x)" using w(2,3) np by auto
  then have "history_write prog1 demo_hist idle_files = snd (fs_close 1 0 s2)"
    using o wr by (simp add: history_write_def O_REWRITE_def [symmetric] FS_FILE_MAX_SIZE_def prog1_def)
  then show ?thesis by (simp add: fs_close_def w(1))
qed

theorem history_survives_restart_witness:
  "\<exists>h1 s2. history_load prog1 empty_hist (history_write prog1 demo_hist idle_files) = Some (h1, s2) \<and>
     entries h1 = [''ls -l'', ''write a x'', ''cat a'']"
proof -
  have pid: "\<not> bad_pid (u_pid prog1)" by (simp add: prog1_def bad_pid_def PROCS_MAX_def)
  have fd: "\<not> f_used (fd_table idle_files (nat (u_pid prog1)) e)" for e by (simp add: idle_files_def closed_fd_def)
  have "length (concat (map enc_line (entries demo_hist))) \<le> 512" "\<forall>e \<in> set (entries demo_hist). no_cr e"
    by (simp_all add: demo_hist_ok(3) enc_line_def no_cr_def)
  then show ?thesis
    using history_survives_restart [OF idle_files_wf pid fd fd demo_hist_ok(2,1) _ idle_history_write] demo_hist_ok(3)
    by fastforce
qed

end
