(* ===== verification/ShellLineProps.thy ===== *)
theory ShellLineProps
  imports ShellLine ShellHistProps
begin

text \<open>
  The line editor refines an editor on a text with a cursor: every key acts on the text as its specification says,
  the arrays are never written outside their 64 cells, and the line that is handed to the command parser is the text.
\<close>

section \<open>The specification\<close>

record aline =
  a_text :: string
  a_cursor :: nat
  a_draft :: string
  a_pos :: "nat option" \<comment> \<open>the line of the history that is shown\<close>

definition blank :: "char \<Rightarrow> bool" where
  "blank c \<longleftrightarrow> c = CHR '' '' \<or> c = TAB"

definition set_text :: "string \<Rightarrow> nat \<Rightarrow> aline \<Rightarrow> aline" where
  "set_text t c a = a\<lparr>a_text := t, a_cursor := c\<rparr>"

definition spec_insert :: "char \<Rightarrow> aline \<Rightarrow> aline" where
  "spec_insert ch a = (let t = a_text a; c = a_cursor a in set_text (take c t @ ch # drop c t) (c + 1) a)"

definition spec_delete :: "aline \<Rightarrow> aline" where
  "spec_delete a = (let t = a_text a; c = a_cursor a in
     if c < length t then set_text (take c t @ drop (c + 1) t) c a else a)"

definition spec_backspace :: "aline \<Rightarrow> aline" where
  "spec_backspace a = (let t = a_text a; c = a_cursor a in
     if c > 0 then set_text (take (c - 1) t @ drop c t) (c - 1) a else a)"

definition spec_right :: "aline \<Rightarrow> aline" where
  "spec_right a = (if a_cursor a < length (a_text a) then a\<lparr>a_cursor := a_cursor a + 1\<rparr> else a)"

definition spec_left :: "aline \<Rightarrow> aline" where
  "spec_left a = a\<lparr>a_cursor := a_cursor a - 1\<rparr>"

definition spec_show :: "string list \<Rightarrow> nat \<Rightarrow> aline \<Rightarrow> aline" where
  "spec_show es p a = (set_text (es ! p) (length (es ! p)) a)\<lparr>a_pos := Some p\<rparr>"

definition spec_up :: "string list \<Rightarrow> aline \<Rightarrow> aline" where
  "spec_up es a =
     (if es = [] then a
      else case a_pos a of
        None \<Rightarrow> spec_show es (length es - 1) (a\<lparr>a_draft := a_text a\<rparr>)
      | Some p \<Rightarrow> spec_show es (p - 1) a)"

definition spec_down :: "string list \<Rightarrow> aline \<Rightarrow> aline" where
  "spec_down es a =
     (case a_pos a of
        None \<Rightarrow> a
      | Some p \<Rightarrow> if p < length es - 1 then spec_show es (p + 1) a
                 else (set_text (a_draft a) (length (a_draft a)) a)\<lparr>a_pos := None\<rparr>)"

text \<open>Completion: the first word, when the cursor is in it, is replaced by the only command name that starts with what
  stands before the cursor, or by the longest common prefix of these names if that is longer than the word.\<close>

definition spec_replace :: "string \<Rightarrow> aline \<Rightarrow> aline" where
  "spec_replace w a =
     (let t = w @ dropWhile (\<lambda>c. \<not> blank c) (a_text a) in if length t < 64 then set_text t (length w) a else a)"

definition spec_complete :: "aline \<Rightarrow> aline" where
  "spec_complete a =
     (let tok = takeWhile (\<lambda>c. \<not> blank c) (a_text a); p = take (a_cursor a) (a_text a)
      in if p = [] \<or> length tok < length p then a
         else case filter (prefix p) shell_app_names of
           [] \<Rightarrow> a
         | [m] \<Rightarrow> spec_replace m a
         | m # ms \<Rightarrow> let w = foldl longest_common_prefix m ms in if length tok < length w then spec_replace w a else a)"

datatype aend = A_entered string string | A_too_long string | A_waiting aline

fun spec_edit :: "string list \<Rightarrow> string \<Rightarrow> aline \<Rightarrow> aend" where
  "spec_edit es [] a = A_waiting a"
| "spec_edit es (ch # inp) a =
     (if ch = CR \<or> ch = NL then A_entered (a_text a) inp
      else if ch = ESC
      then (case inp of
          c1 # c2 # inp \<Rightarrow>
            if c1 = CHR ''['' \<and> c2 = CHR ''A'' then spec_edit es inp (spec_up es a)
            else if c1 = CHR ''['' \<and> c2 = CHR ''B'' then spec_edit es inp (spec_down es a)
            else if c1 = CHR ''['' \<and> c2 = CHR ''C'' then spec_edit es inp (spec_right a)
            else if c1 = CHR ''['' \<and> c2 = CHR ''D'' then spec_edit es inp (spec_left a)
            else if c1 = CHR ''['' \<and> c2 = CHR ''3''
            then (case inp of
                [] \<Rightarrow> A_waiting a
              | c3 # inp \<Rightarrow> spec_edit es inp (if c3 = CHR ''~'' then spec_delete a else a))
            else spec_edit es inp a
        | _ \<Rightarrow> A_waiting a)
      else if ch = TAB then spec_edit es inp (spec_complete a)
      else if ch = BS \<or> ch = DEL then spec_edit es inp (spec_backspace a)
      else if length (a_text a) = 63 then A_too_long inp
      else spec_edit es inp (spec_insert ch a))"

section \<open>The abstraction\<close>

definition abs_ed :: "ledit \<Rightarrow> aline" where
  "abs_ed e = \<lparr>a_text = take (le_len e) (le_cmdline e), a_cursor = le_cursor e, a_draft = take (le_draft_len e) (le_draft e),
     a_pos = (if le_hcursor e = -1 then None else Some (nat (le_hcursor e)))\<rparr>"

definition ed_ok :: "hist \<Rightarrow> ledit \<Rightarrow> bool" where
  "ed_ok h e \<longleftrightarrow> length (le_cmdline e) = 64 \<and> length (le_draft e) = 64 \<and> le_len e \<le> 63 \<and> le_cursor e \<le> le_len e \<and>
     le_draft_len e \<le> 63 \<and> -1 \<le> le_hcursor e \<and> le_hcursor e < int (history_count h) \<and>
     nul_free (take (le_len e) (le_cmdline e)) \<and> nul_free (take (le_draft_len e) (le_draft e))"

section \<open>The shifting loops\<close>

lemma shift_up_nth:
  assumes "i + n + d \<le> length a"
  shows "length (shift_up a d i n) = length a \<and>
    (\<forall>k < length a. shift_up a d i n ! k = (if i + d \<le> k \<and> k < i + d + n then a ! (k - d) else a ! k))"
  using assms
proof (induction n arbitrary: a)
  case (Suc n)
  let ?a = "a[i + n + d := a ! (i + n)]"
  have "length (shift_up ?a d i n) = length ?a \<and>
    (\<forall>k < length ?a. shift_up ?a d i n ! k = (if i + d \<le> k \<and> k < i + d + n then ?a ! (k - d) else ?a ! k))"
    using Suc.prems by (intro Suc.IH) simp
  moreover have "i + d + n - d = i + n" by simp
  ultimately show ?case using Suc.prems by (auto simp: nth_list_update less_Suc_eq)
qed auto

lemma shift_down_nth:
  assumes "d \<le> i" "i + n \<le> length a"
  shows "length (shift_down a d i n) = length a \<and>
    (\<forall>k < length a. shift_down a d i n ! k = (if i - d \<le> k \<and> k < i - d + n then a ! (k + d) else a ! k))"
  using assms
proof (induction n arbitrary: a i)
  case (Suc n)
  let ?a = "a[i - d := a ! i]"
  have "length (shift_down ?a d (Suc i) n) = length ?a \<and>
    (\<forall>k < length ?a. shift_down ?a d (Suc i) n ! k =
       (if Suc i - d \<le> k \<and> k < Suc i - d + n then ?a ! (k + d) else ?a ! k))"
    using Suc.prems by (intro Suc.IH) simp_all
  then show ?case using Suc.prems by (auto simp: nth_list_update)
qed auto

lemma take_eqI: "length xs = n \<Longrightarrow> n \<le> length a \<Longrightarrow> (\<And>k. k < n \<Longrightarrow> a ! k = xs ! k) \<Longrightarrow> take n a = xs"
  by (rule nth_equalityI) auto

lemma nul_free_pieces: "nul_free t \<Longrightarrow> nul_free (take i t) \<and> nul_free (drop j t)"
  by simp

section \<open>The keys\<close>

lemma redraw_abs [simp]: "abs_ed (redraw cwd e) = abs_ed e" "ed_ok h (redraw cwd e) = ed_ok h e"
  by (simp_all add: redraw_def abs_ed_def ed_ok_def)

lemma abs_ed_simps [simp]:
  "a_text (abs_ed e) = take (le_len e) (le_cmdline e)" "a_cursor (abs_ed e) = le_cursor e"
  "a_draft (abs_ed e) = take (le_draft_len e) (le_draft e)"
  "a_pos (abs_ed e) = (if le_hcursor e = -1 then None else Some (nat (le_hcursor e)))"
  by (simp_all add: abs_ed_def)

text \<open>A key that leaves draft and history position alone is given by the new text.\<close>

lemma text_changed:
  assumes "ed_ok h e" "length cmdline = 64" "take n cmdline = t" "n \<le> 63" "c \<le> n" "nul_free t"
  shows "abs_ed (e\<lparr>le_cmdline := cmdline, le_len := n, le_cursor := c\<rparr>) = set_text t c (abs_ed e)"
    "ed_ok h (e\<lparr>le_cmdline := cmdline, le_len := n, le_cursor := c\<rparr>)"
  using assms by (auto simp: abs_ed_def set_text_def ed_ok_def)

lemma key_char_refines:
  assumes "ed_ok h e" "ch \<noteq> NUL" "le_len e \<noteq> 63"
  shows "abs_ed (key_char cwd ch e) = spec_insert ch (abs_ed e) \<and> ed_ok h (key_char cwd ch e)"
proof -
  let ?a = "le_cmdline e" and ?n = "le_len e" and ?c = "le_cursor e"
  have e: "length ?a = 64" "?n < 63" "?c \<le> ?n" "nul_free (take ?n ?a)" using assms by (auto simp: ed_ok_def)
  let ?t = "take ?c (take ?n ?a) @ ch # drop ?c (take ?n ?a)"
  have nf: "nul_free ?t" using nul_free_pieces [OF e(4), of ?c ?c] assms(2) by (simp only: nul_free_simps simp_thms)
  show ?thesis
  proof (cases "?c = ?n")
    case True
    have t: "take (?n + 1) (?a[?n := ch]) = ?t" using e True by (simp add: take_Suc_conv_app_nth)
    have "abs_ed (key_char cwd ch e) = abs_ed (e\<lparr>le_cmdline := ?a[?n := ch], le_len := ?n + 1, le_cursor := ?n + 1\<rparr>)"
      "ed_ok h (key_char cwd ch e) = ed_ok h (e\<lparr>le_cmdline := ?a[?n := ch], le_len := ?n + 1, le_cursor := ?n + 1\<rparr>)"
      using True e(1,2) by (simp_all add: key_char_def abs_ed_def ed_ok_def)
    then show ?thesis using text_changed [OF assms(1) _ t, of "?n + 1"] e(1,2) nf True by (simp add: spec_insert_def Let_def)
  next
    case False
    let ?b = "shift_up ?a 1 ?c (?n + 1 - ?c)"
    have b: "length ?b = 64" "\<And>k. k < 64 \<Longrightarrow> ?b ! k = (if ?c + 1 \<le> k \<and> k < ?n + 2 then ?a ! (k - 1) else ?a ! k)"
      using shift_up_nth [of ?c "?n + 1 - ?c" 1 ?a] e by auto
    have t: "take (?n + 1) (?b[?c := ch]) = ?t"
      by (rule take_eqI) (use e b in \<open>auto simp: nth_append nth_list_update nth_Cons' min_def\<close>)
    have "key_char cwd ch e = redraw cwd (e\<lparr>le_cmdline := ?b[?c := ch], le_len := ?n + 1, le_cursor := ?c + 1\<rparr>)"
      using False b(1) e by (simp add: key_char_def)
    then show ?thesis using text_changed [OF assms(1) _ t, of "?c + 1"] e(2,3) b(1) nf False by (simp add: spec_insert_def Let_def)
  qed
qed

lemma delete_at_text:
  assumes "ed_ok h e" "i < le_len e"
  shows "length (le_cmdline (delete_at i e)) = 64"
    "take (le_len e - 1) (le_cmdline (delete_at i e)) = take i (take (le_len e) (le_cmdline e)) @ drop (i + 1) (take (le_len e) (le_cmdline e))"
proof -
  let ?a = "le_cmdline e" and ?n = "le_len e"
  have e: "length ?a = 64" "?n \<le> 63" using assms by (auto simp: ed_ok_def)
  let ?b = "shift_down ?a 1 (i + 1) (?n - 1 - i)"
  have b: "length ?b = 64" "\<And>k. k < 64 \<Longrightarrow> ?b ! k = (if i \<le> k \<and> k < ?n - 1 then ?a ! (k + 1) else ?a ! k)"
    using shift_down_nth [of 1 "i + 1" "?n - 1 - i" ?a] e assms(2) by auto
  have d: "le_cmdline (delete_at i e) = ?b[?n - 1 := NUL]" using b(1) e by (simp add: delete_at_def)
  show "length (le_cmdline (delete_at i e)) = 64" using b(1) by (simp add: d)
  show "take (?n - 1) (le_cmdline (delete_at i e)) = take i (take ?n ?a) @ drop (i + 1) (take ?n ?a)"
    unfolding d by (rule take_eqI) (use e b assms(2) in \<open>auto simp: nth_append nth_list_update min_def\<close>)
qed

lemma delete_at_refines:
  assumes "ed_ok h e" "i < le_len e" "c \<le> le_len e - 1"
  shows "abs_ed ((delete_at i e)\<lparr>le_cursor := c\<rparr>) =
      set_text (take i (take (le_len e) (le_cmdline e)) @ drop (i + 1) (take (le_len e) (le_cmdline e))) c (abs_ed e)"
    "ed_ok h ((delete_at i e)\<lparr>le_cursor := c\<rparr>)"
proof -
  let ?t = "take i (take (le_len e) (le_cmdline e)) @ drop (i + 1) (take (le_len e) (le_cmdline e))"
  have eq: "(delete_at i e)\<lparr>le_cursor := c\<rparr> = e\<lparr>le_cmdline := le_cmdline (delete_at i e), le_len := le_len e - 1, le_cursor := c\<rparr>"
    by (simp add: delete_at_def Let_def)
  have e: "nul_free (take (le_len e) (le_cmdline e))" "le_len e \<le> 63" using assms(1) by (auto simp: ed_ok_def)
  have nf: "nul_free ?t" using nul_free_pieces [OF e(1), of i "i + 1"] by (simp only: nul_free_simps)
  have n: "le_len e - 1 \<le> 63" using e(2) by simp
  note c = text_changed [OF assms(1) delete_at_text [OF assms(1,2)] n assms(3) nf]
  show "abs_ed ((delete_at i e)\<lparr>le_cursor := c\<rparr>) = set_text ?t c (abs_ed e)" unfolding eq by (rule c)
  show "ed_ok h ((delete_at i e)\<lparr>le_cursor := c\<rparr>)" unfolding eq by (rule c)
qed

lemma key_delete_refines:
  assumes "ed_ok h e"
  shows "abs_ed (key_delete cwd e) = spec_delete (abs_ed e) \<and> ed_ok h (key_delete cwd e)"
proof (cases "le_cursor e < le_len e")
  case True
  have "(delete_at (le_cursor e) e)\<lparr>le_cursor := le_cursor e\<rparr> = delete_at (le_cursor e) e" by (simp add: delete_at_def Let_def)
  moreover have "length (le_cmdline e) = 64" "le_len e \<le> 63" using assms by (simp_all add: ed_ok_def)
  ultimately show ?thesis using delete_at_refines [OF assms True, of "le_cursor e"] True
    by (simp add: key_delete_def spec_delete_def Let_def)
next
  case False
  then show ?thesis using assms by (auto simp: key_delete_def spec_delete_def ed_ok_def)
qed

lemma key_backspace_refines:
  assumes "ed_ok h e"
  shows "abs_ed (key_backspace cwd e) = spec_backspace (abs_ed e) \<and> ed_ok h (key_backspace cwd e)"
proof (cases "le_cursor e")
  case 0
  then show ?thesis using assms by (simp add: key_backspace_def spec_backspace_def Let_def)
next
  case (Suc i)
  have "i < le_len e" using assms Suc by (simp add: ed_ok_def)
  then show ?thesis using delete_at_refines [OF assms, of i i] Suc by (simp add: key_backspace_def spec_backspace_def Let_def)
qed

lemma key_move_refines:
  assumes "ed_ok h e"
  shows "abs_ed (key_right cwd e) = spec_right (abs_ed e) \<and> ed_ok h (key_right cwd e)"
    "abs_ed (key_left cwd e) = spec_left (abs_ed e) \<and> ed_ok h (key_left cwd e)"
proof -
  have m: "abs_ed (e\<lparr>le_cursor := c\<rparr>) = (abs_ed e)\<lparr>a_cursor := c\<rparr>" for c by (simp add: abs_ed_def)
  have l: "length (take (le_len e) (le_cmdline e)) = le_len e" using assms by (simp add: ed_ok_def)
  show "abs_ed (key_right cwd e) = spec_right (abs_ed e) \<and> ed_ok h (key_right cwd e)"
    using assms l m by (simp add: key_right_def spec_right_def) (simp add: ed_ok_def)
  have "abs_ed e = (abs_ed e)\<lparr>a_cursor := 0\<rparr>" if "le_cursor e = 0" using that by (simp add: abs_ed_def)
  then show "abs_ed (key_left cwd e) = spec_left (abs_ed e) \<and> ed_ok h (key_left cwd e)"
    using assms m by (auto simp: key_left_def spec_left_def) (auto simp: ed_ok_def)
qed

section \<open>Browsing in the history\<close>

lemma entry_ok:
  assumes "hist_ok h" "p < history_count h"
  shows "nul_free (entries h ! p)" "length (entries h ! p) \<le> 63"
proof -
  have "entries h ! p \<in> set (entries h)" using assms(2) by simp
  then show "length (entries h ! p) \<le> 63" using assms(1) by (fastforce simp: hist_ok_def)
  show "nul_free (entries h ! p)" using assms(2) by (simp add: nth_entries)
qed

lemma show_history_refines:
  assumes "ed_ok h e" "hist_ok h" "le_hcursor e = int p"
  shows "abs_ed (show_history h cwd e) = spec_show (entries h) p (abs_ed e) \<and> ed_ok h (show_history h cwd e)"
proof -
  have p: "p < history_count h" "length (le_cmdline e) = 64" using assms(1,3) by (auto simp: ed_ok_def)
  note en = entry_ok [OF assms(2) p(1)]
  let ?l = "strncpy_loop (le_cmdline e) 0 63 (entries h ! p)"
  have l: "length ?l = 64" "cstr ?l = entries h ! p" using row_pushed [OF p(2) en(1)] en(2) by simp_all
  have t: "take (length (entries h ! p)) ?l = entries h ! p" using cstr_prefix [of ?l] l(2) by simp
  have s: "show_history h cwd e =
      redraw cwd (e\<lparr>le_cmdline := ?l, le_len := length (entries h ! p), le_cursor := length (entries h ! p)\<rparr>)"
    using history_get_entry [OF p(2), of "int p" h] p(1) l(2) assms(3) by (simp add: show_history_def CMDLINE_MAX_def Let_def)
  have "set_text t c (abs_ed e) = (set_text t c (abs_ed e))\<lparr>a_pos := Some p\<rparr>" for t c
    using assms(3) by (simp add: set_text_def abs_ed_def)
  then show ?thesis using text_changed [OF assms(1) l(1) t en(2) order.refl en(1)] by (simp add: s spec_show_def)
qed

lemma key_up_refines:
  assumes "ed_ok h e" "hist_ok h"
  shows "abs_ed (key_up h cwd e) = spec_up (entries h) (abs_ed e) \<and> ed_ok h (key_up h cwd e)"
proof (cases "history_count h = 0")
  case True
  then have "entries h = []" by (simp add: entries_def)
  then show ?thesis using True assms(1) by (simp add: key_up_def history_size_def spec_up_def)
next
  case False
  then have ne: "entries h \<noteq> []" by (metis length_entries list.size(3))
  have e: "length (le_cmdline e) = 64" "length (le_draft e) = 64" "le_len e \<le> 63" "-1 \<le> le_hcursor e"
    "le_hcursor e < int (history_count h)"
    using assms(1) by (auto simp: ed_ok_def)
  consider "le_hcursor e = -1" | "le_hcursor e > 0" | "le_hcursor e = 0" using e(4) by linarith
  then show ?thesis
  proof cases
    case 1
    let ?d = "(memcpy (le_draft e) 0 (le_cmdline e) 0 (le_len e))[le_len e := NUL]"
    let ?e = "e\<lparr>le_draft := ?d, le_draft_len := le_len e, le_hcursor := int (history_count h - 1)\<rparr>"
    have m: "memcpy (le_draft e) 0 (le_cmdline e) 0 (le_len e) = overwrite (le_draft e) 0 (take (le_len e) (le_cmdline e))"
      using memcpy_overwrite [of 0 "le_len e" "le_draft e" 0 "le_cmdline e"] e(1-3) by simp
    then have d: "length ?d = 64" "take (le_len e) ?d = take (le_len e) (le_cmdline e)"
      using e(1-3) by (simp_all add: overwrite_def)
    have ok: "ed_ok h ?e" using assms(1) d False by (simp add: ed_ok_def)
    have ab: "abs_ed ?e = (abs_ed e)\<lparr>a_draft := a_text (abs_ed e), a_pos := Some (history_count h - 1)\<rparr>"
      using d(2) by (simp add: abs_ed_def)
    have "length (memcpy (le_draft e) 0 (le_cmdline e) 0 (le_len e)) = 64" using d(1) by simp
    then have "key_up h cwd e = show_history h cwd ?e"
      using False 1 e(3) by (simp add: key_up_def history_size_def of_nat_diff)
    then show ?thesis using show_history_refines [OF ok assms(2), of "history_count h - 1" cwd] ne 1 ab
      by (simp add: spec_up_def spec_show_def set_text_def)
  next
    case 2
    let ?e = "e\<lparr>le_hcursor := le_hcursor e - 1\<rparr>"
    have ok: "ed_ok h ?e" using assms(1) 2 by (simp add: ed_ok_def)
    have "le_hcursor ?e = int (nat (le_hcursor e) - 1)" using 2 by simp
    then have "abs_ed (show_history h cwd ?e) = spec_show (entries h) (nat (le_hcursor e) - 1) (abs_ed ?e) \<and>
        ed_ok h (show_history h cwd ?e)" by (rule show_history_refines [OF ok assms(2)])
    moreover have "key_up h cwd e = show_history h cwd ?e" using False 2 by (simp add: key_up_def history_size_def)
    ultimately show ?thesis using ne 2 by (simp add: spec_up_def spec_show_def set_text_def abs_ed_def)
  next
    case 3
    then have "abs_ed (show_history h cwd e) = spec_show (entries h) 0 (abs_ed e) \<and> ed_ok h (show_history h cwd e)"
      by (intro show_history_refines [OF assms]) simp
    moreover have "key_up h cwd e = show_history h cwd e" using False 3 by (simp add: key_up_def history_size_def)
    ultimately show ?thesis using ne 3 by (simp add: spec_up_def)
  qed
qed

lemma key_down_refines:
  assumes "ed_ok h e" "hist_ok h"
  shows "abs_ed (key_down h cwd e) = spec_down (entries h) (abs_ed e) \<and> ed_ok h (key_down h cwd e)"
proof (cases "le_hcursor e = -1")
  case True
  then show ?thesis using assms(1) by (simp add: key_down_def spec_down_def)
next
  case False
  have e: "length (le_cmdline e) = 64" "length (le_draft e) = 64" "le_draft_len e \<le> 63" "0 \<le> le_hcursor e"
    "le_hcursor e < int (history_count h)" "nul_free (take (le_draft_len e) (le_draft e))"
    using assms(1) False by (auto simp: ed_ok_def)
  have ne: "history_count h \<noteq> 0" using e(4,5) by linarith
  show ?thesis
  proof (cases "le_hcursor e < int (history_count h) - 1")
    case True
    let ?e = "e\<lparr>le_hcursor := le_hcursor e + 1\<rparr>"
    have ok: "ed_ok h ?e" using assms(1) e(4) True by (simp add: ed_ok_def)
    have "le_hcursor ?e = int (nat (le_hcursor e) + 1)" using e(4) by simp
    then have "abs_ed (show_history h cwd ?e) = spec_show (entries h) (nat (le_hcursor e) + 1) (abs_ed ?e) \<and>
        ed_ok h (show_history h cwd ?e)" by (rule show_history_refines [OF ok assms(2)])
    moreover have "key_down h cwd e = show_history h cwd ?e" using False True ne by (simp add: key_down_def history_size_def)
    moreover have "nat (le_hcursor e) < history_count h - 1" using True e(4) by linarith
    ultimately show ?thesis using False by (simp add: spec_down_def spec_show_def set_text_def abs_ed_def)
  next
    case last: False
    let ?n = "le_draft_len e" and ?l = "(memcpy (le_cmdline e) 0 (le_draft e) 0 (le_draft_len e))[le_draft_len e := NUL]"
    have m: "memcpy (le_cmdline e) 0 (le_draft e) 0 ?n = overwrite (le_cmdline e) 0 (take ?n (le_draft e))"
      using memcpy_overwrite [of 0 ?n "le_cmdline e" 0 "le_draft e"] e(1-3) by simp
    then have d: "length ?l = 64" "take ?n ?l = take ?n (le_draft e)" using e(1-3) by (simp_all add: overwrite_def)
    have len: "length (memcpy (le_cmdline e) 0 (le_draft e) 0 ?n) = 64" using d(1) by simp
    let ?e = "e\<lparr>le_cmdline := ?l, le_len := ?n, le_cursor := ?n\<rparr>"
    have eq: "e\<lparr>le_hcursor := -1, le_cmdline := l, le_len := n, le_cursor := n\<rparr> =
        e\<lparr>le_cmdline := l, le_len := n, le_cursor := n, le_hcursor := -1\<rparr>" for l n
      by (cases e) simp
    have k: "key_down h cwd e = redraw cwd (?e\<lparr>le_hcursor := -1\<rparr>)"
      using False last e(3) ne len by (simp add: key_down_def history_size_def eq)
    note t = text_changed [OF assms(1) d e(3) order.refl e(6)]
    have "ed_ok h (?e\<lparr>le_hcursor := -1\<rparr>)" using t(2) by (simp add: ed_ok_def)
    moreover have "abs_ed (?e\<lparr>le_hcursor := -1\<rparr>) = (abs_ed ?e)\<lparr>a_pos := None\<rparr>" by (simp add: abs_ed_def)
    moreover have "\<not> nat (le_hcursor e) < history_count h - 1" using last e(4) by linarith
    ultimately show ?thesis using t(1) False e(2,3) by (simp add: k spec_down_def)
  qed
qed

section \<open>Completion\<close>

lemma first_token_end_takeWhile:
  "i + n \<le> length s \<Longrightarrow> first_token_end s i n = i + length (takeWhile (\<lambda>c. \<not> blank c) (take n (drop i s)))"
proof (induction n arbitrary: i)
  case (Suc n)
  then have "drop i s = s ! i # drop (Suc i) s" by (simp add: Cons_nth_drop_Suc)
  then show ?case using Suc by (simp add: blank_def)
qed simp

lemma prefix_char_at:
  assumes "nul_free p"
  shows "prefix p name \<longleftrightarrow> (\<forall>j < length p. char_at name j = p ! j)"
proof
  assume "prefix p name"
  then show "\<forall>j < length p. char_at name j = p ! j" by (auto simp: prefix_def char_at_def nth_append)
next
  assume "\<forall>j < length p. char_at name j = p ! j"
  from char_at_prefix [OF assms this] show "prefix p name" by (metis prefixI)
qed

lemma common_prefix_len_lcp: "common_prefix_len a b = length (longest_common_prefix a b)"
  by (induction a b rule: common_prefix_len.induct) auto

lemma lcp_take: "longest_common_prefix (take k m) b = take (min k (common_prefix_len m b)) m"
proof (induction m b arbitrary: k rule: common_prefix_len.induct)
  case (1 a as b bs)
  then show ?case by (cases k) auto
qed (auto simp: take_Cons')

lemma lcp_fold:
  "k \<le> length m \<Longrightarrow> foldl longest_common_prefix (take k m) ms = take (fold (\<lambda>name l. min l (common_prefix_len m name)) ms k) m \<and>
     fold (\<lambda>name l. min l (common_prefix_len m name)) ms k \<le> length m"
proof (induction ms arbitrary: k)
  case (Cons b ms)
  have "min k (common_prefix_len m b) \<le> length m" using Cons.prems by simp
  from Cons.IH [OF this] show ?case by (simp add: lcp_take)
qed simp

lemma replace_first_token_refines:
  assumes "ed_ok h e" "k \<le> length w" "nul_free w"
  defines "t \<equiv> take (le_len e) (le_cmdline e)"
  defines "tok \<equiv> length (takeWhile (\<lambda>c. \<not> blank c) t)"
  shows "abs_ed (replace_first_token tok w k e) = spec_replace (take k w) (abs_ed e) \<and> ed_ok h (replace_first_token tok w k e)"
proof -
  let ?a = "le_cmdline e" and ?n = "le_len e"
  have e: "length ?a = 64" "?n \<le> 63" "nul_free t" using assms(1) by (auto simp: ed_ok_def t_def)
  have lt: "length t = ?n" using e by (simp add: t_def)
  have tok: "tok \<le> ?n" using length_takeWhile_le [of "\<lambda>c. \<not> blank c" t] by (simp add: tok_def lt)
  let ?m = "k + (?n - tok)" and ?t = "take k w @ drop tok t"
  have drop_tok: "dropWhile (\<lambda>c. \<not> blank c) t = drop tok t" by (simp add: tok_def dropWhile_eq_drop)
  have len: "length ?t = ?m" using assms(2) by (simp add: lt)
  have sp: "spec_replace (take k w) (abs_ed e) = (if ?m < 64 then set_text ?t k (abs_ed e) else abs_ed e)"
    using drop_tok len assms(2) by (simp add: spec_replace_def t_def [symmetric] Let_def)
  show ?thesis
  proof (cases "?m < 64")
    case False
    then have "replace_first_token tok w k e = e" by (simp add: replace_first_token_def CMDLINE_MAX_def)
    then show ?thesis using sp False assms(1) by simp
  next
    case True
    define b where "b = (if tok < k then shift_up ?a (k - tok) tok (?n + 1 - tok)
      else if k < tok then shift_down ?a (tok - k) tok (?n + 1 - tok) else ?a)"
    have b: "length b = 64 \<and> (\<forall>j. k \<le> j \<and> j < ?m \<longrightarrow> b ! j = ?a ! (j - k + tok))"
    proof -
      consider "tok < k" | "k < tok" | "k = tok" by linarith
      then show ?thesis
      proof cases
        case 1
        then show ?thesis using shift_up_nth [of tok "?n + 1 - tok" "k - tok" ?a] True tok e(1) by (auto simp: b_def)
      next
        case 2
        then show ?thesis using shift_down_nth [of "tok - k" tok "?n + 1 - tok" ?a] True tok e(1,2) by (auto simp: b_def)
      next
        case 3
        then show ?thesis using e(1) by (auto simp: b_def)
      qed
    qed
    have m: "memcpy b 0 w 0 k = overwrite b 0 (take k w)"
      using memcpy_overwrite [of 0 k b 0 w] b assms(2) True by simp
    let ?l = "(overwrite b 0 (take k w))[?m := NUL]"
    have lo: "length (overwrite b 0 (take k w)) = 64" using b assms(2) True by simp
    have r: "replace_first_token tok w k e = e\<lparr>le_len := ?m, le_cursor := k, le_cmdline := ?l\<rparr>"
      using True lo m unfolding replace_first_token_def Let_def b_def [symmetric] by (simp add: CMDLINE_MAX_def)
    have t: "take ?m ?l = ?t"
    proof (rule take_eqI [OF len])
      show "?m \<le> length ?l" using lo True by simp
      fix j assume j: "j < ?m"
      have "?l ! j = (if j < k then w ! j else b ! j)" using j lo nth_overwrite [of 0 "take k w" b j] b True assms(2) by auto
      also have "\<dots> = ?t ! j"
        using j b assms(2) e(1,2) tok by (auto simp: nth_append t_def add.commute)
      finally show "?l ! j = ?t ! j" .
    qed
    have nf: "nul_free ?t" using nul_free_pieces [OF assms(3), of k] nul_free_pieces [OF e(3), of _ tok] by (simp only: nul_free_simps)
    have eq: "e\<lparr>le_len := ?m, le_cursor := k, le_cmdline := ?l\<rparr> = e\<lparr>le_cmdline := ?l, le_len := ?m, le_cursor := k\<rparr>"
      by (cases e) simp
    show ?thesis using text_changed [OF assms(1) _ t _ _ nf, of k] lo True sp by (simp add: r eq)
  qed
qed

lemma app_names_nul_free: "m \<in> set shell_app_names \<Longrightarrow> nul_free m"
proof -
  have "list_all nul_free shell_app_names" by (simp add: shell_app_names_def)
  then show "m \<in> set shell_app_names \<Longrightarrow> nul_free m" by (simp add: list_all_iff)
qed

lemma key_tab_refines:
  assumes "ed_ok h e"
  shows "abs_ed (key_tab cwd e) = spec_complete (abs_ed e) \<and> ed_ok h (key_tab cwd e)"
proof -
  define t where "t = take (le_len e) (le_cmdline e)"
  define tok where "tok = length (takeWhile (\<lambda>c. \<not> blank c) t)"
  have e: "length (le_cmdline e) = 64" "le_len e \<le> 63" "le_cursor e \<le> le_len e" "nul_free t"
    using assms by (auto simp: ed_ok_def t_def)
  have te: "first_token_end (le_cmdline e) 0 (le_len e) = tok"
    using first_token_end_takeWhile [of 0 "le_len e" "le_cmdline e"] e by (simp add: tok_def t_def)
  let ?c = "le_cursor e" and ?p = "take (le_cursor e) t"
  have lp: "length ?p = ?c" using e by (simp add: t_def)
  have nfp: "nul_free ?p" using e(4) by simp
  define ms where "ms = filter (prefix ?p) shell_app_names"
  have "list_all (\<lambda>j. char_at name j = le_cmdline e ! j) [0 ..< ?c] = prefix ?p name" for name
    unfolding prefix_char_at [OF nfp] lp using e by (auto simp: list_all_iff t_def)
  then have f: "filter (\<lambda>name. list_all (\<lambda>j. char_at name j = le_cmdline e ! j) [0 ..< ?c]) shell_app_names = ms"
    by (simp add: ms_def)
  have nf: "nul_free m" if "m \<in> set ms" for m using that app_names_nul_free by (simp add: ms_def)
  note rep = replace_first_token_refines [OF assms, folded t_def, folded tok_def]
  note cd = complete_app_name_def [of e, unfolded te f Let_def]
  have sd: "spec_complete (abs_ed e) = (if ?c = 0 \<or> tok < ?c then abs_ed e else case ms of [] \<Rightarrow> abs_ed e
     | [m] \<Rightarrow> spec_replace m (abs_ed e)
     | m # ms \<Rightarrow> if tok < length (foldl longest_common_prefix m ms)
                 then spec_replace (foldl longest_common_prefix m ms) (abs_ed e) else abs_ed e)"
    using lp by (auto simp: spec_complete_def t_def [symmetric] tok_def [symmetric] ms_def [symmetric] Let_def split: list.splits)
  show ?thesis
  proof (cases "?c = 0 \<or> tok < ?c \<or> ms = []")
    case True
    then have "key_tab cwd e = e" by (auto simp: key_tab_def cd)
    then show ?thesis using True assms sd by auto
  next
    case False
    then obtain m ns where m: "ms = m # ns" by (cases ms) auto
    have nm: "nul_free m" using nf m by simp
    let ?k = "fold (\<lambda>name l. min l (common_prefix_len m name)) ns (length m)"
    have l: "foldl longest_common_prefix m ns = take ?k m" "?k \<le> length m" using lcp_fold [of "length m" m ns] by simp_all
    show ?thesis
    proof (cases ns)
      case Nil
      then have "key_tab cwd e = redraw cwd (replace_first_token tok m (length m) e)" using False m by (simp add: key_tab_def cd)
      then show ?thesis using rep [OF order.refl nm] False m Nil sd by simp
    next
      case (Cons n ns')
      show ?thesis
      proof (cases "tok < ?k")
        case True
        then have "key_tab cwd e = redraw cwd (replace_first_token tok m ?k e)" using False m Cons by (simp add: key_tab_def cd)
        then show ?thesis using rep [OF l(2) nm] False m Cons True sd l by simp
      next
        case no: False
        then have "key_tab cwd e = e" using False m Cons by (simp add: key_tab_def cd)
        then show ?thesis using False m Cons no assms sd l by simp
      qed
    qed
  qed
qed

section \<open>The whole line\<close>

fun abs_end :: "edit_end \<Rightarrow> aend" where
  "abs_end (Entered e inp) = A_entered (cstr (le_cmdline e)) inp"
| "abs_end (Too_long e inp) = A_too_long inp"
| "abs_end (Waiting e) = A_waiting (abs_ed e)"

fun end_state :: "edit_end \<Rightarrow> ledit" where
  "end_state (Entered e inp) = e"
| "end_state (Too_long e inp) = e"
| "end_state (Waiting e) = e"

lemma entered_text:
  assumes "ed_ok h e"
  shows "cstr (buf_set (le_cmdline e) (le_len e) NUL) = take (le_len e) (le_cmdline e)"
    "ed_ok h (e\<lparr>le_cmdline := buf_set (le_cmdline e) (le_len e) NUL, le_out := out\<rparr>)"
proof -
  have e: "length (le_cmdline e) = 64" "le_len e \<le> 63" "nul_free (take (le_len e) (le_cmdline e))"
    using assms by (auto simp: ed_ok_def)
  have l: "le_len e < length (le_cmdline e)" using e by simp
  show "cstr (buf_set (le_cmdline e) (le_len e) NUL) = take (le_len e) (le_cmdline e)"
    by (rule cstr_eqI [of "le_len e"]) (use l e(3) in simp_all)
  show "ed_ok h (e\<lparr>le_cmdline := buf_set (le_cmdline e) (le_len e) NUL, le_out := out\<rparr>)"
    using assms l by (simp add: ed_ok_def)
qed

text \<open>The loop on an input does what the specification does, and leaves the arrays well formed.\<close>

definition edits_as_spec :: "hist \<Rightarrow> string \<Rightarrow> string \<Rightarrow> ledit \<Rightarrow> bool" where
  "edits_as_spec h cwd inp e \<longleftrightarrow> abs_end (edit_loop h cwd inp e) = spec_edit (entries h) inp (abs_ed e) \<and>
     ed_ok h (end_state (edit_loop h cwd inp e))"

lemma edits_after_key:
  assumes "abs_ed e' = a \<and> ed_ok h e'" "ed_ok h e' \<Longrightarrow> edits_as_spec h cwd ys e'"
  shows "abs_end (edit_loop h cwd ys e') = spec_edit (entries h) ys a \<and> ed_ok h (end_state (edit_loop h cwd ys e'))"
  using assms by (auto simp: edits_as_spec_def)

lemma escape_refines:
  assumes ok: "ed_ok h e" "hist_ok h" and nf: "nul_free inp"
    and IH: "\<And>ys e'. length ys < length inp \<Longrightarrow> nul_free ys \<Longrightarrow> ed_ok h e' \<Longrightarrow> edits_as_spec h cwd ys e'"
  shows "edits_as_spec h cwd (ESC # inp) e"
proof (cases "\<exists>c1 c2 ys. inp = c1 # c2 # ys")
  case False
  then have "inp = [] \<or> (\<exists>c. inp = [c])" by (metis list.exhaust)
  then show ?thesis using ok(1) by (auto simp: edits_as_spec_def)
next
  case True
  then obtain c1 c2 ys where i: "inp = c1 # c2 # ys" by blast
  have l: "length ys < length inp" "nul_free ys" using i nf by simp_all
  note key = edits_after_key [OF _ IH [OF l]]
  note arrows = key [OF key_up_refines [OF ok], of cwd] key [OF key_down_refines [OF ok], of cwd]
    key [OF key_move_refines(1) [OF ok(1)], of cwd] key [OF key_move_refines(2) [OF ok(1)], of cwd] IH [OF l ok(1)]
  show ?thesis
  proof (cases "c1 = CHR ''['' \<and> c2 = CHR ''3''")
    case False
    then show ?thesis using i arrows by (cases "c1 = CHR ''[''") (simp_all add: edits_as_spec_def)
  next
    case True
    show ?thesis
    proof (cases ys)
      case Nil
      then show ?thesis using i True ok(1) by (simp add: edits_as_spec_def)
    next
      case (Cons c3 zs)
      have z: "length zs < length inp" "nul_free zs" using l Cons by simp_all
      show ?thesis
        using i True Cons edits_after_key [OF key_delete_refines [OF ok(1)] IH [OF z], of cwd] IH [OF z ok(1)]
        by (simp add: edits_as_spec_def)
    qed
  qed
qed

lemma plain_refines:
  assumes ok: "ed_ok h e" and ch: "ch \<notin> {NUL, CR, NL, ESC, TAB, BS, DEL}"
    and IH: "\<And>e'. ed_ok h e' \<Longrightarrow> edits_as_spec h cwd inp e'"
  shows "edits_as_spec h cwd (ch # inp) e"
proof -
  have tl64: "length (take (le_len e) (le_cmdline e)) = le_len e" using ok by (simp add: ed_ok_def)
  show ?thesis
  proof (cases "le_len e = 63")
    case True
    then show ?thesis using ch tl64 ok by (simp add: edits_as_spec_def CMDLINE_MAX_def) (simp add: ed_ok_def)
  next
    case False
    then show ?thesis using ch tl64 edits_after_key [OF key_char_refines [OF ok _ False] IH, of ch cwd]
      by (simp add: edits_as_spec_def CMDLINE_MAX_def)
  qed
qed

lemma edit_loop_refines:
  assumes "ed_ok h e" "hist_ok h" "nul_free inp"
  shows "edits_as_spec h cwd inp e"
  using assms(1,3)
proof (induction inp arbitrary: e rule: length_induct)
  case (1 inp)
  note ok = "1.prems"(1)
  have IH: "edits_as_spec h cwd ys e'" if "length ys < length inp" "nul_free ys" "ed_ok h e'" for ys e' using 1 that by blast
  show ?case
  proof (cases inp)
    case Nil
    then show ?thesis using ok by (simp add: edits_as_spec_def)
  next
    case (Cons ch inp')
    have nf: "ch \<noteq> NUL" "nul_free inp'" using "1.prems"(2) Cons by simp_all
    have rest: "edits_as_spec h cwd inp' e'" if "ed_ok h e'" for e' using IH [of inp' e'] Cons nf that by simp
    consider "ch = CR \<or> ch = NL" | "ch = ESC" | "ch = TAB" | "ch = BS \<or> ch = DEL" | "ch \<notin> {NUL, CR, NL, ESC, TAB, BS, DEL}"
      using nf(1) by blast
    then show ?thesis
    proof cases
      case 1
      then show ?thesis using entered_text [OF ok] Cons by (auto simp: edits_as_spec_def)
    next
      case 2
      have "edits_as_spec h cwd (ESC # inp') e" by (rule escape_refines [OF ok assms(2) nf(2)]) (use Cons in \<open>auto intro: IH\<close>)
      then show ?thesis by (simp only: Cons 2)
    next
      case 3
      then show ?thesis using edits_after_key [OF key_tab_refines [OF ok] rest, of cwd] Cons by (simp add: edits_as_spec_def)
    next
      case 4
      then show ?thesis using edits_after_key [OF key_backspace_refines [OF ok] rest, of cwd] Cons
        by (auto simp: edits_as_spec_def)
    next
      case 5
      show ?thesis unfolding Cons by (rule plain_refines [OF ok 5 rest])
    qed
  qed
qed

text \<open>C20: The line editor refines the editor on a text with a cursor: for every input, every history and whatever the
  arrays held before, the line that is entered is the text that the specification computes, the input left over and the
  refusal of a line that is too long agree, and the arrays of 64 characters are never written outside their bounds.\<close>

theorem line_editor_refines_spec:
  assumes "hist_ok h" "nul_free inp" "length cmdline = 64" "length draft = 64"
  shows "abs_end (edit_loop h cwd inp (start_line cmdline draft cwd)) =
      spec_edit (entries h) inp \<lparr>a_text = [], a_cursor = 0, a_draft = [], a_pos = None\<rparr> \<and>
    ed_ok h (end_state (edit_loop h cwd inp (start_line cmdline draft cwd)))"
proof -
  have "ed_ok h (start_line cmdline draft cwd)" using assms(3,4) by (simp add: ed_ok_def start_line_def)
  moreover have "abs_ed (start_line cmdline draft cwd) = \<lparr>a_text = [], a_cursor = 0, a_draft = [], a_pos = None\<rparr>"
    by (simp add: abs_ed_def start_line_def)
  ultimately show ?thesis using edit_loop_refines [OF _ assms(1,2), of "start_line cmdline draft cwd" cwd]
    by (simp add: edits_as_spec_def)
qed

text \<open>Typing \<open>lx\<close>, backspace, \<open>s -l\<close>, up twice and down twice, three times left, two blanks and a slash, and enter.\<close>

definition demo_keys :: string where
  "demo_keys = ''lx'' @ [BS] @ ''s -l'' @ [ESC] @ ''[A'' @ [ESC] @ ''[A'' @ [ESC] @ ''[B'' @ [ESC] @ ''[B'' @
     [ESC] @ ''[D'' @ [ESC] @ ''[D'' @ [ESC] @ ''[D'' @ ''  /'' @ [NL] @ ''rest''"

theorem line_editor_refines_spec_witness:
  "\<exists>e. edit_loop demo_hist ''/'' demo_keys (start_line (replicate 64 (CHR ''x'')) (replicate 64 (CHR ''y'')) ''/'') = Entered e ''rest'' \<and>
     cstr (le_cmdline e) = ''ls  / -l''"
proof -
  have nf: "nul_free demo_keys" by (simp add: demo_keys_def)
  have "spec_edit (entries demo_hist) demo_keys \<lparr>a_text = [], a_cursor = 0, a_draft = [], a_pos = None\<rparr> = A_entered ''ls  / -l'' ''rest''"
    unfolding demo_hist_ok(3) by (simp add: demo_keys_def spec_insert_def spec_backspace_def spec_up_def spec_down_def
        spec_show_def spec_left_def set_text_def Let_def numeral_eq_Suc)
  then have "abs_end (edit_loop demo_hist ''/'' demo_keys (start_line (replicate 64 (CHR ''x'')) (replicate 64 (CHR ''y'')) ''/'')) =
      A_entered ''ls  / -l'' ''rest''"
    using line_editor_refines_spec [OF demo_hist_ok(2) nf, of "replicate 64 (CHR ''x'')" "replicate 64 (CHR ''y'')" "''/''"] by simp
  then show ?thesis
    by (cases "edit_loop demo_hist ''/'' demo_keys (start_line (replicate 64 (CHR ''x'')) (replicate 64 (CHR ''y'')) ''/'')") auto
qed

text \<open>A line that is typed at its end is not terminated before it is entered: when the cursor is moved, the characters
  that the array held before are printed behind the line.\<close>

theorem typed_line_not_terminated:
  assumes "length stale = 64" "nul_free stale" "ch \<noteq> NUL"
  shows "a_text (abs_ed (key_char cwd ch (start_line stale draft cwd))) = [ch] \<and>
    le_out (key_left cwd (key_char cwd ch (start_line stale draft cwd))) =
      le_out (key_char cwd ch (start_line stale draft cwd)) @ redraw_cmdline (ch # tl stale) 0 cwd"
proof -
  have "stale[0 := ch] = ch # tl stale" using assms(1) by (cases stale) auto
  then have c: "cstr (stale[0 := ch]) = ch # tl stale" using assms by (cases stale) (simp_all add: cstr_nul_free)
  show ?thesis using assms(1) c by (cases stale) (simp_all add: key_char_def start_line_def key_left_def redraw_def)
qed

end
