(* ===== verification/ShellMainProps.thy ===== *)
theory ShellMainProps
  imports ShellMain ShellLineProps Syscalls
begin

text \<open>
  The command line against its specification: the arguments are the words of the line, the redirections leave the
  descriptors of the shell as they were, and the command names are those of the kernel.
\<close>

section \<open>Words\<close>

function words :: "string \<Rightarrow> string list" where
  "words [] = []"
| "words (c # s) =
     (if blank c then words s else (c # takeWhile (\<lambda>c. \<not> blank c) s) # words (dropWhile (\<lambda>c. \<not> blank c) s))"
  by pat_completeness auto
termination
  by (relation "measure length") (auto simp: le_imp_less_Suc length_dropWhile_le)

text \<open>The indices at which words start.\<close>

fun word_starts :: "nat \<Rightarrow> bool \<Rightarrow> string \<Rightarrow> nat list" where
  "word_starts i tok [] = []"
| "word_starts i tok (c # s) =
     (if blank c then word_starts (Suc i) False s else (if tok then [] else [i]) @ word_starts (Suc i) True s)"

definition cut_blank :: "char \<Rightarrow> char" where
  "cut_blank c = (if blank c then NUL else c)"

lemma split_loop_result:
  assumes "length pre = i" "line = pre @ rest @ post"
  shows "split_loop mx i tok rest line argv =
    (pre @ map cut_blank rest @ post, argv @ take (mx - length argv) (word_starts i tok rest))"
  using assms
proof (induction mx i tok rest line argv arbitrary: pre rule: split_loop.induct)
  case (1 mx i tok line argv)
  then show ?case by simp
next
  case (2 mx i tok c rest line argv)
  note p = "2.prems"
  show ?case
  proof (cases "blank c")
    case True
    have "buf_set line i NUL = (pre @ [NUL]) @ rest @ post" using p by (simp add: list_update_append)
    then show ?thesis using "2.IH"(1) [of "pre @ [NUL]"] True p(1) by (simp add: blank_def cut_blank_def)
  next
    case b: False
    show ?thesis
    proof (cases tok)
      case True
      then show ?thesis using "2.IH"(3) [of "pre @ [c]"] b p by (simp add: blank_def cut_blank_def)
    next
      case False
      then show ?thesis using "2.IH"(2) [of "pre @ [c]"] b p by (simp add: blank_def cut_blank_def Suc_diff_le take_Cons')
    qed
  qed
qed

lemma word_starts_skip:
  "word_starts i True s = word_starts (i + length (takeWhile (\<lambda>c. \<not> blank c) s)) False (dropWhile (\<lambda>c. \<not> blank c) s)"
  by (induction s arbitrary: i) auto

lemma words_at_starts:
  "map (\<lambda>j. takeWhile (\<lambda>c. \<not> blank c) (drop j (pre @ s))) (word_starts (length pre) False s) = words s"
proof (induction s arbitrary: pre rule: words.induct)
  case (2 c s)
  show ?case
  proof (cases "blank c")
    case True
    then show ?thesis using "2.IH"(1) [of "pre @ [c]"] by simp
  next
    case False
    let ?w = "takeWhile (\<lambda>c. \<not> blank c) s" and ?r = "dropWhile (\<lambda>c. \<not> blank c) s"
    have "map (\<lambda>j. takeWhile (\<lambda>c. \<not> blank c) (drop j ((pre @ c # ?w) @ ?r))) (word_starts (length (pre @ c # ?w)) False ?r) = words ?r"
      by (rule "2.IH"(2) [OF False])
    then have "map (\<lambda>j. takeWhile (\<lambda>c. \<not> blank c) (drop j (pre @ c # s))) (word_starts (Suc (length pre)) True s) = words ?r"
      by (simp add: word_starts_skip [of "Suc (length pre)"])
    then show ?thesis using False by simp
  qed
qed simp

lemma word_starts_bound: "j \<in> set (word_starts i tok s) \<Longrightarrow> i \<le> j \<and> j < i + length s"
  by (induction i tok s rule: word_starts.induct) (auto split: if_splits)

lemma cstr_cut: "nul_free s \<Longrightarrow> cstr (map cut_blank s @ NUL # r) = takeWhile (\<lambda>c. \<not> blank c) s"
  by (induction s) (auto simp: cstr_def cut_blank_def blank_def)

text \<open>For every command line, the arguments that \<open>split_args\<close> produces are the first \<open>argv_max\<close> words of the line,
  the runs of characters between blanks and tabs; nothing is written outside the line.\<close>

theorem split_args_words:
  assumes "length (cstr line) < length line"
  shows "arg_strings (split_args line argv_max) = take argv_max (words (cstr line)) \<and>
    length (fst (split_args line argv_max)) = length line"
proof -
  let ?s = "cstr line" and ?post = "drop (Suc (length (cstr line))) line"
  have line: "line = ?s @ NUL # ?post" using assms cstr_prefix [of line] cstr_end [OF assms] by (metis id_take_nth_drop)
  have r: "split_args line argv_max = (map cut_blank ?s @ NUL # ?post, take argv_max (word_starts 0 False ?s))"
    using split_loop_result [of "[]" 0 line ?s "NUL # ?post" argv_max False "[]"] line by (simp add: split_args_def)
  have arg: "cstr (drop j (map cut_blank ?s @ NUL # ?post)) = takeWhile (\<lambda>c. \<not> blank c) (drop j ?s)" if "j < length ?s" for j
    using that cstr_cut [of "drop j ?s" ?post] by (simp add: drop_map)
  have "arg_strings (split_args line argv_max) = take argv_max (map (\<lambda>j. takeWhile (\<lambda>c. \<not> blank c) (drop j ?s)) (word_starts 0 False ?s))"
    unfolding r arg_strings_def prod.case take_map
    by (rule map_cong [OF refl], rule arg) (use word_starts_bound [of _ 0 False ?s] in \<open>auto dest!: in_set_takeD\<close>)
  moreover have "length (fst (split_args line argv_max)) = length line" using assms by (simp add: r)
  ultimately show ?thesis using words_at_starts [of "[]" ?s] by simp
qed

theorem split_args_words_witness:
  "arg_strings (split_args (''cat  a > out'' @ [TAB, NUL] @ ''xx'') 3) = [''cat'', ''a'', ''>'']"
  using split_args_words [of "''cat  a > out'' @ [TAB, NUL] @ ''xx''" 3] by (simp add: cstr_def blank_def)

section \<open>Redirection\<close>

definition used :: "uproc \<Rightarrow> fs_state \<Rightarrow> nat \<Rightarrow> bool" where
  "used u s e = f_used (fd_table s (nat (u_pid u)) e)"

lemma used_write: "used u (snd (fs_write pid fd buf sz s)) = used u s"
  by (rule ext) (simp add: used_def fs_write_def console_write_fallback_def Let_def case_prod_beta)

lemma used_uprint: "used u (u_print u out s) = used u s"
  unfolding u_print_def by (induction out arbitrary: s) (simp_all add: u_putchar_def used_write)

lemma used_print: "used u (u_printf u fmt vargs s) = used u s"
  by (simp add: u_printf_def used_uprint split: option.splits)

lemma used_open:
  assumes "\<not> bad_pid (u_pid u)" "fs_open (u_pid u) path flags s = (fd, s1)"
  shows "if fd < 0 then used u s1 = used u s
     else lowest_free s (u_pid u) = Some (nat fd) \<and> fd < 16 \<and> used u s1 = (used u s)(nat fd := True)"
proof -
  have b: "f < 16" if "scan_from P 0 16 = Some f" for P f using scan_from_SomeD [OF that] by simp
  show ?thesis
    using assms by (auto simp: fs_open_def vfs_alloc_fd_def lowest_free_def used_def FS_FD_MAX_def Let_def fun_eq_iff
        simp del: scan_from_numeral split: if_splits option.splits prod.splits dest: b)
qed

lemma used_close:
  assumes "\<not> bad_pid (u_pid u)" "0 \<le> fd" "fd < 16"
  shows "used u (snd (fs_close (u_pid u) fd s)) = (used u s)(nat fd := False)"
  using assms by (auto simp: fs_close_def used_def bad_fd_def FS_FD_MAX_def closed_fd_def fun_eq_iff)

lemma used_dup2:
  assumes "\<not> bad_pid (u_pid u)" "used u s old" "\<not> used u s new" "old < 16" "new < 16" "old \<noteq> new"
  shows "\<exists>s1. fs_dup2 (u_pid u) (int old) (int new) s = (int new, s1) \<and> used u s1 = (used u s)(new := True)"
  using assms by (auto simp: fs_dup2_def used_def bad_fd_def FS_FD_MAX_def fun_eq_iff)

lemma lowest_free_used:
  "\<not> used u s 0 \<Longrightarrow> lowest_free s (u_pid u) = Some 0"
  "used u s 0 \<Longrightarrow> \<not> used u s 1 \<Longrightarrow> lowest_free s (u_pid u) = Some 1"
  by (simp_all add: lowest_free_def used_def FS_FD_MAX_def)

lemma redirect_used:
  assumes pid: "\<not> bad_pid (u_pid u)" and t: "target < 2" "\<not> used u s target" "target = 1 \<or> \<not> used u s 0"
    and r: "redirect u path flags (int target) cleanup s = (ok, s1)"
  shows "used u s1 = (if ok then (used u s)(target := True) else used u s)"
proof -
  obtain fd s0 where o: "fs_open (u_pid u) (Some path) flags s = (fd, s0)" by fastforce
  note op = used_open [OF pid o]
  show ?thesis
  proof (cases "fd < 0")
    case True
    then show ?thesis using op r o by (auto simp: redirect_def used_print)
  next
    case False
    have "lowest_free s (u_pid u) = Some 0 \<and> \<not> used u s 0 \<or> lowest_free s (u_pid u) = Some 1 \<and> target = 1"
      using t lowest_free_used [of u s] by (cases "used u s 0") auto
    then consider "fd = int target" | "fd = 0" "target = 1" "\<not> used u s 0" using op False t by fastforce
    then show ?thesis
    proof cases
      case 1
      then show ?thesis using op r o False by (auto simp: redirect_def)
    next
      case 2
      have u0: "used u s0 = (used u s)(0 := True)" using op 2 by simp
      obtain s2 where d: "fs_dup2 (u_pid u) 0 1 s0 = (1, s2)" "used u s2 = (used u s0)(1 := True)"
        using used_dup2 [OF pid, of s0 0 1] u0 t(2) 2(2) by auto
      then have "ok \<and> s1 = snd (fs_close (u_pid u) 0 s2)" using r o 2 by (auto simp: redirect_def)
      then show ?thesis using used_close [OF pid, of 0 s2] d(2) u0 2(2,3) by (auto simp: fun_eq_iff)
    qed
  qed
qed

text \<open>The commands leave the descriptors alone when the child process does.\<close>

lemma used_history_write:
  assumes "\<not> bad_pid (u_pid u)"
  shows "used u (history_write u h s) = used u s"
proof -
  obtain fd s1 where o: "fs_open (u_pid u) (Some history_path) (O_CREAT OR O_WRONLY OR O_TRUNC) s = (fd, s1)" by fastforce
  note op = used_open [OF assms o]
  show ?thesis
  proof (cases "fd < 0")
    case True
    then show ?thesis using op o by (simp add: history_write_def used_print)
  next
    case False
    then have fd: "fd < 16" "lowest_free s (u_pid u) = Some (nat fd)" "used u s1 = (used u s)(nat fd := True)" using op by auto
    have free: "\<not> used u s (nat fd)"
      using scan_from_SomeD [OF fd(2) [unfolded lowest_free_def]] by (simp add: used_def)
    obtain w s2 where w: "fs_write (u_pid u) fd (Some (map of_char (history_serialize h FS_FILE_MAX_SIZE)))
        (of_nat (length (history_serialize h FS_FILE_MAX_SIZE))) s1 = (w, s2)" by fastforce
    have "used u s2 = used u s1"
      using used_write [of u "u_pid u" fd "Some (map of_char (history_serialize h FS_FILE_MAX_SIZE))"
          "of_nat (length (history_serialize h FS_FILE_MAX_SIZE))" s1] by (simp add: w)
    then show ?thesis using False o w fd free used_close [OF assms, of fd]
      by (auto simp: history_write_def used_print Let_def fun_eq_iff)
  qed
qed

lemma run_command_used:
  assumes "\<not> bad_pid (u_pid u)" "\<And>e s. used u (child e s) = used u s"
  shows "used u (run_command u h chdir fork child c s) = used u s"
  by (auto simp: run_command_def shell_cmd_pwd_def used_print used_uprint used_history_write [OF assms(1)] assms(2)
      split: command.splits option.splits external.splits prod.splits)

lemma shell_command_used:
  assumes "\<not> bad_pid (u_pid u)" "\<not> used u s 0" "\<not> used u s 1" "\<And>c s. used u (run c s) = used u s"
    "parse_redirection raw = Some (argv, inp, outp)" "dispatch argv \<noteq> Cmd_exit"
    "inp = None \<or> fst (redirect_out u True outp (snd (redirect_in u inp s)))"
  shows "used u (shell_command u run raw s) = used u s"
proof (cases "argv = []")
  case True
  then show ?thesis using assms(5) by (simp add: shell_command_def used_print)
next
  case False
  obtain ok1 s1 where r1: "redirect_in u inp s = (ok1, s1)" by fastforce
  obtain ok2 s2 where r2: "redirect_out u (inp \<noteq> None) outp s1 = (ok2, s2)" by fastforce
  have u1: "used u s1 = (if ok1 \<and> inp \<noteq> None then (used u s)(0 := True) else used u s)"
    using r1 redirect_used [OF assms(1), of 0 s] assms(2) by (cases inp) (auto simp: redirect_in_def)
  have u2: "used u s2 = (if ok2 \<and> outp \<noteq> None then (used u s1)(1 := True) else used u s1)" if ok1
  proof (cases outp)
    case None
    then show ?thesis using r2 by (simp add: redirect_out_def)
  next
    case (Some p)
    then have "redirect u p (O_WRONLY OR O_CREAT OR O_TRUNC) (int 1)
        (\<lambda>s. if inp \<noteq> None then snd (fs_close (u_pid u) 0 s) else s) s1 = (ok2, s2)"
      using r2 by (simp add: redirect_out_def)
    moreover have "\<not> used u s1 1" using u1 assms(3) by simp
    ultimately have "used u s2 = (if ok2 then (used u s1)(1 := True) else used u s1)"
      using redirect_used [OF assms(1), of 1 s1] by simp
    then show ?thesis using Some by simp
  qed
  show ?thesis
  proof (cases "ok1 \<and> ok2")
    case False
    then have "inp = None \<or> \<not> ok1" using assms(7) r1 r2 by (cases inp) auto
    then show ?thesis using False \<open>argv \<noteq> []\<close> assms(5) r1 r2 u1 u2 by (auto simp: shell_command_def split: bool.splits)
  next
    case True
    let ?s3 = "run (dispatch argv) s2"
    let ?s4 = "if outp \<noteq> None then snd (fs_close (u_pid u) 1 ?s3) else ?s3"
    have s: "shell_command u run raw s = (if inp \<noteq> None then snd (fs_close (u_pid u) 0 ?s4) else ?s4)"
      using True \<open>argv \<noteq> []\<close> assms(5,6) r1 r2 by (simp add: shell_command_def)
    have c: "used u (snd (fs_close (u_pid u) 1 t)) = (used u t)(1 := False)" "used u (snd (fs_close (u_pid u) 0 t)) = (used u t)(0 := False)" for t
      using used_close [OF assms(1), of 1 t] used_close [OF assms(1), of 0 t] by simp_all
    have u4: "used u ?s4 = (if outp \<noteq> None then (used u s2)(1 := False) else used u s2)" by (simp add: c assms(4))
    have "used u (shell_command u run raw s) = (if inp \<noteq> None then (used u ?s4)(0 := False) else used u ?s4)"
      unfolding s by (simp only: c if_distrib [of "used u"])
    then show ?thesis
      unfolding u4 using u1 u2 True assms(2,3) by (cases "inp = None"; cases "outp = None") (simp_all add: fun_eq_iff)
  qed
qed



text \<open>When the input was redirected and the output file cannot be opened, the shell goes back to the prompt with the
  input file at descriptor 0 and reads its next commands from there.\<close>

theorem failed_output_redirection_keeps_input:
  assumes "\<not> bad_pid (u_pid u)" "\<not> f_used (fd_table s (nat (u_pid u)) 0)"
    "parse_redirection raw = Some (argv, Some a, Some b)" "argv \<noteq> []"
    "fst (redirect_in u (Some a) s)" "fst (fs_open (u_pid u) (Some b) (O_WRONLY OR O_CREAT OR O_TRUNC) (snd (redirect_in u (Some a) s))) < 0"
  shows "f_used (fd_table (shell_command u run raw s) (nat (u_pid u)) 0)"
proof -
  obtain s1 where r: "redirect u a O_RDONLY (int 0) (\<lambda>s. s) s = (True, s1)" "redirect_in u (Some a) s = (True, s1)"
    using assms(5) by (cases "redirect_in u (Some a) s") (auto simp: redirect_in_def)
  have u1: "used u s1 0" using redirect_used [OF assms(1) _ _ _ r(1)] assms(2) by (simp add: used_def)
  obtain fd s2 where o: "fs_open (u_pid u) (Some b) (O_WRONLY OR O_CREAT OR O_TRUNC) s1 = (fd, s2)" "fd < 0"
    using assms(6) r(2) by (metis fst_conv prod.collapse snd_conv)
  have "redirect_out u True (Some b) s1 = (False, u_printf u (''file open failed'' @ [NL]) [] s2)"
    using o by (simp add: redirect_out_def redirect_def)
  then have "shell_command u run raw s = u_printf u (''file open failed'' @ [NL]) [] s2"
    using assms(3,4) r(2) by (simp add: shell_command_def)
  moreover have "used u s2 = used u s1" using used_open [OF assms(1) o(1)] o(2) by simp
  ultimately show ?thesis using u1 used_print [of u "''file open failed'' @ [NL]" "[]" s2] by (simp add: used_def fun_eq_iff)
qed

section \<open>Command names\<close>

text \<open>The shell and the kernel agree on the programs: a name denotes a program in the shell exactly when the kernel has
  a program of that name, under the same number.\<close>

theorem app_names_agree:
  assumes "nul_free name"
  shows "(0 \<le> app_map name \<and> app_map name = app_id) \<longleftrightarrow> app_name app_id = Some name"
  using assms by (auto simp: app_map_def app_name_def strcmp_zero_iff)

theorem app_names_agree_witness: "app_map ''kernel_info'' = 14 \<and> app_name 14 = Some ''kernel_info''"
  using app_names_agree [of "''kernel_info''" 14] by (simp add: app_map_def)

section \<open>The test of the input\<close>

text \<open>Typed characters are echoed until \<open>getchar\<close> fails.\<close>

lemma stdin_test_loop_typed:
  assumes "shell_input_fd io < 0" "length buf = 64" "nul_free w"
  shows "stdin_test_loop u io buf (map (\<lambda>c. int (of_char c)) w @ [-1] @ rest) tot s =
    Some (tot + of_nat (length w), rest, fold (shell_putc u io) w s)"
  using assms(2,3)
proof (induction w arbitrary: buf tot s)
  case Nil
  have "stdin_chunk u io (-1 # rest) s = Some (-1, [], rest, s)"
    using assms(1) by (simp add: stdin_chunk_def shell_read_input_def)
  then show ?case by (subst stdin_test_loop.simps) simp
next
  case (Cons c w)
  let ?i = "map (\<lambda>c. int (of_char c)) w @ [-1] @ rest"
  let ?b = "buf_set (overwrite buf 0 [c]) 1 NUL"
  have "of_nat (of_char c) = (of_char c :: u8)" by (rule of_nat_of_char)
  then have "stdin_chunk u io (int (of_char c) # ?i) s = Some (1, [of_char c], ?i, s)"
    using assms(1) by (simp add: stdin_chunk_def shell_read_input_def)
  moreover have "char_of (unat (of_char c :: u8)) = c" by (rule char_of_unat_of_char)
  moreover have "length ?b = 64" "cstr ?b = [c]"
    using Cons.prems by (cases buf; cases "tl buf"; auto simp: buf_set_def overwrite_def cstr_def)+
  moreover have "shell_out u io ''%s'' [Va_str [c]] s = shell_putc u io c s" by (simp add: shell_out_def)
  ultimately show ?case
    using Cons.IH [of ?b] Cons.prems by (subst stdin_test_loop.simps) (simp add: Let_def)
qed

lemma stdin_test_counts_input:
  assumes "shell_input_fd io < 0" "length buf = 64" "nul_free w"
  shows "shell_cmd_stdin_test u io buf (map (\<lambda>c. int (of_char c)) w @ [-1] @ rest) s =
    Some (rest, shell_out u io ([NL] @ ''[stdin_test] bytes=%d'' @ [NL]) [Va_int (of_nat (length w))] (fold (shell_putc u io) w s))"
  by (simp add: shell_cmd_stdin_test_def stdin_test_loop_typed [OF assms, simplified])

end
