(* ===== verification/UserCalls.thy ===== *)
theory UserCalls
  imports Syscalls AppsSys
begin

text \<open>
  The system-call stubs of user programs, src/user/runtime/user_syscall.c, and what they reach in the kernel.

  A stub puts its arguments and the number of the call into the registers \<open>a0\<close> to \<open>a3\<close> and traps; it is the trap
  frame that the kernel sees, as a function of the other registers. Pointers are addresses of user memory. The lemmas
  show that every stub arrives at the handler of its name and that the calls on files are the entry points of Vfs.thy
  on the strings and bytes that the pointers name, which is how the programs of Apps.thy use them; the structures that
  ps, bitmap, date and getargs fill are decoded here for the programs of AppsSys.thy.
\<close>

section \<open>The stubs\<close>

definition syscall :: "u32 \<Rightarrow> u32 \<Rightarrow> u32 \<Rightarrow> u32 \<Rightarrow> trap_frame \<Rightarrow> trap_frame" where
  "syscall sysno arg0 arg1 arg2 r = r\<lparr>tf_a0 := arg0, tf_a1 := arg1, tf_a2 := arg2, tf_a3 := sysno\<rparr>"

definition call_putchar :: "u32 \<Rightarrow> trap_frame \<Rightarrow> trap_frame" where
  "call_putchar ch_ptr = syscall 15 1 ch_ptr 1"

definition call_getchar :: "u32 \<Rightarrow> trap_frame \<Rightarrow> trap_frame" where
  "call_getchar ch_ptr = syscall 14 0 ch_ptr 1"

text \<open>What \<open>getchar\<close> makes of the result and the byte.\<close>

definition getchar_result :: "int \<Rightarrow> u8 \<Rightarrow> int" where
  "getchar_result n ch = (if n \<le> 0 then -1 else uint ch)"

definition call_ps :: "u32 \<Rightarrow> u32 \<Rightarrow> trap_frame \<Rightarrow> trap_frame" where
  "call_ps index info = syscall 4 index info 0"

definition call_clone :: "u32 \<Rightarrow> trap_frame \<Rightarrow> trap_frame" where
  "call_clone app_id = syscall 5 app_id 0 0"

definition call_spawn :: "u32 \<Rightarrow> trap_frame \<Rightarrow> trap_frame" where
  "call_spawn app_id = call_clone app_id"

definition call_waitpid :: "u32 \<Rightarrow> trap_frame \<Rightarrow> trap_frame" where
  "call_waitpid pid = syscall 7 pid 0 0"

definition call_ipc_send :: "u32 \<Rightarrow> u32 \<Rightarrow> trap_frame \<Rightarrow> trap_frame" where
  "call_ipc_send pid message = syscall 8 pid message 0"

definition call_ipc_recv :: "u32 \<Rightarrow> trap_frame \<Rightarrow> trap_frame" where
  "call_ipc_recv from_pid = syscall 9 from_pid 0 0"

definition call_bitmap :: "u32 \<Rightarrow> trap_frame \<Rightarrow> trap_frame" where
  "call_bitmap index = syscall 6 index 0 0"

definition call_kill :: "u32 \<Rightarrow> trap_frame \<Rightarrow> trap_frame" where
  "call_kill pid = syscall 10 pid 0 0"

definition call_kernel_info :: "u32 \<Rightarrow> trap_frame \<Rightarrow> trap_frame" where
  "call_kernel_info out_ptr = syscall 11 out_ptr 0 0"

definition call_exit :: "trap_frame \<Rightarrow> trap_frame" where
  "call_exit = syscall 3 0 0 0"

definition call_open :: "u32 \<Rightarrow> u32 \<Rightarrow> trap_frame \<Rightarrow> trap_frame" where
  "call_open path flags = syscall 12 path flags 0"

definition call_close :: "u32 \<Rightarrow> trap_frame \<Rightarrow> trap_frame" where
  "call_close fd = syscall 13 fd 0 0"

definition call_read :: "u32 \<Rightarrow> u32 \<Rightarrow> u32 \<Rightarrow> trap_frame \<Rightarrow> trap_frame" where
  "call_read fd buf sz = syscall 14 fd buf sz"

definition call_write :: "u32 \<Rightarrow> u32 \<Rightarrow> u32 \<Rightarrow> trap_frame \<Rightarrow> trap_frame" where
  "call_write fd buf sz = syscall 15 fd buf sz"

definition call_mkdir :: "u32 \<Rightarrow> trap_frame \<Rightarrow> trap_frame" where
  "call_mkdir path = syscall 16 path 0 0"

definition call_readdir :: "u32 \<Rightarrow> u32 \<Rightarrow> u32 \<Rightarrow> trap_frame \<Rightarrow> trap_frame" where
  "call_readdir path index out_ptr = syscall 17 path index out_ptr"

definition call_unlink :: "u32 \<Rightarrow> trap_frame \<Rightarrow> trap_frame" where
  "call_unlink path = syscall 18 path 0 0"

definition call_rmdir :: "u32 \<Rightarrow> trap_frame \<Rightarrow> trap_frame" where
  "call_rmdir path = syscall 19 path 0 0"

definition call_gettime :: "u32 \<Rightarrow> trap_frame \<Rightarrow> trap_frame" where
  "call_gettime out_ptr = syscall 20 out_ptr 0 0"

definition call_fork :: "trap_frame \<Rightarrow> trap_frame" where
  "call_fork = syscall 21 0 0 0"

definition call_exec :: "u32 \<Rightarrow> trap_frame \<Rightarrow> trap_frame" where
  "call_exec app_id = syscall 22 app_id 0 0"

definition call_execv :: "u32 \<Rightarrow> u32 \<Rightarrow> trap_frame \<Rightarrow> trap_frame" where
  "call_execv app_id argv = syscall 24 app_id argv 0"

definition call_dup2 :: "u32 \<Rightarrow> u32 \<Rightarrow> trap_frame \<Rightarrow> trap_frame" where
  "call_dup2 old_fd new_fd = syscall 23 old_fd new_fd 0"

definition call_getargs :: "u32 \<Rightarrow> trap_frame \<Rightarrow> trap_frame" where
  "call_getargs out_ptr = syscall 25 out_ptr 0 0"

definition call_getcwd :: "u32 \<Rightarrow> trap_frame \<Rightarrow> trap_frame" where
  "call_getcwd cwd_path = syscall 27 cwd_path 0 0"

definition call_chdir :: "u32 \<Rightarrow> trap_frame \<Rightarrow> trap_frame" where
  "call_chdir path = syscall 28 path 0 0"

lemmas stub_defs = syscall_def call_putchar_def call_getchar_def call_ps_def call_clone_def call_spawn_def call_waitpid_def
  call_ipc_send_def call_ipc_recv_def call_bitmap_def call_kill_def call_kernel_info_def call_exit_def call_open_def
  call_close_def call_read_def call_write_def call_mkdir_def call_readdir_def call_unlink_def call_rmdir_def call_gettime_def
  call_fork_def call_exec_def call_execv_def call_dup2_def call_getargs_def call_getcwd_def call_chdir_def

lemma stub_args [simp]:
  "tf_a0 (syscall n a b c r) = a" "tf_a1 (syscall n a b c r) = b" "tf_a2 (syscall n a b c r) = c" "tf_a3 (syscall n a b c r) = n"
  by (simp_all add: syscall_def)

section \<open>The stubs and the handlers\<close>

lemma stubs_reach_handlers:
  "handle_syscall junk (call_ps i a r) s = syscall_handle_ps (call_ps i a r) s"
  "handle_syscall junk (call_clone i r) s = syscall_handle_clone (call_clone i r) s"
  "handle_syscall junk (call_waitpid i r) s = syscall_handle_waitpid (call_waitpid i r) s"
  "handle_syscall junk (call_ipc_send i m r) s = syscall_handle_ipc_send (call_ipc_send i m r) s"
  "handle_syscall junk (call_ipc_recv a r) s = syscall_handle_ipc_recv (call_ipc_recv a r) s"
  "handle_syscall junk (call_bitmap i r) s = syscall_handle_bitmap (call_bitmap i r) s"
  "handle_syscall junk (call_kill i r) s = syscall_handle_kill (call_kill i r) s"
  "handle_syscall junk (call_kernel_info a r) s = syscall_handle_kernel_info junk (call_kernel_info a r) s"
  "handle_syscall junk (call_exit r) s = syscall_handle_exit (call_exit r) s"
  "handle_syscall junk (call_open a m r) s = syscall_handle_open (call_open a m r) s"
  "handle_syscall junk (call_close i r) s = syscall_handle_close (call_close i r) s"
  "handle_syscall junk (call_read i a n r) s = syscall_handle_read (call_read i a n r) s"
  "handle_syscall junk (call_write i a n r) s = syscall_handle_write (call_write i a n r) s"
  "handle_syscall junk (call_mkdir a r) s = syscall_handle_mkdir (call_mkdir a r) s"
  "handle_syscall junk (call_readdir a i b r) s = syscall_handle_readdir (call_readdir a i b r) s"
  "handle_syscall junk (call_unlink a r) s = syscall_handle_unlink (call_unlink a r) s"
  "handle_syscall junk (call_rmdir a r) s = syscall_handle_rmdir (call_rmdir a r) s"
  "handle_syscall junk (call_gettime a r) s = syscall_handle_gettime (call_gettime a r) s"
  "handle_syscall junk (call_fork r) s = syscall_handle_fork (call_fork r) s"
  "handle_syscall junk (call_exec i r) s = syscall_handle_exec (call_exec i r) s"
  "handle_syscall junk (call_execv i a r) s = syscall_handle_execv (call_execv i a r) s"
  "handle_syscall junk (call_dup2 i j r) s = syscall_handle_dup2 (call_dup2 i j r) s"
  "handle_syscall junk (call_getargs a r) s = syscall_handle_getargs (call_getargs a r) s"
  "handle_syscall junk (call_getcwd a r) s = syscall_handle_getcwd (call_getcwd a r) s"
  "handle_syscall junk (call_chdir a r) s = syscall_handle_chdir (call_chdir a r) s"
  by (simp_all add: handle_syscall_def stub_defs)

text \<open>The outcome of a call on files: the result in \<open>a0\<close>, and the file system.\<close>

definition fs_outcome :: "trap_frame \<Rightarrow> sys_state \<Rightarrow> int \<times> fs_state \<Rightarrow> outcome" where
  "fs_outcome f s = (\<lambda>(v, fs). returning f v (on_fs fs s))"


text \<open>A machine whose page tables map every page to the frame at \<open>0x3C3C3000\<close>, which holds the string \<open>/a\<close>.\<close>

definition demo_ram :: "u32 \<Rightarrow> u8" where
  "demo_ram a = (if a = 0x3C3C3080 then 0x2F else if a = 0x3C3C3081 then 0x61 else if a = 0x3C3C3082 then 0 else 0x0F)"

definition demo_user :: "sys_state \<Rightarrow> sys_state" where
  "demo_user s = s\<lparr>kern := (kern s)\<lparr>current_proc := Some 1, csr_satp := 0, kmem := (kmem (kern s))\<lparr>ram := demo_ram\<rparr>\<rparr>\<rparr>"

lemma demo_translate:
  "translate PAGE_R 0x1080 (kern (demo_user s)) = Some 0x3C3C3080"
  "translate PAGE_R 0x1081 (kern (demo_user s)) = Some 0x3C3C3081"
  "translate PAGE_R 0x1082 (kern (demo_user s)) = Some 0x3C3C3082"
proof -
  have "sv32_walk demo_ram 0 a = Some (0x3C3C3000, 0x30F)" if "a = 0x1080 \<or> a = 0x1081 \<or> a = 0x1082" for a
    using that by (elim disjE; hypsubst; code_simp)
  then show "translate PAGE_R 0x1080 (kern (demo_user s)) = Some 0x3C3C3080"
    "translate PAGE_R 0x1081 (kern (demo_user s)) = Some 0x3C3C3081"
    "translate PAGE_R 0x1082 (kern (demo_user s)) = Some 0x3C3C3082"
    by (simp_all add: translate_def satp_root_def demo_user_def PAGE_R_def)
qed

lemma demo_string: "user_str (kern (demo_user s)) 0x1080 = Some ''/a''"
proof -
  have r: "ram (kmem (kern (demo_user s))) = demo_ram" by (simp add: demo_user_def)
  have c: "char_of (97 :: nat) = CHR ''a''" "char_of (47 :: nat) = CHR ''/''" by code_simp+
  have n: "user_str (kern (demo_user s)) 0x1082 = Some []"
    by (simp add: user_str.simps [of _ "0x1082"] demo_translate r demo_ram_def)
  have a: "user_str (kern (demo_user s)) 0x1081 = Some ''a''"
    by (simp add: user_str.simps [of _ "0x1081"] demo_translate r demo_ram_def n c)
  show ?thesis by (simp add: user_str.simps [of _ "0x1080"] demo_translate r demo_ram_def a c)
qed


section \<open>What ps and bitmap report\<close>

text \<open>The structure that \<open>ps\<close> reads back from its bytes, and the entry of the table that the system call gives.\<close>

definition ps_info_of :: "u8 list \<Rightarrow> ps_info" where
  "ps_info_of x = \<lparr>pi_pid = sint (un_le32 x), pi_parent_pid = sint (un_le32 (drop 4 x)), pi_state = sint (un_le32 (drop 8 x)),
     pi_wait_reason = sint (un_le32 (drop 12 x)), pi_name = map (\<lambda>b. char_of (unat b)) (take 16 (drop 16 x))\<rparr>"

definition ps_call :: "sys_state \<Rightarrow> int \<Rightarrow> ps_info option" where
  "ps_call s i =
     (if i < 0 \<or> int PROCS_MAX \<le> i then None else Some (ps_info_of (ps_info_bytes (procs (kern s) (nat i)))))"

text \<open>This is what the handler stores at the address it is given, and it returns -1 for \<open>None\<close>.\<close>

lemma ps_call_stub:
  assumes "a \<noteq> 0"
  shows "handle_syscall junk (call_ps i a r) s =
    (case ps_call s (sint i) of
       None \<Rightarrow> returning (call_ps i a r) (-1) s
     | Some p \<Rightarrow> storing a (ps_info_bytes (procs (kern s) (nat (sint i)))) s (returning (call_ps i a r) 0))"
  unfolding stubs_reach_handlers using assms
  by (simp add: syscall_handle_ps_def call_ps_def write_user_ps_info_def ps_call_def)

text \<open>A line for a process, in terms of the process.\<close>

fun state_text :: "pstate \<Rightarrow> string" where
  "state_text PROC_UNUSED = ''UNUSED''"
| "state_text PROC_RUNNABLE = ''RUN''"
| "state_text PROC_WAITTING = ''WAIT''"
| "state_text PROC_EXITED = ''EXIT''"

fun reason_text :: "wait_reason \<Rightarrow> string" where
  "reason_text PROC_WAIT_NONE = []"
| "reason_text PROC_WAIT_CONSOLE_INPUT = ''CONSOLE_INPUT''"
| "reason_text PROC_WAIT_CHILD_EXIT = ''CHILD_EXIT''"
| "reason_text PROC_WAIT_IPC_RECV = ''IPC_RECV''"

definition process_line :: "process \<Rightarrow> string" where
  "process_line p = int_text (p_pid p) @ [TAB] @ int_text (p_parent_pid p) @ [TAB] @ cstr (p_name p) @ [TAB] @
     state_text (p_state p) @ [TAB] @ reason_text (p_wait_reason p) @ [NL]"

definition fits_int :: "int \<Rightarrow> bool" where
  "fits_int i \<longleftrightarrow> - (2 ^ 31) \<le> i \<and> i < 2 ^ 31"

lemma sint_of_int: "fits_int i \<Longrightarrow> sint (of_int i :: u32) = i"
  by (simp add: fits_int_def signed_of_int signed_take_bit_int_eq_self)

lemma ps_info_of_bytes:
  assumes "length (p_name p) = 16" "fits_int (p_pid p)" "fits_int (p_parent_pid p)"
  shows "ps_info_of (ps_info_bytes p) = \<lparr>pi_pid = p_pid p, pi_parent_pid = p_parent_pid p,
    pi_state = sint (state_id (p_state p)), pi_wait_reason = sint (wait_reason_id (p_wait_reason p)), pi_name = p_name p\<rparr>"
  using assms by (simp add: ps_info_of_def ps_info_bytes_def int_bytes_def sint_of_int o_def char_of_unat_of_char)

lemma ps_line_used:
  assumes "length (p_name p) = 16" "fits_int (p_pid p)" "fits_int (p_parent_pid p)" "p_state p \<noteq> PROC_UNUSED"
  shows "ps_line (ps_info_of (ps_info_bytes p)) = process_line p"
proof -
  let ?ps = "[Dec (of_int (p_pid p)), Text TAB, Dec (of_int (p_parent_pid p)), Text TAB, Str (cstr (p_name p)), Text TAB,
    Str (state_text (p_state p)), Text TAB, Str (reason_text (p_wait_reason p)), Text NL]"
  have t: "printf (''%d'' @ [TAB] @ ''%d'' @ [TAB] @ ''%s'' @ [TAB] @ ''%s'' @ [TAB] @ ''%s'' @ [NL])
     [Va_int (of_int (p_pid p)), Va_int (of_int (p_parent_pid p)), Va_str (cstr (p_name p)), Va_str (state_text (p_state p)),
      Va_str (reason_text (p_wait_reason p))] = Some (process_line p)"
    using printf_pieces [of ?ps] assms by (simp add: process_line_def sint_of_int del: printf.simps)
  have n: "proc_state_to_string (sint (state_id (p_state p))) = state_text (p_state p)"
    "proc_wait_reason_to_string (sint (wait_reason_id (p_wait_reason p))) = reason_text (p_wait_reason p)"
    "sint (state_id (p_state p)) \<noteq> 0" using assms(4)
    by (cases "p_state p"; cases "p_wait_reason p"; simp add: proc_state_to_string_def proc_wait_reason_to_string_def)+
  show ?thesis unfolding ps_info_of_bytes [OF assms(1-3)] ps_line_def say_def using t by (simp add: n del: printf.simps)
qed

lemma ps_line_unused: "p_state p = PROC_UNUSED \<Longrightarrow> ps_line (ps_info_of (ps_info_bytes p)) = []"
  by (simp add: ps_line_def ps_info_of_def ps_info_bytes_def int_bytes_def)

text \<open>What \<open>ps\<close> prints for a table whose slots in use have 32-bit pids and names of 16 bytes.\<close>

lemma ps_main_table:
  assumes "\<And>i. i < 64 \<Longrightarrow> p_state (procs (kern s) i) \<noteq> PROC_UNUSED \<Longrightarrow> length (p_name (procs (kern s) i)) = 16 \<and>
    fits_int (p_pid (procs (kern s) i)) \<and> fits_int (p_parent_pid (procs (kern s) i))"
  shows "ps_main (ps_call s) = Some (0,
    ''PID'' @ [TAB] @ ''PPID'' @ [TAB] @ ''APP'' @ [TAB] @ ''STATE'' @ [TAB] @ ''REASON'' @ [NL] @
    concat (map (\<lambda>i. process_line (procs (kern s) i)) (filter (\<lambda>i. p_state (procs (kern s) i) \<noteq> PROC_UNUSED) [1 ..< 64])))"
proof -
  let ?p = "procs (kern s)"
  have loop: "ps_loop (ps_call s) 1 = Some (concat (map (\<lambda>k. ps_line (the (ps_call s (1 + int k)))) [0 ..< 63]))"
    by (rule ps_loop_table) (auto simp: ps_call_def PROCS_MAX_def)
  have line: "ps_line (the (ps_call s (1 + int k))) = (if p_state (?p (Suc k)) = PROC_UNUSED then [] else process_line (?p (Suc k)))"
    if "k < 63" for k
  proof -
    have "nat (1 + int k) = Suc k" by simp
    then show ?thesis using that assms [of "Suc k"] by (simp add: ps_call_def PROCS_MAX_def ps_line_used ps_line_unused)
  qed
  have lines: "map (\<lambda>k. ps_line (the (ps_call s (1 + int k)))) [0 ..< 63] =
      map (\<lambda>k. if p_state (?p (Suc k)) = PROC_UNUSED then [] else process_line (?p (Suc k))) [0 ..< 63]"
    by (rule map_cong [OF refl], rule line) simp
  have slots: "[1 ..< 64] = map Suc [0 ..< 63]" by (simp add: map_Suc_upt del: upt_Suc)
  have "concat (map (\<lambda>k. if p_state (?p (Suc k)) = PROC_UNUSED then [] else process_line (?p (Suc k))) ks) =
      concat (map (\<lambda>i. process_line (?p i)) (filter (\<lambda>i. p_state (?p i) \<noteq> PROC_UNUSED) (map Suc ks)))" for ks
    by (induction ks) auto
  then show ?thesis unfolding ps_main_def loop lines slots by (simp add: say_def del: upt_rec_numeral)
qed

text \<open>\<open>bitmap\<close>: the value that the system call gives for an index, and what the program makes of it.\<close>

definition bitmap_call :: "mem_state \<Rightarrow> int \<Rightarrow> int" where
  "bitmap_call m i =
     (if i < 0 \<or> uint (managed_pages m) \<le> i then -1 else if bitmap_test (page_bitmap m) (nat i) then 1 else 0)"

lemma bitmap_call_stub:
  assumes "memory_initialized (kmem (kern s))"
  shows "handle_syscall junk (call_bitmap i r) s = returning (call_bitmap i r) (bitmap_call (kmem (kern s)) (sint i)) s"
  unfolding stubs_reach_handlers using assms
  by (simp add: syscall_handle_bitmap_def call_bitmap_def bitmap_page_state_def bitmap_call_def)

lemma bitmap_main_counts:
  assumes "uint (managed_pages m) < 2 ^ 31"
  defines "n \<equiv> unat (managed_pages m)" and "used \<equiv> length (filter (bitmap_test (page_bitmap m)) [0 ..< unat (managed_pages m)])"
  shows "bitmap_main (bitmap_call m) = Some (0, ''bitmap: total='' @ dec_string n @ ''/used='' @ dec_string used @
    ''/free='' @ dec_string (n - used) @ [NL])"
proof -
  have u: "uint (managed_pages m) = int n" by (simp add: n_def)
  have le: "used \<le> n" using length_filter_le [of "bitmap_test (page_bitmap m)" "[0 ..< n]"] by (simp add: used_def n_def)
  have "length (filter (\<lambda>k. bitmap_call m (0 + int k) = 1) [0 ..< n]) = used"
    unfolding used_def n_def [symmetric] by (rule arg_cong [of _ _ length], rule filter_cong) (auto simp: bitmap_call_def u)
  then have loop: "bitmap_loop (bitmap_call m) 0 (0, 0) = Some (int n, int used)"
    using bitmap_loop_count [of 0 n "bitmap_call m" 0 0] by (simp add: bitmap_call_def u)
  have fit: "fits_int (int n)" "fits_int (int used)" "fits_int (int n - int used)" using assms(1) le by (auto simp: fits_int_def u)
  let ?t = "map Text ''bitmap: total='' @ [Dec (of_int (int n))] @ map Text ''/used='' @ [Dec (of_int (int used))] @
    map Text ''/free='' @ [Dec (of_int (int n - int used)), Text NL]"
  have "printf (''bitmap: total=%d/used=%d/free=%d'' @ [NL])
      [Va_int (of_int (int n)), Va_int (of_int (int used)), Va_int (of_int (int n - int used))] = Some (concat (map piece_text ?t))"
    using printf_pieces [of ?t] by (simp del: printf.simps piece_text.simps)
  moreover have "concat (map piece_text ?t) = ''bitmap: total='' @ dec_string n @ ''/used='' @ dec_string used @
      ''/free='' @ dec_string (n - used) @ [NL]"
    using fit le by (simp add: sint_of_int [OF fit(1), simplified] sint_of_int [OF fit(2), simplified]
      sint_of_int [OF fit(3), simplified] int_text_def nat_diff_distrib)
  ultimately show ?thesis by (simp add: bitmap_main_def loop say_def del: printf.simps)
qed

section \<open>Pointers of the user are not checked\<close>

text \<open>The handlers write through the pointer of the caller with the rights of the kernel: a character typed at the console can
  be read to any address that is mapped as writable, also to one that user mode cannot access, such as the kernel itself.\<close>

theorem read_writes_supervisor_memory:
  assumes "current_proc (kern s) \<noteq> None" "\<not> bad_pid (cur_pid s)" "\<not> f_used (fd_table (kfs (kern s)) (nat (cur_pid s)) 0)"
    "input_pop (con s) = Some (ch, c)" "a \<noteq> 0"
    "sv32_walk (ram (kmem (kern s))) (satp_root (kern s)) a = Some (f, flags)" "flags AND PAGE_W \<noteq> 0" "flags AND PAGE_U = 0"
  shows "\<exists>f' s'. handle_syscall junk (call_read 0 a 1 r) s = Ok (Done f', s') \<and> tf_a0 f' = 1 \<and>
    ram (kmem (kern s')) (f + a mod 4096) = ch"
proof -
  have rd: "fs_read (cur_pid s) 0 True 1 (kfs (kern s)) = (Console_read 1, kfs (kern s))"
    using assms(2,3) by (simp add: fs_read_def bad_fd_def FS_FD_MAX_def console_read_fallback_def)
  have same: "on_fs (kfs (kern s)) s = s" by (simp add: on_fs_def)
  obtain s1 where g: "getchar_turn s = (Done ch, s1)" "kmem (kern s1) = kmem (kern s)" "csr_satp (kern s1) = csr_satp (kern s)"
    using assms(4) by (simp add: getchar_turn_def got_char_def upd_def)
  have tr: "translate PAGE_W a (kern s1) = Some (f + a mod 4096)"
    using assms(6,7) by (simp add: translate_def satp_root_def g)
  have "handle_syscall junk (call_read 0 a 1 r) s = console_read_loop (call_read 0 a 1 r) a 0 1 s"
    unfolding stubs_reach_handlers using assms(1,5) by (auto simp: syscall_handle_read_def call_read_def rd same Let_def)
  then show ?thesis by (auto simp: g(1) storing_def tr ret_def)
qed

end
