(* ===== verification/Platform.thy ===== *)
theory Platform
  imports Console
begin

text \<open>
  The timer (src/kernel/time/timer.c) and the calls of the firmware (src/kernel/platform/sbi.c).

  The time register is a function from the number of reads made so far to its value at that read; it is read in two
  halves. The firmware is a parameter: a function from the registers of a call and its own state to the two results and
  its new state.
\<close>

section \<open>The timer\<close>

definition TIMER_INTERVAL :: u64 where "TIMER_INTERVAL = 200000"

record timer_csrs =
  t_sie :: u32
  t_sstatus :: u32
  t_stimecmp :: u32
  t_stimecmph :: u32

definition enable_timer_interrupt :: "timer_csrs \<Rightarrow> timer_csrs" where
  "enable_timer_interrupt c =
     (let c = c\<lparr>t_sie := t_sie c OR push_bit 5 1\<rparr> in c\<lparr>t_sstatus := t_sstatus c OR push_bit 1 1\<rparr>)"

text \<open>The upper half is read first.\<close>

definition rdtime :: "(nat \<Rightarrow> u64) \<Rightarrow> nat \<Rightarrow> u64" where
  "rdtime clock n =
     (let hi = ucast (drop_bit 32 (clock n)) :: u32; lo = ucast (clock (Suc n)) :: u32
      in push_bit 32 (ucast hi) OR ucast lo)"

definition wrtimecmp :: "u64 \<Rightarrow> timer_csrs \<Rightarrow> timer_csrs" where
  "wrtimecmp val c =
     (let lo = ucast (val AND 0xffffffff) :: u32; hi = ucast (drop_bit 32 val) :: u32
      in c\<lparr>t_stimecmp := lo, t_stimecmph := hi\<rparr>)"

definition timer_set_next :: "(nat \<Rightarrow> u64) \<Rightarrow> nat \<Rightarrow> timer_csrs \<Rightarrow> timer_csrs" where
  "timer_set_next clock n c = (let now = rdtime clock n in wrtimecmp (now + TIMER_INTERVAL) c)"

text \<open>The comparator as the hardware sees it, and the rule for a pending timer interrupt.\<close>

definition timecmp :: "timer_csrs \<Rightarrow> u64" where
  "timecmp c = push_bit 32 (ucast (t_stimecmph c)) OR ucast (t_stimecmp c)"

lemma halves: "push_bit 32 (ucast (ucast (drop_bit 32 x) :: u32)) OR ucast (ucast x :: u32) = (x :: u64)"
  by (rule bit_word_eqI) (auto simp: bit_simps)

lemma timecmp_wrtimecmp: "timecmp (wrtimecmp val c) = val"
proof -
  have "(ucast (val AND 0xffffffff) :: u32) = ucast val"
  proof -
    have m: "(0xffffffff :: u64) = mask 32" by (simp add: mask_eq_exp_minus_1)
    show ?thesis unfolding m by (rule bit_word_eqI) (auto simp: bit_simps)
  qed
  then show ?thesis by (simp add: timecmp_def wrtimecmp_def halves)
qed

lemma rdtime_same_half:
  assumes "drop_bit 32 (clock n) = drop_bit 32 (clock (Suc n))"
  shows "rdtime clock n = clock (Suc n)"
  using halves [of "clock (Suc n)"] by (simp add: rdtime_def assms)

text \<open>The next interrupt comes \<open>TIMER_INTERVAL\<close> after the second read, unless the upper half changed between the two
  reads; then the comparator lies in the past, and the interrupt comes at once.\<close>

lemma timer_set_next_interval:
  assumes "drop_bit 32 (clock n) = drop_bit 32 (clock (Suc n))"
  shows "timecmp (timer_set_next clock n c) = clock (Suc n) + TIMER_INTERVAL"
  by (simp add: timer_set_next_def timecmp_wrtimecmp rdtime_same_half [OF assms])

lemma timer_set_next_rollover:
  "timecmp (timer_set_next (\<lambda>i. if i = 0 then 0x1FFFFFFFF else 0x200000000) 0 c) = 0x100000000 + TIMER_INTERVAL"
  by (simp add: timer_set_next_def timecmp_wrtimecmp rdtime_def)

lemma enable_timer_interrupt_bits:
  "bit (t_sie (enable_timer_interrupt c)) i \<longleftrightarrow> i = 5 \<or> bit (t_sie c) i"
  "bit (t_sstatus (enable_timer_interrupt c)) i \<longleftrightarrow> i = 1 \<or> bit (t_sstatus c) i"
proof -
  have "bit (push_bit k 1 :: u32) i \<longleftrightarrow> i = k" if "k < 32" for k using that by (auto simp: bit_exp_iff)
  from this [of 5] this [of 1] show "bit (t_sie (enable_timer_interrupt c)) i \<longleftrightarrow> i = 5 \<or> bit (t_sie c) i"
    "bit (t_sstatus (enable_timer_interrupt c)) i \<longleftrightarrow> i = 1 \<or> bit (t_sstatus c) i"
    by (auto simp: enable_timer_interrupt_def bit_or_iff)
qed

section \<open>Firmware calls\<close>

record sbiret =
  sbi_error :: u32
  sbi_value :: u32

type_synonym 's firmware = "u32 list \<Rightarrow> u32 \<Rightarrow> u32 \<Rightarrow> 's \<Rightarrow> sbiret \<times> 's"

definition sbi_call ::
  "'s firmware \<Rightarrow> u32 \<Rightarrow> u32 \<Rightarrow> u32 \<Rightarrow> u32 \<Rightarrow> u32 \<Rightarrow> u32 \<Rightarrow> u32 \<Rightarrow> u32 \<Rightarrow> 's \<Rightarrow> sbiret \<times> 's" where
  "sbi_call fw arg0 arg1 arg2 arg3 arg4 arg5 fid eid = fw [arg0, arg1, arg2, arg3, arg4, arg5] fid eid"

definition sbi_putchar :: "'s firmware \<Rightarrow> u8 \<Rightarrow> 's \<Rightarrow> 's" where
  "sbi_putchar fw ch s = snd (sbi_call fw (ucast ch) 0 0 0 0 0 0 1 s)"

definition sbi_getchar :: "'s firmware \<Rightarrow> 's \<Rightarrow> int \<times> 's" where
  "sbi_getchar fw s = (let (r, s) = sbi_call fw 0 0 0 0 0 0 0 2 s in (sint (sbi_error r), s))"

text \<open>Shutting down: the call, and then a loop that only waits for interrupts. The first component is the state of the
  firmware after the call, the second the value that the function returns: the loop never ends, so there is none.\<close>

partial_function (option) wfi_forever :: "'s \<Rightarrow> unit option" where
  "wfi_forever s = wfi_forever s"

definition sbi_shutdown :: "'s firmware \<Rightarrow> 's \<Rightarrow> 's \<times> unit option" where
  "sbi_shutdown fw s = (let s = snd (sbi_call fw 0 0 0 0 0 0 0 8 s) in (s, wfi_forever s))"

lemma wfi_forever_None: "wfi_forever s = None"
proof (rule ccontr)
  assume "wfi_forever s \<noteq> None"
  then obtain u where "wfi_forever s = Some u" by blast
  from wfi_forever.raw_induct [OF _ this, of "\<lambda>_ _. False"] show False by blast
qed

lemma sbi_shutdown_never_returns: "snd (sbi_shutdown fw s) = None" "fst (sbi_shutdown fw s) = snd (fw [0, 0, 0, 0, 0, 0] 0 8 s)"
  by (simp_all add: sbi_shutdown_def wfi_forever_None sbi_call_def Let_def)

end
