(* ===== verification/KernelText.thy ===== *)
theory KernelText
  imports Platform Printf Syscalls
begin

text \<open>
  The edges of the kernel (src/kernel/kernel.c): \<open>boot\<close> before \<open>kernel_main\<close>, \<open>user_entry\<close>, where a new process goes to
  user mode, \<open>kernel_shutdown\<close>, and what is printed on the console while booting. \<open>printf\<close> of the kernel writes
  through the firmware.
\<close>

section \<open>Entering the kernel and leaving it\<close>

definition SSTATUS_SPIE :: u32 where "SSTATUS_SPIE = push_bit 5 1"

text \<open>The registers and \<open>sscratch\<close> with which \<open>boot\<close> jumps to \<open>kernel_main\<close>.\<close>

definition boot :: "u32 \<Rightarrow> trap_frame \<Rightarrow> trap_frame \<times> u32" where
  "boot stack_top regs = (regs\<lparr>tf_sp := stack_top\<rparr>, stack_top)"

text \<open>The \<open>sret\<close> instruction: the program counter, whether the new mode is user mode, and \<open>sstatus\<close>, in which SIE gets SPIE,
  SPIE is set and SPP is cleared.\<close>

definition sret :: "kstate \<Rightarrow> u32 \<times> bool \<times> kstate" where
  "sret k = (csr_sepc k, csr_sstatus k AND 0x100 = 0,
     k\<lparr>csr_sstatus := ((csr_sstatus k AND NOT 0x122) OR (if bit (csr_sstatus k) 5 then 2 else 0)) OR 0x20\<rparr>)"

definition user_entry :: "kstate \<Rightarrow> u32 \<times> bool \<times> kstate" where
  "user_entry k = sret (k\<lparr>csr_sepc := USER_BASE, csr_sstatus := SSTATUS_SPIE\<rparr>)"

text \<open>A trap right after \<open>boot\<close> is saved on the boot stack, whichever mode it comes from.\<close>

lemma boot_trap_stack:
  assumes "boot stack_top regs = (regs', sscratch)"
  shows "fst (snd (kernel_entry_save sstatus sscratch regs')) = stack_top - 124"
  using assms by (auto simp: boot_def kernel_entry_save_def Let_def)

text \<open>A new process starts at the base of its program, in user mode, with interrupts enabled.\<close>

lemma user_entry_starts:
  "user_entry k = (USER_BASE, True, k\<lparr>csr_sepc := USER_BASE, csr_sstatus := 0x22\<rparr>)"
  by (simp add: user_entry_def sret_def SSTATUS_SPIE_def)

section \<open>Messages\<close>

definition kprintf :: "'s firmware \<Rightarrow> string \<times> va_value list \<Rightarrow> 's \<Rightarrow> 's" where
  "kprintf fw = (\<lambda>(fmt, vargs) s. case printf fmt vargs of None \<Rightarrow> s | Some out \<Rightarrow> fold (\<lambda>c. sbi_putchar fw (of_char c)) out s)"

abbreviation NLC :: string where
  "NLC \<equiv> [CHR 0x0A]"

definition kernel_shutdown :: "'s firmware \<Rightarrow> 's \<Rightarrow> 's \<times> unit option" where
  "kernel_shutdown fw s = sbi_shutdown fw (kprintf fw (''[*] kernel shutdown requested.'' @ NLC, []) s)"

definition BANNER_BLUE :: string where "BANNER_BLUE = CHR 0x1B # ''[34m''"
definition BANNER_RESET :: string where "BANNER_RESET = CHR 0x1B # ''[0m''"

definition banner_lines :: "(string \<times> va_value list) list" where
  "banner_lines =
     [(NLC @ NLC, []),
      (BANNER_BLUE, []),
      (''              /'' @ [CHR 0x5C] @ NLC, []),
      (''             /  '' @ [CHR 0x5C] @ NLC, []),
      (''            / %s__ %s'' @ [CHR 0x5C] @ NLC, [Va_str BANNER_RESET, Va_str BANNER_BLUE]),
      (''           / %s/  '' @ [CHR 0x5C] @ '' %s'' @ [CHR 0x5C] @ NLC, [Va_str BANNER_RESET, Va_str BANNER_BLUE]),
      (''           '' @ [CHR 0x5C] @ ''_%s'' @ [CHR 0x5C] @ ''__/%s_/'' @ NLC @ NLC, [Va_str BANNER_RESET, Va_str BANNER_BLUE]),
      (BANNER_RESET, []),
      (''    Welcome to %sAquaCore%s %s'' @ NLC @ NLC, [Va_str BANNER_BLUE, Va_str BANNER_RESET, Va_str KERNEL_VERSION])]"

definition banner :: "'s firmware \<Rightarrow> 's \<Rightarrow> 's" where
  "banner fw s = fold (kprintf fw) banner_lines s"

text \<open>The table that \<open>kernel_bootstrap\<close> prints at its end; \<open>ts\<close> is the time of booting.\<close>

definition info_lines :: "string \<Rightarrow> u32 \<Rightarrow> (string \<times> va_value list) list" where
  "info_lines ts total_pages =
     [(''[*] kernel information:'' @ NLC, []),
      (''     version         : %s'' @ NLC, [Va_str KERNEL_VERSION]),
      (''     kenel boot time : %s'' @ NLC, [Va_str ts]),
      (''     total pages     : %d'' @ NLC, [Va_int total_pages]),
      (''     page size       : %d bytes'' @ NLC, [Va_int 4096]),
      (''     kernel base     : 0x%x'' @ NLC, [Va_int 0x80200000]),
      (''     user base       : 0x%x'' @ NLC, [Va_int USER_BASE]),
      (''     proc max        : %d'' @ NLC, [Va_int (of_nat PROCS_MAX)]),
      (''     kernel stack    : %d bytes/proc'' @ NLC, [Va_int 8192]),
      (''     time slice      : %d ticks'' @ NLC, [Va_int SCHED_TIME_SLICE_TICKS]),
      (''     timer interval  : %d ms'' @ NLC, [Va_int (ucast (TIMER_INTERVAL div 10000))]),
      (''     ramfs node max  : %d'' @ NLC, [Va_int (of_nat FS_MAX_NODES)]),
      (''     ramfs size max  : %d bytes'' @ NLC, [Va_int (of_nat FS_FILE_MAX_SIZE)]),
      (''     pfs blk count   : %d'' @ NLC, [Va_int (of_nat BLOCKDEV_BLOCK_COUNT)]),
      (''     pfs blk size    : %d bytes'' @ NLC, [Va_int (of_nat BLOCKDEV_BLOCK_SIZE)]),
      (''     pfs img blks    : %d'' @ NLC, [Va_int fs_get_pfs_image_blocks]),
      (''     pfs img bytes   : %d'' @ NLC, [Va_int (fs_get_pfs_image_blocks * of_nat BLOCKDEV_BLOCK_SIZE)]),
      (''[*] kernel bootstrap completed.'' @ NLC, [])]"

text \<open>Every message is well formed: no conversion lacks its argument. The shutdown message is printed before the call, and
  the call does not return.\<close>

lemma messages_print:
  "(fmt, vargs) \<in> set banner_lines \<Longrightarrow> printf fmt vargs \<noteq> None"
  "(fmt, vargs) \<in> set (info_lines ts n) \<Longrightarrow> printf fmt vargs \<noteq> None"
  by (auto simp: banner_lines_def info_lines_def BANNER_BLUE_def BANNER_RESET_def fmt_d_decimal)

lemma kernel_shutdown_result:
  "kernel_shutdown fw s = (snd (fw [0, 0, 0, 0, 0, 0] 0 8
     (fold (\<lambda>c. sbi_putchar fw (of_char c)) (''[*] kernel shutdown requested.'' @ NLC) s)), None)"
  by (simp add: kernel_shutdown_def kprintf_def prod_eq_iff sbi_shutdown_never_returns)

end
