(* ===== verification/Spec2Isabelle.thy ===== *)
theory Spec2Isabelle
  imports SysSpaces ShellMainProps UserCalls KernelText
begin

text \<open>
  A verification development for AquaCore, a small operating system for 32-bit RISC-V (src/src): a kernel with paging,
  processes, messages and a virtual file system on a virtio disk, and user programs with a shell.

  \<^bold>\<open>The program.\<close> The kernel (src/src/kernel) boots in kernel.c, which initialises the page allocator (mm/memory.c), the
  file systems (fs/fs.c over fs/blockdev_virtio.c), the clock (rtc/rtc.c) and the first two processes
  (proc/process.c). From then on it runs in traps: trap/trap_handler.c dispatches timer interrupts and system calls
  (trap/syscall_*.c), which act on the process table and on the file system. User programs (src/src/user) reach the
  kernel through the stubs of runtime/user_syscall.c; the shell reads command lines, redirects descriptors and starts
  the other programs with fork and exec. lib/commonlibs.c is linked into both sides.

  \<^bold>\<open>The theories.\<close> Each theory models a part of the program or proves properties of it; the names of the definitions are
  those of the C functions, a loop is a function of its own that is named after it.
  \<^item> \<open>Prelude\<close>: words for the C integers, C strings in arrays (\<open>cstr\<close>, \<open>buf_set\<close>), results that may panic (\<open>kres\<close>).
  \<^item> \<open>CommonLibs\<close>, \<open>Printf\<close>, \<open>UtcTime\<close>: lib/commonlibs.c. The string routines stay inside their buffers, the division is
    division, \<open>printf\<close> prints what its format says, the date is that of the Gregorian calendar.
  \<^item> \<open>Memory\<close>, \<open>Paging\<close>: mm/memory.c. The bitmap allocator as first fit over free runs, with the contract
    \<open>frame_allocator\<close> that it is shown to satisfy; \<open>map_page\<close> against the Sv32 walk of the hardware.
  \<^item> \<open>BlockDev\<close>: fs/blockdev_virtio.c over a device that is a parameter, and the contract \<open>block_store\<close>.
  \<^item> \<open>NodeFs\<close>, \<open>NodeTree\<close>, \<open>NodeContents\<close>, \<open>PfsImage\<close>: the table of nodes in fs/fs.c. Path resolution follows names, the
    operations refine operations on an abstract tree of names, reads return what writes stored, and the image on the
    disk is read back as the same files.
  \<^item> \<open>Vfs\<close>, \<open>VfsInv\<close>, \<open>VfsProps\<close>: mounts, descriptors and the entry points \<open>fs_*\<close>. Every open descriptor refers to a live
    file in every state that calls reach.
  \<^item> \<open>ProcMem\<close>, \<open>AddrSpace\<close>, \<open>SpaceBudget\<close>, \<open>SpaceProps\<close>, \<open>ExecProps\<close>: the address spaces of process.c over byte-addressed
    RAM: what a new process, a copy by fork, a process after exec and a freed process have, and how many frames suffice.
  \<^item> \<open>Process\<close>, \<open>Sched\<close>, \<open>ProcInv\<close>, \<open>SchedProps\<close>: the process table, the status files, scheduling, waiting, messages and
    kill. The invariant says that no wake-up is lost.
  \<^item> \<open>Console\<close>, \<open>Rtc\<close>, \<open>Platform\<close>: the input ring (contract \<open>bounded_queue\<close>), the clock, the timer and the firmware calls.
  \<^item> \<open>Syscalls\<close>, \<open>SysInv\<close>, \<open>BootProps\<close>: the handlers over trap frames and user memory, the dispatcher, the trap handler and
    the boot sequence; the invariant of the whole kernel in every reachable state, and that the kernel boots.
    What is proved of the handlers goes through two contracts, \<open>outcome_logic\<close> and \<open>kernel_invariant\<close>; the invariants of
    \<open>SysInv\<close>, \<open>ProcTypes\<close> and \<open>SysSpaces\<close> are instances of them.
    \<open>ProcTypes\<close> shows that the arrays of the process table keep the sizes of their C types.
  \<^item> \<open>Isolation\<close>, \<open>SysSpaces\<close>: the frames of different processes are disjoint, and no step of the system (\<open>space_step\<close>:
    traps, turns of blocked calls, interrupts, context switches, stores of programs) changes what another living
    process sees of its memory, for programs that pass buffers of their own; the kernel does not check the pointers.
  \<^item> \<open>KernelText\<close>: boot, the entry to user mode, the shutdown and the messages of kernel.c.
  \<^item> \<open>UserCalls\<close>, \<open>UserPath\<close>: the stubs of user programs and what they reach, and the normalisation of paths.
  \<^item> \<open>Apps\<close>, \<open>AppsSys\<close>, \<open>FileUse\<close>, \<open>AppProps\<close>: the programs on files over the entry points of \<open>Vfs\<close>, the other programs over
    the results of their system calls; what write stores is what cat prints, ps lists the process table.
  \<^item> \<open>ShellHist\<close>, \<open>ShellLine\<close>, \<open>ShellMain\<close> and their properties: history and history file, the line editor as a refinement
    of an editor on texts, words, redirections and commands.

  \<^bold>\<open>State.\<close> The C globals are records: \<open>mem_state\<close> (bitmap and RAM), \<open>fs_state\<close> (node tables, mounts, descriptors, disk,
  console output), \<open>kstate\<close> (process table, current process, control registers, and the two before), \<open>sys_state\<close> (the
  kernel state, the input ring, the characters and the clock outside). An operation takes the state and returns its
  result with the new state; \<open>PANIC\<close> is an error value and ends the run. Pointers to user memory go through the page
  table that \<open>satp\<close> selects. A call that blocks is split where it yields: a turn of the call either finishes or leaves
  the process waiting, and a later turn continues it; \<open>sys_step\<close> in \<open>SysInv\<close> interleaves the turns of all processes.

  \<^bold>\<open>Bounds.\<close> The sizes are those of the headers (64 processes, 128 nodes, files of 512 bytes, 16 descriptors, paths of 64
  and names of 16 bytes), and integers keep their width where the code depends on it. Loops that need not end are
  partial functions (the clock, reading a user string, the loops of cat, ls, ps and bitmap and of the number
  conversion, and the test of the shell's input), and it is proved that they return under the stated conditions; the
  loop after a shutdown never ends, which is proved as well. The bounded waiting of the disk driver
  counts down as in the source. Nothing uses fuel.

  \<^bold>\<open>Parameters.\<close> The virtio device, the clock, the firmware and the embedded program images are arguments; the conditions on
  them are named (an honest disk, a clock whose upper half settles) and hold for concrete instances in the witnesses.

  \<^bold>\<open>Not modelled.\<close> The progress messages that the kernel prints while it works, the assembly of start beyond the saved and
  restored registers, the instruction set of user programs (a user program is what it computes and stores between
  system calls), and the interleaving of a child with the shell while a command line is processed (a child acts between
  two steps of the shell). System calls read the strings and buffers of the user before they act on them.
\<close>

section \<open>The program ps on the running kernel\<close>

lemma reachable_table:
  assumes "sinv s" "i < 64" "p_state (procs (kern s) i) \<noteq> PROC_UNUSED"
  shows "fits_int (p_pid (procs (kern s) i))" "fits_int (p_parent_pid (procs (kern s) i))"
proof -
  note t = table_okD [OF sinv_table [OF assms(1)] assms(2)]
  show "fits_int (p_pid (procs (kern s) i))" using t(1) assms(2,3) by (simp add: slot_ok_def fits_int_def)
  show "fits_int (p_parent_pid (procs (kern s) i))" using t(2) by (auto simp: parent_ok_def fits_int_def)
qed



end
